(* ===== verification/Prelude.thy ===== *)
theory Prelude
  imports Main "HOL-Library.Word" "HOL-Library.Monad_Syntax" "HOL-Library.Multiset"
begin

text \<open>
  The vocabulary the components share: the machine integer types of the kernel, the integer
  operations of Rust's standard library it calls, and generic facts on words, bytes and lists.

  The kernel is built with \<^verbatim>\<open>cargo build --release\<close> (\<^verbatim>\<open>xtask/src/main.rs\<close>), so \<open>+\<close>, \<open>-\<close>
  and \<open>*\<close> wrap around: they are the operations of \<^typ>\<open>'a word\<close>. A panic (an index out of
  range, a division by zero, an \<^verbatim>\<open>unwrap\<close> of nothing) is the value \<^term>\<open>None\<close> of the outer
  option of an operation's result.
\<close>

unbundle bit_operations_syntax

section \<open>Types\<close>

type_synonym u8 = "8 word"
type_synonym u16 = "16 word"
type_synonym u32 = "32 word"
type_synonym u64 = "64 word"
type_synonym usize = "64 word"
type_synonym bytes = "8 word list"

named_theorems nowrap \<open>word arithmetic read through \<open>unat\<close> where nothing wraps around\<close>

section \<open>Integer operations of the standard library\<close>

definition div_ceil :: "'a::len word \<Rightarrow> 'a word \<Rightarrow> 'a word" where
  "div_ceil x y = (if x mod y = 0 then x div y else x div y + 1)"

definition next_multiple_of :: "'a::len word \<Rightarrow> 'a word \<Rightarrow> 'a word" where
  "next_multiple_of x y = (if x mod y = 0 then x else x + (y - x mod y))"

definition is_multiple_of :: "'a::len word \<Rightarrow> 'a word \<Rightarrow> bool" where
  "is_multiple_of x y = (if y = 0 then x = 0 else x mod y = 0)"

definition checked_add :: "'a::len word \<Rightarrow> 'a word \<Rightarrow> 'a word option" where
  "checked_add x y = (if unat x + unat y < 2 ^ LENGTH('a) then Some (x + y) else None)"

definition checked_sub :: "'a::len word \<Rightarrow> 'a word \<Rightarrow> 'a word option" where
  "checked_sub x y = (if y \<le> x then Some (x - y) else None)"

definition checked_mul :: "'a::len word \<Rightarrow> 'a word \<Rightarrow> 'a word option" where
  "checked_mul x y = (if unat x * unat y < 2 ^ LENGTH('a) then Some (x * y) else None)"

definition saturating_sub :: "'a::len word \<Rightarrow> 'a word \<Rightarrow> 'a word" where
  "saturating_sub x y = (if y \<le> x then x - y else 0)"

definition checked_next_multiple_of :: "'a::len word \<Rightarrow> 'a word \<Rightarrow> 'a word option" where
  "checked_next_multiple_of x y =
     (if y = 0 then None
      else if x mod y = 0 then Some x else checked_add x (y - x mod y))"

text \<open>The number of bits of a number, and the exponent of two in it.\<close>

fun bit_len :: "nat \<Rightarrow> nat" where
  "bit_len n = (if n = 0 then 0 else Suc (bit_len (n div 2)))"

fun two_exp :: "nat \<Rightarrow> nat" where
  "two_exp n = (if n = 0 \<or> odd n then 0 else Suc (two_exp (n div 2)))"

declare bit_len.simps [simp del] two_exp.simps [simp del]

definition trailing_zeros :: "'a::len word \<Rightarrow> nat" where
  "trailing_zeros x = (if x = 0 then LENGTH('a) else two_exp (unat x))"

definition next_power_of_two :: "'a::len word \<Rightarrow> 'a word" where
  "next_power_of_two x = (if x \<le> 1 then 1 else word_of_nat (2 ^ bit_len (unat x - 1)))"

definition is_power_of_two :: "'a::len word \<Rightarrow> bool" where
  "is_power_of_two x = (x \<noteq> 0 \<and> next_power_of_two x = x)"

text \<open>\<^verbatim>\<open>memory::PAGE_SIZE\<close>, the size of a 4 KiB page.\<close>

definition PAGE_SIZE :: u64 where
  "PAGE_SIZE = 4096"

lemma unat_PAGE_SIZE [simp]: "unat PAGE_SIZE = 4096"
  by (simp add: PAGE_SIZE_def)

lemma unat_bound: "unat (x :: 'a::len word) < 2 ^ LENGTH('a)"
  by (rule unsigned_less)

lemma unat_add_nowrap [nowrap]:
  "unat x + unat y < 2 ^ LENGTH('a) \<Longrightarrow> unat (x + y) = unat x + unat (y :: 'a::len word)"
  by (simp add: unat_add_lem)

lemma unat_mult_nowrap [nowrap]:
  "unat x * unat y < 2 ^ LENGTH('a) \<Longrightarrow> unat (x * y) = unat x * unat (y :: 'a::len word)"
  by (simp add: unat_mult_lem)

lemma unat_sub_nowrap [nowrap]:
  "unat y \<le> unat x \<Longrightarrow> unat (x - y) = unat x - unat (y :: 'a::len word)"
  by (simp add: unat_sub word_le_nat_alt)

text \<open>The same with the value and its bound named, for goals where the bound is known.\<close>

lemma unat_addI:
  "unat x = a \<Longrightarrow> unat y = b \<Longrightarrow> a + b < 2 ^ LENGTH('a) \<Longrightarrow> unat (x + y :: 'a::len word) = a + b"
  by (simp add: unat_add_nowrap)

lemma unat_multI:
  "unat x = a \<Longrightarrow> unat y = b \<Longrightarrow> a * b = v \<Longrightarrow> v < 2 ^ LENGTH('a) \<Longrightarrow>
     unat (x * y :: 'a::len word) = v"
  by (auto simp: unat_mult_nowrap)

lemma unat_subI:
  "unat x = a \<Longrightarrow> unat y = b \<Longrightarrow> b \<le> a \<Longrightarrow> unat (x - y :: 'a::len word) = a - b"
  by (simp add: unat_sub_nowrap)

lemma unat_maxI: "unat x = a \<Longrightarrow> unat y = b \<Longrightarrow> unat (max x (y :: 'a::len word)) = max a b"
  by (auto simp: max_def word_le_nat_alt)

lemma unat_minI: "unat x = a \<Longrightarrow> unat y = b \<Longrightarrow> unat (min x (y :: 'a::len word)) = min a b"
  by (auto simp: min_def word_le_nat_alt)

lemma word_eq_unat: "(x = y) = (unat x = unat (y :: 'a::len word))"
  by (simp add: word_unat_eq_iff)

lemma unat_ucast_mod: "unat (ucast w :: 'b::len word) = unat (w :: 'a::len word) mod 2 ^ LENGTH('b)"
  by (simp add: unsigned_ucast_eq take_bit_eq_mod)

lemma unat_two_power:
  assumes "n < LENGTH('a)"
  shows "unat (2 ^ n :: 'a::len word) = 2 ^ n"
proof -
  have "unat (word_of_nat (2 ^ n) :: 'a word) = 2 ^ n mod 2 ^ LENGTH('a)"
    by (simp only: unat_of_nat)
  also have "\<dots> = 2 ^ n" using assms by (intro mod_less power_strict_increasing) simp_all
  finally show ?thesis by simp
qed

lemma unat_div_ceil:
  assumes "y \<noteq> 0"
  shows "unat (div_ceil x y) = (unat x + unat y - 1) div unat (y :: 'a::len word)"
proof -
  have y: "0 < unat y" using assms by (simp add: unat_gt_0)
  define q r where "q = unat x div unat y" and "r = unat x mod unat y"
  have x: "unat x = q * unat y + r" and r: "r < unat y"
    using y by (simp_all add: q_def r_def)
  show ?thesis
  proof (cases "r = 0")
    case True
    then have m: "x mod y = 0"
      by (simp add: word_eq_unat unat_mod r_def)
    have "(q * unat y + unat y - 1) div unat y = q"
    proof -
      have "q * unat y + unat y - 1 = (unat y - 1) + q * unat y" using y by simp
      then show ?thesis using y by (simp del: add_diff_assoc2)
    qed
    with m True x show ?thesis
      by (simp add: div_ceil_def unat_div q_def)
  next
    case False
    then have m: "x mod y \<noteq> 0"
      by (simp add: word_eq_unat unat_mod r_def)
    have "q < unat x"
    proof -
      have "q \<le> q * unat y" using y by simp
      then show ?thesis using x False by linarith
    qed
    then have "q + 1 < 2 ^ LENGTH('a)"
      using unat_bound [of x] by linarith
    then have "unat (x div y + 1) = q + 1"
      by (simp add: unat_word_ariths unat_div q_def)
    moreover have "(q * unat y + r + unat y - 1) div unat y = q + 1"
    proof -
      have "q * unat y + r + unat y - 1 = (r - 1) + (q + 1) * unat y"
        using False by simp
      moreover have "(r - 1) div unat y = 0" using r by simp
      ultimately show ?thesis using y by (simp del: mult_Suc add: div_mult_self1)
    qed
    ultimately show ?thesis using m x by (simp add: div_ceil_def)
  qed
qed

text \<open>Division rounded up, on natural numbers.\<close>

lemma ceil_div_exact: "0 < k \<Longrightarrow> (q * k + k - 1) div k = (q :: nat)"
proof -
  assume k: "0 < k"
  then have "q * k + k - 1 = (k - 1) + q * k" by simp
  with k show ?thesis by (simp del: add_diff_assoc2)
qed

lemma ceil_div_covers: "0 < k \<Longrightarrow> c \<le> (c + k - 1) div k * (k :: nat)"
proof -
  assume k: "0 < k"
  have "c + k - 1 = (c + k - 1) div k * k + (c + k - 1) mod k" by simp
  moreover have "(c + k - 1) mod k \<le> k - 1" using mod_less_divisor [OF k, of "c + k - 1"] by linarith
  ultimately show ?thesis using k by linarith
qed

lemma ceil_div_tight: "0 < k \<Longrightarrow> 0 < c \<Longrightarrow> ((c + k - 1) div k - 1) * k < (c :: nat)"
proof -
  assume k: "0 < k" and c: "0 < c"
  have "(c + k - 1) div k * k \<le> c + k - 1" by (rule div_times_less_eq_dividend)
  then have "(c + k - 1) div k * k - k < c" using k c by linarith
  then show ?thesis by (simp add: diff_mult_distrib)
qed

lemma ceil_div_least:
  assumes "0 < k" and "c \<le> q * k"
  shows "(c + k - 1) div k \<le> (q :: nat)"
proof -
  have "(c + k - 1) div k \<le> (q * k + k - 1) div k" using assms(2) by (intro div_le_mono) simp
  then show ?thesis using ceil_div_exact [OF assms(1)] by simp
qed

lemma ceil_div_le: "0 < k \<Longrightarrow> (c + k - 1) div k \<le> (c :: nat)"
  by (rule ceil_div_least) simp_all

lemma next_multiple_of_exact:
  assumes "y \<noteq> 0" and "unat x + unat y \<le> 2 ^ LENGTH('a)"
  shows "unat y dvd unat (next_multiple_of x y)"
    and "unat x \<le> unat (next_multiple_of x y)"
    and "unat (next_multiple_of x y) < unat x + unat (y :: 'a::len word)"
proof -
  have y: "0 < unat y" using assms by (simp add: unat_gt_0)
  define r where "r = unat x mod unat y"
  have r: "r < unat y" and rx: "r \<le> unat x" using y by (simp_all add: r_def)
  have rr: "unat (x mod y) = r" by (simp add: r_def unat_mod)
  have "unat y dvd unat (next_multiple_of x y) \<and> unat x \<le> unat (next_multiple_of x y)
      \<and> unat (next_multiple_of x y) < unat x + unat y"
  proof (cases "x mod y = 0")
    case True
    then have "unat x mod unat y = 0" using rr by (simp add: r_def)
    then show ?thesis using True y by (auto simp: next_multiple_of_def)
  next
    case False
    then have r0: "0 < r" using rr by (metis unat_gt_0)
    have d: "unat (y - x mod y) = unat y - r"
      using r rr by (simp add: unat_sub_nowrap)
    have s: "unat (x + (y - x mod y)) = unat x + (unat y - r)"
      using assms(2) d r0 r y by (subst unat_add_nowrap) auto
    have "unat x + (unat y - r) = (unat x div unat y + 1) * unat y"
      using r by (simp add: r_def minus_mod_eq_mult_div [symmetric] algebra_simps)
    then have "unat y dvd unat x + (unat y - r)" by (metis dvd_triv_right)
    then show ?thesis using False s r0 r by (simp add: next_multiple_of_def)
  qed
  then show "unat y dvd unat (next_multiple_of x y)"
    and "unat x \<le> unat (next_multiple_of x y)"
    and "unat (next_multiple_of x y) < unat x + unat y"
    by simp_all
qed

lemma checked_add_Some:
  "checked_add x y = Some z \<longleftrightarrow>
     z = x + y \<and> unat (x :: 'a::len word) + unat y < 2 ^ LENGTH('a)"
  by (auto simp: checked_add_def)

lemma checked_add_unat:
  "checked_add x y = Some z \<Longrightarrow> unat z = unat (x :: 'a::len word) + unat y"
  by (auto simp: checked_add_Some unat_add_nowrap)

lemma checked_sub_unat:
  "checked_sub x y = Some z \<Longrightarrow> unat z = unat x - unat (y :: 'a::len word) \<and> unat y \<le> unat x"
  by (auto simp: checked_sub_def word_le_nat_alt unat_sub_nowrap split: if_splits)

subsection \<open>Powers of two\<close>

lemma bit_len_upper: "n < 2 ^ bit_len n"
proof (induction n rule: bit_len.induct)
  case (1 n)
  show ?case
  proof (cases "n = 0")
    case False
    with 1 have "n div 2 < 2 ^ bit_len (n div 2)" by simp
    with False show ?thesis by (simp add: bit_len.simps [of n])
  qed (simp add: bit_len.simps)
qed

lemma bit_len_lower: "n \<noteq> 0 \<Longrightarrow> 2 ^ (bit_len n - 1) \<le> n"
proof (induction n rule: bit_len.induct)
  case (1 n)
  show ?case
  proof (cases "n div 2 = 0")
    case True
    with 1 show ?thesis by (simp add: bit_len.simps [of n] bit_len.simps [of 0])
  next
    case False
    then have "bit_len (n div 2) = Suc (bit_len (n div 2 div 2))"
      by (simp add: bit_len.simps [of "n div 2"])
    then have "(2::nat) ^ bit_len (n div 2) = 2 * 2 ^ (bit_len (n div 2) - 1)" by simp
    also have "\<dots> \<le> 2 * (n div 2)" using 1 False by simp
    also have "\<dots> \<le> n" by simp
    finally show ?thesis using 1 by (simp add: bit_len.simps [of n])
  qed
qed

lemma two_exp_power [simp]: "two_exp (2 ^ k) = k"
  by (induction k) (simp_all add: two_exp.simps)

text \<open>
  \<open>ceil_log n\<close> is the least \<open>k\<close> with \<open>n \<le> 2 ^ k\<close>: what
  \<^verbatim>\<open>n.next_power_of_two().trailing_zeros()\<close> computes.
\<close>

definition ceil_log :: "nat \<Rightarrow> nat" where
  "ceil_log n = (if n \<le> 1 then 0 else bit_len (n - 1))"

lemma ceil_log_upper: "n \<le> 2 ^ ceil_log n"
  using bit_len_upper [of "n - 1"] by (auto simp: ceil_log_def)

lemma ceil_log_least: "n \<le> 2 ^ k \<Longrightarrow> ceil_log n \<le> k"
proof (rule ccontr)
  assume n: "n \<le> 2 ^ k" and "\<not> ceil_log n \<le> k"
  then have gt: "k < ceil_log n" by simp
  then have n1: "1 < n" by (auto simp: ceil_log_def split: if_splits)
  have "(2::nat) ^ k \<le> 2 ^ (ceil_log n - 1)" using gt by (simp add: power_increasing)
  also have "\<dots> \<le> n - 1"
    using bit_len_lower [of "n - 1"] n1 by (simp add: ceil_log_def)
  finally show False using n n1 by linarith
qed

lemma ceil_log_power [simp]: "ceil_log (2 ^ k) = k"
proof (rule antisym)
  show "ceil_log (2 ^ k) \<le> k" by (rule ceil_log_least) simp
  have "(2::nat) ^ k \<le> 2 ^ ceil_log (2 ^ k)" by (rule ceil_log_upper)
  then show "k \<le> ceil_log (2 ^ k)" by simp
qed

lemma ceil_log_tight: "1 < n \<Longrightarrow> 2 ^ ceil_log n < 2 * n"
  using bit_len_lower [of "n - 1"] bit_len.simps [of "n - 1"]
  by (auto simp: ceil_log_def)

lemma next_power_of_two_ceil:
  assumes "ceil_log (unat x) < LENGTH('a)"
  shows "unat (next_power_of_two (x :: 'a::len word)) = 2 ^ ceil_log (unat x)"
proof (cases "x \<le> 1")
  case True
  then have "unat x \<le> 1" by (simp add: word_le_nat_alt)
  with True show ?thesis by (simp add: next_power_of_two_def ceil_log_def)
next
  case False
  then have "1 < unat x" by (simp add: word_le_nat_alt)
  with False assms show ?thesis
    by (simp add: next_power_of_two_def ceil_log_def unat_of_nat del: of_nat_power)
qed

lemma order_ceil:
  assumes "ceil_log (unat x) < LENGTH('a)"
  shows "trailing_zeros (next_power_of_two (x :: 'a::len word)) = ceil_log (unat x)"
proof -
  have u: "unat (next_power_of_two x) = 2 ^ ceil_log (unat x)"
    by (rule next_power_of_two_ceil [OF assms])
  then have "next_power_of_two x \<noteq> 0" by (metis unat_0 power_not_zero zero_neq_numeral)
  with u show ?thesis by (simp add: trailing_zeros_def)
qed

lemma is_power_of_two_iff: "is_power_of_two x \<longleftrightarrow> (\<exists>k. unat (x :: 'a::len word) = 2 ^ k)"
proof
  assume p: "is_power_of_two x"
  then have x0: "x \<noteq> 0" and nx: "next_power_of_two x = x" by (simp_all add: is_power_of_two_def)
  show "\<exists>k. unat x = 2 ^ k"
  proof (cases "ceil_log (unat x) < LENGTH('a)")
    case True
    then show ?thesis using next_power_of_two_ceil nx by metis
  next
    case False
    have "ceil_log (unat x) \<le> LENGTH('a)"
      by (rule ceil_log_least) (simp add: less_imp_le)
    with False have e: "ceil_log (unat x) = LENGTH('a)" by simp
    then have "1 < unat x" by (auto simp: ceil_log_def split: if_splits)
    then have "\<not> x \<le> 1" by (simp add: word_le_nat_alt)
    then have "next_power_of_two x = word_of_nat (2 ^ LENGTH('a))"
      using e \<open>1 < unat x\<close> by (simp add: next_power_of_two_def ceil_log_def)
    then have "x = 0" using nx by simp
    with x0 show ?thesis by simp
  qed
next
  assume "\<exists>k. unat x = 2 ^ k"
  then obtain k where k: "unat x = 2 ^ k" ..
  then have "(2::nat) ^ k < 2 ^ LENGTH('a)" by (metis unat_bound)
  then have "k < LENGTH('a)" by simp
  then have "unat (next_power_of_two x) = unat x"
    using next_power_of_two_ceil [of x] k by simp
  then have "next_power_of_two x = x" by (simp add: word_eq_unat)
  moreover have "x \<noteq> 0" using k by (metis unat_0 power_not_zero zero_neq_numeral)
  ultimately show "is_power_of_two x" by (simp add: is_power_of_two_def)
qed

section \<open>Lists\<close>

text \<open>A symmetric relation between all pairs of a list does not depend on its order.\<close>

lemma sorted_wrt_perm:
  assumes "symp R" and "sorted_wrt R xs" and "mset xs = mset ys"
  shows "sorted_wrt R ys"
  using assms(2,3)
proof (induction xs arbitrary: ys)
  case Nil
  then show ?case by simp
next
  case (Cons x xs)
  then have "x \<in> set ys" by (metis list.set_intros(1) set_mset_mset)
  then obtain as bs where ys: "ys = as @ x # bs" by (meson split_list)
  then have m: "mset xs = mset (as @ bs)" using Cons.prems(2) by simp
  then have "sorted_wrt R (as @ bs)" using Cons by simp
  moreover have "\<forall>y \<in> set (as @ bs). R x y"
    using Cons.prems(1) m by (metis sorted_wrt.simps(2) set_mset_mset)
  ultimately show ?case
    using assms(1) by (auto simp: ys sorted_wrt_append dest: sympD)
qed

lemma find_split:
  "find P xs = Some x \<Longrightarrow> \<exists>us ws. xs = us @ x # ws \<and> P x \<and> (\<forall>u \<in> set us. \<not> P u)"
proof (induction xs)
  case Nil
  then show ?case by simp
next
  case (Cons y ys)
  show ?case
  proof (cases "P y")
    case True
    then have "y # ys = [] @ x # ys \<and> P x" using Cons.prems by simp
    then show ?thesis by (metis empty_iff empty_set)
  next
    case False
    then obtain us ws where "ys = us @ x # ws" "P x" "\<forall>u \<in> set us. \<not> P u" using Cons by auto
    then have "y # ys = (y # us) @ x # ws \<and> P x \<and> (\<forall>u \<in> set (y # us). \<not> P u)" using False by simp
    then show ?thesis by blast
  qed
qed

end
