(* ===== verification/Alloc_Spec.thy ===== *)
theory Alloc_Spec
  imports Prelude
begin

text \<open>
  What every allocator of the kernel promises its clients, whatever it hands out (virtual
  ranges, physical frames, disk blocks): the region of an allocation comes out of what is
  available, nothing else leaves it, and a release puts exactly that region back. \<open>granted\<close> is what
  the allocator must remember of a region to take it back; no call may spoil it for the others.
  Between two calls the clients write to the regions they hold, so the contract also says that such
  a step leaves the allocator intact. \<open>alloc_run\<close> is every history of calls a client can make.
\<close>

inductive alloc_run ::
  "('s \<Rightarrow> 'q \<Rightarrow> ('r \<times> 's) option) \<Rightarrow> ('s \<Rightarrow> 'r \<Rightarrow> 's option) \<Rightarrow> ('s \<Rightarrow> 's \<Rightarrow> bool)
    \<Rightarrow> ('s \<Rightarrow> 'q \<Rightarrow> bool) \<Rightarrow> 's \<Rightarrow> 's \<Rightarrow> 'r list \<Rightarrow> bool"
  for alloc release client proper s0 where
  run_start: "alloc_run alloc release client proper s0 s0 []"
| run_alloc: "alloc_run alloc release client proper s0 s live \<Longrightarrow> proper s q \<Longrightarrow>
     alloc s q = Some (r, s') \<Longrightarrow> alloc_run alloc release client proper s0 s' (r # live)"
| run_release: "alloc_run alloc release client proper s0 s (pre @ r # post) \<Longrightarrow>
     release s r = Some s' \<Longrightarrow> alloc_run alloc release client proper s0 s' (pre @ post)"
| run_client: "alloc_run alloc release client proper s0 s live \<Longrightarrow> client s s' \<Longrightarrow>
     alloc_run alloc release client proper s0 s' live"

lemma run_single:
  "proper s q \<Longrightarrow> alloc s q = Some (r, s') \<Longrightarrow> alloc_run alloc release client proper s s' [r]"
  by (rule run_alloc [OF run_start])

locale region_allocator =
  fixes inv :: "'s \<Rightarrow> bool"
    and avail :: "'s \<Rightarrow> nat set"
    and alloc :: "'s \<Rightarrow> 'q \<Rightarrow> ('r \<times> 's) option"
    and release :: "'s \<Rightarrow> 'r \<Rightarrow> 's option"
    and client :: "'s \<Rightarrow> 's \<Rightarrow> bool"
    and proper :: "'s \<Rightarrow> 'q \<Rightarrow> bool"
    and region :: "'r \<Rightarrow> nat set"
    and granted :: "'s \<Rightarrow> 'r \<Rightarrow> bool"
  assumes alloc_takes: "inv s \<Longrightarrow> proper s q \<Longrightarrow> alloc s q = Some (r, s') \<Longrightarrow>
      inv s' \<and> granted s' r \<and> region r \<subseteq> avail s \<and> avail s' = avail s - region r"
    and alloc_keeps: "inv s \<Longrightarrow> proper s q \<Longrightarrow> alloc s q = Some (r, s') \<Longrightarrow>
      granted s r' \<Longrightarrow> region r' \<inter> avail s = {} \<Longrightarrow> granted s' r'"
    and release_gives: "inv s \<Longrightarrow> granted s r \<Longrightarrow> region r \<inter> avail s = {} \<Longrightarrow>
      \<exists>s'. release s r = Some s' \<and> inv s' \<and> avail s' = avail s \<union> region r"
    and release_keeps: "inv s \<Longrightarrow> granted s r \<Longrightarrow> region r \<inter> avail s = {} \<Longrightarrow> release s r = Some s' \<Longrightarrow>
      granted s r' \<Longrightarrow> region r' \<inter> (avail s \<union> region r) = {} \<Longrightarrow> granted s' r'"
    and client_keeps: "inv s \<Longrightarrow> client s s' \<Longrightarrow> inv s' \<and> avail s' = avail s"
    and client_granted: "inv s \<Longrightarrow> client s s' \<Longrightarrow> granted s r \<Longrightarrow> granted s' r"
begin

definition disjoint_regions :: "'r list \<Rightarrow> bool" where
  "disjoint_regions = sorted_wrt (\<lambda>r r'. region r \<inter> region r' = {})"

lemma disjoint_regions_insert:
  "disjoint_regions (pre @ r # post) \<longleftrightarrow>
     disjoint_regions (pre @ post) \<and> (\<forall>r' \<in> set (pre @ post). region r \<inter> region r' = {})"
  unfolding disjoint_regions_def
  by (simp add: sorted_wrt_append ball_Un ball_conj_distrib Int_commute [of "region r"] conj_ac)

text \<open>
  No region is handed out twice: those that are held never overlap each other or what is still
  available, and no address is lost.
\<close>

lemma run_conserves:
  assumes "alloc_run alloc release client proper s0 s live" and "inv s0"
  shows "inv s \<and> (\<forall>r \<in> set live. granted s r) \<and> disjoint_regions live
    \<and> (\<Union>r \<in> set live. region r) \<inter> avail s = {}
    \<and> avail s \<union> (\<Union>r \<in> set live. region r) = avail s0"
  using assms(1)
proof (induction rule: alloc_run.induct)
  case run_start
  then show ?case using assms(2) by (simp add: disjoint_regions_def)
next
  case (run_alloc s live q r s')
  have i: "inv s" using run_alloc.IH by simp
  have a: "inv s'" "granted s' r" "region r \<subseteq> avail s" "avail s' = avail s - region r"
    using alloc_takes [OF i run_alloc.hyps(2,3)] by simp_all
  have out: "region r' \<inter> avail s = {}" "granted s r'" if "r' \<in> set live" for r'
    using run_alloc.IH that by auto
  have "granted s' r'" if "r' \<in> set live" for r'
    using alloc_keeps [OF i run_alloc.hyps(2,3)] out [OF that] by blast
  moreover have "\<forall>r' \<in> set live. region r \<inter> region r' = {}" using out(1) a(3) by blast
  then have "disjoint_regions (r # live)"
    using run_alloc.IH disjoint_regions_insert [of "[]" r live] by simp
  ultimately show ?case using a run_alloc.IH by auto
next
  case (run_release s pre r post s')
  then have IH: "inv s" "granted s r" "\<forall>r \<in> set (pre @ post). granted s r" "disjoint_regions (pre @ r # post)"
    "region r \<inter> avail s = {}" "(\<Union>r \<in> set (pre @ post). region r) \<inter> avail s = {}"
    "avail s \<union> (\<Union>r \<in> set (pre @ post). region r) \<union> region r = avail s0"
    by auto
  then have s': "inv s'" "avail s' = avail s \<union> region r"
    using release_gives [of s r] run_release.hyps(2) by auto
  have dj: "disjoint_regions (pre @ post)"
    "\<forall>r' \<in> set (pre @ post). region r \<inter> region r' = {}"
    using IH(4) by (simp_all add: disjoint_regions_insert)
  have "granted s' r'" if r': "r' \<in> set (pre @ post)" for r'
  proof (rule release_keeps [OF IH(1,2,5) run_release.hyps(2)])
    show "granted s r'" using IH(3) r' by blast
    show "region r' \<inter> (avail s \<union> region r) = {}" using IH(6) dj(2) r' by blast
  qed
  moreover have "(\<Union>r \<in> set (pre @ post). region r) \<inter> region r = {}" using dj(2) by blast
  ultimately show ?case using s' dj(1) IH(6,7) by auto
next
  case (run_client s live s')
  then show ?case
    using client_keeps [OF _ run_client.hyps(2)] client_granted [OF _ run_client.hyps(2)] by simp
qed

text \<open>A region that is held can always be given back, and it becomes available again.\<close>

lemma held_release:
  assumes "alloc_run alloc release client proper s0 s live" "inv s0" "r \<in> set live"
  shows "\<exists>s'. release s r = Some s' \<and> inv s' \<and> avail s' = avail s \<union> region r"
proof -
  have "inv s" "granted s r" "region r \<inter> avail s = {}"
    using run_conserves [OF assms(1,2)] assms(3) by auto
  then show ?thesis by (rule release_gives)
qed

end

end
