(* ===== verification/Range_Alloc.thy ===== *)
theory Range_Alloc
  imports Prelude Alloc_Spec
begin

text \<open>
  \<^verbatim>\<open>kernel/src/allocators/range.rs\<close>: the allocator of virtual address ranges, a list of free
  ranges that every operation leaves sorted and coalesced. The list is the source's \<^verbatim>\<open>Vec\<close> in
  its order; the index loops over it are recursions. \<^verbatim>\<open>align = 0\<close> panics in
  \<^verbatim>\<open>next_multiple_of\<close> (\<open>None\<close>).
\<close>

section \<open>State and operations\<close>

record range =
  r_start :: usize
  r_length :: usize

record range_allocator =
  ra_free :: "range list"

definition range_new :: range_allocator where
  "range_new = \<lparr>ra_free = []\<rparr>"

fun merge_adjacent :: "range list \<Rightarrow> range list" where
  "merge_adjacent (cur # nxt # rest) =
     (if r_start cur + r_length cur = r_start nxt
      then merge_adjacent (cur\<lparr>r_length := r_length cur + r_length nxt\<rparr> # rest)
      else cur # merge_adjacent (nxt # rest))"
| "merge_adjacent rs = rs"

definition coalesce :: "range_allocator \<Rightarrow> range_allocator" where
  "coalesce ra = ra\<lparr>ra_free := merge_adjacent (sort_key r_start (ra_free ra))\<rparr>"

definition alloc_pieces :: "range \<Rightarrow> usize \<Rightarrow> usize \<Rightarrow> range list" where
  "alloc_pieces r aligned_start sz =
     (let tail = r_start r + r_length r - (aligned_start + sz) in
      (if aligned_start > r_start r
       then [\<lparr>r_start = r_start r, r_length = aligned_start - r_start r\<rparr>] else []) @
      (if tail \<noteq> 0 then [\<lparr>r_start = aligned_start + sz, r_length = tail\<rparr>] else []))"

fun allocate_loop :: "usize \<Rightarrow> usize \<Rightarrow> range list \<Rightarrow> range list
    \<Rightarrow> (usize \<times> range list) option option" where
  "allocate_loop sz align seen [] = Some None"
| "allocate_loop sz align seen (r # rest) =
     (if align = 0 then None
      else let aligned_start = next_multiple_of (r_start r) align in
        if aligned_start + sz > r_start r + r_length r
        then allocate_loop sz align (seen @ [r]) rest
        else Some (Some (aligned_start, seen @ rest @ alloc_pieces r aligned_start sz)))"

definition range_allocate ::
  "range_allocator \<Rightarrow> usize \<Rightarrow> usize \<Rightarrow> (usize option \<times> range_allocator) option" where
  "range_allocate ra sz align =
     do { found \<leftarrow> allocate_loop sz align [] (ra_free ra);
          case found of
            None \<Rightarrow> Some (None, ra)
          | Some (aligned_start, free) \<Rightarrow>
              Some (Some aligned_start, coalesce (ra\<lparr>ra_free := free\<rparr>)) }"

definition add_range :: "range_allocator \<Rightarrow> usize \<Rightarrow> usize \<Rightarrow> range_allocator" where
  "add_range ra start end =
     coalesce (ra\<lparr>ra_free := ra_free ra @ [\<lparr>r_start = start, r_length = end - start\<rparr>]\<rparr>)"

definition range_free :: "range_allocator \<Rightarrow> usize \<Rightarrow> usize \<Rightarrow> range_allocator" where
  "range_free ra base sz =
     coalesce (ra\<lparr>ra_free := ra_free ra @ [\<lparr>r_start = base, r_length = sz\<rparr>]\<rparr>)"

fun reserve_cursor :: "usize \<Rightarrow> usize \<Rightarrow> range list \<Rightarrow> usize option" where
  "reserve_cursor end cursor [] = Some cursor"
| "reserve_cursor end cursor (r # rest) =
     (let range_end = r_start r + r_length r in
      if range_end \<le> cursor then reserve_cursor end cursor rest
      else if r_start r > cursor then None
      else if range_end \<ge> end then Some range_end
      else reserve_cursor end range_end rest)"

definition reserve_keep :: "usize \<Rightarrow> usize \<Rightarrow> range \<Rightarrow> range list" where
  "reserve_keep start end r =
     (let range_end = r_start r + r_length r in
      if range_end \<le> start \<or> r_start r \<ge> end then [r]
      else (if r_start r < start
            then [\<lparr>r_start = r_start r, r_length = start - r_start r\<rparr>] else []) @
           (if range_end > end then [\<lparr>r_start = end, r_length = range_end - end\<rparr>] else []))"

definition range_reserve :: "range_allocator \<Rightarrow> usize \<Rightarrow> usize \<Rightarrow> bool \<times> range_allocator" where
  "range_reserve ra start sz =
     (case checked_add start sz of
        None \<Rightarrow> (False, ra)
      | Some end \<Rightarrow>
          if start = end then (True, ra)
          else let ra = coalesce ra in
            (case reserve_cursor end start (ra_free ra) of
               None \<Rightarrow> (False, ra)
             | Some cursor \<Rightarrow>
                 if cursor < end then (False, ra)
                 else (True, coalesce (ra\<lparr>ra_free :=
                        concat (map (reserve_keep start end) (ra_free ra))\<rparr>))))"

section \<open>The address set an allocator holds\<close>

definition range_end :: "range \<Rightarrow> nat" where
  "range_end r = unat (r_start r) + unat (r_length r)"

definition range_set :: "range \<Rightarrow> nat set" where
  "range_set r = {unat (r_start r) ..< range_end r}"

definition range_ok :: "range \<Rightarrow> bool" where
  "range_ok r \<longleftrightarrow> 0 < unat (r_length r) \<and> range_end r < 2 ^ 64"

definition apart :: "range \<Rightarrow> range \<Rightarrow> bool" where
  "apart r s \<longleftrightarrow> range_end r \<le> unat (r_start s) \<or> range_end s \<le> unat (r_start r)"

definition ranges_wf :: "range list \<Rightarrow> bool" where
  "ranges_wf rs \<longleftrightarrow> list_all range_ok rs \<and> sorted_wrt apart rs"

definition covered :: "range list \<Rightarrow> nat set" where
  "covered rs = (\<Union>r \<in> set rs. range_set r)"

definition gapped :: "range list \<Rightarrow> bool" where
  "gapped rs \<longleftrightarrow> list_all range_ok rs \<and> sorted_wrt (\<lambda>r s. range_end r < unat (r_start s)) rs"

lemma symp_apart: "symp apart"
  by (auto simp: symp_def apart_def)

lemma covered_simps [simp]:
  "covered [] = {}" "covered (r # rs) = range_set r \<union> covered rs"
  "covered (rs @ ss) = covered rs \<union> covered ss"
  by (auto simp: covered_def)

lemma range_ok_end: "range_ok r \<Longrightarrow> unat (r_start r + r_length r) = range_end r"
  by (simp add: range_ok_def range_end_def unat_add_nowrap)

lemma range_set_memI: "range_ok r \<Longrightarrow> unat (r_start r) \<in> range_set r"
  by (simp add: range_set_def range_ok_def range_end_def)

lemma apart_iff_disjoint:
  assumes "range_ok r" and "range_ok s"
  shows "apart r s \<longleftrightarrow> range_set r \<inter> range_set s = {}"
proof
  assume "range_set r \<inter> range_set s = {}"
  then have "unat (r_start r) \<notin> range_set s" and "unat (r_start s) \<notin> range_set r"
    using assms range_set_memI by blast+
  then show "apart r s"
    using assms by (auto simp: apart_def range_set_def range_ok_def range_end_def)
qed (auto simp: apart_def range_set_def)

section \<open>Coalescing\<close>

lemma ranges_wf_perm: "ranges_wf rs \<Longrightarrow> mset rs = mset ss \<Longrightarrow> ranges_wf ss"
  unfolding ranges_wf_def
  by (metis list.pred_set set_mset_mset sorted_wrt_perm symp_apart)

lemma covered_perm: "mset rs = mset ss \<Longrightarrow> covered rs = covered ss"
  unfolding covered_def by (metis set_mset_mset)

lemma sorted_apart:
  assumes "ranges_wf rs" and "sorted (map r_start rs)"
  shows "sorted_wrt (\<lambda>r s. range_end r \<le> unat (r_start s)) rs"
  using assms
proof (induction rs)
  case (Cons r rs)
  have "range_end r \<le> unat (r_start s)" if "s \<in> set rs" for s
  proof -
    have "apart r s" "range_ok r" "range_ok s" "r_start r \<le> r_start s"
      using Cons.prems that by (auto simp: ranges_wf_def list_all_iff)
    then show ?thesis
      by (auto simp: apart_def range_ok_def range_end_def word_le_nat_alt)
  qed
  with Cons show ?case by (auto simp: ranges_wf_def)
qed simp

lemma merge_two:
  assumes "range_ok r" "range_ok s" "r_start r + r_length r = r_start s"
  defines "m \<equiv> r\<lparr>r_length := r_length r + r_length s\<rparr>"
  shows "range_end m = range_end s" "range_ok m" "range_set m = range_set r \<union> range_set s"
proof -
  have e: "range_end r = unat (r_start s)"
    using assms range_ok_end by metis
  have l: "unat (r_length r + r_length s) = unat (r_length r) + unat (r_length s)"
    using assms(1,2) e by (simp add: range_ok_def range_end_def unat_add_nowrap)
  show me: "range_end m = range_end s"
    using e l by (simp add: m_def range_end_def)
  show "range_ok m"
    using assms(1,2) me l by (simp add: m_def range_ok_def)
  show "range_set m = range_set r \<union> range_set s"
    using me e by (auto simp: m_def range_set_def range_end_def)
qed

lemma merge_adjacent_sound:
  assumes "list_all range_ok rs" "sorted_wrt (\<lambda>r s. range_end r \<le> unat (r_start s)) rs"
  shows "gapped (merge_adjacent rs) \<and> covered (merge_adjacent rs) = covered rs
    \<and> (rs \<noteq> [] \<longrightarrow> merge_adjacent rs \<noteq> []
        \<and> r_start (hd (merge_adjacent rs)) = r_start (hd rs))"
  using assms
proof (induction rs rule: merge_adjacent.induct)
  case (1 r s rest)
  show ?case
  proof (cases "r_start r + r_length r = r_start s")
    case True
    define m where "m = r\<lparr>r_length := r_length r + r_length s\<rparr>"
    have m: "range_end m = range_end s" "range_ok m" "range_set m = range_set r \<union> range_set s"
      using merge_two [of r s] 1(3) True by (simp_all add: m_def)
    have "list_all range_ok (m # rest)"
      and "sorted_wrt (\<lambda>r s. range_end r \<le> unat (r_start s)) (m # rest)"
      using 1(3,4) m by simp_all
    then show ?thesis
      using 1(1) [OF True] True m by (simp add: m_def Un_assoc)
  next
    case False
    have IH: "gapped (merge_adjacent (s # rest))"
      "covered (merge_adjacent (s # rest)) = covered (s # rest)"
      "merge_adjacent (s # rest) \<noteq> []"
      "r_start (hd (merge_adjacent (s # rest))) = r_start s"
      using 1(2) [OF False] 1(3,4) by simp_all
    then obtain t ts where t: "merge_adjacent (s # rest) = t # ts" "r_start t = r_start s"
      by (cases "merge_adjacent (s # rest)") auto
    have r: "range_ok r" "range_end r \<le> unat (r_start s)"
      using 1(3,4) by simp_all
    then have "range_end r \<noteq> unat (r_start s)"
      using False range_ok_end by (metis word_eq_unat)
    then have "range_end r < unat (r_start t)" using r t by simp
    moreover have "unat (r_start t) \<le> range_end t" by (simp add: range_end_def)
    moreover have "\<forall>u \<in> set ts. range_end t < unat (r_start u)"
      using IH(1) t(1) by (simp add: gapped_def)
    ultimately have "\<forall>u \<in> set (t # ts). range_end r < unat (r_start u)"
      by (auto dest: bspec)
    then have "gapped (r # t # ts)"
      using IH(1) t(1) r(1) by (simp add: gapped_def)
    then show ?thesis using False IH(2) t by simp
  qed
qed (auto simp: gapped_def)

lemma coalesce_canonical:
  assumes "ranges_wf (ra_free ra)"
  shows "gapped (ra_free (coalesce ra))" "covered (ra_free (coalesce ra)) = covered (ra_free ra)"
proof -
  let ?s = "sort_key r_start (ra_free ra)"
  have wf: "ranges_wf ?s" by (rule ranges_wf_perm [OF assms]) simp
  moreover have "covered ?s = covered (ra_free ra)" by (rule covered_perm) simp
  moreover have "sorted_wrt (\<lambda>r s. range_end r \<le> unat (r_start s)) ?s"
    by (rule sorted_apart [OF wf]) simp
  ultimately show "gapped (ra_free (coalesce ra))"
    "covered (ra_free (coalesce ra)) = covered (ra_free ra)"
    using merge_adjacent_sound [of ?s] by (simp_all add: coalesce_def ranges_wf_def)
qed

lemma gapped_wf: "gapped rs \<Longrightarrow> ranges_wf rs"
  unfolding gapped_def ranges_wf_def
  using sorted_wrt_mono_rel [of rs "\<lambda>r s. range_end r < unat (r_start s)" apart]
  by (simp add: apart_def)

text \<open>A gapped list is determined by the addresses it covers.\<close>

lemma gapped_unique:
  assumes "gapped rs" "gapped ss" "covered rs = covered ss"
  shows "rs = ss"
  using assms
proof (induction rs arbitrary: ss)
  case Nil
  then show ?case
    by (cases ss) (auto simp: gapped_def dest!: range_set_memI)
next
  case (Cons r rs)
  then obtain s ss' where ss: "ss = s # ss'"
    by (cases ss) (auto simp: gapped_def dest!: range_set_memI)
  have ok: "range_ok r" "range_ok s"
    and above: "\<forall>t \<in> set rs. range_end r < unat (r_start t)" "\<forall>t \<in> set ss'. range_end s < unat (r_start t)"
    using Cons.prems ss by (auto simp: gapped_def)
  have lo: "range_end r < x" if "x \<in> covered rs" for x
    using above(1) that by (fastforce simp: covered_def range_set_def)
  have lo': "range_end s < x" if "x \<in> covered ss'" for x
    using above(2) that by (fastforce simp: covered_def range_set_def)
  have eq: "range_set r \<union> covered rs = range_set s \<union> covered ss'"
    using Cons.prems(3) ss by simp
  have ge: "unat (r_start r) \<le> x" if "x \<in> range_set r \<union> covered rs" for x
    using that lo [of x] by (auto simp: range_set_def range_end_def)
  have ge': "unat (r_start s) \<le> x" if "x \<in> range_set s \<union> covered ss'" for x
    using that lo' [of x] by (auto simp: range_set_def range_end_def)
  have st: "unat (r_start r) = unat (r_start s)"
    using ge [of "unat (r_start s)"] ge' [of "unat (r_start r)"] range_set_memI [OF ok(1)]
      range_set_memI [OF ok(2)] eq by (intro antisym) blast+
  have nm: "range_end r \<notin> range_set r \<union> covered rs" "range_end s \<notin> range_set s \<union> covered ss'"
    using lo [of "range_end r"] lo' [of "range_end s"] by (auto simp: range_set_def)
  have "\<not> range_end r < range_end s"
  proof
    assume "range_end r < range_end s"
    then have "range_end r \<in> range_set s"
      using st by (simp add: range_set_def range_end_def)
    with nm(1) eq show False by blast
  qed
  moreover have "\<not> range_end s < range_end r"
  proof
    assume "range_end s < range_end r"
    then have "range_end s \<in> range_set r"
      using st by (simp add: range_set_def range_end_def)
    with nm(2) eq show False by blast
  qed
  ultimately have "range_end r = range_end s" by simp
  then have rs: "r = s"
    using st by (simp add: range_end_def word_eq_unat)
  have "range_set r \<inter> covered rs = {}" "range_set s \<inter> covered ss' = {}"
    using lo lo' by (fastforce simp: range_set_def)+
  then have "covered rs = covered ss'"
    using eq rs by blast
  then have "rs = ss'"
    using Cons.IH [of ss'] Cons.prems(1,2) ss by (simp add: gapped_def)
  with rs ss show ?case by simp
qed


lemma covered_disjoint:
  assumes "ranges_wf (pre @ r # post)"
  shows "range_set r \<inter> covered (pre @ post) = {}"
proof -
  have "range_set r \<inter> range_set s = {}" if "s \<in> set (pre @ post)" for s
  proof -
    have "apart r s" "range_ok r" "range_ok s"
      using assms that symp_apart
      by (auto simp: ranges_wf_def sorted_wrt_append list_all_iff dest: sympD)
    then show ?thesis using apart_iff_disjoint by blast
  qed
  then show ?thesis unfolding covered_def by blast
qed

lemma apart_subset:
  assumes "apart r s" "range_ok r" "range_ok p" "range_ok s" "range_set p \<subseteq> range_set r"
  shows "apart p s"
  using assms apart_iff_disjoint by blast

lemma range_set_covered: "p \<in> set ps \<Longrightarrow> covered ps \<subseteq> R \<Longrightarrow> range_set p \<subseteq> R"
  by (auto simp: covered_def)

lemma ranges_wf_replace:
  assumes wf: "ranges_wf (pre @ r # post)" and ps: "ranges_wf ps" "covered ps \<subseteq> range_set r"
  shows "ranges_wf (pre @ post @ ps)"
proof -
  have "apart s p" if "s \<in> set (pre @ post)" "p \<in> set ps" for s p
  proof -
    have "apart r s" "range_ok r" "range_ok s"
      using wf that(1) symp_apart
      by (auto simp: ranges_wf_def sorted_wrt_append list_all_iff dest: sympD)
    moreover have "range_ok p" using ps(1) that(2) by (auto simp: ranges_wf_def list_all_iff)
    moreover have "range_set p \<subseteq> range_set r" using range_set_covered that(2) ps(2) by blast
    ultimately have "apart p s" using apart_subset by blast
    then show ?thesis using symp_apart by (auto dest: sympD)
  qed
  then show ?thesis
    using wf ps(1) by (auto simp: ranges_wf_def sorted_wrt_append)
qed

section \<open>Allocation\<close>

lemma alloc_pieces_sound:
  assumes r: "range_ok r" and lo: "unat (r_start r) \<le> unat a"
    and hi: "unat a + unat sz \<le> range_end r"
  shows "ranges_wf (alloc_pieces r a sz)"
    and "covered (alloc_pieces r a sz) = range_set r - {unat a ..< unat a + unat sz}"
proof -
  define hd_piece where "hd_piece = \<lparr>r_start = r_start r, r_length = a - r_start r\<rparr>"
  define tl_piece where "tl_piece =
    \<lparr>r_start = a + sz, r_length = r_start r + r_length r - (a + sz)\<rparr>"
  have as: "unat (a + sz) = unat a + unat sz"
    using hi r by (simp add: range_ok_def unat_add_nowrap)
  have tl: "unat (r_start r + r_length r - (a + sz)) = range_end r - (unat a + unat sz)"
    using hi as range_ok_end [OF r] by (subst unat_sub_nowrap) simp_all
  have hd: "unat (a - r_start r) = unat a - unat (r_start r)"
    using lo by (simp add: unat_sub_nowrap)
  have he: "range_end hd_piece = unat a" and hs: "range_set hd_piece = {unat (r_start r) ..< unat a}"
    using lo hd by (simp_all add: range_end_def range_set_def hd_piece_def)
  have tf: "unat (r_start tl_piece) = unat a + unat sz"
    "unat (r_length tl_piece) = range_end r - (unat a + unat sz)"
    using as tl by (simp_all add: tl_piece_def)
  have te: "range_end tl_piece = range_end r"
    using hi tf by (simp add: range_end_def [of tl_piece])
  then have ts: "range_set tl_piece = {unat a + unat sz ..< range_end r}"
    using tf by (simp add: range_set_def)
  have hg: "a > r_start r \<longleftrightarrow> unat (r_start r) < unat a" by (simp add: word_less_nat_alt)
  have tg: "r_start r + r_length r - (a + sz) \<noteq> 0 \<longleftrightarrow> unat a + unat sz < range_end r"
    using tl hi by (auto simp: word_eq_unat)
  have p: "alloc_pieces r a sz = (if unat (r_start r) < unat a then [hd_piece] else []) @
      (if unat a + unat sz < range_end r then [tl_piece] else [])"
    unfolding alloc_pieces_def Let_def hg tg hd_piece_def tl_piece_def by simp
  have ok: "range_ok hd_piece" if "unat (r_start r) < unat a"
    using that he hd hi r by (simp add: range_ok_def) (simp add: hd_piece_def)
  have ok': "range_ok tl_piece" if "unat a + unat sz < range_end r"
    using that te tl r by (simp add: range_ok_def) (simp add: tl_piece_def)
  have ap: "apart hd_piece tl_piece"
    using he as by (simp add: apart_def) (simp add: tl_piece_def)
  show "ranges_wf (alloc_pieces r a sz)"
    using ok ok' ap by (simp add: p ranges_wf_def)
  show "covered (alloc_pieces r a sz) = range_set r - {unat a ..< unat a + unat sz}"
    using lo hi by (auto simp: p hs ts range_set_def [of r])
qed

lemma allocate_loop_split:
  assumes "allocate_loop sz align seen rest = Some (Some (a, free'))"
  shows "\<exists>pre r post. seen @ rest = pre @ r # post \<and> r \<in> set rest
    \<and> align \<noteq> 0 \<and> a = next_multiple_of (r_start r) align
    \<and> a + sz \<le> r_start r + r_length r \<and> free' = pre @ post @ alloc_pieces r a sz"
  using assms
proof (induction sz align seen rest rule: allocate_loop.induct)
  case (2 sz align seen r rest)
  show ?case
  proof (cases "align \<noteq> 0 \<and> next_multiple_of (r_start r) align + sz > r_start r + r_length r")
    case True
    then show ?thesis using 2 by (auto simp: Let_def)
  next
    case False
    then have "a = next_multiple_of (r_start r) align"
      "a + sz \<le> r_start r + r_length r" "align \<noteq> 0" "free' = seen @ rest @ alloc_pieces r a sz"
      using 2(2) by (auto simp: Let_def split: if_splits)
    then show ?thesis by fastforce
  qed
qed simp

text \<open>The request does not carry the search past the end of the address space.\<close>

definition fits_space :: "range list \<Rightarrow> usize \<Rightarrow> usize \<Rightarrow> bool" where
  "fits_space rs sz align \<longleftrightarrow>
     list_all (\<lambda>r. unat (r_start r) + unat align + unat sz \<le> 2 ^ 64) rs"

lemma aligned_start_exact:
  assumes "align \<noteq> 0" "unat s + unat align + unat sz \<le> 2 ^ 64"
  defines "a \<equiv> next_multiple_of (s :: u64) align"
  shows "unat align dvd unat a" "unat s \<le> unat a" "unat a < unat s + unat align"
    "unat (a + sz) = unat a + unat sz"
  using assms next_multiple_of_exact [of align s] by (simp_all add: a_def unat_add_nowrap)

lemma allocate_loop_sound:
  assumes wf: "ranges_wf rs" and sp: "fits_space rs sz align"
    and al: "allocate_loop sz align [] rs = Some (Some (a, free'))"
  shows "unat align dvd unat a" "{unat a ..< unat a + unat sz} \<subseteq> covered rs"
    "ranges_wf free'" "covered free' = covered rs - {unat a ..< unat a + unat sz}"
proof -
  obtain pre r post where sp': "rs = pre @ r # post" and al0: "align \<noteq> 0"
    and a: "a = next_multiple_of (r_start r) align" "a + sz \<le> r_start r + r_length r"
    and free': "free' = pre @ post @ alloc_pieces r a sz"
    using allocate_loop_split [OF al] by auto
  have r: "range_ok r" using wf sp' by (simp add: ranges_wf_def)
  have "unat (r_start r) + unat align + unat sz \<le> 2 ^ 64"
    using sp sp' by (simp add: fits_space_def)
  note ex = aligned_start_exact [OF al0 this, folded a(1)]
  have hi: "unat a + unat sz \<le> range_end r"
    using a(2) ex(4) range_ok_end [OF r] by (simp add: word_le_nat_alt)
  note ps = alloc_pieces_sound [OF r ex(2) hi]
  show "unat align dvd unat a" by (rule ex(1))
  have sub: "{unat a ..< unat a + unat sz} \<subseteq> range_set r"
    using ex(2) hi by (auto simp: range_set_def)
  then show "{unat a ..< unat a + unat sz} \<subseteq> covered rs" using sp' by auto
  show "ranges_wf free'"
    unfolding free' by (rule ranges_wf_replace) (use wf sp' ps in auto)
  show "covered free' = covered rs - {unat a ..< unat a + unat sz}"
    using covered_disjoint [of pre r post] wf sp' ps(2) sub by (auto simp: free')
qed

lemma allocate_loop_None:
  assumes "align \<noteq> 0"
  shows "allocate_loop sz align seen rs = Some None \<longleftrightarrow>
    list_all (\<lambda>r. next_multiple_of (r_start r) align + sz > r_start r + r_length r) rs"
  using assms by (induction rs arbitrary: seen) (auto simp: Let_def)

lemma allocate_loop_total:
  "align \<noteq> 0 \<Longrightarrow> allocate_loop sz align seen rs \<noteq> None"
  by (induction rs arbitrary: seen) (auto simp: Let_def)

lemma gapped_end_notin:
  assumes "gapped rs" "r \<in> set rs"
  shows "range_end r \<notin> covered rs"
  using assms
proof (induction rs)
  case (Cons s rs)
  have above: "range_end s < x" if "x \<in> covered rs" for x
    using Cons.prems(1) that by (fastforce simp: gapped_def covered_def range_set_def)
  show ?case
  proof (cases "r = s")
    case True
    then show ?thesis using above [of "range_end s"] by (auto simp: range_set_def)
  next
    case False
    then have r: "r \<in> set rs" using Cons.prems(2) by simp
    then have "range_end r \<notin> covered rs" using Cons by (simp add: gapped_def)
    moreover have "range_end s < range_end r"
      using Cons.prems(1) r by (auto simp: gapped_def range_end_def)
    ultimately show ?thesis by (simp add: range_set_def)
  qed
qed simp

text \<open>An interval of a gapped list's addresses lies inside one of its ranges.\<close>

lemma interval_in_one_range:
  assumes g: "gapped rs" and "a < b" and sub: "{a ..< b} \<subseteq> covered rs"
  shows "\<exists>r \<in> set rs. unat (r_start r) \<le> a \<and> b \<le> range_end r"
proof -
  have "a \<in> covered rs" using assms by auto
  then obtain r where r: "r \<in> set rs" "a \<in> range_set r" by (auto simp: covered_def)
  have "b \<le> range_end r"
  proof (rule ccontr)
    assume "\<not> b \<le> range_end r"
    then have "range_end r \<in> {a ..< b}" using r(2) by (auto simp: range_set_def)
    then show False using sub gapped_end_notin [OF g r(1)] by blast
  qed
  then show ?thesis using r by (auto simp: range_set_def)
qed

section \<open>Reserving a fixed interval\<close>

lemma reserve_cursor_covers:
  assumes "gapped rs" "unat cursor < unat end"
  shows "(\<exists>c. reserve_cursor end cursor rs = Some c \<and> end \<le> c) \<longleftrightarrow>
    {unat cursor ..< unat end} \<subseteq> covered rs"
  using assms
proof (induction rs arbitrary: cursor)
  case Nil
  then show ?case by (auto simp: word_le_nat_alt)
next
  case (Cons r rs)
  let ?re = "r_start r + r_length r"
  have r: "range_ok r" and g: "gapped rs" using Cons.prems(1) by (auto simp: gapped_def)
  have re: "unat ?re = range_end r" by (rule range_ok_end [OF r])
  have above: "range_end r < x" if "x \<in> covered rs" for x
    using Cons.prems(1) that by (fastforce simp: gapped_def covered_def range_set_def)
  consider (skip) "?re \<le> cursor" | (hole) "\<not> ?re \<le> cursor" "cursor < r_start r"
    | (last) "\<not> ?re \<le> cursor" "\<not> cursor < r_start r" "end \<le> ?re"
    | (more) "\<not> ?re \<le> cursor" "\<not> cursor < r_start r" "\<not> end \<le> ?re" by blast
  then show ?case
  proof cases
    case skip
    then have "{unat cursor ..< unat end} \<inter> range_set r = {}"
      using re by (auto simp: range_set_def word_le_nat_alt)
    then have "{unat cursor ..< unat end} \<subseteq> covered (r # rs) \<longleftrightarrow>
        {unat cursor ..< unat end} \<subseteq> covered rs"
      by auto
    then show ?thesis using skip Cons.IH [OF g Cons.prems(2)] by simp
  next
    case hole
    have "unat cursor \<notin> covered (r # rs)"
      using hole above [of "unat cursor"] by (auto simp: range_set_def range_end_def word_less_nat_alt)
    then show ?thesis using hole Cons.prems(2) by (auto simp: subset_eq)
  next
    case last
    then have "{unat cursor ..< unat end} \<subseteq> range_set r"
      using re by (auto simp: range_set_def word_le_nat_alt word_less_nat_alt)
    then show ?thesis using last by (auto simp: Let_def)
  next
    case more
    have nm: "range_end r \<notin> covered (r # rs)"
      using above [of "range_end r"] by (auto simp: range_set_def)
    have lt: "unat ?re < unat end" using more by (simp add: word_le_nat_alt)
    have "\<not> {unat ?re ..< unat end} \<subseteq> covered rs" "\<not> {unat cursor ..< unat end} \<subseteq> covered (r # rs)"
      using nm lt more re by (auto simp: word_le_nat_alt subset_eq)
    then show ?thesis using more Cons.IH [OF g lt] by (simp add: Let_def)
  qed
qed

lemma reserve_keep_sound:
  assumes r: "range_ok r" and "unat s \<le> unat e"
  shows "ranges_wf (reserve_keep s e r)"
    and "covered (reserve_keep s e r) = range_set r - {unat s ..< unat e}"
proof -
  let ?re = "r_start r + r_length r"
  let ?lo = "\<lparr>r_start = r_start r, r_length = s - r_start r\<rparr>"
  let ?hi = "\<lparr>r_start = e, r_length = ?re - e\<rparr>"
  have re: "unat ?re = range_end r" by (rule range_ok_end [OF r])
  have lo: "range_end ?lo = unat s" "range_ok ?lo" "range_set ?lo = {unat (r_start r) ..< unat s}"
    if "unat (r_start r) < unat s" "unat s < range_end r"
    using that r by (simp_all add: range_end_def [of ?lo] range_ok_def range_set_def unat_sub_nowrap)
  have hi: "range_end ?hi = range_end r" "range_ok ?hi" "range_set ?hi = {unat e ..< range_end r}"
    if "unat e < range_end r"
    using that r re by (simp_all add: range_end_def [of ?hi] range_ok_def range_set_def unat_sub_nowrap)
  have k: "reserve_keep s e r =
      (if range_end r \<le> unat s \<or> unat e \<le> unat (r_start r) then [r]
       else (if unat (r_start r) < unat s then [?lo] else []) @
         (if unat e < range_end r then [?hi] else []))"
    unfolding reserve_keep_def Let_def word_le_nat_alt word_less_nat_alt re by simp
  have ap: "apart ?lo ?hi" if "unat (r_start r) < unat s" "unat s < range_end r"
    using lo(1) [OF that] assms(2) by (simp add: apart_def)
  show "ranges_wf (reserve_keep s e r)"
    using r lo(2) hi(2) ap by (auto simp: k ranges_wf_def)
  show "covered (reserve_keep s e r) = range_set r - {unat s ..< unat e}"
  proof (cases "range_end r \<le> unat s \<or> unat e \<le> unat (r_start r)")
    case True
    then show ?thesis by (auto simp: k range_set_def)
  next
    case False
    then have "covered (if unat (r_start r) < unat s then [?lo] else []) = {unat (r_start r) ..< unat s}"
      and "covered (if unat e < range_end r then [?hi] else []) = {unat e ..< range_end r}"
      using lo(3) hi(3) by simp_all
    then have "covered (reserve_keep s e r) = {unat (r_start r) ..< unat s} \<union> {unat e ..< range_end r}"
      using False by (simp only: k if_False covered_simps)
    also have "\<dots> = {unat (r_start r) ..< range_end r} - {unat s ..< unat e}"
      using False assms(2) by auto
    finally show ?thesis by (simp only: range_set_def)
  qed
qed

lemma ranges_wf_concat:
  assumes "ranges_wf rs"
    and "\<And>r. r \<in> set rs \<Longrightarrow> ranges_wf (f r) \<and> covered (f r) \<subseteq> range_set r"
  shows "ranges_wf (concat (map f rs))"
  using assms
proof (induction rs)
  case (Cons r rs)
  have IH: "ranges_wf (concat (map f rs))"
    using Cons by (simp add: ranges_wf_def)
  have "apart p q" if p: "p \<in> set (f r)" and q: "q \<in> set (concat (map f rs))" for p q
  proof -
    obtain t where t: "t \<in> set rs" "q \<in> set (f t)" using q by auto
    have "range_set p \<subseteq> range_set r" "range_set q \<subseteq> range_set t"
      using Cons.prems(2) p t range_set_covered by (metis list.set_intros)+
    moreover have "apart r t" "range_ok r" "range_ok t"
      using Cons.prems(1) t(1) by (auto simp: ranges_wf_def list_all_iff)
    moreover have "range_ok p" "range_ok q"
      using Cons.prems(2) p t by (auto simp: ranges_wf_def list_all_iff)
    ultimately show ?thesis using apart_iff_disjoint by blast
  qed
  then show ?case
    using IH Cons.prems(2) by (auto simp: ranges_wf_def sorted_wrt_append)
qed (simp add: ranges_wf_def)

lemma covered_concat: "covered (concat (map f rs)) = (\<Union>r \<in> set rs. covered (f r))"
  by (induction rs) auto

section \<open>The contract of the allocator\<close>

definition ra_inv :: "range_allocator \<Rightarrow> bool" where
  "ra_inv ra \<longleftrightarrow> gapped (ra_free ra)"

abbreviation free_addrs :: "range_allocator \<Rightarrow> nat set" where
  "free_addrs ra \<equiv> covered (ra_free ra)"

lemma ra_inv_wf: "ra_inv ra \<Longrightarrow> ranges_wf (ra_free ra)"
  by (simp add: ra_inv_def gapped_wf)

lemma coalesce_inv:
  assumes "ranges_wf (ra_free ra)"
  shows "ra_inv (coalesce ra)" "free_addrs (coalesce ra) = free_addrs ra"
  using coalesce_canonical [OF assms] by (simp_all add: ra_inv_def)

lemma ra_inv_unique: "ra_inv ra \<Longrightarrow> ra_inv rb \<Longrightarrow> free_addrs ra = free_addrs rb \<Longrightarrow> ra = rb"
  using gapped_unique by (cases ra, cases rb) (simp add: ra_inv_def)

lemma coalesce_id: "ra_inv ra \<Longrightarrow> coalesce ra = ra"
  using coalesce_inv [OF ra_inv_wf] ra_inv_unique by metis

lemma range_allocate_Some:
  assumes "ra_inv ra" "fits_space (ra_free ra) sz align"
    and "range_allocate ra sz align = Some (Some a, ra')"
  shows "ra_inv ra'" "unat align dvd unat a" "{unat a ..< unat a + unat sz} \<subseteq> free_addrs ra"
    "free_addrs ra' = free_addrs ra - {unat a ..< unat a + unat sz}"
proof -
  obtain free' where l: "allocate_loop sz align [] (ra_free ra) = Some (Some (a, free'))"
    and ra': "ra' = coalesce (ra\<lparr>ra_free := free'\<rparr>)"
    using assms(3) by (auto simp: range_allocate_def Option.bind_eq_Some_conv split: option.splits)
  note s = allocate_loop_sound [OF ra_inv_wf [OF assms(1)] assms(2) l]
  then show "unat align dvd unat a" "{unat a ..< unat a + unat sz} \<subseteq> free_addrs ra" by simp_all
  show "ra_inv ra'" "free_addrs ra' = free_addrs ra - {unat a ..< unat a + unat sz}"
    using coalesce_inv [of "ra\<lparr>ra_free := free'\<rparr>"] s(3,4) by (simp_all add: ra')
qed

lemma range_allocate_None:
  assumes inv: "ra_inv ra" and sp: "fits_space (ra_free ra) sz align" and sz: "sz \<noteq> 0"
    and none: "range_allocate ra sz align = Some (None, ra')"
  shows "ra' = ra" "align \<noteq> 0 \<Longrightarrow> unat align dvd a \<Longrightarrow> \<not> {a ..< a + unat sz} \<subseteq> free_addrs ra"
proof -
  have l: "allocate_loop sz align [] (ra_free ra) = Some None" and "ra' = ra"
    using none
    by (cases "allocate_loop sz align [] (ra_free ra)"; auto simp: range_allocate_def split: option.splits)+
  then show "ra' = ra" by simp
  assume al: "align \<noteq> 0" and dvd: "unat align dvd a"
  show "\<not> {a ..< a + unat sz} \<subseteq> free_addrs ra"
  proof
    assume sub: "{a ..< a + unat sz} \<subseteq> free_addrs ra"
    have "0 < unat sz" using sz by (simp add: unat_gt_0)
    then obtain r where r: "r \<in> set (ra_free ra)" "unat (r_start r) \<le> a" "a + unat sz \<le> range_end r"
      using interval_in_one_range [of "ra_free ra" a "a + unat sz"] inv sub
      by (auto simp: ra_inv_def)
    have ok: "range_ok r" and "unat (r_start r) + unat align + unat sz \<le> 2 ^ 64"
      using inv sp r(1) by (auto simp: ra_inv_def gapped_def fits_space_def list_all_iff)
    note ex = aligned_start_exact [OF al this(2)]
    have "unat (next_multiple_of (r_start r) align) \<le> a"
    proof (rule ccontr)
      assume "\<not> ?thesis"
      then have "unat align dvd unat (next_multiple_of (r_start r) align) - a"
        "0 < unat (next_multiple_of (r_start r) align) - a"
        "unat (next_multiple_of (r_start r) align) - a < unat align"
        using ex(1,3) dvd r(2) by (auto intro: dvd_diff_nat)
      then show False using nat_dvd_not_less by blast
    qed
    then have "unat (next_multiple_of (r_start r) align + sz) \<le> range_end r"
      using ex(4) r(3) by simp
    then have "\<not> next_multiple_of (r_start r) align + sz > r_start r + r_length r"
      by (simp add: word_less_nat_alt range_ok_end [OF ok])
    then show False using l r(1) allocate_loop_None [OF al] by (auto simp: list_all_iff)
  qed
qed

lemma range_allocate_total: "align \<noteq> 0 \<Longrightarrow> \<exists>res ra'. range_allocate ra sz align = Some (res, ra')"
  using allocate_loop_total [of align sz "[]" "ra_free ra"]
  by (auto simp: range_allocate_def split: option.splits)

lemma range_free_inv:
  assumes "ra_inv ra" "sz \<noteq> 0" "unat base + unat sz < 2 ^ 64"
    and "{unat base ..< unat base + unat sz} \<inter> free_addrs ra = {}"
  shows "ra_inv (range_free ra base sz)"
    "free_addrs (range_free ra base sz) = free_addrs ra \<union> {unat base ..< unat base + unat sz}"
proof -
  let ?r = "\<lparr>r_start = base, r_length = sz\<rparr>"
  have ok: "range_ok ?r" and rs: "range_set ?r = {unat base ..< unat base + unat sz}"
    using assms(2,3) by (simp_all add: range_ok_def range_end_def range_set_def unat_gt_0)
  have "apart r ?r" if "r \<in> set (ra_free ra)" for r
  proof -
    have "range_set r \<inter> range_set ?r = {}" using assms(4) rs that by (auto simp: covered_def)
    moreover have "range_ok r" using assms(1) that by (auto simp: ra_inv_def gapped_def list_all_iff)
    ultimately show ?thesis using apart_iff_disjoint ok by blast
  qed
  then have "ranges_wf (ra_free ra @ [?r])"
    using ra_inv_wf [OF assms(1)] ok by (auto simp: ranges_wf_def sorted_wrt_append)
  then show "ra_inv (range_free ra base sz)"
    "free_addrs (range_free ra base sz) = free_addrs ra \<union> {unat base ..< unat base + unat sz}"
    using coalesce_inv [of "ra\<lparr>ra_free := ra_free ra @ [?r]\<rparr>"] rs
    by (simp_all add: range_free_def)
qed

lemma range_reserve_inv:
  assumes inv: "ra_inv ra" and res: "range_reserve ra start sz = (b, ra')"
    and nw: "unat start + unat sz < 2 ^ 64"
  shows "ra_inv ra'" "b \<longleftrightarrow> {unat start ..< unat start + unat sz} \<subseteq> free_addrs ra"
    "free_addrs ra' = free_addrs ra - (if b then {unat start ..< unat start + unat sz} else {})"
proof -
  define e where "e = start + sz"
  have e: "checked_add start sz = Some e" "unat e = unat start + unat sz"
    using nw by (simp_all add: e_def checked_add_def unat_add_nowrap)
  have all: "ra_inv ra' \<and> (b \<longleftrightarrow> {unat start ..< unat e} \<subseteq> free_addrs ra)
    \<and> free_addrs ra' = free_addrs ra - (if b then {unat start ..< unat e} else {})"
  proof (cases "start = e")
    case True
    then show ?thesis using res inv e by (auto simp: range_reserve_def)
  next
    case False
    then have lt: "unat start < unat e" using e(2) by (auto simp: word_eq_unat)
    have cov: "(\<exists>c. reserve_cursor e start (ra_free ra) = Some c \<and> e \<le> c) \<longleftrightarrow>
        {unat start ..< unat e} \<subseteq> free_addrs ra"
      by (rule reserve_cursor_covers) (use inv lt in \<open>auto simp: ra_inv_def\<close>)
    show ?thesis
    proof (cases "{unat start ..< unat e} \<subseteq> free_addrs ra")
      case True
      then obtain c where "reserve_cursor e start (ra_free ra) = Some c" "e \<le> c" using cov by blast
      moreover from this have "\<not> c < e" by simp
      ultimately have b: "b" and ra': "ra' = coalesce (ra\<lparr>ra_free :=
          concat (map (reserve_keep start e) (ra_free ra))\<rparr>)"
        using res False e(1) coalesce_id [OF inv] by (auto simp: range_reserve_def)
      have ok: "range_ok r" if "r \<in> set (ra_free ra)" for r
        using inv that by (auto simp: ra_inv_def gapped_def list_all_iff)
      have keep: "ranges_wf (reserve_keep start e r)"
        "covered (reserve_keep start e r) = range_set r - {unat start ..< unat e}"
        if "r \<in> set (ra_free ra)" for r
        using reserve_keep_sound [OF ok [OF that]] lt by (simp_all add: less_imp_le)
      have "ranges_wf (concat (map (reserve_keep start e) (ra_free ra)))"
        by (rule ranges_wf_concat) (use ra_inv_wf [OF inv] keep in auto)
      moreover have "covered (concat (map (reserve_keep start e) (ra_free ra)))
          = free_addrs ra - {unat start ..< unat e}"
        unfolding covered_concat using keep(2) by (auto simp: covered_def)
      ultimately show ?thesis using coalesce_inv b True by (simp add: ra')
    next
      case no: False
      then have "\<not> b \<and> ra' = ra"
        using res False e(1) coalesce_id [OF inv] cov
        by (auto simp: range_reserve_def not_less split: option.splits if_splits)
      then show ?thesis using inv no by simp
    qed
  qed
  then show "ra_inv ra'" "b \<longleftrightarrow> {unat start ..< unat start + unat sz} \<subseteq> free_addrs ra"
    "free_addrs ra' = free_addrs ra - (if b then {unat start ..< unat start + unat sz} else {})"
    using e(2) by simp_all
qed

section \<open>The allocator as a region allocator\<close>

type_synonym region = "usize \<times> usize"

definition region_set :: "region \<Rightarrow> nat set" where
  "region_set r = {unat (fst r) ..< unat (fst r) + unat (snd r)}"

definition region_ok :: "region \<Rightarrow> bool" where
  "region_ok r \<longleftrightarrow> snd r \<noteq> 0 \<and> unat (fst r) + unat (snd r) < 2 ^ 64"

definition take_region ::
  "range_allocator \<Rightarrow> usize \<times> usize \<Rightarrow> (region \<times> range_allocator) option" where
  "take_region ra q =
     (case range_allocate ra (fst q) (snd q) of
        Some (Some a, ra') \<Rightarrow> Some ((a, fst q), ra')
      | _ \<Rightarrow> None)"

definition give_region :: "range_allocator \<Rightarrow> region \<Rightarrow> range_allocator option" where
  "give_region ra r = Some (range_free ra (fst r) (snd r))"

definition proper_request :: "range_allocator \<Rightarrow> usize \<times> usize \<Rightarrow> bool" where
  "proper_request ra q \<longleftrightarrow> fst q \<noteq> 0 \<and> snd q \<noteq> 0 \<and> fits_space (ra_free ra) (fst q) (snd q)"

lemma free_addrs_bound: "ra_inv ra \<Longrightarrow> x \<in> free_addrs ra \<Longrightarrow> x < 2 ^ 64 - 1"
proof -
  assume "ra_inv ra" "x \<in> free_addrs ra"
  then obtain r where "range_ok r" "x < range_end r"
    by (auto simp: ra_inv_def gapped_def list_all_iff covered_def range_set_def)
  then show "x < 2 ^ 64 - 1" by (simp add: range_ok_def)
qed

interpretation ra: region_allocator ra_inv free_addrs take_region give_region "(=)"
  proper_request region_set "\<lambda>_. region_ok"
proof (unfold_locales, goal_cases)
  case (1 ra q r ra')
  then obtain a where a: "range_allocate ra (fst q) (snd q) = Some (Some a, ra')" "r = (a, fst q)"
    by (auto simp: take_region_def split: option.splits)
  have sp: "fits_space (ra_free ra) (fst q) (snd q)" and nz: "fst q \<noteq> 0"
    using 1(2) by (simp_all add: proper_request_def)
  note s = range_allocate_Some [OF 1(1) sp a(1)]
  have "0 < unat (fst q)" using nz by (simp add: unat_gt_0)
  then have "unat a + unat (fst q) - 1 \<in> free_addrs ra" using s(3) by (auto simp: subset_eq)
  then have "unat a + unat (fst q) < 2 ^ 64"
    using free_addrs_bound [OF 1(1)] by fastforce
  then show ?case using s nz a(2) by (simp add: region_set_def region_ok_def)
next
  case (2 ra q r ra' r')
  then show ?case by simp
next
  case (3 ra r)
  then show ?case
    using range_free_inv [of ra "snd r" "fst r"]
    by (simp add: give_region_def region_ok_def region_set_def)
qed auto

section \<open>Properties\<close>

text \<open>C1. Virtual-range allocation is correct and complete. On a coalesced allocator and a non-empty
  request that does not run past the end of the address space, \<^verbatim>\<open>allocate\<close> returns; on success
  the address is aligned as asked, the whole interval was free, exactly that interval leaves the
  free set and the list is coalesced again; on failure nothing changed and no aligned interval of
  that size was free.\<close>

theorem range_allocate_correct:
  assumes "ra_inv ra" "align \<noteq> 0" "sz \<noteq> 0" "fits_space (ra_free ra) sz align"
  shows "\<exists>res ra'. range_allocate ra sz align = Some (res, ra') \<and> ra_inv ra' \<and>
    (case res of
       Some a \<Rightarrow> unat align dvd unat a \<and> {unat a ..< unat a + unat sz} \<subseteq> free_addrs ra
         \<and> free_addrs ra' = free_addrs ra - {unat a ..< unat a + unat sz}
     | None \<Rightarrow> ra' = ra \<and>
         (\<forall>a. unat align dvd a \<longrightarrow> \<not> {a ..< a + unat sz} \<subseteq> free_addrs ra))"
proof -
  obtain res ra' where r: "range_allocate ra sz align = Some (res, ra')"
    using range_allocate_total [OF assms(2)] by blast
  show ?thesis
  proof (cases res)
    case None
    then show ?thesis
      using r range_allocate_None [OF assms(1,4,3)] assms(1,2) by fastforce
  next
    case (Some a)
    then show ?thesis
      using r range_allocate_Some [OF assms(1,4)] by auto
  qed
qed

theorem range_allocate_correct_witness:
  "range_allocate \<lparr>ra_free = [\<lparr>r_start = 0x1800, r_length = 0x4000\<rparr>]\<rparr> 0x1000 0x1000 =
     Some (Some 0x2000, \<lparr>ra_free = [\<lparr>r_start = 0x1800, r_length = 0x800\<rparr>,
       \<lparr>r_start = 0x3000, r_length = 0x2800\<rparr>]\<rparr>)
   \<and> (\<exists>res ra'. range_allocate \<lparr>ra_free = [\<lparr>r_start = 0x1800, r_length = 0x4000\<rparr>]\<rparr> 0x1000 0x1000
        = Some (res, ra') \<and> ra_inv ra')"
proof -
  let ?ra = "\<lparr>ra_free = [\<lparr>r_start = 0x1800, r_length = 0x4000\<rparr>]\<rparr>"
  have inv: "ra_inv ?ra" by (simp add: ra_inv_def gapped_def range_ok_def range_end_def)
  have sp: "fits_space (ra_free ?ra) 0x1000 0x1000" by (simp add: fits_space_def)
  have "range_allocate ?ra 0x1000 0x1000 =
     Some (Some 0x2000, \<lparr>ra_free = [\<lparr>r_start = 0x1800, r_length = 0x800\<rparr>,
       \<lparr>r_start = 0x3000, r_length = 0x2800\<rparr>]\<rparr>)"
    by (simp add: range_allocate_def next_multiple_of_def alloc_pieces_def coalesce_def)
  then show ?thesis
    using range_allocate_correct [OF inv _ _ sp] by auto
qed

text \<open>C2. \<^verbatim>\<open>reserve\<close> claims a fixed interval exactly when the whole interval is free: it then
  removes that interval and nothing else, and otherwise the free addresses stay as they were.\<close>

theorem range_reserve_correct:
  assumes "ra_inv ra" "unat start + unat sz < 2 ^ 64" "range_reserve ra start sz = (ok, ra')"
  shows "(ok \<longleftrightarrow> {unat start ..< unat start + unat sz} \<subseteq> free_addrs ra) \<and> ra_inv ra' \<and>
    free_addrs ra' = free_addrs ra - (if ok then {unat start ..< unat start + unat sz} else {})"
  using range_reserve_inv [OF assms(1,3,2)] by blast

theorem range_reserve_correct_witness:
  "\<exists>ok ra'. range_reserve \<lparr>ra_free = [\<lparr>r_start = 0x1000, r_length = 0x4000\<rparr>]\<rparr> 0x2000 0x1000 = (ok, ra')
     \<and> ok \<and> free_addrs ra' = {0x1000 ..< 0x5000} - {0x2000 ..< 0x3000}"
proof -
  let ?ra = "\<lparr>ra_free = [\<lparr>r_start = 0x1000, r_length = 0x4000\<rparr>]\<rparr>"
  have inv: "ra_inv ?ra" by (simp add: ra_inv_def gapped_def range_ok_def range_end_def)
  have cov: "free_addrs ?ra = {0x1000 ..< 0x5000}" by (simp add: range_set_def range_end_def)
  obtain ok ra' where r: "range_reserve ?ra 0x2000 0x1000 = (ok, ra')" by force
  show ?thesis
    using range_reserve_correct [OF inv _ r] r cov by auto
qed

text \<open>C3. Allocating a range and freeing it again restores the allocator itself, not only the set
  of free addresses: the coalesced list is the only one for its addresses.\<close>

theorem range_allocate_free_roundtrip:
  assumes "ra_inv ra" "sz \<noteq> 0" "fits_space (ra_free ra) sz align"
    and "range_allocate ra sz align = Some (Some a, ra')"
  shows "range_free ra' a sz = ra"
proof -
  note s = range_allocate_Some [OF assms(1,3,4)]
  have "0 < unat sz" using assms(2) by (simp add: unat_gt_0)
  then have "unat a + unat sz - 1 \<in> free_addrs ra" using s(3) by (auto simp: subset_eq)
  then have nw: "unat a + unat sz < 2 ^ 64" using free_addrs_bound [OF assms(1)] by fastforce
  have dj: "{unat a ..< unat a + unat sz} \<inter> free_addrs ra' = {}" using s(4) by blast
  note f = range_free_inv [OF s(1) assms(2) nw dj]
  have "free_addrs (range_free ra' a sz) = free_addrs ra" using f(2) s(3,4) by blast
  then show ?thesis using ra_inv_unique f(1) assms(1) by blast
qed

theorem range_allocate_free_roundtrip_witness:
  "range_free (snd (the (range_allocate
       \<lparr>ra_free = [\<lparr>r_start = 0x1800, r_length = 0x4000\<rparr>]\<rparr> 0x1000 0x1000))) 0x2000 0x1000
   = \<lparr>ra_free = [\<lparr>r_start = 0x1800, r_length = 0x4000\<rparr>]\<rparr>"
proof -
  let ?ra = "\<lparr>ra_free = [\<lparr>r_start = 0x1800, r_length = 0x4000\<rparr>]\<rparr>"
  have inv: "ra_inv ?ra" by (simp add: ra_inv_def gapped_def range_ok_def range_end_def)
  have sp: "fits_space (ra_free ?ra) 0x1000 0x1000" by (simp add: fits_space_def)
  have "\<exists>ra'. range_allocate ?ra 0x1000 0x1000 = Some (Some 0x2000, ra')"
    by (simp add: range_allocate_def next_multiple_of_def)
  then obtain ra' where r: "range_allocate ?ra 0x1000 0x1000 = Some (Some 0x2000, ra')" ..
  show ?thesis
    using range_allocate_free_roundtrip [OF inv _ sp r] r by simp
qed

text \<open>C4. In every history of allocations and releases of virtual ranges, the ranges that are held
  are pairwise disjoint and disjoint from the free ones, no address is lost, and the allocator's
  invariant holds.\<close>

theorem range_run_disjoint:
  assumes "alloc_run take_region give_region (=) proper_request ra0 ra live" "ra_inv ra0"
  shows "ra_inv ra \<and> sorted_wrt (\<lambda>r r'. region_set r \<inter> region_set r' = {}) live
    \<and> (\<Union>r \<in> set live. region_set r) \<inter> free_addrs ra = {}
    \<and> free_addrs ra \<union> (\<Union>r \<in> set live. region_set r) = free_addrs ra0"
  using ra.run_conserves [OF assms] by (simp add: ra.disjoint_regions_def)

theorem range_run_disjoint_witness:
  "\<exists>ra. alloc_run take_region give_region (=) proper_request
      \<lparr>ra_free = [\<lparr>r_start = 0x1800, r_length = 0x4000\<rparr>]\<rparr> ra [(0x2000, 0x1000)] \<and> ra_inv ra"
proof -
  let ?ra = "\<lparr>ra_free = [\<lparr>r_start = 0x1800, r_length = 0x4000\<rparr>]\<rparr>"
  have inv: "ra_inv ?ra" by (simp add: ra_inv_def gapped_def range_ok_def range_end_def)
  have "\<exists>ra'. take_region ?ra (0x1000, 0x1000) = Some ((0x2000, 0x1000), ra')"
    by (simp add: take_region_def range_allocate_def next_multiple_of_def)
  then obtain ra' where t: "take_region ?ra (0x1000, 0x1000) = Some ((0x2000, 0x1000), ra')" ..
  have "proper_request ?ra (0x1000, 0x1000)" by (simp add: proper_request_def fits_space_def)
  then have "alloc_run take_region give_region (=) proper_request ?ra ra' [(0x2000, 0x1000)]"
    using t by (rule run_alloc [OF run_start])
  then show ?thesis using range_run_disjoint [OF _ inv] by blast
qed

end
