(* ===== verification/Bytes.thy ===== *)
theory Bytes
  imports Prelude
begin

text \<open>
  Little-endian encodings of machine integers, as the packed structures of the kernel have them in
  memory and on disk, with the round trip in both directions.
\<close>

primrec le_word :: "bytes \<Rightarrow> 'a::len word" where
  "le_word [] = 0"
| "le_word (b # bs) = ucast b OR push_bit 8 (le_word bs)"

primrec le_bytes :: "nat \<Rightarrow> 'a::len word \<Rightarrow> bytes" where
  "le_bytes 0 w = []"
| "le_bytes (Suc n) w = ucast w # le_bytes n (drop_bit 8 w)"

named_theorems bytes_simps \<open>reading and writing encodings\<close>

lemma length_le_bytes [simp]: "length (le_bytes n w) = n"
  by (induction n arbitrary: w) simp_all

lemma bit_le_word:
  "bit (le_word bs :: 'a::len word) i \<longleftrightarrow>
     i < LENGTH('a) \<and> i div 8 < length bs \<and> bit (bs ! (i div 8)) (i mod 8)"
proof (induction bs arbitrary: i)
  case Nil
  show ?case by simp
next
  case (Cons b bs)
  show ?case
  proof (cases "i < 8")
    case True
    then show ?thesis by (auto simp: bit_or_iff bit_push_bit_iff bit_ucast_iff)
  next
    case False
    then have "i div 8 = Suc ((i - 8) div 8)" and "i mod 8 = (i - 8) mod 8"
      by (simp_all add: le_div_geq le_mod_geq)
    moreover have "\<not> bit b i" using False by (simp add: bit_word.rep_eq)
    moreover have "(i - 8) < LENGTH('a)" if "i < LENGTH('a)" using that by simp
    ultimately show ?thesis
      using False by (auto simp: bit_or_iff bit_push_bit_iff bit_ucast_iff Cons)
  qed
qed

lemma le_bytes_nth:
  "k < n \<Longrightarrow> le_bytes n w ! k = ucast (drop_bit (8 * k) w)"
proof (induction n arbitrary: w k)
  case 0
  then show ?case by simp
next
  case (Suc n)
  then show ?case by (cases k) (simp_all add: drop_bit_drop_bit ac_simps)
qed

lemma le_word_le_bytes:
  assumes "LENGTH('a) \<le> 8 * n"
  shows "le_word (le_bytes n w) = (w :: 'a::len word)"
proof (rule bit_word_eqI)
  fix i assume i: "i < LENGTH('a)"
  then have "i div 8 < n" using assms by (simp add: less_mult_imp_div_less mult.commute)
  moreover have "8 * (i div 8) + i mod 8 = i" by simp
  ultimately show "bit (le_word (le_bytes n w) :: 'a word) i = bit w i"
    using i by (simp add: bit_le_word le_bytes_nth bit_ucast_iff bit_drop_bit_eq)
qed

lemma le_bytes_le_word:
  assumes "8 * length bs \<le> LENGTH('a)"
  shows "le_bytes (length bs) (le_word bs :: 'a::len word) = bs"
proof (rule nth_equalityI)
  show "length (le_bytes (length bs) (le_word bs :: 'a word)) = length bs" by simp
next
  fix k assume "k < length (le_bytes (length bs) (le_word bs :: 'a word))"
  then have k: "k < length bs" by simp
  have "ucast (drop_bit (8 * k) (le_word bs :: 'a word)) = bs ! k"
  proof (rule bit_word_eqI)
    fix i assume "i < LENGTH(8)"
    then have i: "i < 8" by simp
    then have "8 * k + i < 8 * Suc k" by simp
    also have "\<dots> \<le> 8 * length bs" using k by (simp only: mult_le_mono2 Suc_leI)
    finally have "8 * k + i < LENGTH('a)" using assms by simp
    with i k show "bit (ucast (drop_bit (8 * k) (le_word bs :: 'a word)) :: u8) i = bit (bs ! k) i"
      by (simp add: bit_ucast_iff bit_drop_bit_eq bit_le_word)
  qed
  with k show "le_bytes (length bs) (le_word bs :: 'a word) ! k = bs ! k"
    by (simp add: le_bytes_nth)
qed

lemma le_word_inject:
  assumes "length as = length bs" and "8 * length bs \<le> LENGTH('a)"
    and "le_word as = (le_word bs :: 'a::len word)"
  shows "as = bs"
  using assms le_bytes_le_word [where 'a = 'a] by metis

lemma le_bytes_inject:
  assumes "LENGTH('a) \<le> 8 * n"
  shows "le_bytes n v = le_bytes n w \<longleftrightarrow> v = (w :: 'a::len word)"
  using assms le_word_le_bytes by metis

lemma le_word_small:
  assumes "8 * length bs < LENGTH('a)"
  shows "unat (le_word bs :: 'a::len word) < 2 ^ (8 * length bs)"
proof -
  have "take_bit (8 * length bs) (le_word bs :: 'a word) = le_word bs"
    by (rule bit_word_eqI) (auto simp: bit_take_bit_iff bit_le_word)
  then show ?thesis
    by (metis take_bit_nat_less_exp unsigned_take_bit_eq)
qed

lemma le_bytes_append:
  "le_bytes (m + n) w = le_bytes m w @ le_bytes n (drop_bit (8 * m) w)"
  by (induction m arbitrary: w) (simp_all add: drop_bit_drop_bit ac_simps)

text \<open>Arrays of fixed-size elements: the concatenation of their encodings, and its chunks.\<close>

fun chunks :: "nat \<Rightarrow> 'a list \<Rightarrow> 'a list list" where
  "chunks n xs = (if n = 0 \<or> xs = [] then [] else take n xs # chunks n (drop n xs))"

declare chunks.simps [simp del]

lemma chunks_concat:
  assumes "0 < n" and "\<forall>x \<in> set xss. length x = n"
  shows "chunks n (concat xss) = xss"
  using assms(2)
proof (induction xss)
  case Nil
  show ?case by (simp add: chunks.simps)
next
  case (Cons x xss)
  then have "x \<noteq> []" using assms(1) by auto
  with Cons show ?case using assms(1) by (simp add: chunks.simps [of n "x @ _"])
qed

lemma concat_chunks: "0 < n \<Longrightarrow> concat (chunks n xs) = xs"
  by (induction n xs rule: chunks.induct) (subst chunks.simps, auto)

lemma chunks_length:
  "length xs = k * n \<Longrightarrow> 0 < n \<Longrightarrow> length (chunks n xs) = k"
proof (induction k arbitrary: xs)
  case 0
  then show ?case by (simp add: chunks.simps)
next
  case (Suc k)
  then have "xs \<noteq> []" by auto
  moreover have "length (chunks n (drop n xs)) = k" using Suc by simp
  ultimately show ?case using Suc.prems by (simp add: chunks.simps [of n xs])
qed

lemma chunks_in_length:
  "length xs = k * n \<Longrightarrow> 0 < n \<Longrightarrow> x \<in> set (chunks n xs) \<Longrightarrow> length x = n"
proof (induction k arbitrary: xs)
  case 0
  then show ?case by (simp add: chunks.simps)
next
  case (Suc k)
  then show ?case
    using Suc.IH [of "drop n xs"] by (auto simp: chunks.simps [of n xs] split: if_splits)
qed

lemma chunks_nth:
  "length xs = k * n \<Longrightarrow> 0 < n \<Longrightarrow> i < k \<Longrightarrow> chunks n xs ! i = take n (drop (i * n) xs)"
proof (induction k arbitrary: xs i)
  case 0
  then show ?case by simp
next
  case (Suc k)
  then have "xs \<noteq> []" by auto
  moreover have "chunks n (drop n xs) ! j = take n (drop (j * n) (drop n xs))" if "j < k" for j
    using Suc that by simp
  ultimately show ?case using Suc.prems by (cases i) (simp_all add: chunks.simps [of n xs] ac_simps)
qed

lemma length_chunks: "0 < n \<Longrightarrow> length (chunks n xs) = (length xs + n - 1) div n"
proof (induction n xs rule: chunks.induct)
  case (1 n xs)
  show ?case
  proof (cases "xs = []")
    case True
    then show ?thesis using 1(2) by (simp add: chunks.simps)
  next
    case False
    then have l: "0 < length xs" by simp
    have "length (chunks n xs) = Suc ((length xs - n + n - 1) div n)"
      using 1 False by (simp add: chunks.simps [of n xs])
    also have "\<dots> = (length xs + n - 1) div n"
    proof (cases "n \<le> length xs")
      case True
      then have "length xs + n - 1 = (length xs - n + n - 1) + n" using l by simp
      then show ?thesis using 1(2) by (metis div_add_self2 add.commute plus_1_eq_Suc less_irrefl)
    next
      case le: False
      then have "(length xs + n - 1) div n = Suc ((length xs - 1) div n)"
        using 1(2) l by (metis Suc_diff_1 add_Suc div_add_self2 less_irrefl plus_1_eq_Suc add.commute diff_Suc_1)
      then show ?thesis using le l by simp
    qed
    finally show ?thesis .
  qed
qed

lemma nth_chunks: "0 < n \<Longrightarrow> i < length (chunks n xs) \<Longrightarrow> chunks n xs ! i = take n (drop (i * n) xs)"
proof (induction n xs arbitrary: i rule: chunks.induct)
  case (1 n xs)
  then have ne: "xs \<noteq> []" by (auto simp: chunks.simps)
  show ?case
  proof (cases i)
    case 0
    then show ?thesis using 1(2) ne by (simp add: chunks.simps [of n xs])
  next
    case (Suc j)
    then show ?thesis using 1 ne by (simp add: chunks.simps [of n xs] add.commute)
  qed
qed

end
