(* ===== verification/Memory.thy ===== *)
theory Memory
  imports Bytes
begin

text \<open>
  The machine's memory as the allocators see it: a byte at every 64-bit address, read and written
  through raw pointers as little-endian integers. The free lists of the allocators live in the
  memory they manage, so this theory also has the predicate for a linked list in memory and the
  frame rules for it.
\<close>

section \<open>Loads and stores\<close>

type_synonym mem = "u64 \<Rightarrow> u8"

definition rd_bytes :: "mem \<Rightarrow> u64 \<Rightarrow> nat \<Rightarrow> bytes" where
  "rd_bytes m p n = map (\<lambda>i. m (p + word_of_nat i)) [0..<n]"

definition wr_bytes :: "mem \<Rightarrow> u64 \<Rightarrow> bytes \<Rightarrow> mem" where
  "wr_bytes m p bs = (\<lambda>a. if unat (a - p) < length bs then bs ! unat (a - p) else m a)"

definition rd64 :: "mem \<Rightarrow> u64 \<Rightarrow> u64" where
  "rd64 m p = le_word (rd_bytes m p 8)"

definition wr64 :: "mem \<Rightarrow> u64 \<Rightarrow> u64 \<Rightarrow> mem" where
  "wr64 m p v = wr_bytes m p (le_bytes 8 v)"

definition rd32 :: "mem \<Rightarrow> u64 \<Rightarrow> u32" where
  "rd32 m p = le_word (rd_bytes m p 4)"

definition wr32 :: "mem \<Rightarrow> u64 \<Rightarrow> u32 \<Rightarrow> mem" where
  "wr32 m p v = wr_bytes m p (le_bytes 4 v)"

lemma length_rd_bytes [simp]: "length (rd_bytes m p n) = n"
  by (simp add: rd_bytes_def)

lemma rd_wr_bytes_same:
  assumes "length bs < 2 ^ 64"
  shows "rd_bytes (wr_bytes m p bs) p (length bs) = bs"
proof (rule nth_equalityI)
  fix i assume "i < length (rd_bytes (wr_bytes m p bs) p (length bs))"
  then have i: "i < length bs" by simp
  then have "unat (word_of_nat i :: u64) = i" using assms by (simp add: unat_of_nat)
  then show "rd_bytes (wr_bytes m p bs) p (length bs) ! i = bs ! i"
    using i by (simp add: rd_bytes_def wr_bytes_def)
qed simp

lemma rd64_wr64_same [simp]: "rd64 (wr64 m p v) p = v"
  using rd_wr_bytes_same [of "le_bytes 8 v" m p] by (simp add: rd64_def wr64_def le_word_le_bytes)

lemma rd32_wr32_same [simp]: "rd32 (wr32 m p v) p = v"
  using rd_wr_bytes_same [of "le_bytes 4 v" m p] by (simp add: rd32_def wr32_def le_word_le_bytes)

section \<open>What an access touches\<close>

definition span :: "u64 \<Rightarrow> nat \<Rightarrow> nat set" where
  "span p n = {unat p ..< unat p + n}"

definition same_on :: "nat set \<Rightarrow> mem \<Rightarrow> mem \<Rightarrow> bool" where
  "same_on S m m' \<longleftrightarrow> (\<forall>a. unat a \<in> S \<longrightarrow> m' a = m a)"

lemma same_on_refl [simp]: "same_on S m m"
  by (simp add: same_on_def)

lemma same_on_trans: "same_on S m m' \<Longrightarrow> same_on S m' m'' \<Longrightarrow> same_on S m m''"
  by (simp add: same_on_def)

lemma same_on_mono: "same_on S m m' \<Longrightarrow> T \<subseteq> S \<Longrightarrow> same_on T m m'"
  by (auto simp: same_on_def)

lemma unat_offset:
  assumes "unat p + i < 2 ^ 64"
  shows "unat (p + word_of_nat i :: u64) = unat p + i"
  using assms by (simp add: unat_word_ariths unat_of_nat)

lemma rd_bytes_same_on:
  assumes "same_on S m m'" "span p n \<subseteq> S" "unat p + n \<le> 2 ^ 64"
  shows "rd_bytes m' p n = rd_bytes m p n"
proof (rule nth_equalityI)
  fix i assume "i < length (rd_bytes m' p n)"
  then have i: "i < n" by simp
  then have "unat (p + word_of_nat i) = unat p + i" using assms(3) by (intro unat_offset) simp
  then have "unat (p + word_of_nat i) \<in> S" using assms(2) i by (auto simp: span_def)
  then show "rd_bytes m' p n ! i = rd_bytes m p n ! i"
    using assms(1) i by (simp add: rd_bytes_def same_on_def)
qed simp

lemma wr_bytes_same_on:
  assumes "S \<inter> span p (length bs) = {}" "unat p + length bs \<le> 2 ^ 64"
  shows "same_on S m (wr_bytes m p bs)"
  unfolding same_on_def
proof (intro allI impI)
  fix a :: u64 assume a: "unat a \<in> S"
  have "\<not> unat (a - p) < length bs"
  proof
    assume lt: "unat (a - p) < length bs"
    have "unat (p + (a - p)) = unat p + unat (a - p)"
      using lt assms(2) by (intro unat_add_nowrap) simp
    then have "unat a = unat p + unat (a - p)" by simp
    then show False using a lt assms(1) by (auto simp: span_def)
  qed
  then show "wr_bytes m p bs a = m a" by (simp add: wr_bytes_def)
qed

lemma rd64_same_on:
  "same_on S m m' \<Longrightarrow> span p 8 \<subseteq> S \<Longrightarrow> unat p + 8 \<le> 2 ^ 64 \<Longrightarrow> rd64 m' p = rd64 m p"
  by (simp add: rd64_def rd_bytes_same_on)

lemma rd32_same_on:
  "same_on S m m' \<Longrightarrow> span p 4 \<subseteq> S \<Longrightarrow> unat p + 4 \<le> 2 ^ 64 \<Longrightarrow> rd32 m' p = rd32 m p"
  by (simp add: rd32_def rd_bytes_same_on)

lemma wr64_same_on:
  "S \<inter> span p 8 = {} \<Longrightarrow> unat p + 8 \<le> 2 ^ 64 \<Longrightarrow> same_on S m (wr64 m p v)"
  by (simp add: wr64_def wr_bytes_same_on)

lemma wr32_same_on:
  "S \<inter> span p 4 = {} \<Longrightarrow> unat p + 4 \<le> 2 ^ 64 \<Longrightarrow> same_on S m (wr32 m p v)"
  by (simp add: wr32_def wr_bytes_same_on)

section \<open>Physical memory through the direct map\<close>

text \<open>
  The allocators keep physical addresses and access them at \<open>address + offset\<close>. \<open>view off m\<close> is the
  memory indexed by physical address.
\<close>

definition view :: "u64 \<Rightarrow> mem \<Rightarrow> mem" where
  "view off m = (\<lambda>a. m (a + off))"

lemma rd_bytes_view: "rd_bytes m (p + off) n = rd_bytes (view off m) p n"
  by (simp add: rd_bytes_def view_def ac_simps)

lemma view_wr_bytes: "view off (wr_bytes m (p + off) bs) = wr_bytes (view off m) p bs"
  by (rule ext) (simp add: view_def wr_bytes_def)

lemma rd64_view: "rd64 m (p + off) = rd64 (view off m) p"
  by (simp add: rd64_def rd_bytes_view)

lemma rd32_view: "rd32 m (p + off + 8) = rd32 (view off m) (p + 8)"
  using rd_bytes_view [of m "p + 8" off 4] by (simp add: rd32_def ac_simps)

lemma view_wr64: "view off (wr64 m (p + off) v) = wr64 (view off m) p v"
  by (simp add: wr64_def view_wr_bytes)

lemma view_wr32: "view off (wr32 m (p + off + 8) v) = wr32 (view off m) (p + 8) v"
  using view_wr_bytes [of off m "p + 8"] by (simp add: wr32_def ac_simps)

lemma view_0 [simp]: "view 0 m = m"
  by (simp add: view_def)

section \<open>Linked lists in memory\<close>

text \<open>\<open>chain v h as\<close>: the list that starts at \<open>h\<close>, whose cells hold the next address in their
  first eight bytes and which ends in zero, has the cells \<open>as\<close>.\<close>

primrec chain :: "mem \<Rightarrow> u64 \<Rightarrow> u64 list \<Rightarrow> bool" where
  "chain v h [] \<longleftrightarrow> h = 0"
| "chain v h (a # as) \<longleftrightarrow> h = a \<and> a \<noteq> 0 \<and> chain v (rd64 v a) as"

lemma chain_0: "chain v 0 as \<longleftrightarrow> as = []"
  by (cases as) auto

lemma chain_unique: "chain v h as \<Longrightarrow> chain v h bs \<Longrightarrow> as = bs"
proof (induction as arbitrary: h bs)
  case Nil
  then show ?case by (simp add: chain_0)
next
  case (Cons a as)
  then show ?case by (cases bs) auto
qed

lemma chain_same_on:
  assumes "same_on S v v'" and "\<And>a. a \<in> set as \<Longrightarrow> span a 8 \<subseteq> S \<and> unat a + 8 \<le> 2 ^ 64"
  shows "chain v h as \<Longrightarrow> chain v' h as"
  using assms(2)
proof (induction as arbitrary: h)
  case Nil
  then show ?case by simp
next
  case (Cons a as)
  then have "rd64 v' a = rd64 v a" using rd64_same_on [OF assms(1)] by simp
  with Cons show ?case by simp
qed

text \<open>
  Redirecting one link: the cell \<open>p\<close> (or the head) that pointed to \<open>h\<close> now points to \<open>h'\<close>, and
  the cells behind it are replaced by those of the list at \<open>h'\<close>.
\<close>

lemma chain_relink:
  assumes "chain v h (xs @ p # ys)" and "chain v' h' zs"
    and "rd64 v' p = h'" and "\<And>x. x \<in> set xs \<Longrightarrow> rd64 v' x = rd64 v x"
  shows "chain v' h (xs @ p # zs)"
  using assms(1,4)
proof (induction xs arbitrary: h)
  case Nil
  then show ?case using assms(2,3) by simp
next
  case (Cons x xs)
  then show ?case by simp
qed

lemma chain_tail:
  "chain v h (xs @ p # ys) \<Longrightarrow> chain v (rd64 v p) ys"
  by (induction xs arbitrary: h) (simp, fastforce)

end
