(* ===== verification/Buddy.thy ===== *)
theory Buddy
  imports Memory
begin

text \<open>
  The page slab (\<^verbatim>\<open>allocators/slab.rs\<close>) and the buddy allocator (\<^verbatim>\<open>allocators/buddy.rs\<close>) over the
  memory they manage. An operation takes the allocator and the memory and returns its result with
  both; \<^term>\<open>None\<close> is a panic, or a walk along a free list that never ends.

  \<^verbatim>\<open>VirtAddr::new\<close> of the x86\_64 crate is the argument \<open>vn\<close>: it yields the address as a pointer, or
  panics where the address is not canonical.
\<close>

section \<open>The page slab\<close>

record block_info =
  phys_base :: u64
  total_blocks :: u32
  allocated_blocks :: u32
  free_list :: u64
  used :: bool

record page_slab =
  slab_table :: "block_info list"
  block_count :: nat
  slab_offset :: u64
  slab_block_size :: u64

definition slab_new :: "nat \<Rightarrow> u64 \<Rightarrow> page_slab" where
  "slab_new max_blocks bsize =
     \<lparr>slab_table = replicate max_blocks
        \<lparr>phys_base = 0, total_blocks = 0, allocated_blocks = 0, free_list = 0, used = False\<rparr>,
      block_count = 0, slab_offset = 0, slab_block_size = bsize\<rparr>"

definition slab_set_offset :: "u64 \<Rightarrow> page_slab \<Rightarrow> page_slab" where
  "slab_set_offset off s = s\<lparr>slab_offset := off\<rparr>"

text \<open>The bounds check of an index into the table.\<close>

definition slab_at :: "page_slab \<Rightarrow> nat \<Rightarrow> block_info option" where
  "slab_at s i = (if i < length (slab_table s) then Some (slab_table s ! i) else None)"

definition slab_upd :: "nat \<Rightarrow> (block_info \<Rightarrow> block_info) \<Rightarrow> page_slab \<Rightarrow> page_slab" where
  "slab_upd i f s = s\<lparr>slab_table := (slab_table s)[i := f (slab_table s ! i)]\<rparr>"

text \<open>A \<^verbatim>\<open>FreeRange\<close> at a pointer: the link in the first eight bytes, the count in the next four.\<close>

definition wr_free_range :: "mem \<Rightarrow> u64 \<Rightarrow> u64 \<Rightarrow> u32 \<Rightarrow> mem" where
  "wr_free_range m p nxt cnt = wr32 (wr64 m p nxt) (p + 8) cnt"

text \<open>The pointer \<^verbatim>\<open>prev_field\<close> of the list walks: the field of the allocator that heads the list, or
  a cell in memory.\<close>

datatype link = Head | Cell u64

text \<open>What the walk of \<^verbatim>\<open>alloc_in_block\<close> does at the first range that is large enough: unlink it, or
  leave its tail behind as a smaller range.\<close>

definition slab_take ::
  "(u64 \<Rightarrow> u64 option) \<Rightarrow> page_slab \<Rightarrow> mem \<Rightarrow> nat \<Rightarrow> usize \<Rightarrow> link \<Rightarrow> u64 \<Rightarrow> u32 \<Rightarrow> u64
    \<Rightarrow> (u64 option \<times> page_slab \<times> mem) option" where
  "slab_take vn s m idx cnt prev_field current rcount rnext = do {
     (tgt, m1) \<leftarrow>
       (if ucast rcount = cnt then Some (rnext, m)
        else do {
          let split = current + cnt * slab_block_size s;
          q \<leftarrow> vn (split + slab_offset s);
          Some (split, wr_free_range m q rnext (rcount - ucast cnt)) });
     let (s2, m2) = (case prev_field of
         Head \<Rightarrow> (slab_upd idx (\<lambda>b. b\<lparr>free_list := tgt\<rparr>) s, m1)
       | Cell c \<Rightarrow> (s, wr64 m1 c tgt));
     Some (Some current,
       slab_upd idx (\<lambda>b. b\<lparr>allocated_blocks := allocated_blocks b + ucast cnt\<rparr>) s2, m2) }"

partial_function (option) alloc_in_block_loop ::
  "(u64 \<Rightarrow> u64 option) \<Rightarrow> page_slab \<Rightarrow> mem \<Rightarrow> nat \<Rightarrow> usize \<Rightarrow> link \<Rightarrow> u64
    \<Rightarrow> (u64 option \<times> page_slab \<times> mem) option" where
  "alloc_in_block_loop vn s m idx cnt prev_field current =
    (if current = 0 then Some (None, s, m)
     else do {
       p \<leftarrow> vn (current + slab_offset s);
       let rcount = rd32 m (p + 8);
       let rnext = rd64 m p;
       if cnt \<le> ucast rcount then slab_take vn s m idx cnt prev_field current rcount rnext
       else alloc_in_block_loop vn s m idx cnt (Cell p) rnext })"

definition alloc_in_block ::
  "(u64 \<Rightarrow> u64 option) \<Rightarrow> page_slab \<Rightarrow> mem \<Rightarrow> nat \<Rightarrow> usize \<Rightarrow> (u64 option \<times> page_slab \<times> mem) option"
where
  "alloc_in_block vn s m idx cnt = do {
     b \<leftarrow> slab_at s idx;
     alloc_in_block_loop vn s m idx cnt Head (free_list b) }"

primrec slab_allocate_from ::
  "(u64 \<Rightarrow> u64 option) \<Rightarrow> page_slab \<Rightarrow> mem \<Rightarrow> usize \<Rightarrow> nat list \<Rightarrow> (u64 option \<times> page_slab \<times> mem) option"
where
  "slab_allocate_from vn s m cnt [] = Some (None, s, m)"
| "slab_allocate_from vn s m cnt (i # is) = do {
     b \<leftarrow> slab_at s i;
     if \<not> used b then slab_allocate_from vn s m cnt is
     else do {
       (r, s', m') \<leftarrow> alloc_in_block vn s m i cnt;
       case r of Some addr \<Rightarrow> Some (Some addr, s', m')
       | None \<Rightarrow> slab_allocate_from vn s' m' cnt is } }"

definition slab_allocate ::
  "(u64 \<Rightarrow> u64 option) \<Rightarrow> page_slab \<Rightarrow> mem \<Rightarrow> usize \<Rightarrow> (u64 option \<times> page_slab \<times> mem) option"
where
  "slab_allocate vn s m cnt = slab_allocate_from vn s m cnt [0..<block_count s]"

primrec find_block_from :: "page_slab \<Rightarrow> u64 \<Rightarrow> nat list \<Rightarrow> nat option option" where
  "find_block_from s addr [] = Some None"
| "find_block_from s addr (i # is) = do {
     b \<leftarrow> slab_at s i;
     if \<not> used b then find_block_from s addr is
     else do {
       let fin = phys_base b + ucast (total_blocks b) * slab_block_size s;
       if phys_base b \<le> addr \<and> addr < fin then Some (Some i) else find_block_from s addr is } }"

definition find_block :: "page_slab \<Rightarrow> u64 \<Rightarrow> nat option option" where
  "find_block s addr = find_block_from s addr [0..<block_count s]"

definition owns :: "page_slab \<Rightarrow> u64 \<Rightarrow> bool option" where
  "owns s addr = map_option (\<lambda>r. r \<noteq> None) (find_block s addr)"

definition slab_free ::
  "(u64 \<Rightarrow> u64 option) \<Rightarrow> page_slab \<Rightarrow> mem \<Rightarrow> u64 \<Rightarrow> usize
    \<Rightarrow> ((u64 \<times> u32) option \<times> page_slab \<times> mem) option"
where
  "slab_free vn s m addr cnt = do {
     found \<leftarrow> find_block s addr;
     case found of None \<Rightarrow> Some (None, s, m)
     | Some idx \<Rightarrow> do {
         b \<leftarrow> slab_at s idx;
         p \<leftarrow> vn (addr + slab_offset s);
         let m1 = wr_free_range m p (free_list b) (ucast cnt);
         let s1 = slab_upd idx (\<lambda>b. b\<lparr>free_list := addr\<rparr>) s;
         case checked_sub (allocated_blocks b) (ucast cnt) of
           None \<Rightarrow> Some (None, s1, m1)
         | Some rem \<Rightarrow>
             let s2 = slab_upd idx (\<lambda>b. b\<lparr>allocated_blocks := rem\<rparr>) s1
             in if rem \<noteq> 0 then Some (None, s2, m1)
                else Some (Some (phys_base b, total_blocks b),
                           slab_upd idx (\<lambda>b. b\<lparr>used := False\<rparr>) s2, m1) } }"

text \<open>The first unused entry of the table, or a fresh one.\<close>

definition slab_position :: "page_slab \<Rightarrow> nat option" where
  "slab_position s = find (\<lambda>i. \<not> used (slab_table s ! i)) [0..<block_count s]"

definition add_block ::
  "(u64 \<Rightarrow> u64 option) \<Rightarrow> page_slab \<Rightarrow> mem \<Rightarrow> u64 \<Rightarrow> u32 \<Rightarrow> (bool \<times> page_slab \<times> mem) option"
where
  "add_block vn s m base tot =
     (if length (slab_table s) < block_count s then None
      else case (case slab_position s of
               Some i \<Rightarrow> Some (i, s)
             | None \<Rightarrow> if block_count s < length (slab_table s)
                 then Some (block_count s, s\<lparr>block_count := block_count s + 1\<rparr>) else None) of
        None \<Rightarrow> Some (False, s, m)
      | Some (idx, s1) \<Rightarrow> do {
          let s2 = slab_upd idx (\<lambda>_. \<lparr>phys_base = base, total_blocks = tot, allocated_blocks = 0,
                                      free_list = 0, used = True\<rparr>) s1;
          p \<leftarrow> vn (base + slab_offset s2);
          let m1 = wr_free_range m p 0 tot;
          Some (True, slab_upd idx (\<lambda>b. b\<lparr>free_list := base\<rparr>) s2, m1) })"

section \<open>The buddy allocator\<close>

text \<open>The const generics of \<^verbatim>\<open>BuddyAllocator\<close>.\<close>

record buddy_cfg =
  MIN_ORDER :: nat
  ORDER_COUNT :: nat
  SLAB_BLOCKS :: nat
  HAS_SLAB :: bool

record buddy =
  heads :: "u64 list"
  buddy_offset :: u64
  slab :: page_slab

text \<open>\<^verbatim>\<open>1 << n\<close> on a \<^verbatim>\<open>usize\<close> takes the shift amount modulo the width.\<close>

definition shl64 :: "u64 \<Rightarrow> nat \<Rightarrow> u64" where
  "shl64 x n = push_bit (n mod 64) x"

definition block_size :: "buddy_cfg \<Rightarrow> nat \<Rightarrow> usize" where
  "block_size cfg order = shl64 1 (order + MIN_ORDER cfg)"

definition max_order :: "buddy_cfg \<Rightarrow> nat" where
  "max_order cfg = ORDER_COUNT cfg - 1"

definition buddy_new :: "buddy_cfg \<Rightarrow> buddy" where
  "buddy_new cfg = \<lparr>heads = replicate (ORDER_COUNT cfg) 0, buddy_offset = 0,
     slab = slab_new (SLAB_BLOCKS cfg) (shl64 1 (MIN_ORDER cfg))\<rparr>"

definition buddy_set_offset :: "u64 \<Rightarrow> buddy \<Rightarrow> buddy" where
  "buddy_set_offset off b = b\<lparr>buddy_offset := off, slab := slab_set_offset off (slab b)\<rparr>"

definition buddy_ptr :: "(u64 \<Rightarrow> u64 option) \<Rightarrow> buddy \<Rightarrow> u64 \<Rightarrow> u64 option" where
  "buddy_ptr vn b addr = vn (addr + buddy_offset b)"

definition buddy_of :: "buddy_cfg \<Rightarrow> u64 \<Rightarrow> nat \<Rightarrow> u64" where
  "buddy_of cfg addr order = addr XOR block_size cfg order"

definition head_at :: "buddy \<Rightarrow> nat \<Rightarrow> u64 option" where
  "head_at b order = (if order < length (heads b) then Some (heads b ! order) else None)"

definition push :: "(u64 \<Rightarrow> u64 option) \<Rightarrow> buddy \<Rightarrow> mem \<Rightarrow> u64 \<Rightarrow> nat \<Rightarrow> (buddy \<times> mem) option" where
  "push vn b m addr order = do {
     p \<leftarrow> buddy_ptr vn b addr;
     h \<leftarrow> head_at b order;
     let m' = wr64 m p h;
     Some (b\<lparr>heads := (heads b)[order := addr]\<rparr>, m') }"

definition pop :: "(u64 \<Rightarrow> u64 option) \<Rightarrow> buddy \<Rightarrow> mem \<Rightarrow> nat \<Rightarrow> (u64 option \<times> buddy) option" where
  "pop vn b m order = do {
     h \<leftarrow> head_at b order;
     if h = 0 then Some (None, b)
     else do {
       p \<leftarrow> buddy_ptr vn b h;
       let nxt = rd64 m p;
       Some (Some h, b\<lparr>heads := (heads b)[order := nxt]\<rparr>) } }"

partial_function (option) remove_loop ::
  "(u64 \<Rightarrow> u64 option) \<Rightarrow> buddy \<Rightarrow> mem \<Rightarrow> u64 \<Rightarrow> nat \<Rightarrow> link \<Rightarrow> u64 \<Rightarrow> (bool \<times> buddy \<times> mem) option"
where
  "remove_loop vn b m addr order prev_ptr current =
    (if current = 0 then Some (False, b, m)
     else do {
       p \<leftarrow> buddy_ptr vn b current;
       let nxt = rd64 m p;
       if current = addr then
         (case prev_ptr of
            Head \<Rightarrow> Some (True, b\<lparr>heads := (heads b)[order := nxt]\<rparr>, m)
          | Cell c \<Rightarrow> Some (True, b, wr64 m c nxt))
       else remove_loop vn b m addr order (Cell p) nxt })"

definition remove :: "(u64 \<Rightarrow> u64 option) \<Rightarrow> buddy \<Rightarrow> mem \<Rightarrow> u64 \<Rightarrow> nat \<Rightarrow> (bool \<times> buddy \<times> mem) option"
where
  "remove vn b m addr order = do {
     h \<leftarrow> head_at b order;
     remove_loop vn b m addr order Head h }"

text \<open>The search of \<^verbatim>\<open>alloc\<close> for an order whose free list is not empty.\<close>

function find_order :: "buddy_cfg \<Rightarrow> buddy \<Rightarrow> nat \<Rightarrow> nat option option" where
  "find_order cfg b found =
    (if found > max_order cfg then Some None
     else do {
       h \<leftarrow> head_at b found;
       if h \<noteq> 0 then Some (Some found) else find_order cfg b (found + 1) })"
  by pat_completeness auto

termination
  by (relation "measure (\<lambda>(cfg, b, found). Suc (max_order cfg) - found)") auto

declare find_order.simps [simp del]

text \<open>The splitting loop: \<open>found\<close> counts down to \<open>order\<close>.\<close>

fun split_loop ::
  "buddy_cfg \<Rightarrow> (u64 \<Rightarrow> u64 option) \<Rightarrow> buddy \<Rightarrow> mem \<Rightarrow> u64 \<Rightarrow> nat \<Rightarrow> nat \<Rightarrow> (buddy \<times> mem) option" where
  "split_loop cfg vn b m block order 0 = Some (b, m)"
| "split_loop cfg vn b m block order (Suc found) =
    (if Suc found > order then do {
       let buddy = block + block_size cfg found;
       (b', m') \<leftarrow> push vn b m buddy found;
       split_loop cfg vn b' m' block order found }
     else Some (b, m))"

definition buddy_alloc ::
  "buddy_cfg \<Rightarrow> (u64 \<Rightarrow> u64 option) \<Rightarrow> buddy \<Rightarrow> mem \<Rightarrow> nat \<Rightarrow> (u64 option \<times> buddy \<times> mem) option" where
  "buddy_alloc cfg vn b m order =
    (if order > max_order cfg then Some (None, b, m)
     else do {
       f \<leftarrow> find_order cfg b order;
       case f of None \<Rightarrow> Some (None, b, m)
       | Some found \<Rightarrow> do {
           (r, b1) \<leftarrow> pop vn b m found;
           case r of None \<Rightarrow> Some (None, b1, m)
           | Some block \<Rightarrow> do {
               (b2, m2) \<leftarrow> split_loop cfg vn b1 m block order found;
               Some (Some block, b2, m2) } } })"

text \<open>The merging loop. \<^verbatim>\<open>free_with\<close> enters it with \<open>order \<le> max_order\<close> only, so the test for
  \<^verbatim>\<open>order == max_order\<close> may as well stop above it.\<close>

function free_loop ::
  "buddy_cfg \<Rightarrow> (u64 \<Rightarrow> u64 option) \<Rightarrow> (u64 \<Rightarrow> nat \<Rightarrow> bool) \<Rightarrow> buddy \<Rightarrow> mem \<Rightarrow> u64 \<Rightarrow> nat
    \<Rightarrow> (u64 \<times> nat \<times> buddy \<times> mem) option" where
  "free_loop cfg vn can_merge b m addr order =
    (if order \<ge> max_order cfg then Some (addr, order, b, m)
     else
       let buddy = buddy_of cfg addr order
       in if \<not> can_merge buddy order then Some (addr, order, b, m)
          else do {
            (ok, b', m') \<leftarrow> remove vn b m buddy order;
            if \<not> ok then Some (addr, order, b', m')
            else free_loop cfg vn can_merge b' m' (min addr buddy) (order + 1) })"
  by pat_completeness auto

termination
  by (relation "measure (\<lambda>(cfg, vn, can_merge, b, m, addr, order). max_order cfg - order)") auto

declare free_loop.simps [simp del]

definition free_with ::
  "buddy_cfg \<Rightarrow> (u64 \<Rightarrow> u64 option) \<Rightarrow> (u64 \<Rightarrow> nat \<Rightarrow> bool) \<Rightarrow> buddy \<Rightarrow> mem \<Rightarrow> u64 \<Rightarrow> nat
    \<Rightarrow> (buddy \<times> mem) option" where
  "free_with cfg vn can_merge b m addr order =
    (if order > max_order cfg then Some (b, m)
     else do {
       (addr', order', b', m') \<leftarrow> free_loop cfg vn can_merge b m addr order;
       push vn b' m' addr' order' })"

definition buddy_free ::
  "buddy_cfg \<Rightarrow> (u64 \<Rightarrow> u64 option) \<Rightarrow> buddy \<Rightarrow> mem \<Rightarrow> u64 \<Rightarrow> nat \<Rightarrow> (buddy \<times> mem) option" where
  "buddy_free cfg vn b m addr order = free_with cfg vn (\<lambda>_ _. True) b m addr order"

text \<open>\<^verbatim>\<open>count.next_power_of_two().trailing_zeros()\<close>\<close>

definition count_order :: "usize \<Rightarrow> nat" where
  "count_order cnt = trailing_zeros (next_power_of_two cnt)"

definition alloc_range ::
  "buddy_cfg \<Rightarrow> (u64 \<Rightarrow> u64 option) \<Rightarrow> buddy \<Rightarrow> mem \<Rightarrow> usize \<Rightarrow> (u64 option \<times> buddy \<times> mem) option" where
  "alloc_range cfg vn b m cnt =
    (if HAS_SLAB cfg \<and> \<not> is_power_of_two cnt then do {
       (r, s1, m1) \<leftarrow> slab_allocate vn (slab b) m cnt;
       let b1 = b\<lparr>slab := s1\<rparr>;
       case r of Some addr \<Rightarrow> Some (Some addr, b1, m1)
       | None \<Rightarrow> do {
           let order = count_order cnt;
           (r2, b2, m2) \<leftarrow> buddy_alloc cfg vn b1 m1 order;
           case r2 of None \<Rightarrow> Some (None, b2, m2)
           | Some block \<Rightarrow> do {
               let tot = (push_bit (order mod 32) 1 :: u32);
               (ok, s3, m3) \<leftarrow> add_block vn (slab b2) m2 block tot;
               let b3 = b2\<lparr>slab := s3\<rparr>;
               if ok then do {
                 (r4, s4, m4) \<leftarrow> slab_allocate vn s3 m3 cnt;
                 Some (r4, b3\<lparr>slab := s4\<rparr>, m4) }
               else Some (Some block, b3, m3) } } }
     else buddy_alloc cfg vn b m (count_order cnt))"

definition free_range ::
  "buddy_cfg \<Rightarrow> (u64 \<Rightarrow> u64 option) \<Rightarrow> buddy \<Rightarrow> mem \<Rightarrow> u64 \<Rightarrow> usize \<Rightarrow> (buddy \<times> mem) option" where
  "free_range cfg vn b m addr cnt =
    (if cnt = 0 then Some (b, m)
     else do {
       own \<leftarrow> (if HAS_SLAB cfg then owns (slab b) addr else Some False);
       if own then do {
         (r, s1, m1) \<leftarrow> slab_free vn (slab b) m addr cnt;
         let b1 = b\<lparr>slab := s1\<rparr>;
         case r of None \<Rightarrow> Some (b1, m1)
         | Some (base, tot) \<Rightarrow> buddy_free cfg vn b1 m1 base (trailing_zeros tot) }
       else buddy_free cfg vn b m addr (count_order cnt) })"

end
