(* ===== verification/Buddy_Inv.thy ===== *)
theory Buddy_Inv
  imports Buddy
begin

text \<open>
  The buddy allocator's free lists as lists of blocks. \<open>brel\<close> relates the allocator and the memory
  to one list of block addresses per order: the lists in memory are those, every block is aligned
  to its size and inside the managed memory \<open>U\<close>, and no two blocks overlap. Each operation is
  shown to return, to keep the relation, to take out or give back exactly the block it is about,
  and to write nowhere but in free blocks.
\<close>

section \<open>Blocks\<close>

definition cfg_ok :: "buddy_cfg \<Rightarrow> bool" where
  "cfg_ok cfg \<longleftrightarrow> 4 \<le> MIN_ORDER cfg \<and> 0 < ORDER_COUNT cfg \<and> ORDER_COUNT cfg + MIN_ORDER cfg \<le> 63
     \<and> ORDER_COUNT cfg \<le> 32"

definition bsz :: "buddy_cfg \<Rightarrow> nat \<Rightarrow> nat" where
  "bsz cfg k = 2 ^ (k + MIN_ORDER cfg)"

definition blk :: "buddy_cfg \<Rightarrow> u64 \<times> nat \<Rightarrow> nat set" where
  "blk cfg x = {unat (fst x) ..< unat (fst x) + bsz cfg (snd x)}"

text \<open>Memory an allocator may manage: neither the first nor the last byte of the address space is in
  it, and \<^verbatim>\<open>VirtAddr::new\<close> accepts the addresses at which it is mapped.\<close>

definition universe :: "(u64 \<Rightarrow> u64 option) \<Rightarrow> u64 \<Rightarrow> nat set \<Rightarrow> bool" where
  "universe vn off U \<longleftrightarrow> 0 \<notin> U \<and> 2 ^ 64 - 1 \<notin> U \<and> (\<forall>a. unat a \<in> U \<longrightarrow> vn (a + off) = Some (a + off))"

definition block_ok :: "buddy_cfg \<Rightarrow> nat set \<Rightarrow> u64 \<times> nat \<Rightarrow> bool" where
  "block_ok cfg U x \<longleftrightarrow>
     snd x < ORDER_COUNT cfg \<and> bsz cfg (snd x) dvd unat (fst x) \<and> blk cfg x \<subseteq> U"

definition free_blocks :: "u64 list list \<Rightarrow> (u64 \<times> nat) set" where
  "free_blocks fls = {(a, k). k < length fls \<and> a \<in> set (fls ! k)}"

definition avail_set :: "buddy_cfg \<Rightarrow> u64 list list \<Rightarrow> nat set" where
  "avail_set cfg fls = (\<Union>x \<in> free_blocks fls. blk cfg x)"

definition lists_ok :: "buddy_cfg \<Rightarrow> nat set \<Rightarrow> u64 list list \<Rightarrow> bool" where
  "lists_ok cfg U fls \<longleftrightarrow> length fls = ORDER_COUNT cfg \<and> (\<forall>k < ORDER_COUNT cfg. distinct (fls ! k))
     \<and> (\<forall>x \<in> free_blocks fls. block_ok cfg U x)
     \<and> pairwise (\<lambda>x y. blk cfg x \<inter> blk cfg y = {}) (free_blocks fls)"

definition brel ::
  "buddy_cfg \<Rightarrow> (u64 \<Rightarrow> u64 option) \<Rightarrow> nat set \<Rightarrow> buddy \<Rightarrow> mem \<Rightarrow> u64 list list \<Rightarrow> bool" where
  "brel cfg vn U b m fls \<longleftrightarrow> cfg_ok cfg \<and> universe vn (buddy_offset b) U
     \<and> length (heads b) = ORDER_COUNT cfg \<and> lists_ok cfg U fls
     \<and> (\<forall>k < ORDER_COUNT cfg. chain (view (buddy_offset b) m) (heads b ! k) (fls ! k))"

lemma bsz_pos [simp]: "0 < bsz cfg k"
  by (simp add: bsz_def)

lemma blk_start [simp]: "unat a \<in> blk cfg (a, k)"
  by (simp add: blk_def)

lemma bsz_Suc: "bsz cfg (Suc k) = 2 * bsz cfg k"
  by (simp add: bsz_def)

lemma bsz_ge_16: "cfg_ok cfg \<Longrightarrow> 16 \<le> bsz cfg k"
proof -
  assume "cfg_ok cfg"
  then have "(2::nat) ^ 4 \<le> 2 ^ (k + MIN_ORDER cfg)"
    by (intro power_increasing) (simp_all add: cfg_ok_def)
  then show ?thesis by (simp add: bsz_def)
qed

lemma unat_block_size:
  assumes "cfg_ok cfg" "k < ORDER_COUNT cfg"
  shows "unat (block_size cfg k) = bsz cfg k"
proof -
  have k: "k + MIN_ORDER cfg < 64" using assms by (simp add: cfg_ok_def)
  then have "block_size cfg k = 2 ^ (k + MIN_ORDER cfg)"
    by (simp add: block_size_def shl64_def push_bit_of_1)
  with k show ?thesis by (simp add: bsz_def unat_two_power)
qed

text \<open>An aligned block does not run past the end of the address space.\<close>

lemma aligned_end:
  fixes a :: u64
  assumes "2 ^ j dvd unat a" "j \<le> 64"
  shows "unat a + 2 ^ j \<le> 2 ^ 64"
proof -
  obtain q where q: "unat a = 2 ^ j * q" using assms(1) by (elim dvdE)
  have s: "(2::nat) ^ 64 = 2 ^ j * 2 ^ (64 - j)" using assms(2) by (simp flip: power_add)
  have "2 ^ j * q < 2 ^ j * 2 ^ (64 - j)" using unat_bound [of a] q s by simp
  then have "q < 2 ^ (64 - j)" by simp
  then have "2 ^ j * (q + 1) \<le> 2 ^ j * 2 ^ (64 - j)" by (intro mult_le_mono2) simp
  then show ?thesis using q s by simp
qed

lemma block_end:
  assumes "cfg_ok cfg" "block_ok cfg U (a, k)"
  shows "unat a + bsz cfg k \<le> 2 ^ 64"
  using assms aligned_end [of "k + MIN_ORDER cfg" a] by (simp add: block_ok_def bsz_def cfg_ok_def)

lemma block_nonzero: "universe vn off U \<Longrightarrow> block_ok cfg U (a, k) \<Longrightarrow> a \<noteq> 0"
  using blk_start [of a cfg k] by (auto simp: universe_def block_ok_def simp del: blk_start)

lemma block_mapped:
  "universe vn off U \<Longrightarrow> block_ok cfg U (a, k) \<Longrightarrow> vn (a + off) = Some (a + off)"
  using blk_start [of a cfg k] by (auto simp: universe_def block_ok_def simp del: blk_start)

lemma cell_in_blk: "cfg_ok cfg \<Longrightarrow> span a 8 \<subseteq> blk cfg (a, k)"
  using bsz_ge_16 [of cfg k] by (auto simp: span_def blk_def)

lemma cell_end: "cfg_ok cfg \<Longrightarrow> block_ok cfg U (a, k) \<Longrightarrow> unat a + 8 \<le> 2 ^ 64"
  using block_end [of cfg U a k] bsz_ge_16 [of cfg k] by linarith

lemma free_blocks_push:
  "k < length fls \<Longrightarrow> free_blocks (fls[k := a # fls ! k]) = insert (a, k) (free_blocks fls)"
  by (auto simp: free_blocks_def nth_list_update split: if_splits)

lemma free_blocks_remove:
  "k < length fls \<Longrightarrow> distinct (fls ! k) \<Longrightarrow>
     free_blocks (fls[k := remove1 a (fls ! k)]) = free_blocks fls - {(a, k)}"
  by (auto simp: free_blocks_def nth_list_update split: if_splits)

lemma lists_ok_push:
  assumes "lists_ok cfg U fls" "block_ok cfg U (a, k)" "blk cfg (a, k) \<inter> avail_set cfg fls = {}"
  shows "lists_ok cfg U (fls[k := a # fls ! k])"
    and "avail_set cfg (fls[k := a # fls ! k]) = avail_set cfg fls \<union> blk cfg (a, k)"
proof -
  have k: "k < length fls" "k < ORDER_COUNT cfg" using assms by (auto simp: lists_ok_def block_ok_def)
  have dj: "blk cfg (a, k) \<inter> blk cfg y = {}" if "y \<in> free_blocks fls" for y
    using assms(3) that by (auto simp: avail_set_def)
  have "a \<notin> set (fls ! k)"
  proof
    assume "a \<in> set (fls ! k)"
    then have "(a, k) \<in> free_blocks fls" using k by (simp add: free_blocks_def)
    from dj [OF this] show False using blk_start [of a cfg k] by blast
  qed
  then have "distinct ((fls[k := a # fls ! k]) ! j)" if "j < ORDER_COUNT cfg" for j
    using assms(1) that k by (cases "j = k") (auto simp: lists_ok_def)
  moreover have "pairwise (\<lambda>x y. blk cfg x \<inter> blk cfg y = {}) (insert (a, k) (free_blocks fls))"
    using assms(1) dj by (auto simp: lists_ok_def pairwise_insert)
  ultimately show "lists_ok cfg U (fls[k := a # fls ! k])"
    using assms(1,2) k by (simp add: lists_ok_def free_blocks_push)
  show "avail_set cfg (fls[k := a # fls ! k]) = avail_set cfg fls \<union> blk cfg (a, k)"
    using k by (auto simp: avail_set_def free_blocks_push)
qed

lemma lists_ok_remove:
  assumes "lists_ok cfg U fls" "k < ORDER_COUNT cfg"
  shows "lists_ok cfg U (fls[k := remove1 a (fls ! k)])"
    and "a \<in> set (fls ! k) \<Longrightarrow>
      avail_set cfg (fls[k := remove1 a (fls ! k)]) = avail_set cfg fls - blk cfg (a, k)"
proof -
  have k: "k < length fls" and d: "distinct (fls ! k)" using assms by (auto simp: lists_ok_def)
  have fb: "free_blocks (fls[k := remove1 a (fls ! k)]) = free_blocks fls - {(a, k)}"
    by (rule free_blocks_remove [OF k d])
  have "distinct ((fls[k := remove1 a (fls ! k)]) ! j)" if "j < ORDER_COUNT cfg" for j
    using assms that k by (cases "j = k") (auto simp: lists_ok_def)
  moreover have "pairwise (\<lambda>x y. blk cfg x \<inter> blk cfg y = {}) (free_blocks fls - {(a, k)})"
    using assms(1) by (auto simp: lists_ok_def intro: pairwise_subset)
  ultimately show "lists_ok cfg U (fls[k := remove1 a (fls ! k)])"
    using assms(1) by (simp add: lists_ok_def fb)
  assume "a \<in> set (fls ! k)"
  then have x: "(a, k) \<in> free_blocks fls" using k by (simp add: free_blocks_def)
  have "blk cfg y \<inter> blk cfg (a, k) = {}" if "y \<in> free_blocks fls" "y \<noteq> (a, k)" for y
    using assms(1) x that by (auto simp: lists_ok_def pairwise_def)
  then show "avail_set cfg (fls[k := remove1 a (fls ! k)]) = avail_set cfg fls - blk cfg (a, k)"
    unfolding avail_set_def fb by blast
qed

text \<open>A step of the allocator that writes only inside \<open>S\<close> and leaves offset and slab alone.\<close>

definition bstep ::
  "buddy_cfg \<Rightarrow> (u64 \<Rightarrow> u64 option) \<Rightarrow> nat set \<Rightarrow> nat set \<Rightarrow> buddy \<Rightarrow> mem \<Rightarrow> buddy \<Rightarrow> mem \<Rightarrow> u64 list list
    \<Rightarrow> bool" where
  "bstep cfg vn U S b m b' m' fls' \<longleftrightarrow> brel cfg vn U b' m' fls' \<and> buddy_offset b' = buddy_offset b
     \<and> slab b' = slab b
     \<and> same_on (- S) (view (buddy_offset b) m) (view (buddy_offset b) m')"

lemma bstep_trans:
  assumes "bstep cfg vn U S b m b' m' fls'" "bstep cfg vn U T b' m' b'' m'' fls''" "T \<subseteq> S"
  shows "bstep cfg vn U S b m b'' m'' fls''"
proof -
  have "same_on (- S) (view (buddy_offset b) m') (view (buddy_offset b) m'')"
    using assms by (auto simp: bstep_def intro: same_on_mono)
  then show ?thesis using assms by (auto simp: bstep_def intro: same_on_trans)
qed

lemma bstep_refl: "brel cfg vn U b m fls \<Longrightarrow> bstep cfg vn U S b m b m fls"
  by (simp add: bstep_def)

lemma bstep_mono: "bstep cfg vn U S b m b' m' fls' \<Longrightarrow> S \<subseteq> T \<Longrightarrow> bstep cfg vn U T b m b' m' fls'"
  by (auto simp: bstep_def intro: same_on_mono)

lemma brel_block:
  assumes "brel cfg vn U b m fls" "k < ORDER_COUNT cfg" "a \<in> set (fls ! k)"
  shows "block_ok cfg U (a, k)" and "(a, k) \<in> free_blocks fls"
  using assms by (auto simp: brel_def lists_ok_def free_blocks_def)

section \<open>Pushing and popping\<close>

lemma push_step:
  assumes r: "brel cfg vn U b m fls" and ok: "block_ok cfg U (a, k)"
    and dj: "blk cfg (a, k) \<inter> avail_set cfg fls = {}"
  shows "\<exists>b' m'. push vn b m a k = Some (b', m')
    \<and> bstep cfg vn U (blk cfg (a, k)) b m b' m' (fls[k := a # fls ! k])"
proof -
  let ?off = "buddy_offset b" and ?fls = "fls[k := a # fls ! k]"
  let ?v = "view ?off m" and ?v' = "wr64 (view ?off m) a (heads b ! k)"
  have c: "cfg_ok cfg" "universe vn ?off U" "length (heads b) = ORDER_COUNT cfg" "lists_ok cfg U fls"
    "\<And>j. j < ORDER_COUNT cfg \<Longrightarrow> chain ?v (heads b ! j) (fls ! j)"
    using r by (auto simp: brel_def)
  have k: "k < ORDER_COUNT cfg" "k < length fls"
    using ok c(4) by (auto simp: block_ok_def lists_ok_def)
  have vn: "vn (a + ?off) = Some (a + ?off)" by (rule block_mapped [OF c(2) ok])
  have a0: "a \<noteq> 0" by (rule block_nonzero [OF c(2) ok])
  have frame: "same_on (- blk cfg (a, k)) ?v ?v'"
    using cell_in_blk [OF c(1)] cell_end [OF c(1) ok] by (intro wr64_same_on) auto
  have keep: "chain ?v' (heads b ! j) (fls ! j)" if j: "j < ORDER_COUNT cfg" for j
  proof (rule chain_same_on [OF frame _ c(5) [OF j]])
    fix x assume "x \<in> set (fls ! j)"
    then have x: "block_ok cfg U (x, j)" "(x, j) \<in> free_blocks fls"
      using brel_block [OF r j] by auto
    have "blk cfg (x, j) \<inter> blk cfg (a, k) = {}" using dj x(2) by (auto simp: avail_set_def)
    then show "span x 8 \<subseteq> - blk cfg (a, k) \<and> unat x + 8 \<le> 2 ^ 64"
      using cell_in_blk [OF c(1), of x j] cell_end [OF c(1) x(1)] by blast
  qed
  have "chain ?v' ((heads b)[k := a] ! j) (?fls ! j)" if "j < ORDER_COUNT cfg" for j
    using keep [OF that] that c(3) k a0 by (cases "j = k") auto
  moreover have "push vn b m a k
      = Some (b\<lparr>heads := (heads b)[k := a]\<rparr>, wr64 m (a + ?off) (heads b ! k))"
    using vn k c(3) by (simp add: push_def buddy_ptr_def head_at_def)
  moreover note lists_ok_push(1) [OF c(4) ok dj]
  ultimately show ?thesis using c frame by (simp add: bstep_def brel_def view_wr64)
qed

lemma pop_step:
  assumes r: "brel cfg vn U b m fls" and k: "k < ORDER_COUNT cfg" and hd: "fls ! k = a # as"
  shows "\<exists>b'. pop vn b m k = Some (Some a, b')
    \<and> bstep cfg vn U {} b m b' m (fls[k := remove1 a (fls ! k)])"
proof -
  let ?off = "buddy_offset b"
  have c: "cfg_ok cfg" "universe vn ?off U" "length (heads b) = ORDER_COUNT cfg" "lists_ok cfg U fls"
    "\<And>j. j < ORDER_COUNT cfg \<Longrightarrow> chain (view ?off m) (heads b ! j) (fls ! j)"
    using r by (auto simp: brel_def)
  have ok: "block_ok cfg U (a, k)" using brel_block [OF r k] hd by simp
  have vn: "vn (a + ?off) = Some (a + ?off)" by (rule block_mapped [OF c(2) ok])
  have ch: "heads b ! k = a" "a \<noteq> 0" "chain (view ?off m) (rd64 (view ?off m) a) as"
    using c(5) [OF k] hd by auto
  have "pop vn b m k = Some (Some a, b\<lparr>heads := (heads b)[k := rd64 m (a + ?off)]\<rparr>)"
    using vn k c(3) ch by (simp add: pop_def buddy_ptr_def head_at_def)
  moreover have "chain (view ?off m) ((heads b)[k := rd64 m (a + ?off)] ! j)
      (fls[k := remove1 a (fls ! k)] ! j)" if "j < ORDER_COUNT cfg" for j
    using c(3,4) c(5) [OF that] ch hd k that
    by (cases "j = k") (auto simp: rd64_view lists_ok_def)
  ultimately show ?thesis
    using c lists_ok_remove(1) [OF c(4) k] by (simp add: bstep_def brel_def)
qed

section \<open>Removing\<close>

text \<open>The link that points to \<open>addr\<close>, and the store through it.\<close>

primrec pred_link :: "u64 \<Rightarrow> link \<Rightarrow> u64 list \<Rightarrow> u64 \<Rightarrow> link" where
  "pred_link off prev [] addr = prev"
| "pred_link off prev (y # ys) addr = (if y = addr then prev else pred_link off (Cell (y + off)) ys addr)"

definition relink :: "buddy \<Rightarrow> mem \<Rightarrow> nat \<Rightarrow> link \<Rightarrow> u64 \<Rightarrow> buddy \<times> mem" where
  "relink b m order l nxt =
     (case l of Head \<Rightarrow> (b\<lparr>heads := (heads b)[order := nxt]\<rparr>, m) | Cell c \<Rightarrow> (b, wr64 m c nxt))"

lemma remove_loop_walk:
  assumes "chain (view (buddy_offset b) m) cur ys"
    and "\<And>y. y \<in> set ys \<Longrightarrow> vn (y + buddy_offset b) = Some (y + buddy_offset b)"
  shows "remove_loop vn b m addr order prev cur =
    (if addr \<in> set ys then
       Some (True, relink b m order (pred_link (buddy_offset b) prev ys addr)
         (rd64 (view (buddy_offset b) m) addr))
     else Some (False, b, m))"
  using assms
proof (induction ys arbitrary: prev cur)
  case Nil
  then show ?case by (simp add: remove_loop.simps)
next
  case (Cons y ys)
  have "remove_loop vn b m addr order prev cur =
    (if y = addr then Some (True, relink b m order prev (rd64 (view (buddy_offset b) m) y))
     else remove_loop vn b m addr order (Cell (y + buddy_offset b)) (rd64 (view (buddy_offset b) m) y))"
    using Cons.prems
    by (subst remove_loop.simps)
       (simp add: buddy_ptr_def rd64_view relink_def Let_def split: link.splits)
  with Cons show ?case by auto
qed

lemma pred_link_inner:
  "addr \<notin> set us \<Longrightarrow> addr \<noteq> p \<Longrightarrow> pred_link off prev (us @ p # addr # ws) addr = Cell (p + off)"
  by (induction us arbitrary: prev) auto

lemma remove_step:
  assumes r: "brel cfg vn U b m fls" and k: "k < ORDER_COUNT cfg"
  shows "\<exists>b' m'. remove vn b m a k = Some (a \<in> set (fls ! k), b', m')
    \<and> bstep cfg vn U (avail_set cfg fls) b m b' m' (fls[k := remove1 a (fls ! k)])"
proof -
  let ?off = "buddy_offset b" and ?fls = "fls[k := remove1 a (fls ! k)]"
  let ?v = "view ?off m"
  have c: "cfg_ok cfg" "universe vn ?off U" "length (heads b) = ORDER_COUNT cfg" "lists_ok cfg U fls"
    "\<And>j. j < ORDER_COUNT cfg \<Longrightarrow> chain ?v (heads b ! j) (fls ! j)"
    using r by (auto simp: brel_def)
  have fk: "k < length fls" and dk: "distinct (fls ! k)" using c(4) k by (auto simp: lists_ok_def)
  have "vn (y + ?off) = Some (y + ?off)" if "y \<in> set (fls ! k)" for y
    using brel_block(1) [OF r k that] block_mapped [OF c(2)] by blast
  then have rm: "remove vn b m a k =
    (if a \<in> set (fls ! k) then
       Some (True, relink b m k (pred_link ?off Head (fls ! k) a) (rd64 ?v a))
     else Some (False, b, m))"
    using k c(3) by (simp add: remove_def head_at_def remove_loop_walk [OF c(5) [OF k]])
  show ?thesis
  proof (cases "a \<in> set (fls ! k)")
    case False
    then have "?fls = fls" by (simp add: remove1_idem)
    with False rm bstep_refl [OF r] show ?thesis by simp
  next
    case True
    then obtain us ws where s: "fls ! k = us @ a # ws" by (meson split_list)
    then have nu: "a \<notin> set us" using dk by simp
    then have rem: "remove1 a (fls ! k) = us @ ws" using s by (simp add: remove1_append)
    have lok: "lists_ok cfg U ?fls" by (rule lists_ok_remove(1) [OF c(4) k])
    show ?thesis
    proof (cases us rule: rev_cases)
      case Nil
      have "pred_link ?off Head (fls ! k) a = Head" using s Nil by simp
      moreover have "chain ?v ((heads b)[k := rd64 ?v a] ! j) (?fls ! j)" if "j < ORDER_COUNT cfg" for j
        using c(3) c(5) [OF that] chain_tail [of ?v "heads b ! k" "[]" a ws] c(5) [OF k] s Nil rem fk that
        by (cases "j = k") auto
      ultimately show ?thesis using True rm c lok by (simp add: relink_def bstep_def brel_def)
    next
      case (snoc vs p)
      let ?v' = "wr64 ?v p (rd64 ?v a)"
      have lk: "pred_link ?off Head (fls ! k) a = Cell (p + ?off)"
        using s snoc nu pred_link_inner [of a vs p ?off Head ws] by simp
      have p: "p \<in> set (fls ! k)" using s snoc by simp
      note pok = brel_block [OF r k p]
      have sub: "blk cfg (p, k) \<subseteq> avail_set cfg fls" using pok(2) by (auto simp: avail_set_def)
      have frame: "same_on (- blk cfg (p, k)) ?v ?v'"
        using cell_in_blk [OF c(1)] cell_end [OF c(1) pok(1)] by (intro wr64_same_on) auto
      have other: "span x 8 \<subseteq> - blk cfg (p, k) \<and> unat x + 8 \<le> 2 ^ 64"
        if j: "j < ORDER_COUNT cfg" and x: "x \<in> set (fls ! j)" and ne: "(x, j) \<noteq> (p, k)" for x j
      proof -
        have "blk cfg (x, j) \<inter> blk cfg (p, k) = {}"
          using c(4) brel_block(2) [OF r j x] pok(2) ne by (auto simp: lists_ok_def pairwise_def)
        then show ?thesis
          using cell_in_blk [OF c(1), of x j] cell_end [OF c(1) brel_block(1) [OF r j x]] by blast
      qed
      have dist: "distinct (vs @ p # a # ws)" using dk s snoc by simp
      have ck: "chain ?v (heads b ! k) (vs @ p # a # ws)" using c(5) [OF k] s snoc by simp
      have tl: "chain ?v' (rd64 ?v a) ws"
      proof (rule chain_same_on [OF frame])
        show "chain ?v (rd64 ?v a) ws" using chain_tail [of ?v "heads b ! k" "vs @ [p]" a ws] ck by simp
        fix x assume "x \<in> set ws"
        then have "x \<in> set (fls ! k)" "(x, k) \<noteq> (p, k)" using dist s by auto
        from other [OF k this] show "span x 8 \<subseteq> - blk cfg (p, k) \<and> unat x + 8 \<le> 2 ^ 64" .
      qed
      have before: "rd64 ?v' x = rd64 ?v x" if x: "x \<in> set vs" for x
      proof -
        have "x \<in> set (fls ! k)" "(x, k) \<noteq> (p, k)" using x dist s snoc by auto
        from other [OF k this] show ?thesis using rd64_same_on [OF frame] by blast
      qed
      have chk: "chain ?v' (heads b ! k) (vs @ p # ws)"
        by (rule chain_relink [OF ck tl _ before]) simp_all
      have "chain ?v' (heads b ! j) (?fls ! j)" if j: "j < ORDER_COUNT cfg" for j
      proof (cases "j = k")
        case True
        then show ?thesis using chk rem snoc fk by simp
      next
        case False
        then have "chain ?v' (heads b ! j) (fls ! j)"
          using other [OF j] by (intro chain_same_on [OF frame _ c(5) [OF j]]) simp
        with False show ?thesis by simp
      qed
      moreover have "same_on (- avail_set cfg fls) ?v ?v'"
        using frame by (rule same_on_mono) (use sub in blast)
      ultimately show ?thesis
        using True rm lk c lok by (simp add: relink_def bstep_def brel_def view_wr64)
    qed
  qed
qed

end
