(* ===== verification/Buddy_Core.thy ===== *)
theory Buddy_Core
  imports Buddy_Inv Alloc_Spec
begin

text \<open>
  Allocation and release of one block of a given order: splitting, merging with the buddy, and the
  contract of \<open>region_allocator\<close> for them.
\<close>

section \<open>Buddies\<close>

lemma xor_two_power:
  fixes a :: u64
  assumes "2 ^ j dvd unat a" "j < 63"
  shows "unat (a XOR 2 ^ j) =
    (if odd (unat a div 2 ^ j) then unat a - 2 ^ j else unat a + 2 ^ j)"
proof -
  have b: "bit a j \<longleftrightarrow> odd (unat a div 2 ^ j)"
  proof -
    have "bit (unat a) j \<longleftrightarrow> bit a j" by (simp add: bit_unsigned_iff)
    then show ?thesis by (simp add: bit_iff_odd [of "unat a"])
  qed
  have "a XOR 2 ^ j = flip_bit j a" by (simp add: flip_bit_eq_xor push_bit_of_1)
  also have "\<dots> = (if bit a j then a - 2 ^ j else a + 2 ^ j)"
    by (simp add: flip_bit_eq_if set_bit_eq unset_bit_eq)
  finally have x: "a XOR 2 ^ j = (if bit a j then a - 2 ^ j else a + 2 ^ j)" .
  have p: "unat (2 ^ j :: u64) = 2 ^ j" using assms(2) by (simp add: unat_two_power)
  show ?thesis
  proof (cases "odd (unat a div 2 ^ j)")
    case True
    then have "unat a div 2 ^ j \<noteq> 0" by (metis even_zero)
    then have "2 ^ j \<le> unat a" by (simp add: div_eq_0_iff)
    with True x b p show ?thesis by (simp add: unat_sub_nowrap)
  next
    case False
    obtain q where q: "unat a = 2 ^ j * q" using assms(1) by (elim dvdE)
    then have "even q" using False by simp
    then obtain q' where "q = 2 * q'" by (elim evenE)
    then have "2 ^ Suc j dvd unat a" using q by simp
    then have "unat a + 2 ^ Suc j \<le> 2 ^ 64" using assms(2) by (intro aligned_end) simp_all
    moreover have "(0::nat) < 2 ^ j" by simp
    ultimately have "unat a + 2 ^ j < 2 ^ 64" unfolding power_Suc by linarith
    then have "unat (a + 2 ^ j) = unat a + 2 ^ j" using p by (simp add: unat_add_nowrap)
    with False x b show ?thesis by simp
  qed
qed

lemma buddy_cases:
  assumes c: "cfg_ok cfg" and k: "Suc k < ORDER_COUNT cfg" and al: "bsz cfg k dvd unat a"
  shows "bsz cfg k dvd unat (buddy_of cfg a k)"
    and "bsz cfg (Suc k) dvd unat (min a (buddy_of cfg a k))"
    and "blk cfg (min a (buddy_of cfg a k), Suc k) = blk cfg (a, k) \<union> blk cfg (buddy_of cfg a k, k)"
    and "blk cfg (a, k) \<inter> blk cfg (buddy_of cfg a k, k) = {}"
proof -
  define j where "j = k + MIN_ORDER cfg"
  have j: "j < 63" using c k by (simp add: j_def cfg_ok_def)
  have bs: "block_size cfg k = 2 ^ j" using j by (simp add: block_size_def shl64_def push_bit_of_1 j_def)
  have z: "bsz cfg k = 2 ^ j" "bsz cfg (Suc k) = 2 * 2 ^ j" by (simp_all add: bsz_def j_def)
  obtain q where q: "unat a = 2 ^ j * q" using al z by (auto elim: dvdE)
  let ?b = "buddy_of cfg a k"
  have b: "unat ?b = (if odd q then unat a - 2 ^ j else unat a + 2 ^ j)"
    using xor_two_power [of j a] al z j q by (simp add: buddy_of_def bs)
  have "bsz cfg k dvd unat ?b \<and> bsz cfg (Suc k) dvd unat (min a ?b) \<and>
    blk cfg (min a ?b, Suc k) = blk cfg (a, k) \<union> blk cfg (?b, k) \<and> blk cfg (a, k) \<inter> blk cfg (?b, k) = {}"
  proof (cases "odd q")
    case True
    then obtain r where r: "q = 2 * r + 1" by (elim oddE)
    then have ub: "unat ?b = 2 ^ j * (2 * r)" "unat a = unat ?b + 2 ^ j" using b q True by auto
    then have "min a ?b = ?b" by (simp add: min_def word_le_nat_alt)
    with ub z show ?thesis by (auto simp: blk_def)
  next
    case False
    then obtain r where r: "q = 2 * r" by (auto elim: evenE)
    then have ub: "unat ?b = 2 ^ j * (2 * r + 1)" "unat ?b = unat a + 2 ^ j" "unat a = 2 ^ j * (2 * r)"
      using b q False by auto
    then have "min a ?b = a" by (simp add: min_def word_le_nat_alt)
    with ub z show ?thesis by (auto simp: blk_def)
  qed
  then show "bsz cfg k dvd unat ?b" "bsz cfg (Suc k) dvd unat (min a ?b)"
    "blk cfg (min a ?b, Suc k) = blk cfg (a, k) \<union> blk cfg (?b, k)"
    "blk cfg (a, k) \<inter> blk cfg (?b, k) = {}"
    by blast+
qed

text \<open>No block and its buddy are both free: what merging maintains.\<close>

definition no_buddies :: "buddy_cfg \<Rightarrow> u64 list list \<Rightarrow> bool" where
  "no_buddies cfg fls \<longleftrightarrow> (\<forall>(a, k) \<in> free_blocks fls.
     Suc k < ORDER_COUNT cfg \<longrightarrow> (buddy_of cfg a k, k) \<notin> free_blocks fls)"

lemma buddy_of_buddy [simp]: "buddy_of cfg (buddy_of cfg a k) k = a"
  by (simp add: buddy_of_def xor.assoc)

lemma buddy_of_upper:
  assumes c: "cfg_ok cfg" and k: "Suc k < ORDER_COUNT cfg" and al: "bsz cfg (Suc k) dvd unat a"
  shows "buddy_of cfg (a + block_size cfg k) k = a"
proof -
  have b: "bsz cfg k dvd unat a" using al by (simp add: bsz_Suc dvd_mult_right)
  have j: "k + MIN_ORDER cfg < 63" using c k by (simp add: cfg_ok_def)
  then have bs: "block_size cfg k = 2 ^ (k + MIN_ORDER cfg)"
    by (simp add: block_size_def shl64_def push_bit_of_1)
  obtain q where q: "unat a = 2 * (2 ^ (k + MIN_ORDER cfg) * q)" using al by (auto simp: bsz_def elim: dvdE)
  then have "even (unat a div 2 ^ (k + MIN_ORDER cfg))" by simp
  then have x: "unat (buddy_of cfg a k) = unat a + 2 ^ (k + MIN_ORDER cfg)"
    using xor_two_power [of "k + MIN_ORDER cfg" a] b j by (simp add: buddy_of_def bs bsz_def)
  then have "unat a + 2 ^ (k + MIN_ORDER cfg) < 2 ^ 64" using unat_bound [of "buddy_of cfg a k"] by simp
  then have "unat (a + block_size cfg k) = unat a + 2 ^ (k + MIN_ORDER cfg)"
    using j by (simp add: bs unat_add_nowrap unat_two_power)
  then have "buddy_of cfg a k = a + block_size cfg k" using x by (simp add: word_eq_unat)
  then show ?thesis by (metis buddy_of_buddy)
qed

lemma no_buddies_remove:
  "no_buddies cfg fls \<Longrightarrow> free_blocks fls' \<subseteq> free_blocks fls \<Longrightarrow> no_buddies cfg fls'"
  by (fastforce simp: no_buddies_def)

lemma no_buddies_push:
  assumes "no_buddies cfg fls" "k < length fls"
    and "Suc k < ORDER_COUNT cfg \<Longrightarrow> buddy_of cfg a k \<notin> set (fls ! k)"
    and "Suc k < ORDER_COUNT cfg \<Longrightarrow> buddy_of cfg a k \<noteq> a"
  shows "no_buddies cfg (fls[k := a # fls ! k])"
  unfolding no_buddies_def free_blocks_push [OF assms(2)]
proof (clarify)
  fix x j assume x: "(x, j) \<in> insert (a, k) (free_blocks fls)" and j: "Suc j < ORDER_COUNT cfg"
    and b: "(buddy_of cfg x j, j) \<in> insert (a, k) (free_blocks fls)"
  have na: "(buddy_of cfg a k, k) \<notin> free_blocks fls" if "Suc k < ORDER_COUNT cfg"
    using assms(3) that by (simp add: free_blocks_def)
  consider "(x, j) = (a, k)" | "(x, j) \<in> free_blocks fls" "(buddy_of cfg x j, j) = (a, k)"
    | "(x, j) \<in> free_blocks fls" "(buddy_of cfg x j, j) \<in> free_blocks fls"
    using x b by blast
  then show False
  proof cases
    case 1
    then show ?thesis using b na j assms(4) by auto
  next
    case 2
    then have "x = buddy_of cfg a k" "j = k" by auto
    then show ?thesis using 2 na j by simp
  next
    case 3
    then show ?thesis using assms(1) j by (auto simp: no_buddies_def)
  qed
qed

section \<open>Allocation\<close>

lemma find_order_spec:
  assumes "brel cfg vn U b m fls"
  shows "find_order cfg b k = Some (find (\<lambda>j. fls ! j \<noteq> []) [k..<ORDER_COUNT cfg])"
proof (induction "ORDER_COUNT cfg - k" arbitrary: k)
  case 0
  then have "max_order cfg < k" using assms by (auto simp: max_order_def brel_def cfg_ok_def)
  with 0 show ?case by (simp add: find_order.simps)
next
  case (Suc n)
  then have k: "k < ORDER_COUNT cfg" by simp
  then have "chain (view (buddy_offset b) m) (heads b ! k) (fls ! k)" and l: "k < length (heads b)"
    using assms by (auto simp: brel_def)
  then have h: "heads b ! k = 0 \<longleftrightarrow> fls ! k = []" by (cases "fls ! k") auto
  have h2: "head_at b k = Some (heads b ! k)" using l by (simp add: head_at_def)
  have u: "[k..<ORDER_COUNT cfg] = k # [Suc k..<ORDER_COUNT cfg]" using k by (simp add: upt_conv_Cons)
  have "find_order cfg b (Suc k) = Some (find (\<lambda>j. fls ! j \<noteq> []) [Suc k..<ORDER_COUNT cfg])"
    using Suc by simp
  moreover have "\<not> max_order cfg < k" using k by (simp add: max_order_def)
  ultimately show ?case
    using h h2 u by (simp add: find_order.simps [of cfg b k])
qed

lemma split_step:
  assumes "brel cfg vn U b m fls" "block_ok cfg U (a, f)" "order \<le> f"
    and "blk cfg (a, f) \<inter> avail_set cfg fls = {}"
  shows "\<exists>b' m' fls'. split_loop cfg vn b m a order f = Some (b', m')
    \<and> bstep cfg vn U (blk cfg (a, f)) b m b' m' fls'
    \<and> avail_set cfg fls' = avail_set cfg fls \<union> (blk cfg (a, f) - blk cfg (a, order))
    \<and> free_blocks fls' = free_blocks fls \<union> {(a + block_size cfg j, j) | j. order \<le> j \<and> j < f}"
  using assms
proof (induction f arbitrary: b m fls)
  case 0
  then show ?case using bstep_refl [OF 0(1)] by auto
next
  case (Suc f)
  show ?case
  proof (cases "order \<le> f")
    case False
    then have "order = Suc f" using Suc.prems(3) by simp
    then show ?thesis using bstep_refl [OF Suc.prems(1)] by (auto intro!: exI [of _ fls])
  next
    case True
    have c: "cfg_ok cfg" using Suc.prems(1) by (simp add: brel_def)
    have f: "f < ORDER_COUNT cfg" "bsz cfg (Suc f) dvd unat a" using Suc.prems(2) by (auto simp: block_ok_def)
    define u where "u = a + block_size cfg f"
    have e: "unat a + bsz cfg (Suc f) \<le> 2 ^ 64" by (rule block_end [OF c Suc.prems(2)])
    have u: "unat u = unat a + bsz cfg f"
    proof -
      have "unat a + bsz cfg f < 2 ^ 64" using e bsz_pos [of cfg f] unfolding bsz_Suc by linarith
      then show ?thesis using unat_block_size [OF c f(1)] by (simp add: u_def unat_add_nowrap)
    qed
    have halves: "blk cfg (a, Suc f) = blk cfg (a, f) \<union> blk cfg (u, f)"
      "blk cfg (a, f) \<inter> blk cfg (u, f) = {}"
      using u by (auto simp: blk_def bsz_Suc)
    have da: "bsz cfg f dvd unat a" using f(2) by (simp add: bsz_Suc dvd_mult_right)
    have oka: "block_ok cfg U (a, f)" "block_ok cfg U (u, f)"
      using Suc.prems(2) da halves(1) f(1) u by (auto simp: block_ok_def)
    have dju: "blk cfg (u, f) \<inter> avail_set cfg fls = {}" using Suc.prems(4) halves(1) by blast
    obtain b1 m1 where p: "push vn b m u f = Some (b1, m1)"
      "bstep cfg vn U (blk cfg (u, f)) b m b1 m1 (fls[f := u # fls ! f])"
      using push_step [OF Suc.prems(1) oka(2) dju] by blast
    have lok: "lists_ok cfg U fls" using Suc.prems(1) by (simp add: brel_def)
    have av: "avail_set cfg (fls[f := u # fls ! f]) = avail_set cfg fls \<union> blk cfg (u, f)"
      by (rule lists_ok_push(2) [OF lok oka(2) dju])
    have "blk cfg (a, f) \<inter> avail_set cfg (fls[f := u # fls ! f]) = {}"
      using Suc.prems(4) halves av by blast
    then obtain b2 m2 fls2 where s: "split_loop cfg vn b1 m1 a order f = Some (b2, m2)"
      "bstep cfg vn U (blk cfg (a, f)) b1 m1 b2 m2 fls2"
      "avail_set cfg fls2 = avail_set cfg (fls[f := u # fls ! f]) \<union> (blk cfg (a, f) - blk cfg (a, order))"
      "free_blocks fls2 = free_blocks (fls[f := u # fls ! f]) \<union> {(a + block_size cfg j, j) | j. order \<le> j \<and> j < f}"
      using Suc.IH [of b1 m1 "fls[f := u # fls ! f]"] p(2) oka(1) True by (auto simp: bstep_def)
    have "split_loop cfg vn b m a order (Suc f) = Some (b2, m2)"
      using True p(1) s(1) by (simp add: u_def)
    moreover have "bstep cfg vn U (blk cfg (a, Suc f)) b m b2 m2 fls2"
    proof (rule bstep_trans [OF _ s(2)])
      show "bstep cfg vn U (blk cfg (a, Suc f)) b m b1 m1 (fls[f := u # fls ! f])"
        using p(2) by (rule bstep_mono) (use halves in blast)
    qed (use halves in blast)
    moreover have "blk cfg (a, order) \<subseteq> blk cfg (a, f)"
      using True by (auto simp: blk_def bsz_def intro: less_le_trans power_increasing)
    then have "avail_set cfg fls2 = avail_set cfg fls \<union> (blk cfg (a, Suc f) - blk cfg (a, order))"
      using s(3) av halves by blast
    moreover have "free_blocks fls2 = free_blocks fls \<union> {(a + block_size cfg j, j) | j. order \<le> j \<and> j < Suc f}"
    proof -
      have "f < length fls" using lok f(1) by (simp add: lists_ok_def)
      then have "free_blocks (fls[f := u # fls ! f]) = insert (u, f) (free_blocks fls)"
        by (rule free_blocks_push)
      then show ?thesis using s(4) True by (auto simp: u_def less_Suc_eq)
    qed
    ultimately show ?thesis by blast
  qed
qed

text \<open>What \<open>buddy_alloc\<close> does: the block it returns leaves the free memory, and it fails only if no
  free block is large enough.\<close>

lemma buddy_alloc_step:
  assumes r: "brel cfg vn U b m fls"
  shows "\<exists>res b' m' fls'. buddy_alloc cfg vn b m order = Some (res, b', m')
    \<and> bstep cfg vn U (avail_set cfg fls) b m b' m' fls'
    \<and> (case res of
        None \<Rightarrow> b' = b \<and> m' = m \<and> fls' = fls \<and> (\<forall>k. order \<le> k \<longrightarrow> k < ORDER_COUNT cfg \<longrightarrow> fls ! k = [])
      | Some a \<Rightarrow> block_ok cfg U (a, order) \<and> blk cfg (a, order) \<subseteq> avail_set cfg fls
          \<and> avail_set cfg fls' = avail_set cfg fls - blk cfg (a, order))
    \<and> (no_buddies cfg fls \<longrightarrow> no_buddies cfg fls')"
proof (cases "find (\<lambda>j. fls ! j \<noteq> []) [order..<ORDER_COUNT cfg]")
  case None
  have c: "cfg_ok cfg" using r by (simp add: brel_def)
  have "buddy_alloc cfg vn b m order = Some (None, b, m)"
    using None by (simp add: buddy_alloc_def find_order_spec [OF r])
  moreover have "\<forall>k. order \<le> k \<longrightarrow> k < ORDER_COUNT cfg \<longrightarrow> fls ! k = []"
    using None by (auto simp: find_None_iff)
  ultimately show ?thesis using bstep_refl [OF r] by auto
next
  case (Some f)
  then have f: "order \<le> f" "f < ORDER_COUNT cfg" "fls ! f \<noteq> []"
    by (auto simp: find_Some_iff nth_upt)
  have first: "fls ! j = []" if j: "order \<le> j" "j < f" for j
  proof -
    obtain i where i: "f = order + i" "\<And>l. l < i \<Longrightarrow> fls ! ([order..<ORDER_COUNT cfg] ! l) = []"
      using Some by (auto simp: find_Some_iff)
    have "j - order < i" using i(1) j by simp
    moreover have "[order..<ORDER_COUNT cfg] ! (j - order) = j" using j f(2) by (simp add: nth_upt)
    ultimately show ?thesis using i(2) [of "j - order"] by simp
  qed
  have c: "cfg_ok cfg" and lok: "lists_ok cfg U fls" using r by (auto simp: brel_def)
  obtain a as where fa: "fls ! f = a # as" using f(3) by (cases "fls ! f") auto
  obtain b1 where p: "pop vn b m f = Some (Some a, b1)"
    "bstep cfg vn U {} b m b1 m (fls[f := remove1 a (fls ! f)])"
    using pop_step [OF r f(2) fa] by blast
  have mem: "a \<in> set (fls ! f)" using fa by simp
  note ok = brel_block [OF r f(2) mem]
  have av: "avail_set cfg (fls[f := remove1 a (fls ! f)]) = avail_set cfg fls - blk cfg (a, f)"
    by (rule lists_ok_remove(2) [OF lok f(2) mem])
  have sub: "blk cfg (a, f) \<subseteq> avail_set cfg fls" using ok(2) by (auto simp: avail_set_def)
  obtain b2 m2 fls2 where s: "split_loop cfg vn b1 m a order f = Some (b2, m2)"
    "bstep cfg vn U (blk cfg (a, f)) b1 m b2 m2 fls2"
    "avail_set cfg fls2 = avail_set cfg (fls[f := remove1 a (fls ! f)]) \<union> (blk cfg (a, f) - blk cfg (a, order))"
    "free_blocks fls2 = free_blocks (fls[f := remove1 a (fls ! f)])
       \<union> {(a + block_size cfg j, j) | j. order \<le> j \<and> j < f}"
    using split_step [of cfg vn U b1 m "fls[f := remove1 a (fls ! f)]" a f order] p(2) ok(1) f(1) av
    by (auto simp: bstep_def)
  have sm: "blk cfg (a, order) \<subseteq> blk cfg (a, f)"
    using f(1) by (auto simp: blk_def bsz_def intro: less_le_trans power_increasing)
  have oko: "block_ok cfg U (a, order)"
  proof -
    have "bsz cfg order dvd bsz cfg f" using f(1) by (simp add: bsz_def le_imp_power_dvd)
    then have "bsz cfg order dvd unat a" using ok(1) by (auto simp: block_ok_def intro: dvd_trans)
    then show ?thesis using ok(1) sm f by (auto simp: block_ok_def)
  qed
  have "bstep cfg vn U (avail_set cfg fls) b m b2 m2 fls2"
  proof (rule bstep_trans [OF _ s(2) sub])
    show "bstep cfg vn U (avail_set cfg fls) b m b1 m (fls[f := remove1 a (fls ! f)])"
      using p(2) by (rule bstep_mono) simp
  qed
  moreover have "buddy_alloc cfg vn b m order = Some (Some a, b2, m2)"
    using f p(1) s(1) Some by (simp add: buddy_alloc_def find_order_spec [OF r] max_order_def)
  moreover have "avail_set cfg fls2 = avail_set cfg fls - blk cfg (a, order)"
    using s(3) av sub sm by blast
  moreover have "no_buddies cfg fls2" if nb: "no_buddies cfg fls"
  proof -
    have fl: "f < length fls" "distinct (fls ! f)" using lok f(2) by (simp_all add: lists_ok_def)
    have fb: "free_blocks fls2 = free_blocks fls - {(a, f)} \<union> {(a + block_size cfg j, j) | j. order \<le> j \<and> j < f}"
      using s(4) free_blocks_remove [OF fl] by simp
    have old: "(x, j) \<notin> free_blocks fls" if "order \<le> j" "j < f" for x j
      using first [OF that] by (simp add: free_blocks_def)
    have up: "buddy_of cfg (a + block_size cfg j) j = a \<and> a \<noteq> a + block_size cfg j" if "j < f" for j
    proof -
      have "bsz cfg (Suc j) dvd bsz cfg f"
        unfolding bsz_def by (rule le_imp_power_dvd) (use that in simp)
      then have "bsz cfg (Suc j) dvd unat a" using ok(1) by (auto simp: block_ok_def intro: dvd_trans)
      then have "buddy_of cfg (a + block_size cfg j) j = a" using buddy_of_upper [OF c] that f(2) by simp
      moreover have "block_size cfg j \<noteq> 0"
        using unat_block_size [OF c, of j] that f(2) by (auto simp: bsz_def)
      ultimately show ?thesis by simp
    qed
    show ?thesis
      unfolding no_buddies_def fb
    proof clarify
      fix x j assume x: "(x, j) \<in> free_blocks fls - {(a, f)} \<union> {(a + block_size cfg j, j) | j. order \<le> j \<and> j < f}"
        and j: "Suc j < ORDER_COUNT cfg"
        and b: "(buddy_of cfg x j, j) \<in> free_blocks fls - {(a, f)} \<union> {(a + block_size cfg j, j) | j. order \<le> j \<and> j < f}"
      show False
      proof (cases "order \<le> j \<and> j < f")
        case True
        then have "x = a + block_size cfg j" "buddy_of cfg x j = a + block_size cfg j"
          using x b old by auto
        then show ?thesis using up True by metis
      next
        case False
        then have "(x, j) \<in> free_blocks fls" "(buddy_of cfg x j, j) \<in> free_blocks fls" using x b by auto
        then show ?thesis using nb j by (auto simp: no_buddies_def)
      qed
    qed
  qed
  ultimately show ?thesis using oko sub sm by auto
qed

section \<open>Release\<close>

lemma free_loop_step:
  assumes "brel cfg vn U b m fls" "block_ok cfg U (a, k)" "blk cfg (a, k) \<inter> avail_set cfg fls = {}"
  shows "\<exists>a' k' b' m' fls'. free_loop cfg vn cm b m a k = Some (a', k', b', m')
    \<and> bstep cfg vn U (avail_set cfg fls) b m b' m' fls'
    \<and> block_ok cfg U (a', k') \<and> blk cfg (a', k') \<inter> avail_set cfg fls' = {}
    \<and> blk cfg (a', k') \<union> avail_set cfg fls' = blk cfg (a, k) \<union> avail_set cfg fls
    \<and> avail_set cfg fls' \<subseteq> avail_set cfg fls \<and> free_blocks fls' \<subseteq> free_blocks fls
    \<and> ((\<forall>x j. cm x j) \<longrightarrow> Suc k' < ORDER_COUNT cfg \<longrightarrow> buddy_of cfg a' k' \<notin> set (fls' ! k'))"
  using assms
proof (induction "ORDER_COUNT cfg - k" arbitrary: a k b m fls)
  case 0
  then show ?case by (simp add: block_ok_def)
next
  case (Suc n)
  note r = Suc.prems(1) and ok = Suc.prems(2) and dj = Suc.prems(3)
  have c: "cfg_ok cfg" and lok: "lists_ok cfg U fls" using r by (auto simp: brel_def)
  let ?b = "buddy_of cfg a k"
  have stop: ?case if "free_loop cfg vn cm b m a k = Some (a, k, b, m)"
    "\<not> (Suc k < ORDER_COUNT cfg \<and> cm ?b k)"
    using that ok dj bstep_refl [OF r, of "avail_set cfg fls"] by blast
  show ?case
  proof (cases "Suc k < ORDER_COUNT cfg \<and> cm ?b k \<and> ?b \<in> set (fls ! k)")
    case False
    show ?thesis
    proof (cases "Suc k < ORDER_COUNT cfg \<and> cm ?b k")
      case False
      then show ?thesis by (intro stop) (auto simp: free_loop.simps max_order_def)
    next
      case True
      with \<open>\<not> (Suc k < ORDER_COUNT cfg \<and> cm ?b k \<and> ?b \<in> set (fls ! k))\<close>
      have nm: "?b \<notin> set (fls ! k)" by simp
      obtain b' m' where rm: "remove vn b m ?b k = Some (False, b', m')"
        "bstep cfg vn U (avail_set cfg fls) b m b' m' (fls[k := remove1 ?b (fls ! k)])"
        using remove_step [OF r, of k ?b] True nm by auto
      have "fls[k := remove1 ?b (fls ! k)] = fls" using nm by (simp add: remove1_idem)
      then show ?thesis
        using rm True ok dj nm by (auto simp: free_loop.simps [of cfg vn cm b m a k] max_order_def Let_def)
    qed
  next
    case True
    then have k: "Suc k < ORDER_COUNT cfg" "k < ORDER_COUNT cfg" and mem: "?b \<in> set (fls ! k)" by auto
    obtain b' m' where rm: "remove vn b m ?b k = Some (True, b', m')"
      "bstep cfg vn U (avail_set cfg fls) b m b' m' (fls[k := remove1 ?b (fls ! k)])"
      using remove_step [OF r k(2), of ?b] mem by auto
    let ?fls = "fls[k := remove1 ?b (fls ! k)]"
    note bok = brel_block [OF r k(2) mem]
    have al: "bsz cfg k dvd unat a" using ok by (simp add: block_ok_def)
    note bc = buddy_cases [OF c k(1) al]
    have av: "avail_set cfg ?fls = avail_set cfg fls - blk cfg (?b, k)"
      by (rule lists_ok_remove(2) [OF lok k(2) mem])
    have sub: "blk cfg (?b, k) \<subseteq> avail_set cfg fls" using bok(2) by (auto simp: avail_set_def)
    have ok': "block_ok cfg U (min a ?b, Suc k)"
      using bc(2,3) k(1) ok bok(1) by (auto simp: block_ok_def)
    have dj': "blk cfg (min a ?b, Suc k) \<inter> avail_set cfg ?fls = {}"
      using bc(3) av dj by blast
    have r': "brel cfg vn U b' m' ?fls" using rm(2) by (simp add: bstep_def)
    have "n = ORDER_COUNT cfg - Suc k" using Suc.hyps(2) by simp
    from Suc.hyps(1) [OF this r' ok' dj'] obtain a2 k2 b2 m2 fls2 where
      s: "free_loop cfg vn cm b' m' (min a ?b) (Suc k) = Some (a2, k2, b2, m2)"
      "bstep cfg vn U (avail_set cfg ?fls) b' m' b2 m2 fls2"
      "block_ok cfg U (a2, k2)" "blk cfg (a2, k2) \<inter> avail_set cfg fls2 = {}"
      "blk cfg (a2, k2) \<union> avail_set cfg fls2 = blk cfg (min a ?b, Suc k) \<union> avail_set cfg ?fls"
      "avail_set cfg fls2 \<subseteq> avail_set cfg ?fls" "free_blocks fls2 \<subseteq> free_blocks ?fls"
      "(\<forall>x j. cm x j) \<longrightarrow> Suc k2 < ORDER_COUNT cfg \<longrightarrow> buddy_of cfg a2 k2 \<notin> set (fls2 ! k2)"
      by blast
    have "\<not> max_order cfg \<le> k" using k(1) by (simp add: max_order_def)
    then have "free_loop cfg vn cm b m a k = Some (a2, k2, b2, m2)"
      using True rm(1) s(1) by (simp add: free_loop.simps [of cfg vn cm b m a k] Let_def)
    moreover have "bstep cfg vn U (avail_set cfg fls) b m b2 m2 fls2"
      using bstep_trans [OF rm(2) s(2)] av by blast
    moreover have "blk cfg (a2, k2) \<union> avail_set cfg fls2 = blk cfg (a, k) \<union> avail_set cfg fls"
      using s(5) bc(3) av sub by blast
    moreover have "avail_set cfg fls2 \<subseteq> avail_set cfg fls" using s(6) av by blast
    moreover have "free_blocks ?fls \<subseteq> free_blocks fls"
      using free_blocks_remove [of k fls ?b] lok k(2) by (auto simp: lists_ok_def)
    then have "free_blocks fls2 \<subseteq> free_blocks fls" using s(7) by blast
    ultimately show ?thesis using s(3,4,8) by - (intro exI conjI, assumption+)
  qed
qed

lemma free_with_step:
  assumes r: "brel cfg vn U b m fls" and ok: "block_ok cfg U (a, k)"
    and dj: "blk cfg (a, k) \<inter> avail_set cfg fls = {}"
  shows "\<exists>b' m' fls'. free_with cfg vn cm b m a k = Some (b', m')
    \<and> bstep cfg vn U (avail_set cfg fls \<union> blk cfg (a, k)) b m b' m' fls'
    \<and> avail_set cfg fls' = avail_set cfg fls \<union> blk cfg (a, k)
    \<and> ((\<forall>x j. cm x j) \<longrightarrow> no_buddies cfg fls \<longrightarrow> no_buddies cfg fls')"
proof -
  obtain a1 k1 b1 m1 fls1 where s: "free_loop cfg vn cm b m a k = Some (a1, k1, b1, m1)"
    "bstep cfg vn U (avail_set cfg fls) b m b1 m1 fls1"
    "block_ok cfg U (a1, k1)" "blk cfg (a1, k1) \<inter> avail_set cfg fls1 = {}"
    "blk cfg (a1, k1) \<union> avail_set cfg fls1 = blk cfg (a, k) \<union> avail_set cfg fls"
    "free_blocks fls1 \<subseteq> free_blocks fls"
    "(\<forall>x j. cm x j) \<longrightarrow> Suc k1 < ORDER_COUNT cfg \<longrightarrow> buddy_of cfg a1 k1 \<notin> set (fls1 ! k1)"
    using free_loop_step [OF assms, of cm] by (elim exE conjE) (rule that)
  have r1: "brel cfg vn U b1 m1 fls1" using s(2) by (simp add: bstep_def)
  obtain b2 m2 where p: "push vn b1 m1 a1 k1 = Some (b2, m2)"
    "bstep cfg vn U (blk cfg (a1, k1)) b1 m1 b2 m2 (fls1[k1 := a1 # fls1 ! k1])"
    using push_step [OF r1 s(3,4)] by blast
  have "lists_ok cfg U fls1" using r1 by (simp add: brel_def)
  then have av: "avail_set cfg (fls1[k1 := a1 # fls1 ! k1]) = avail_set cfg fls1 \<union> blk cfg (a1, k1)"
    using lists_ok_push(2) s(3,4) by blast
  have "\<not> max_order cfg < k" using ok by (auto simp: block_ok_def max_order_def)
  then have "free_with cfg vn cm b m a k = Some (b2, m2)" using s(1) p(1) by (simp add: free_with_def)
  moreover have "bstep cfg vn U (avail_set cfg fls \<union> blk cfg (a, k)) b m b2 m2
      (fls1[k1 := a1 # fls1 ! k1])"
  proof (rule bstep_trans [OF _ p(2)])
    show "bstep cfg vn U (avail_set cfg fls \<union> blk cfg (a, k)) b m b1 m1 fls1"
      using s(2) by (rule bstep_mono) simp
  qed (use s(5) in blast)
  moreover have "avail_set cfg (fls1[k1 := a1 # fls1 ! k1]) = avail_set cfg fls \<union> blk cfg (a, k)"
    using av s(5) by blast
  moreover have "no_buddies cfg (fls1[k1 := a1 # fls1 ! k1])" if "\<forall>x j. cm x j" "no_buddies cfg fls"
  proof (rule no_buddies_push)
    show "no_buddies cfg fls1" using no_buddies_remove [OF that(2) s(6)] .
    show "k1 < length fls1" using s(3) r1 by (simp add: block_ok_def brel_def lists_ok_def)
    show "buddy_of cfg a1 k1 \<notin> set (fls1 ! k1)" if "Suc k1 < ORDER_COUNT cfg"
      using s(7) \<open>\<forall>x j. cm x j\<close> that by blast
    show "Suc k1 < ORDER_COUNT cfg \<Longrightarrow> buddy_of cfg a1 k1 \<noteq> a1"
      using buddy_cases(4) [of cfg k1 a1] s(3) r1 blk_start [of a1 cfg k1]
      by (auto simp: block_ok_def brel_def simp del: blk_start)
  qed
  ultimately show ?thesis by blast
qed

end
