(* ===== verification/Slab_Inv.thy ===== *)
theory Slab_Inv
  imports Buddy_Core
begin

text \<open>
  The page slab's invariant. A used entry of its table is a block taken from the buddy allocator
  with a list in memory of free ranges; the ranges lie in the block, do not overlap, and together
  with the allocated count make up the block.
\<close>

section \<open>Ranges of blocks\<close>

abbreviation unit_size :: "buddy_cfg \<Rightarrow> nat" where
  "unit_size cfg \<equiv> bsz cfg 0"

definition rset :: "buddy_cfg \<Rightarrow> u64 \<times> u32 \<Rightarrow> nat set" where
  "rset cfg x = {unat (fst x) ..< unat (fst x) + unat (snd x) * unit_size cfg}"

definition blk_of :: "block_info \<Rightarrow> u64 \<times> nat" where
  "blk_of b = (phys_base b, two_exp (unat (total_blocks b)))"

primrec rchain :: "mem \<Rightarrow> u64 \<Rightarrow> (u64 \<times> u32) list \<Rightarrow> bool" where
  "rchain v h [] \<longleftrightarrow> h = 0"
| "rchain v h (x # rs) \<longleftrightarrow> h = fst x \<and> fst x \<noteq> 0 \<and> rd32 v (fst x + 8) = snd x
     \<and> rchain v (rd64 v (fst x)) rs"

definition rdisj :: "buddy_cfg \<Rightarrow> (u64 \<times> u32) list \<Rightarrow> bool" where
  "rdisj cfg = sorted_wrt (\<lambda>x y. rset cfg x \<inter> rset cfg y = {})"

definition range_fits :: "buddy_cfg \<Rightarrow> u64 \<times> nat \<Rightarrow> u64 \<times> u32 \<Rightarrow> bool" where
  "range_fits cfg B x \<longleftrightarrow> 0 < unat (snd x) \<and> unit_size cfg dvd unat (fst x) \<and> rset cfg x \<subseteq> blk cfg B"

definition rsum :: "(u64 \<times> u32) list \<Rightarrow> nat" where
  "rsum rs = sum_list (map (unat \<circ> snd) rs)"

definition rfree :: "buddy_cfg \<Rightarrow> (u64 \<times> u32) list \<Rightarrow> nat set" where
  "rfree cfg rs = (\<Union>x \<in> set rs. rset cfg x)"

definition rblock :: "buddy_cfg \<Rightarrow> nat set \<Rightarrow> mem \<Rightarrow> block_info \<Rightarrow> (u64 \<times> u32) list \<Rightarrow> bool" where
  "rblock cfg U v b rs \<longleftrightarrow> block_ok cfg U (blk_of b)
     \<and> unat (total_blocks b) = 2 ^ two_exp (unat (total_blocks b))
     \<and> rchain v (free_list b) rs \<and> rdisj cfg rs \<and> (\<forall>x \<in> set rs. range_fits cfg (blk_of b) x)
     \<and> rsum rs + unat (allocated_blocks b) = unat (total_blocks b)"

lemma rset_card: "card (rset cfg x) = unat (snd x) * unit_size cfg"
  by (simp add: rset_def)

lemma rfree_card: "rdisj cfg rs \<Longrightarrow> card (rfree cfg rs) = rsum rs * unit_size cfg"
proof (induction rs)
  case Nil
  then show ?case by (simp add: rfree_def rsum_def)
next
  case (Cons x rs)
  have "rset cfg x \<inter> rfree cfg rs = {}" using Cons.prems by (auto simp: rdisj_def rfree_def)
  moreover have "finite (rset cfg x)" "finite (rfree cfg rs)" by (auto simp: rset_def rfree_def)
  moreover have "rfree cfg (x # rs) = rset cfg x \<union> rfree cfg rs" by (simp add: rfree_def)
  ultimately have "card (rfree cfg (x # rs)) = card (rset cfg x) + card (rfree cfg rs)"
    by (simp add: card_Un_disjoint)
  then show ?case using Cons by (simp add: rset_card rsum_def rdisj_def algebra_simps)
qed

lemma blk_of_card:
  "unat (total_blocks b) = 2 ^ two_exp (unat (total_blocks b)) \<Longrightarrow>
     card (blk cfg (blk_of b)) = unat (total_blocks b) * unit_size cfg"
  by (simp add: blk_def blk_of_def bsz_def power_add)

lemma range_cell:
  assumes "cfg_ok cfg" "0 < unat c"
  shows "span a 8 \<subseteq> rset cfg (a, c)" and "{unat a + 8 ..< unat a + 12} \<subseteq> rset cfg (a, c)"
proof -
  have "1 * unit_size cfg \<le> unat c * unit_size cfg" using assms(2) by (intro mult_le_mono1) simp
  then have "16 \<le> unat c * unit_size cfg" using bsz_ge_16 [OF assms(1), of 0] by linarith
  then show "span a 8 \<subseteq> rset cfg (a, c)" "{unat a + 8 ..< unat a + 12} \<subseteq> rset cfg (a, c)"
    by (auto simp: span_def rset_def)
qed

lemma range_end:
  assumes "cfg_ok cfg" "block_ok cfg U B" "range_fits cfg B (a, c)"
  shows "unat a + unat c * unit_size cfg \<le> 2 ^ 64" and "unat a + 16 \<le> 2 ^ 64"
    and "unat a \<in> blk cfg B"
proof -
  have z: "1 * unit_size cfg \<le> unat c * unit_size cfg"
    using assms(3) by (intro mult_le_mono1) (simp add: range_fits_def)
  then have z16: "16 \<le> unat c * unit_size cfg" using bsz_ge_16 [OF assms(1), of 0] by linarith
  have "unat a \<in> rset cfg (a, c)" "unat a + unat c * unit_size cfg - 1 \<in> rset cfg (a, c)"
    using z16 assms(3) by (auto simp: rset_def range_fits_def)
  then have "unat a \<in> blk cfg B" "unat a + unat c * unit_size cfg - 1 \<in> blk cfg B"
    using assms(3) by (auto simp: range_fits_def)
  then show "unat a + unat c * unit_size cfg \<le> 2 ^ 64" "unat a + 16 \<le> 2 ^ 64" "unat a \<in> blk cfg B"
    using z16 block_end [OF assms(1), of U "fst B" "snd B"] assms(2) by (auto simp: blk_def)
qed

lemma unat_plus_8: "unat a + 16 \<le> 2 ^ 64 \<Longrightarrow> unat (a + 8 :: u64) = unat a + 8"
  by (simp add: unat_add_nowrap)

lemma rchain_same_on:
  assumes "same_on S v v'"
    and "\<And>x. x \<in> set rs \<Longrightarrow> {unat (fst x) ..< unat (fst x) + 12} \<subseteq> S \<and> unat (fst x) + 16 \<le> 2 ^ 64"
  shows "rchain v h rs \<Longrightarrow> rchain v' h rs"
  using assms(2)
proof (induction rs arbitrary: h)
  case Nil
  then show ?case by simp
next
  case (Cons x rs)
  have x: "{unat (fst x) ..< unat (fst x) + 12} \<subseteq> S" "unat (fst x) + 16 \<le> 2 ^ 64"
    using Cons.prems(2) [of x] by simp_all
  have "rd64 v' (fst x) = rd64 v (fst x)"
    using x by (intro rd64_same_on [OF assms(1)]) (auto simp: span_def subset_eq)
  moreover have "rd32 v' (fst x + 8) = rd32 v (fst x + 8)"
    using x by (intro rd32_same_on [OF assms(1)]) (auto simp: span_def subset_eq unat_plus_8)
  ultimately show ?case using Cons by simp
qed

lemma rchain_tail: "rchain v h (us @ x # ws) \<Longrightarrow> rchain v (rd64 v (fst x)) ws"
  by (induction us arbitrary: h) (simp, fastforce)

lemma rchain_count: "rchain v h rs \<Longrightarrow> x \<in> set rs \<Longrightarrow> rd32 v (fst x + 8) = snd x"
  by (induction rs arbitrary: h) auto

lemma rchain_relink:
  assumes "rchain v h (us @ x # ys)" and "rchain v' h' zs" and "rd64 v' (fst x) = h'"
    and "rd32 v' (fst x + 8) = snd x"
    and "\<And>u. u \<in> set us \<Longrightarrow> rd64 v' (fst u) = rd64 v (fst u) \<and> rd32 v' (fst u + 8) = rd32 v (fst u + 8)"
  shows "rchain v' h (us @ x # zs)"
  using assms(1,5)
proof (induction us arbitrary: h)
  case Nil
  then show ?case using assms(2,3,4) by simp
next
  case (Cons u us)
  then show ?case by simp
qed

lemma rblock_same_on:
  assumes "cfg_ok cfg" "rblock cfg U v b rs" "same_on (blk cfg (blk_of b)) v v'"
  shows "rblock cfg U v' b rs"
proof -
  have "rchain v' (free_list b) rs"
  proof (rule rchain_same_on [OF assms(3)])
    show "rchain v (free_list b) rs" using assms(2) by (simp add: rblock_def)
    fix x assume x: "x \<in> set rs"
    then have f: "range_fits cfg (blk_of b) (fst x, snd x)" and ok: "block_ok cfg U (blk_of b)"
      using assms(2) by (auto simp: rblock_def)
    have "{unat (fst x) ..< unat (fst x) + 12} \<subseteq> rset cfg x"
      using range_cell [OF assms(1), of "snd x" "fst x"] f
      by (auto simp: range_fits_def span_def subset_eq)
    then show "{unat (fst x) ..< unat (fst x) + 12} \<subseteq> blk cfg (blk_of b) \<and> unat (fst x) + 16 \<le> 2 ^ 64"
      using f range_end(2) [OF assms(1) ok f] by (auto simp: range_fits_def)
  qed
  then show ?thesis using assms(2) by (simp add: rblock_def)
qed

section \<open>Taking a range out of a block\<close>

primrec fit_link :: "u64 \<Rightarrow> link \<Rightarrow> (u64 \<times> u32) list \<Rightarrow> usize \<Rightarrow> link" where
  "fit_link off prev [] cnt = prev"
| "fit_link off prev (x # rs) cnt =
     (if cnt \<le> ucast (snd x) then prev else fit_link off (Cell (fst x + off)) rs cnt)"

definition last_link :: "u64 \<Rightarrow> (u64 \<times> u32) list \<Rightarrow> link" where
  "last_link off us = (if us = [] then Head else Cell (fst (last us) + off))"

lemma fit_link_split:
  assumes "\<forall>u \<in> set us. \<not> cnt \<le> ucast (snd u)" "cnt \<le> ucast (snd x)"
  shows "fit_link off prev (us @ x # ws) cnt = (if us = [] then prev else last_link off us)"
  using assms(1)
proof (induction us arbitrary: prev)
  case Nil
  then show ?case using assms(2) by simp
next
  case (Cons u us)
  then show ?case by (auto simp: last_link_def)
qed

lemma alloc_loop_walk:
  assumes "rchain (view (slab_offset s) m) cur rs"
    and "\<And>x. x \<in> set rs \<Longrightarrow> vn (fst x + slab_offset s) = Some (fst x + slab_offset s)"
  shows "alloc_in_block_loop vn s m idx cnt prev cur =
    (case find (\<lambda>x. cnt \<le> ucast (snd x)) rs of None \<Rightarrow> Some (None, s, m)
     | Some x \<Rightarrow> slab_take vn s m idx cnt (fit_link (slab_offset s) prev rs cnt) (fst x) (snd x)
         (rd64 (view (slab_offset s) m) (fst x)))"
  using assms
proof (induction rs arbitrary: prev cur)
  case Nil
  then show ?case by (simp add: alloc_in_block_loop.simps)
next
  case (Cons x rs)
  have "alloc_in_block_loop vn s m idx cnt prev cur =
    (if cnt \<le> ucast (snd x)
     then slab_take vn s m idx cnt prev (fst x) (snd x) (rd64 (view (slab_offset s) m) (fst x))
     else alloc_in_block_loop vn s m idx cnt (Cell (fst x + slab_offset s))
            (rd64 (view (slab_offset s) m) (fst x)))"
    using Cons.prems
    by (subst alloc_in_block_loop.simps) (simp add: rd64_view rd32_view Let_def)
  with Cons show ?case by (cases "find (\<lambda>x. cnt \<le> ucast (snd x)) rs") auto
qed

lemma split_range:
  assumes c: "cfg_ok cfg" and ok: "block_ok cfg U B" and fit: "range_fits cfg B (a, c)"
    and bs: "unat bs = unit_size cfg" and cnt: "cnt \<noteq> 0" "cnt < ucast c"
  defines "a' \<equiv> a + cnt * bs" and "c' \<equiv> c - ucast cnt"
  shows "unat a' = unat a + unat cnt * unit_size cfg" and "unat c' = unat c - unat cnt"
    and "range_fits cfg B (a', c')" and "rset cfg (a', c') = rset cfg (a, c) - {unat a ..< unat a'}"
    and "unat cnt < unat c" and "unat (ucast cnt :: u32) = unat cnt" and "0 < unat cnt"
proof -
  have uc: "unat (ucast c :: u64) = unat c" using unat_bound [of c] by (simp add: unat_ucast_mod)
  show lt: "unat cnt < unat c" using cnt(2) uc by (simp add: word_less_nat_alt)
  show pos: "0 < unat cnt" using cnt(1) by (simp add: unat_gt_0)
  have "unat c < 2 ^ 32" using unat_bound [of c] by simp
  then show u32: "unat (ucast cnt :: u32) = unat cnt" using lt by (simp add: unat_ucast_mod)
  have e: "unat a + unat c * unit_size cfg \<le> 2 ^ 64" by (rule range_end(1) [OF c ok fit])
  have lt': "unat cnt * unit_size cfg < unat c * unit_size cfg" using lt by simp
  then have "unat cnt * unit_size cfg < 2 ^ 64" using e by linarith
  then have "unat (cnt * bs) = unat cnt * unit_size cfg" using bs by (simp add: unat_mult_nowrap)
  moreover have "unat a + unat cnt * unit_size cfg < 2 ^ 64" using e lt' by linarith
  ultimately show ua: "unat a' = unat a + unat cnt * unit_size cfg"
    unfolding a'_def by (simp add: unat_add_nowrap)
  show ud: "unat c' = unat c - unat cnt"
    unfolding c'_def using u32 lt by (simp add: unat_sub_nowrap)
  have prod: "unat c' * unit_size cfg = unat c * unit_size cfg - unat cnt * unit_size cfg"
    by (simp add: ud diff_mult_distrib)
  show rs: "rset cfg (a', c') = rset cfg (a, c) - {unat a ..< unat a'}"
    using ua prod lt' by (auto simp: rset_def)
  show "range_fits cfg B (a', c')"
    using fit ua ud lt rs by (auto simp: range_fits_def)
qed

lemma wr_free_range_view:
  "view off (wr_free_range m (a + off) nxt cnt) = wr_free_range (view off m) a nxt cnt"
  by (simp add: wr_free_range_def view_wr32 view_wr64)

lemma wr_free_range_frame:
  assumes "{unat a ..< unat a + 12} \<inter> S = {}" "unat a + 16 \<le> 2 ^ 64"
  shows "same_on S v (wr_free_range v a nxt cnt)"
proof -
  have "same_on S v (wr64 v a nxt)"
    using assms by (intro wr64_same_on) (auto simp: span_def disjoint_iff)
  moreover have "same_on S (wr64 v a nxt) (wr_free_range v a nxt cnt)"
    unfolding wr_free_range_def
    using assms by (intro wr32_same_on) (auto simp: span_def unat_plus_8 disjoint_iff)
  ultimately show ?thesis by (rule same_on_trans)
qed

lemma wr_free_range_read:
  assumes "unat a + 16 \<le> 2 ^ 64"
  shows "rd64 (wr_free_range v a nxt cnt) a = nxt" and "rd32 (wr_free_range v a nxt cnt) (a + 8) = cnt"
proof -
  have "same_on (span a 8) (wr64 v a nxt) (wr_free_range v a nxt cnt)"
    unfolding wr_free_range_def
    using assms by (intro wr32_same_on) (auto simp: span_def unat_plus_8)
  then have "rd64 (wr_free_range v a nxt cnt) a = rd64 (wr64 v a nxt) a"
    using assms by (intro rd64_same_on) auto
  then show "rd64 (wr_free_range v a nxt cnt) a = nxt" by simp
  show "rd32 (wr_free_range v a nxt cnt) (a + 8) = cnt" by (simp add: wr_free_range_def)
qed

text \<open>The ranges left of a range from which \<open>cnt\<close> blocks were taken.\<close>

definition rest_range :: "u64 \<Rightarrow> usize \<Rightarrow> u64 \<Rightarrow> u32 \<Rightarrow> (u64 \<times> u32) list" where
  "rest_range bs cnt a c = (if ucast c = cnt then [] else [(a + cnt * bs, c - ucast cnt)])"

lemma rest_range_facts:
  assumes c: "cfg_ok cfg" and ok: "block_ok cfg U B" and fit: "range_fits cfg B (a, c)"
    and bs: "unat bs = unit_size cfg" and cnt: "cnt \<noteq> 0" "cnt \<le> ucast c"
  shows "rfree cfg (rest_range bs cnt a c) = rset cfg (a, c) - {unat a ..< unat a + unat cnt * unit_size cfg}"
    and "{unat a ..< unat a + unat cnt * unit_size cfg} \<subseteq> rset cfg (a, c)"
    and "\<forall>x \<in> set (rest_range bs cnt a c). range_fits cfg B x"
    and "rdisj cfg (rest_range bs cnt a c)"
    and "rsum (rest_range bs cnt a c) + unat cnt = unat c"
    and "unat (ucast cnt :: u32) = unat cnt"
proof -
  have uc: "unat (ucast c :: u64) = unat c" using unat_bound [of c] by (simp add: unat_ucast_mod)
  have le: "unat cnt \<le> unat c" using cnt(2) uc by (simp add: word_le_nat_alt)
  then have "unat cnt * unit_size cfg \<le> unat c * unit_size cfg" by simp
  then show "{unat a ..< unat a + unat cnt * unit_size cfg} \<subseteq> rset cfg (a, c)"
    by (auto simp: rset_def)
  have "unat c < 2 ^ 32" using unat_bound [of c] by simp
  then show "unat (ucast cnt :: u32) = unat cnt" using le by (simp add: unat_ucast_mod)
  show "rdisj cfg (rest_range bs cnt a c)" by (simp add: rest_range_def rdisj_def)
  have "rfree cfg (rest_range bs cnt a c) = rset cfg (a, c) - {unat a ..< unat a + unat cnt * unit_size cfg}
    \<and> (\<forall>x \<in> set (rest_range bs cnt a c). range_fits cfg B x)
    \<and> rsum (rest_range bs cnt a c) + unat cnt = unat c"
  proof (cases "ucast c = cnt")
    case True
    then have "unat cnt = unat c" using uc by simp
    then show ?thesis using True by (simp add: rest_range_def rfree_def rsum_def rset_def)
  next
    case False
    then have "cnt < ucast c" using cnt(2) by simp
    note s = split_range [OF c ok fit bs cnt(1) this]
    show ?thesis using False s by (simp add: rest_range_def rfree_def rsum_def)
  qed
  then show "rfree cfg (rest_range bs cnt a c) = rset cfg (a, c) - {unat a ..< unat a + unat cnt * unit_size cfg}"
    "\<forall>x \<in> set (rest_range bs cnt a c). range_fits cfg B x"
    "rsum (rest_range bs cnt a c) + unat cnt = unat c"
    by blast+
qed

lemma cell12:
  assumes "cfg_ok cfg" "range_fits cfg B x"
  shows "{unat (fst x) ..< unat (fst x) + 12} \<subseteq> rset cfg x"
  using range_cell [OF assms(1), of "snd x" "fst x"] assms(2)
  by (auto simp: range_fits_def span_def subset_eq)

lemma rest_range_chain:
  assumes c: "cfg_ok cfg" and un: "universe vn off U" and ok: "block_ok cfg U B"
    and fit: "range_fits cfg B (a, c)" and bs: "unat bs = unit_size cfg" and cnt: "cnt \<noteq> 0" "cnt \<le> ucast c"
    and ws: "rchain (view off m) nxt ws" "\<forall>w \<in> set ws. range_fits cfg B w \<and> rset cfg w \<inter> rset cfg (a, c) = {}"
  shows "\<exists>tgt m1. (if ucast c = cnt then Some (nxt, m)
        else do {
          let split = a + cnt * bs;
          q \<leftarrow> vn (split + off);
          Some (split, wr_free_range m q nxt (c - ucast cnt)) }) = Some (tgt, m1)
    \<and> rchain (view off m1) tgt (rest_range bs cnt a c @ ws)
    \<and> same_on (- rset cfg (a, c)) (view off m) (view off m1)"
proof (cases "ucast c = cnt")
  case True
  then show ?thesis using ws by (simp add: rest_range_def)
next
  case False
  then have lt: "cnt < ucast c" using cnt(2) by simp
  define a' c' where "a' = a + cnt * bs" and "c' = c - ucast cnt"
  note s = split_range [OF c ok fit bs cnt(1) lt, folded a'_def c'_def]
  have e: "unat a' + 16 \<le> 2 ^ 64" by (rule range_end(2) [OF c ok s(3)])
  have inU: "unat a' \<in> U"
    using range_end(3) [OF c ok s(3)] ok by (auto simp: block_ok_def)
  then have vn: "vn (a' + off) = Some (a' + off)" using un by (simp add: universe_def)
  have a0: "a' \<noteq> 0" using inU un by (auto simp: universe_def)
  let ?v' = "wr_free_range (view off m) a' nxt c'"
  have sub: "{unat a' ..< unat a' + 12} \<subseteq> rset cfg (a, c)"
    using cell12 [OF c s(3)] s(4) by auto
  then have frame: "same_on (- rset cfg (a, c)) (view off m) ?v'"
    using e by (intro wr_free_range_frame) auto
  have "rchain ?v' nxt ws"
  proof (rule rchain_same_on [OF frame _ ws(1)])
    fix x assume "x \<in> set ws"
    then have x: "range_fits cfg B (fst x, snd x)" "rset cfg x \<inter> rset cfg (a, c) = {}" using ws(2) by auto
    then show "{unat (fst x) ..< unat (fst x) + 12} \<subseteq> - rset cfg (a, c) \<and> unat (fst x) + 16 \<le> 2 ^ 64"
      using cell12 [OF c x(1)] range_end(2) [OF c ok x(1)] by auto
  qed
  then have "rchain ?v' a' (rest_range bs cnt a c @ ws)"
    using False a0 wr_free_range_read [OF e] by (simp add: rest_range_def flip: a'_def c'_def)
  then show ?thesis
    using False vn frame by (simp add: wr_free_range_view flip: a'_def c'_def)
qed

lemma rdisj_append:
  "rdisj cfg (xs @ ys) \<longleftrightarrow> rdisj cfg xs \<and> rdisj cfg ys \<and> rfree cfg xs \<inter> rfree cfg ys = {}"
  by (auto simp: rdisj_def sorted_wrt_append rfree_def)

lemma rfree_append [simp]: "rfree cfg (xs @ ys) = rfree cfg xs \<union> rfree cfg ys"
  by (simp add: rfree_def)

lemma rfree_Cons [simp]: "rfree cfg (x # ys) = rset cfg x \<union> rfree cfg ys"
  by (simp add: rfree_def)

lemma rsum_simps [simp]: "rsum [] = 0" "rsum (x # xs) = unat (snd x) + rsum xs"
  "rsum (xs @ ys) = rsum xs + rsum ys"
  by (simp_all add: rsum_def)

lemma rdisj_Cons: "rdisj cfg (x # ys) \<longleftrightarrow> rset cfg x \<inter> rfree cfg ys = {} \<and> rdisj cfg ys"
  by (auto simp: rdisj_def rfree_def)

text \<open>Relinking the predecessor, in memory or in the table entry.\<close>

definition set_link :: "link \<Rightarrow> u64 \<Rightarrow> block_info \<times> mem \<Rightarrow> block_info \<times> mem" where
  "set_link l tgt x = (case l of Head \<Rightarrow> ((fst x)\<lparr>free_list := tgt\<rparr>, snd x) | Cell c \<Rightarrow> (fst x, wr64 (snd x) c tgt))"

lemma set_link_chain:
  assumes c: "cfg_ok cfg" and ok: "block_ok cfg U B" and h: "rchain (view off m) (free_list b) (us @ x # ws)"
    and frame: "same_on (- rset cfg x) (view off m) (view off m1)"
    and tgt: "rchain (view off m1) tgt zs"
    and fits: "\<forall>y \<in> set (us @ x # ws) \<union> set zs. range_fits cfg B y"
    and dj: "rdisj cfg (us @ x # ws)" "rfree cfg us \<inter> rfree cfg zs = {}"
    and l: "set_link (last_link off us) tgt (b, m1) = (b', m2)"
  shows "rchain (view off m2) (free_list b') (us @ zs)"
    and "same_on (- rfree cfg (us @ x # ws)) (view off m) (view off m2)"
    and "b' = b\<lparr>free_list := free_list b'\<rparr>"
proof -
  have "rchain (view off m2) (free_list b') (us @ zs)
    \<and> same_on (- rfree cfg (us @ x # ws)) (view off m) (view off m2) \<and> b' = b\<lparr>free_list := free_list b'\<rparr>"
  proof (cases us rule: rev_cases)
    case Nil
    then have "b' = b\<lparr>free_list := tgt\<rparr>" "m2 = m1"
      using l by (auto simp: set_link_def last_link_def)
    moreover have "same_on (- rfree cfg (x # ws)) (view off m) (view off m1)"
      using frame by (rule same_on_mono) auto
    ultimately show ?thesis using Nil tgt by simp
  next
    case (snoc vs p)
    then have b': "b' = b" and m2: "m2 = wr64 m1 (fst p + off) tgt"
      using l by (auto simp: set_link_def last_link_def)
    let ?v1 = "view off m1" and ?v2 = "wr64 (view off m1) (fst p) tgt"
    have v2: "view off m2 = ?v2" by (simp add: m2 view_wr64)
    have fp: "range_fits cfg B (fst p, snd p)" using fits snoc by auto
    note pe = range_end [OF c ok fp]
    have p8: "span (fst p) 8 \<subseteq> rset cfg p" using cell12 [OF c fp] by (auto simp: span_def)
    have f12: "same_on (- rset cfg p) ?v1 ?v2"
      using pe(2) p8 by (intro wr64_same_on) auto
    have djs: "rset cfg p \<inter> rset cfg x = {}" "rfree cfg vs \<inter> (rset cfg p \<union> rset cfg x) = {}"
      "rset cfg p \<inter> rfree cfg zs = {}"
      using dj snoc by (auto simp: rdisj_append rdisj_Cons)
    have zs: "rchain ?v2 tgt zs"
    proof (rule rchain_same_on [OF f12 _ tgt])
      fix y assume y: "y \<in> set zs"
      then have fy: "range_fits cfg B (fst y, snd y)" using fits by auto
      have "rset cfg y \<inter> rset cfg p = {}" using djs(3) y by (auto simp: rfree_def)
      then show "{unat (fst y) ..< unat (fst y) + 12} \<subseteq> - rset cfg p \<and> unat (fst y) + 16 \<le> 2 ^ 64"
        using cell12 [OF c fy] range_end(2) [OF c ok fy] by auto
    qed
    have both: "same_on (- (rset cfg p \<union> rset cfg x)) (view off m) ?v2"
    proof (rule same_on_trans)
      show "same_on (- (rset cfg p \<union> rset cfg x)) (view off m) ?v1"
        using frame by (rule same_on_mono) simp
      show "same_on (- (rset cfg p \<union> rset cfg x)) ?v1 ?v2"
        using f12 by (rule same_on_mono) simp
    qed
    have keep: "rd64 ?v2 (fst u) = rd64 (view off m) (fst u)
      \<and> rd32 ?v2 (fst u + 8) = rd32 (view off m) (fst u + 8)" if u: "u \<in> set vs" for u
    proof -
      have fu: "range_fits cfg B (fst u, snd u)" using fits snoc u by auto
      have e: "unat (fst u) + 16 \<le> 2 ^ 64" by (rule range_end(2) [OF c ok fu])
      have "rset cfg u \<inter> (rset cfg p \<union> rset cfg x) = {}" using djs(2) u by (auto simp: rfree_def)
      then have s: "{unat (fst u) ..< unat (fst u) + 12} \<subseteq> - (rset cfg p \<union> rset cfg x)"
        using cell12 [OF c fu] by auto
      then have "span (fst u) 8 \<subseteq> - (rset cfg p \<union> rset cfg x)"
        "span (fst u + 8) 4 \<subseteq> - (rset cfg p \<union> rset cfg x)"
        using e by (auto simp: span_def unat_plus_8 subset_eq)
      then show ?thesis using rd64_same_on [OF both] rd32_same_on [OF both] e by (simp add: unat_plus_8)
    qed
    have r32: "rd32 ?v2 (fst p + 8) = snd p"
    proof -
      have f: "same_on ({unat (fst p) + 8 ..< unat (fst p) + 12}) (view off m) ?v2"
      proof (rule same_on_trans)
        show "same_on {unat (fst p) + 8 ..< unat (fst p) + 12} (view off m) ?v1"
        proof (rule same_on_mono [OF frame])
          have "{unat (fst p) + 8 ..< unat (fst p) + 12} \<subseteq> rset cfg p"
            using cell12 [OF c fp] by (auto simp: subset_eq)
          then show "{unat (fst p) + 8 ..< unat (fst p) + 12} \<subseteq> - rset cfg x" using djs(1) by blast
        qed
        show "same_on {unat (fst p) + 8 ..< unat (fst p) + 12} ?v1 ?v2"
          using pe(2) by (intro wr64_same_on) (auto simp: span_def)
      qed
      have "rd32 ?v2 (fst p + 8) = rd32 (view off m) (fst p + 8)"
        using pe(2) by (intro rd32_same_on [OF f]) (auto simp: span_def unat_plus_8)
      moreover have "rd32 (view off m) (fst p + 8) = snd p"
        using rchain_count [OF h, of p] snoc by simp
      ultimately show ?thesis by simp
    qed
    have h': "rchain (view off m) (free_list b) (vs @ p # x # ws)" using h snoc by simp
    have "rchain ?v2 (free_list b) (vs @ p # zs)"
      by (rule rchain_relink [OF h' zs _ r32 keep]) simp
    moreover have "same_on (- rfree cfg (us @ x # ws)) (view off m) ?v2"
      using both by (rule same_on_mono) (use snoc in auto)
    ultimately show ?thesis using v2 b' snoc by simp
  qed
  then show "rchain (view off m2) (free_list b') (us @ zs)"
    "same_on (- rfree cfg (us @ x # ws)) (view off m) (view off m2)" "b' = b\<lparr>free_list := free_list b'\<rparr>"
    by blast+
qed

lemma slab_take_set_link:
  assumes "idx < length (slab_table s)"
    and "(if ucast c = cnt then Some (nxt, m)
        else do {
          let split = a + cnt * slab_block_size s;
          q \<leftarrow> vn (split + slab_offset s);
          Some (split, wr_free_range m q nxt (c - ucast cnt)) }) = Some (tgt, m1)"
    and "set_link l tgt (slab_table s ! idx, m1) = (b', m2)"
  shows "slab_take vn s m idx cnt l a c nxt = Some (Some a,
    s\<lparr>slab_table := (slab_table s)[idx := b'\<lparr>allocated_blocks := allocated_blocks b' + ucast cnt\<rparr>]\<rparr>, m2)"
  using assms unfolding slab_take_def assms(2)
  by (cases l) (auto simp: set_link_def slab_upd_def)

lemma free_list_update:
  "b' = b\<lparr>free_list := f\<rparr> \<Longrightarrow> phys_base b' = phys_base b \<and> total_blocks b' = total_blocks b
     \<and> allocated_blocks b' = allocated_blocks b \<and> used b' = used b"
  by simp

lemma slab_take_step:
  assumes c: "cfg_ok cfg" and un: "universe vn (slab_offset s) U"
    and bs: "unat (slab_block_size s) = unit_size cfg" and i: "idx < length (slab_table s)"
    and rb: "rblock cfg U (view (slab_offset s) m) (slab_table s ! idx) (us @ (a, c) # ws)"
    and cnt: "cnt \<noteq> 0" "cnt \<le> ucast c"
  shows "\<exists>b' m'. slab_take vn s m idx cnt (last_link (slab_offset s) us) a c
        (rd64 (view (slab_offset s) m) a)
      = Some (Some a, s\<lparr>slab_table := (slab_table s)[idx := b']\<rparr>, m')
    \<and> rblock cfg U (view (slab_offset s) m') b' (us @ rest_range (slab_block_size s) cnt a c @ ws)
    \<and> blk_of b' = blk_of (slab_table s ! idx) \<and> used b' = used (slab_table s ! idx)
    \<and> same_on (- rfree cfg (us @ (a, c) # ws)) (view (slab_offset s) m) (view (slab_offset s) m')"
proof -
  let ?off = "slab_offset s" and ?b = "slab_table s ! idx" and ?bs = "slab_block_size s"
  let ?rest = "rest_range ?bs cnt a c"
  have ok: "block_ok cfg U (blk_of ?b)" and ch: "rchain (view ?off m) (free_list ?b) (us @ (a, c) # ws)"
    and dj: "rdisj cfg (us @ (a, c) # ws)"
    and fits: "\<forall>x \<in> set (us @ (a, c) # ws). range_fits cfg (blk_of ?b) x"
    and sm: "rsum (us @ (a, c) # ws) + unat (allocated_blocks ?b) = unat (total_blocks ?b)"
    and pw: "unat (total_blocks ?b) = 2 ^ two_exp (unat (total_blocks ?b))"
    using rb by (auto simp: rblock_def)
  have fit: "range_fits cfg (blk_of ?b) (a, c)" using fits by simp
  note rr = rest_range_facts [OF c ok fit bs cnt]
  have ws: "rchain (view ?off m) (rd64 (view ?off m) a) ws"
    using rchain_tail [OF ch] by simp
  have wf: "\<forall>w \<in> set ws. range_fits cfg (blk_of ?b) w \<and> rset cfg w \<inter> rset cfg (a, c) = {}"
    using fits dj by (auto simp: rdisj_append rdisj_Cons rfree_def)
  obtain tgt m1 where t: "(if ucast c = cnt then Some (rd64 (view ?off m) a, m)
        else do {
          let split = a + cnt * ?bs;
          q \<leftarrow> vn (split + ?off);
          Some (split, wr_free_range m q (rd64 (view ?off m) a) (c - ucast cnt)) }) = Some (tgt, m1)"
    "rchain (view ?off m1) tgt (?rest @ ws)"
    "same_on (- rset cfg (a, c)) (view ?off m) (view ?off m1)"
    using rest_range_chain [OF c un ok fit bs cnt ws wf] by blast
  obtain b1 m2 where l: "set_link (last_link ?off us) tgt (?b, m1) = (b1, m2)" by fastforce
  have f2: "\<forall>y \<in> set (us @ (a, c) # ws) \<union> set (?rest @ ws). range_fits cfg (blk_of ?b) y"
    using fits rr(3) by auto
  have rest_sub: "rfree cfg ?rest \<subseteq> rset cfg (a, c)" using rr(1) by blast
  have dj2: "rfree cfg us \<inter> rfree cfg (?rest @ ws) = {}"
    using dj rest_sub by (auto simp: rdisj_append rdisj_Cons)
  note k = set_link_chain [OF c ok ch t(3,2) f2 dj dj2 l]
  define b' where "b' = b1\<lparr>allocated_blocks := allocated_blocks b1 + ucast cnt\<rparr>"
  have same: "phys_base b' = phys_base ?b" "total_blocks b' = total_blocks ?b" "used b' = used ?b"
    "allocated_blocks b1 = allocated_blocks ?b" "free_list b' = free_list b1"
    unfolding b'_def using free_list_update [OF k(3)] by simp_all
  have djn: "rdisj cfg (us @ ?rest @ ws)"
    using dj dj2 rest_sub rr(4) by (auto simp: rdisj_append rdisj_Cons)
  have sum': "rsum (us @ ?rest @ ws) + unat (allocated_blocks b') = unat (total_blocks b')"
  proof -
    have "unat (allocated_blocks ?b) + unat cnt < 2 ^ 32"
      using sm rr(5) unat_bound [of "total_blocks ?b"] by simp
    then have "unat (allocated_blocks b') = unat (allocated_blocks ?b) + unat cnt"
      using same(4) rr(6) by (simp add: b'_def unat_add_nowrap)
    then show ?thesis using sm rr(5) same(2) by simp
  qed
  have bo: "blk_of b' = blk_of ?b" using same by (simp add: blk_of_def)
  have "rblock cfg U (view ?off m2) b' (us @ ?rest @ ws)"
    using ok pw k(1) djn f2 sum' bo same by (auto simp: rblock_def)
  moreover have "slab_take vn s m idx cnt (last_link ?off us) a c (rd64 (view ?off m) a)
      = Some (Some a, s\<lparr>slab_table := (slab_table s)[idx := b']\<rparr>, m2)"
    unfolding b'_def by (rule slab_take_set_link [OF i t(1) l])
  ultimately show ?thesis using k(2) bo same(3) by blast
qed

section \<open>The table\<close>

definition slots :: "page_slab \<Rightarrow> nat set" where
  "slots s = {i. i < block_count s \<and> used (slab_table s ! i)}"

definition slot_set :: "buddy_cfg \<Rightarrow> page_slab \<Rightarrow> nat \<Rightarrow> nat set" where
  "slot_set cfg s i = blk cfg (blk_of (slab_table s ! i))"

definition slab_owned :: "buddy_cfg \<Rightarrow> page_slab \<Rightarrow> nat set" where
  "slab_owned cfg s = (\<Union>i \<in> slots s. slot_set cfg s i)"

definition slab_avail :: "buddy_cfg \<Rightarrow> page_slab \<Rightarrow> (u64 \<times> u32) list list \<Rightarrow> nat set" where
  "slab_avail cfg s rls = (\<Union>i \<in> slots s. rfree cfg (rls ! i))"

definition srel ::
  "buddy_cfg \<Rightarrow> (u64 \<Rightarrow> u64 option) \<Rightarrow> nat set \<Rightarrow> page_slab \<Rightarrow> mem \<Rightarrow> (u64 \<times> u32) list list \<Rightarrow> bool" where
  "srel cfg vn U s m rls \<longleftrightarrow> cfg_ok cfg \<and> universe vn (slab_offset s) U
     \<and> unat (slab_block_size s) = unit_size cfg
     \<and> block_count s \<le> length (slab_table s) \<and> length rls = length (slab_table s)
     \<and> (\<forall>i \<in> slots s. rblock cfg U (view (slab_offset s) m) (slab_table s ! i) (rls ! i))
     \<and> pairwise (\<lambda>i j. slot_set cfg s i \<inter> slot_set cfg s j = {}) (slots s)"

lemma slot_facts:
  assumes "srel cfg vn U s m rls" "i \<in> slots s"
  shows "rblock cfg U (view (slab_offset s) m) (slab_table s ! i) (rls ! i)"
    and "i < length (slab_table s)" and "i < length rls" and "i < block_count s"
    and "rfree cfg (rls ! i) \<subseteq> slot_set cfg s i"
  using assms
  by (auto simp: srel_def slots_def rblock_def rfree_def slot_set_def range_fits_def)

lemma srel_update:
  assumes r: "srel cfg vn U s m rls" and i: "i \<in> slots s"
    and b: "blk_of b' = blk_of (slab_table s ! i)" "used b'"
    and rb: "rblock cfg U (view (slab_offset s) m') b' rs'"
    and f: "same_on (- slot_set cfg s i) (view (slab_offset s) m) (view (slab_offset s) m')"
  defines "s' \<equiv> s\<lparr>slab_table := (slab_table s)[i := b']\<rparr>"
  shows "srel cfg vn U s' m' (rls[i := rs'])" and "slots s' = slots s"
    and "\<And>j. slot_set cfg s' j = slot_set cfg s j"
    and "slab_avail cfg s' (rls[i := rs']) = slab_avail cfg s rls - rfree cfg (rls ! i) \<union> rfree cfg rs'"
proof -
  note sf = slot_facts [OF r i]
  show sl: "slots s' = slots s"
    using i b(2) sf(2) by (auto simp: slots_def s'_def nth_list_update split: if_splits)
  show ss: "slot_set cfg s' j = slot_set cfg s j" for j
    using b(1) sf(2) by (cases "j = i") (simp_all add: slot_set_def s'_def)
  have dj: "slot_set cfg s j \<inter> slot_set cfg s i = {}" if "j \<in> slots s" "j \<noteq> i" for j
    using r i that by (auto simp: srel_def pairwise_def)
  have rbj: "rblock cfg U (view (slab_offset s) m') (slab_table s' ! j) (rls[i := rs'] ! j)"
    if j: "j \<in> slots s" for j
  proof (cases "j = i")
    case True
    then show ?thesis using rb sf by (simp add: s'_def)
  next
    case False
    have "same_on (slot_set cfg s j) (view (slab_offset s) m) (view (slab_offset s) m')"
      using f by (rule same_on_mono) (use dj [OF j False] in blast)
    then have "rblock cfg U (view (slab_offset s) m') (slab_table s ! j) (rls ! j)"
      using rblock_same_on slot_facts(1) [OF r j] r by (auto simp: srel_def slot_set_def)
    then show ?thesis using False by (simp add: s'_def)
  qed
  show "srel cfg vn U s' m' (rls[i := rs'])"
    using r rbj sl ss by (simp add: srel_def s'_def [symmetric]) (simp add: s'_def)
  have "slab_avail cfg s' (rls[i := rs']) = (\<Union>j \<in> slots s - {i}. rfree cfg (rls ! j)) \<union> rfree cfg rs'"
    using i sf(3) by (auto simp: slab_avail_def sl nth_list_update split: if_splits)
  moreover have "rfree cfg (rls ! j) \<inter> rfree cfg (rls ! i) = {}" if "j \<in> slots s" "j \<noteq> i" for j
    using dj [OF that] slot_facts(5) [OF r that(1)] sf(5) by blast
  then have "(\<Union>j \<in> slots s - {i}. rfree cfg (rls ! j)) = slab_avail cfg s rls - rfree cfg (rls ! i)"
    using i by (auto simp: slab_avail_def)
  ultimately show "slab_avail cfg s' (rls[i := rs'])
    = slab_avail cfg s rls - rfree cfg (rls ! i) \<union> rfree cfg rs'"
    by simp
qed

end
