(* ===== verification/Slab_Core.thy ===== *)
theory Slab_Core
  imports Slab_Inv
begin

text \<open>
  The operations of the page slab keep its invariant: allocation takes a range out of the free
  ranges, release puts it back and reports a block that has become free as a whole, and a block
  added from the buddy allocator starts as one free range.
\<close>

definition units :: "buddy_cfg \<Rightarrow> u64 \<Rightarrow> usize \<Rightarrow> nat set" where
  "units cfg a cnt = {unat a ..< unat a + unat cnt * unit_size cfg}"

definition sstep ::
  "buddy_cfg \<Rightarrow> (u64 \<Rightarrow> u64 option) \<Rightarrow> nat set \<Rightarrow> nat set \<Rightarrow> page_slab \<Rightarrow> mem \<Rightarrow> page_slab \<Rightarrow> mem
    \<Rightarrow> (u64 \<times> u32) list list \<Rightarrow> bool" where
  "sstep cfg vn U S s m s' m' rls' \<longleftrightarrow> srel cfg vn U s' m' rls' \<and> slab_offset s' = slab_offset s
     \<and> same_on (- S) (view (slab_offset s) m) (view (slab_offset s) m')"

lemma sstep_refl: "srel cfg vn U s m rls \<Longrightarrow> sstep cfg vn U S s m s m rls"
  by (simp add: sstep_def)

lemma slab_at_slot: "srel cfg vn U s m rls \<Longrightarrow> i < block_count s \<Longrightarrow> slab_at s i = Some (slab_table s ! i)"
  by (simp add: slab_at_def srel_def)

section \<open>Allocation\<close>

lemma range_mapped:
  assumes "srel cfg vn U s m rls" "i \<in> slots s" "x \<in> set (rls ! i)"
  shows "vn (fst x + slab_offset s) = Some (fst x + slab_offset s)"
proof -
  have c: "cfg_ok cfg" and un: "universe vn (slab_offset s) U" using assms(1) by (auto simp: srel_def)
  have "rblock cfg U (view (slab_offset s) m) (slab_table s ! i) (rls ! i)"
    by (rule slot_facts(1) [OF assms(1,2)])
  then have ok: "block_ok cfg U (blk_of (slab_table s ! i))"
    and fit: "range_fits cfg (blk_of (slab_table s ! i)) (fst x, snd x)"
    using assms(3) by (auto simp: rblock_def)
  have "unat (fst x) \<in> U" using range_end(3) [OF c ok fit] ok by (auto simp: block_ok_def)
  then show ?thesis using un by (simp add: universe_def)
qed

lemma alloc_in_block_step:
  assumes r: "srel cfg vn U s m rls" and i: "i \<in> slots s" and cnt: "cnt \<noteq> 0"
  shows "\<exists>res s' m' rls'. alloc_in_block vn s m i cnt = Some (res, s', m')
    \<and> sstep cfg vn U (slab_avail cfg s rls) s m s' m' rls'
    \<and> slots s' = slots s \<and> (\<forall>j. slot_set cfg s' j = slot_set cfg s j)
    \<and> (case res of None \<Rightarrow> s' = s \<and> m' = m \<and> rls' = rls \<and> (\<forall>x \<in> set (rls ! i). \<not> cnt \<le> ucast (snd x))
       | Some a \<Rightarrow> units cfg a cnt \<subseteq> rfree cfg (rls ! i) \<and> unit_size cfg dvd unat a
           \<and> slab_avail cfg s' rls' = slab_avail cfg s rls - units cfg a cnt)"
proof -
  let ?off = "slab_offset s" and ?rs = "rls ! i" and ?b = "slab_table s ! i"
  have c: "cfg_ok cfg" and un: "universe vn ?off U" and bs: "unat (slab_block_size s) = unit_size cfg"
    using r by (auto simp: srel_def)
  note sf = slot_facts [OF r i]
  have "rchain (view ?off m) (free_list ?b) ?rs" using sf(1) by (simp add: rblock_def)
  then have walk: "alloc_in_block vn s m i cnt =
    (case find (\<lambda>x. cnt \<le> ucast (snd x)) ?rs of None \<Rightarrow> Some (None, s, m)
     | Some x \<Rightarrow> slab_take vn s m i cnt (fit_link ?off Head ?rs cnt) (fst x) (snd x)
         (rd64 (view ?off m) (fst x)))"
    using sf(2) range_mapped [OF r i] by (simp add: alloc_in_block_def slab_at_def alloc_loop_walk)
  show ?thesis
  proof (cases "find (\<lambda>x. cnt \<le> ucast (snd x)) ?rs")
    case None
    then have "\<forall>x \<in> set ?rs. \<not> cnt \<le> ucast (snd x)" by (auto simp: find_None_iff)
    then show ?thesis using walk None sstep_refl [OF r] by auto
  next
    case (Some x)
    obtain us ws where sp: "?rs = us @ x # ws" "cnt \<le> ucast (snd x)"
      "\<forall>u \<in> set us. \<not> cnt \<le> ucast (snd u)"
      using find_split [OF Some] by blast
    obtain a cc where x: "x = (a, cc)" by fastforce
    have fl: "fit_link ?off Head ?rs cnt = last_link ?off us"
      unfolding sp(1) fit_link_split [OF sp(3,2)] by (simp add: last_link_def)
    have rb: "rblock cfg U (view ?off m) ?b (us @ (a, cc) # ws)" using sf(1) sp(1) x by simp
    have cle: "cnt \<le> ucast cc" using sp(2) x by simp
    let ?rest = "rest_range (slab_block_size s) cnt a cc"
    obtain b' m' where t: "slab_take vn s m i cnt (last_link ?off us) a cc (rd64 (view ?off m) a)
        = Some (Some a, s\<lparr>slab_table := (slab_table s)[i := b']\<rparr>, m')"
      "rblock cfg U (view ?off m') b' (us @ ?rest @ ws)" "blk_of b' = blk_of ?b" "used b' = used ?b"
      "same_on (- rfree cfg (us @ (a, cc) # ws)) (view ?off m) (view ?off m')"
      using slab_take_step [OF c un bs sf(2) rb cnt cle] by blast
    have ub: "used b'" using t(4) i by (simp add: slots_def)
    have fr: "same_on (- slot_set cfg s i) (view ?off m) (view ?off m')"
      using t(5) by (rule same_on_mono) (use sf(5) sp(1) x in auto)
    note up = srel_update [OF r i t(3) ub t(2) fr]
    have ok: "block_ok cfg U (blk_of ?b)" and fit: "range_fits cfg (blk_of ?b) (a, cc)"
      and dj: "rdisj cfg (us @ (a, cc) # ws)"
      using rb by (auto simp: rblock_def)
    note rr = rest_range_facts [OF c ok fit bs cnt cle]
    have av: "rfree cfg ?rs \<subseteq> slab_avail cfg s rls" using i by (auto simp: slab_avail_def)
    have un: "units cfg a cnt \<subseteq> rset cfg (a, cc)" using rr(2) by (simp add: units_def)
    have "rfree cfg (us @ ?rest @ ws) = rfree cfg ?rs - units cfg a cnt"
    proof -
      have "rfree cfg ?rest = rset cfg (a, cc) - units cfg a cnt" using rr(1) by (simp add: units_def)
      moreover have "rset cfg (a, cc) \<inter> (rfree cfg us \<union> rfree cfg ws) = {}"
        using dj by (auto simp: rdisj_append rdisj_Cons)
      ultimately show ?thesis using un by (simp add: sp(1) x) blast
    qed
    then have "slab_avail cfg (s\<lparr>slab_table := (slab_table s)[i := b']\<rparr>) (rls[i := us @ ?rest @ ws])
        = slab_avail cfg s rls - units cfg a cnt"
      using up(4) av un sp(1) x by auto
    moreover have "sstep cfg vn U (slab_avail cfg s rls) s m (s\<lparr>slab_table := (slab_table s)[i := b']\<rparr>) m'
        (rls[i := us @ ?rest @ ws])"
      using up(1) same_on_mono [OF t(5), of "- slab_avail cfg s rls"] av sp(1) x
      by (simp add: sstep_def)
    moreover have "unit_size cfg dvd unat a" using fit by (simp add: range_fits_def)
    moreover have "alloc_in_block vn s m i cnt = Some (Some a, s\<lparr>slab_table := (slab_table s)[i := b']\<rparr>, m')"
      using walk Some fl t(1) x by simp
    ultimately show ?thesis using up(2,3) un sp(1) x by auto
  qed
qed

lemma slab_allocate_from_step:
  assumes r: "srel cfg vn U s m rls" and cnt: "cnt \<noteq> 0" and "is": "set is \<subseteq> {..<block_count s}"
  shows "\<exists>res s' m' rls'. slab_allocate_from vn s m cnt is = Some (res, s', m')
    \<and> sstep cfg vn U (slab_avail cfg s rls) s m s' m' rls'
    \<and> slots s' = slots s \<and> (\<forall>j. slot_set cfg s' j = slot_set cfg s j)
    \<and> (case res of None \<Rightarrow> s' = s \<and> m' = m \<and> rls' = rls
           \<and> (\<forall>i \<in> slots s \<inter> set is. \<forall>x \<in> set (rls ! i). \<not> cnt \<le> ucast (snd x))
       | Some a \<Rightarrow> (\<exists>i \<in> slots s. units cfg a cnt \<subseteq> rfree cfg (rls ! i)) \<and> unit_size cfg dvd unat a
           \<and> slab_avail cfg s' rls' = slab_avail cfg s rls - units cfg a cnt)"
  using "is"
proof (induction "is")
  case Nil
  then show ?case using sstep_refl [OF r] by auto
next
  case (Cons i "is")
  then have i: "i < block_count s" by simp
  note at = slab_at_slot [OF r i]
  show ?case
  proof (cases "used (slab_table s ! i)")
    case False
    then have e: "slots s \<inter> set (i # is) = slots s \<inter> set is" by (auto simp: slots_def)
    have "slab_allocate_from vn s m cnt (i # is) = slab_allocate_from vn s m cnt is"
      using at False by simp
    then show ?thesis unfolding e using Cons by simp
  next
    case True
    then have sl: "i \<in> slots s" using i by (simp add: slots_def)
    obtain res s' m' rls' where a: "alloc_in_block vn s m i cnt = Some (res, s', m')"
      "sstep cfg vn U (slab_avail cfg s rls) s m s' m' rls'"
      "slots s' = slots s" "\<forall>j. slot_set cfg s' j = slot_set cfg s j"
      "case res of None \<Rightarrow> s' = s \<and> m' = m \<and> rls' = rls \<and> (\<forall>x \<in> set (rls ! i). \<not> cnt \<le> ucast (snd x))
       | Some a \<Rightarrow> units cfg a cnt \<subseteq> rfree cfg (rls ! i) \<and> unit_size cfg dvd unat a
           \<and> slab_avail cfg s' rls' = slab_avail cfg s rls - units cfg a cnt"
      using alloc_in_block_step [OF r sl cnt] by blast
    show ?thesis
    proof (cases res)
      case None
      then have n: "alloc_in_block vn s m i cnt = Some (None, s, m)"
        "\<forall>x \<in> set (rls ! i). \<not> cnt \<le> ucast (snd x)"
        using a(1,5) by simp_all
      have eq: "slab_allocate_from vn s m cnt (i # is) = slab_allocate_from vn s m cnt is"
        using at True n(1) by simp
      have e: "slots s \<inter> set (i # is) = insert i (slots s \<inter> set is)" using sl by auto
      have q: "(\<forall>j \<in> slots s \<inter> set (i # is). \<forall>x \<in> set (rls ! j). \<not> cnt \<le> ucast (snd x)) =
        (\<forall>j \<in> slots s \<inter> set is. \<forall>x \<in> set (rls ! j). \<not> cnt \<le> ucast (snd x))"
        unfolding e using n(2) by simp
      show ?thesis unfolding eq q using Cons by simp
    next
      case (Some a')
      with a True at sl show ?thesis by auto
    qed
  qed
qed

lemma slab_allocate_step:
  assumes r: "srel cfg vn U s m rls" and cnt: "cnt \<noteq> 0"
  shows "\<exists>res s' m' rls'. slab_allocate vn s m cnt = Some (res, s', m')
    \<and> sstep cfg vn U (slab_avail cfg s rls) s m s' m' rls'
    \<and> slots s' = slots s \<and> (\<forall>j. slot_set cfg s' j = slot_set cfg s j)
    \<and> (case res of None \<Rightarrow> s' = s \<and> m' = m \<and> rls' = rls
           \<and> (\<forall>i \<in> slots s. \<forall>x \<in> set (rls ! i). \<not> cnt \<le> ucast (snd x))
       | Some a \<Rightarrow> (\<exists>i \<in> slots s. units cfg a cnt \<subseteq> rfree cfg (rls ! i)) \<and> unit_size cfg dvd unat a
           \<and> slab_avail cfg s' rls' = slab_avail cfg s rls - units cfg a cnt)"
proof -
  have s: "slots s \<inter> set [0..<block_count s] = slots s" by (auto simp: slots_def)
  have "set [0..<block_count s] \<subseteq> {..<block_count s}" by auto
  from slab_allocate_from_step [OF r cnt this] show ?thesis unfolding slab_allocate_def s .
qed

section \<open>Looking up the owner of an address\<close>

lemma slot_fin:
  assumes "srel cfg vn U s m rls" "i \<in> slots s"
  shows "phys_base (slab_table s ! i) \<le> a
      \<and> a < phys_base (slab_table s ! i) + ucast (total_blocks (slab_table s ! i)) * slab_block_size s
    \<longleftrightarrow> unat a \<in> slot_set cfg s i"
proof -
  let ?b = "slab_table s ! i"
  have c: "cfg_ok cfg" and un: "universe vn (slab_offset s) U" and bs: "unat (slab_block_size s) = unit_size cfg"
    using assms(1) by (auto simp: srel_def)
  have rb: "rblock cfg U (view (slab_offset s) m) ?b (rls ! i)" by (rule slot_facts(1) [OF assms])
  then have ok: "block_ok cfg U (phys_base ?b, snd (blk_of ?b))"
    and tot: "unat (total_blocks ?b) = 2 ^ snd (blk_of ?b)"
    by (auto simp: rblock_def blk_of_def)
  have z: "bsz cfg (snd (blk_of ?b)) = unat (total_blocks ?b) * unit_size cfg"
    by (simp add: bsz_def power_add flip: tot)
  have "unat (phys_base ?b) + bsz cfg (snd (blk_of ?b)) - 1 \<in> U"
    using ok bsz_pos [of cfg "snd (blk_of ?b)"]
    by (auto simp: block_ok_def blk_def subset_eq simp del: bsz_pos)
  then have "unat (phys_base ?b) + bsz cfg (snd (blk_of ?b)) \<noteq> 2 ^ 64"
    using un by (auto simp: universe_def)
  then have e: "unat (phys_base ?b) + unat (total_blocks ?b) * unit_size cfg < 2 ^ 64"
    using block_end [OF c ok] z by linarith
  have "unat (total_blocks ?b) * unit_size cfg < 2 ^ 64" using e by linarith
  then have "unat (ucast (total_blocks ?b) * slab_block_size s) = unat (total_blocks ?b) * unit_size cfg"
    using bs unat_bound [of "total_blocks ?b"] by (subst unat_mult_nowrap) (simp_all add: unat_ucast_mod)
  then have "unat (phys_base ?b + ucast (total_blocks ?b) * slab_block_size s)
      = unat (phys_base ?b) + bsz cfg (snd (blk_of ?b))"
    using e z by (simp add: unat_add_nowrap)
  then show ?thesis
    by (auto simp: slot_set_def blk_def blk_of_def word_le_nat_alt word_less_nat_alt)
qed

lemma find_block_from_spec:
  assumes r: "srel cfg vn U s m rls" and "set is \<subseteq> {..<block_count s}"
  shows "find_block_from s a is = Some (find (\<lambda>i. i \<in> slots s \<and> unat a \<in> slot_set cfg s i) is)"
  using assms(2)
proof (induction "is")
  case Nil
  then show ?case by simp
next
  case (Cons i "is")
  then have i: "i < block_count s" by simp
  show ?case
  proof (cases "used (slab_table s ! i)")
    case True
    then have sl: "i \<in> slots s" using i by (simp add: slots_def)
    show ?thesis
      using Cons slab_at_slot [OF r i] True sl slot_fin [OF r sl, of a] by (simp add: Let_def)
  next
    case False
    then show ?thesis using Cons slab_at_slot [OF r i] by (simp add: slots_def)
  qed
qed

lemma find_block_spec:
  assumes r: "srel cfg vn U s m rls"
  shows "find_block s a = Some (find (\<lambda>i. i \<in> slots s \<and> unat a \<in> slot_set cfg s i) [0..<block_count s])"
  unfolding find_block_def by (rule find_block_from_spec [OF r]) auto

lemma find_block_slot:
  assumes r: "srel cfg vn U s m rls" and i: "i \<in> slots s" "unat a \<in> slot_set cfg s i"
  shows "find_block s a = Some (Some i)"
proof -
  let ?P = "\<lambda>i. i \<in> slots s \<and> unat a \<in> slot_set cfg s i"
  have "i \<in> set [0..<block_count s]" using i(1) by (simp add: slots_def)
  then obtain j where j: "find ?P [0..<block_count s] = Some j"
    using i by (cases "find ?P [0..<block_count s]") (auto simp: find_None_iff)
  then have "j \<in> slots s" "unat a \<in> slot_set cfg s j" using find_split [OF j] by auto
  then have "j = i" using r i by (auto simp: srel_def pairwise_def)
  then show ?thesis using j find_block_spec [OF r] by simp
qed

lemma owns_spec:
  assumes r: "srel cfg vn U s m rls"
  shows "owns s a = Some (unat a \<in> slab_owned cfg s)"
proof (cases "unat a \<in> slab_owned cfg s")
  case True
  then obtain i where "i \<in> slots s" "unat a \<in> slot_set cfg s i" by (auto simp: slab_owned_def)
  then show ?thesis using find_block_slot [OF r] True by (simp add: owns_def)
next
  case False
  then have "find (\<lambda>i. i \<in> slots s \<and> unat a \<in> slot_set cfg s i) [0..<block_count s] = None"
    by (auto simp: find_None_iff slab_owned_def)
  then show ?thesis using find_block_spec [OF r] False by (simp add: owns_def)
qed

section \<open>Release\<close>

lemma units_rset:
  assumes "unat cnt < 2 ^ 32"
  shows "units cfg a cnt = rset cfg (a, ucast cnt)"
  using assms by (simp add: units_def rset_def unat_ucast_mod)

lemma units_count:
  assumes ok: "rblock cfg U v b rs" and sub: "units cfg a cnt \<subseteq> blk cfg (blk_of b)"
    and dj: "units cfg a cnt \<inter> rfree cfg rs = {}"
  shows "unat cnt \<le> unat (allocated_blocks b)" and "unat cnt < 2 ^ 32"
proof -
  have rs: "rdisj cfg rs" "rfree cfg rs \<subseteq> blk cfg (blk_of b)"
    and pw: "unat (total_blocks b) = 2 ^ two_exp (unat (total_blocks b))"
    and sm: "rsum rs + unat (allocated_blocks b) = unat (total_blocks b)"
    using ok by (auto simp: rblock_def rfree_def range_fits_def)
  have fin: "finite (blk cfg (blk_of b))" by (simp add: blk_def)
  have "card (units cfg a cnt \<union> rfree cfg rs) \<le> card (blk cfg (blk_of b))"
    using sub rs(2) fin by (intro card_mono) auto
  moreover have "card (units cfg a cnt \<union> rfree cfg rs) = card (units cfg a cnt) + card (rfree cfg rs)"
    using dj by (intro card_Un_disjoint) (auto simp: units_def rfree_def rset_def)
  ultimately have "(unat cnt + rsum rs) * unit_size cfg \<le> unat (total_blocks b) * unit_size cfg"
    using rfree_card [OF rs(1)] blk_of_card [OF pw, of cfg] by (simp add: units_def algebra_simps)
  then have "unat cnt + rsum rs \<le> unat (total_blocks b)" by simp
  then show le: "unat cnt \<le> unat (allocated_blocks b)" using sm by simp
  then show "unat cnt < 2 ^ 32" using unat_bound [of "allocated_blocks b"] by simp
qed

text \<open>A block's ranges with a released one in front.\<close>

lemma push_range_block:
  assumes c: "cfg_ok cfg" and un: "universe vn off U" and rb: "rblock cfg U v b rs"
    and sub: "units cfg a cnt \<subseteq> blk cfg (blk_of b)" and dj: "units cfg a cnt \<inter> rfree cfg rs = {}"
    and cnt: "cnt \<noteq> 0" and al: "unit_size cfg dvd unat a"
  defines "b' \<equiv> b\<lparr>free_list := a, allocated_blocks := allocated_blocks b - ucast cnt\<rparr>"
  defines "v' \<equiv> wr_free_range v a (free_list b) (ucast cnt)"
  shows "rblock cfg U v' b' ((a, ucast cnt) # rs)" and "blk_of b' = blk_of b"
    and "same_on (- units cfg a cnt) v v'" and "vn (a + off) = Some (a + off)"
    and "checked_sub (allocated_blocks b) (ucast cnt) = Some (allocated_blocks b')"
    and "allocated_blocks b' = 0 \<longleftrightarrow> blk cfg (blk_of b) = units cfg a cnt \<union> rfree cfg rs"
proof -
  note uc = units_count [OF rb sub dj]
  have ok: "block_ok cfg U (blk_of b)" and ch: "rchain v (free_list b) rs" and dr: "rdisj cfg rs"
    and fits: "\<forall>x \<in> set rs. range_fits cfg (blk_of b) x"
    and pw: "unat (total_blocks b) = 2 ^ two_exp (unat (total_blocks b))"
    and sm: "rsum rs + unat (allocated_blocks b) = unat (total_blocks b)"
    using rb by (auto simp: rblock_def)
  have u32: "unat (ucast cnt :: u32) = unat cnt" using uc(2) by (simp add: unat_ucast_mod)
  have us: "units cfg a cnt = rset cfg (a, ucast cnt)" by (rule units_rset [OF uc(2)])
  have pos: "0 < unat cnt" using cnt by (simp add: unat_gt_0)
  have fit: "range_fits cfg (blk_of b) (a, ucast cnt)"
    using sub us al pos u32 by (simp add: range_fits_def)
  note e = range_end [OF c ok fit]
  have aU: "unat a \<in> U" using e(3) ok by (auto simp: block_ok_def)
  then show "vn (a + off) = Some (a + off)" using un by (simp add: universe_def)
  have a0: "a \<noteq> 0" using aU un by (auto simp: universe_def)
  have c12: "{unat a ..< unat a + 12} \<subseteq> units cfg a cnt" using cell12 [OF c fit] us by simp
  show frame: "same_on (- units cfg a cnt) v v'"
    unfolding v'_def using c12 e(2) by (intro wr_free_range_frame) auto
  have "rchain v' (free_list b) rs"
  proof (rule rchain_same_on [OF frame _ ch])
    fix x assume x: "x \<in> set rs"
    then have fx: "range_fits cfg (blk_of b) (fst x, snd x)" using fits by auto
    have "rset cfg x \<inter> units cfg a cnt = {}" using dj x by (auto simp: rfree_def)
    then show "{unat (fst x) ..< unat (fst x) + 12} \<subseteq> - units cfg a cnt \<and> unat (fst x) + 16 \<le> 2 ^ 64"
      using cell12 [OF c fx] range_end(2) [OF c ok fx] by auto
  qed
  then have ch': "rchain v' a ((a, ucast cnt) # rs)"
    using a0 wr_free_range_read [OF e(2)] by (simp add: v'_def)
  show bo: "blk_of b' = blk_of b" by (simp add: b'_def blk_of_def)
  have le: "(ucast cnt :: u32) \<le> allocated_blocks b" using uc(1) u32 by (simp add: word_le_nat_alt)
  show "checked_sub (allocated_blocks b) (ucast cnt) = Some (allocated_blocks b')"
    using le by (simp add: checked_sub_def b'_def)
  have al': "unat (allocated_blocks b') = unat (allocated_blocks b) - unat cnt"
    using uc(1) u32 by (simp add: b'_def unat_sub_nowrap)
  have dr': "rdisj cfg ((a, ucast cnt) # rs)" using dr dj us by (simp add: rdisj_Cons)
  have sm': "rsum ((a, ucast cnt) # rs) + unat (allocated_blocks b') = unat (total_blocks b')"
    using sm al' uc(1) u32 by (simp add: b'_def)
  have "block_ok cfg U (blk_of b')" "unat (total_blocks b') = 2 ^ two_exp (unat (total_blocks b'))"
    "rchain v' (free_list b') ((a, ucast cnt) # rs)"
    "\<forall>x \<in> set ((a, ucast cnt) # rs). range_fits cfg (blk_of b') x"
    using ok bo pw ch' fits fit by (auto simp: b'_def)
  then show "rblock cfg U v' b' ((a, ucast cnt) # rs)"
    unfolding rblock_def using dr' sm' by blast
  have card1: "card (rfree cfg ((a, ucast cnt) # rs)) = rsum ((a, ucast cnt) # rs) * unit_size cfg"
    by (rule rfree_card [OF dr'])
  have card2: "card (blk cfg (blk_of b)) = unat (total_blocks b) * unit_size cfg"
    by (rule blk_of_card [OF pw])
  have sub': "rfree cfg ((a, ucast cnt) # rs) \<subseteq> blk cfg (blk_of b)"
    using sub us fits by (auto simp: rfree_def range_fits_def)
  have fin: "finite (blk cfg (blk_of b))" by (simp add: blk_def)
  have t: "unat (total_blocks b') = unat (total_blocks b)" by (simp add: b'_def)
  show "allocated_blocks b' = 0 \<longleftrightarrow> blk cfg (blk_of b) = units cfg a cnt \<union> rfree cfg rs"
  proof
    assume "allocated_blocks b' = 0"
    then have "rsum ((a, ucast cnt) # rs) = unat (total_blocks b)" using sm' t by simp
    then have "card (rfree cfg ((a, ucast cnt) # rs)) = card (blk cfg (blk_of b))"
      using card1 card2 by simp
    then show "blk cfg (blk_of b) = units cfg a cnt \<union> rfree cfg rs"
      using card_subset_eq [OF fin sub'] us by simp
  next
    assume "blk cfg (blk_of b) = units cfg a cnt \<union> rfree cfg rs"
    then have "rfree cfg ((a, ucast cnt) # rs) = blk cfg (blk_of b)" using us by simp
    then have "card (rfree cfg ((a, ucast cnt) # rs)) = card (blk cfg (blk_of b))" by (rule arg_cong)
    then have "rsum ((a, ucast cnt) # rs) * unit_size cfg = unat (total_blocks b) * unit_size cfg"
      unfolding card1 card2 .
    then have "rsum ((a, ucast cnt) # rs) = unat (total_blocks b)" by (simp add: bsz_def)
    then show "allocated_blocks b' = 0" using sm' t by (simp add: unat_eq_0)
  qed
qed

lemma srel_drop:
  assumes r: "srel cfg vn U s m rls" and i: "i \<in> slots s"
    and b: "blk_of b' = blk_of (slab_table s ! i)" "\<not> used b'"
    and f: "same_on (- slot_set cfg s i) (view (slab_offset s) m) (view (slab_offset s) m')"
  defines "s' \<equiv> s\<lparr>slab_table := (slab_table s)[i := b']\<rparr>"
  shows "srel cfg vn U s' m' rls" and "slots s' = slots s - {i}"
    and "\<And>j. slot_set cfg s' j = slot_set cfg s j"
    and "slab_avail cfg s' rls = slab_avail cfg s rls - slot_set cfg s i"
proof -
  note sf = slot_facts [OF r i]
  show sl: "slots s' = slots s - {i}"
    using b(2) sf(2) by (auto simp: slots_def s'_def nth_list_update split: if_splits)
  show ss: "slot_set cfg s' j = slot_set cfg s j" for j
    using b(1) sf(2) by (cases "j = i") (simp_all add: slot_set_def s'_def)
  have dj: "slot_set cfg s j \<inter> slot_set cfg s i = {}" if "j \<in> slots s" "j \<noteq> i" for j
    using r i that by (auto simp: srel_def pairwise_def)
  have rbj: "rblock cfg U (view (slab_offset s) m') (slab_table s' ! j) (rls ! j)"
    if j: "j \<in> slots s" "j \<noteq> i" for j
  proof -
    have "same_on (slot_set cfg s j) (view (slab_offset s) m) (view (slab_offset s) m')"
      using f by (rule same_on_mono) (use dj [OF j] in blast)
    then have "rblock cfg U (view (slab_offset s) m') (slab_table s ! j) (rls ! j)"
      using rblock_same_on slot_facts(1) [OF r j(1)] r by (auto simp: srel_def slot_set_def)
    then show ?thesis using j by (simp add: s'_def)
  qed
  have "pairwise (\<lambda>i j. slot_set cfg s i \<inter> slot_set cfg s j = {}) (slots s - {i})"
    using r by (auto simp: srel_def intro: pairwise_subset)
  then show "srel cfg vn U s' m' rls"
    using r rbj sl ss by (simp add: srel_def s'_def [symmetric]) (simp add: s'_def)
  have "rfree cfg (rls ! j) \<inter> slot_set cfg s i = {}" if "j \<in> slots s" "j \<noteq> i" for j
    using dj [OF that] slot_facts(5) [OF r that(1)] by blast
  then show "slab_avail cfg s' rls = slab_avail cfg s rls - slot_set cfg s i"
    using sf(5) by (auto simp: slab_avail_def sl)
qed

lemma slab_free_step:
  assumes r: "srel cfg vn U s m rls" and i: "i \<in> slots s"
    and sub: "units cfg a cnt \<subseteq> slot_set cfg s i" and dj: "units cfg a cnt \<inter> slab_avail cfg s rls = {}"
    and cnt: "cnt \<noteq> 0" and al: "unit_size cfg dvd unat a"
  shows "\<exists>res s' m' rls'. slab_free vn s m a cnt = Some (res, s', m')
    \<and> sstep cfg vn U (units cfg a cnt) s m s' m' rls' \<and> (\<forall>j. slot_set cfg s' j = slot_set cfg s j)
    \<and> (case res of
        None \<Rightarrow> slots s' = slots s \<and> slab_avail cfg s' rls' = slab_avail cfg s rls \<union> units cfg a cnt
      | Some (base, tot) \<Rightarrow> (base, trailing_zeros tot) = blk_of (slab_table s ! i) \<and> slots s' = slots s - {i}
          \<and> slab_avail cfg s' rls' = slab_avail cfg s rls - slot_set cfg s i
          \<and> slot_set cfg s i \<subseteq> slab_avail cfg s rls \<union> units cfg a cnt)"
proof -
  let ?off = "slab_offset s" and ?b = "slab_table s ! i"
  have c: "cfg_ok cfg" and un: "universe vn ?off U" using r by (auto simp: srel_def)
  note sf = slot_facts [OF r i]
  have av: "rfree cfg (rls ! i) \<subseteq> slab_avail cfg s rls" using i by (auto simp: slab_avail_def)
  have subb: "units cfg a cnt \<subseteq> blk cfg (blk_of ?b)" using sub by (simp add: slot_set_def)
  have djr: "units cfg a cnt \<inter> rfree cfg (rls ! i) = {}" using dj av by blast
  note p = push_range_block [OF c un sf(1) subb djr cnt al]
  define b' where "b' = ?b\<lparr>free_list := a, allocated_blocks := allocated_blocks ?b - ucast cnt\<rparr>"
  define m' where "m' = wr_free_range m (a + ?off) (free_list ?b) (ucast cnt)"
  have v': "view ?off m' = wr_free_range (view ?off m) a (free_list ?b) (ucast cnt)"
    by (simp add: m'_def wr_free_range_view)
  note p = p [folded b'_def v']
  have "0 < unat cnt * unit_size cfg" using cnt by (simp add: unat_gt_0)
  then have "unat a \<in> slot_set cfg s i" using sub by (auto simp: units_def subset_eq)
  then have fb: "find_block s a = Some (Some i)" by (rule find_block_slot [OF r i])
  have fr: "same_on (- slot_set cfg s i) (view ?off m) (view ?off m')"
    using p(3) by (rule same_on_mono) (use sub in blast)
  have tz: "(phys_base ?b, trailing_zeros (total_blocks ?b)) = blk_of ?b"
  proof -
    have "unat (total_blocks ?b) = 2 ^ two_exp (unat (total_blocks ?b))"
      using sf(1) by (simp add: rblock_def)
    then have "total_blocks ?b \<noteq> 0" by (metis unat_0 power_not_zero zero_neq_numeral)
    then show ?thesis by (simp add: blk_of_def trailing_zeros_def)
  qed
  have ub: "used b'" using i by (simp add: b'_def slots_def)
  have free: "slab_free vn s m a cnt = Some
    (if allocated_blocks b' \<noteq> 0 then (None, s\<lparr>slab_table := (slab_table s)[i := b']\<rparr>, m')
     else (Some (phys_base ?b, total_blocks ?b),
       s\<lparr>slab_table := (slab_table s)[i := b'\<lparr>used := False\<rparr>]\<rparr>, m'))"
    using fb sf(2) p(4,5)
    by (simp add: slab_free_def slab_at_def Let_def slab_upd_def m'_def) (simp add: b'_def)
  show ?thesis
  proof (cases "allocated_blocks b' = 0")
    case False
    note up = srel_update [OF r i p(2) ub p(1) fr]
    have us: "units cfg a cnt = rset cfg (a, ucast cnt)"
      by (rule units_rset [OF units_count(2) [OF sf(1) subb djr]])
    have "slab_avail cfg (s\<lparr>slab_table := (slab_table s)[i := b']\<rparr>) (rls[i := (a, ucast cnt) # rls ! i])
        = slab_avail cfg s rls \<union> units cfg a cnt"
      using up(4) av us by auto
    then show ?thesis using False free up(1-3) p(3) by (auto simp: sstep_def)
  next
    case True
    have bo: "blk_of (b'\<lparr>used := False\<rparr>) = blk_of ?b" using p(2) by (simp add: blk_of_def)
    note dr = srel_drop [OF r i bo _ fr]
    have "slot_set cfg s i \<subseteq> slab_avail cfg s rls \<union> units cfg a cnt"
      using p(6) True av by (auto simp: slot_set_def)
    then show ?thesis using True free dr p(3) tz by (auto simp: sstep_def)
  qed
qed

section \<open>Adding a block\<close>

lemma add_block_step:
  assumes r: "srel cfg vn U s m rls" and ok: "block_ok cfg U (base, k)"
    and dj: "blk cfg (base, k) \<inter> slab_owned cfg s = {}" and tot: "unat tot = 2 ^ k"
  shows "\<exists>ok s' m' rls'. add_block vn s m base tot = Some (ok, s', m')
    \<and> sstep cfg vn U (blk cfg (base, k)) s m s' m' rls'
    \<and> (if ok then \<exists>i. i \<notin> slots s \<and> slots s' = insert i (slots s) \<and> slot_set cfg s' i = blk cfg (base, k)
           \<and> (\<forall>j \<in> slots s. slot_set cfg s' j = slot_set cfg s j)
           \<and> rls' ! i = [(base, tot)] \<and> slab_avail cfg s' rls' = slab_avail cfg s rls \<union> blk cfg (base, k)
       else s' = s \<and> m' = m \<and> rls' = rls)"
proof -
  let ?off = "slab_offset s"
  have c: "cfg_ok cfg" and un: "universe vn ?off U" and bs: "unat (slab_block_size s) = unit_size cfg"
    and bc: "block_count s \<le> length (slab_table s)" and lr: "length rls = length (slab_table s)"
    using r by (auto simp: srel_def)
  define choice where "choice = (case slab_position s of
               Some i \<Rightarrow> Some (i, s)
             | None \<Rightarrow> if block_count s < length (slab_table s)
                 then Some (block_count s, s\<lparr>block_count := block_count s + 1\<rparr>) else None)"
  show ?thesis
  proof (cases choice)
    case None
    then have "add_block vn s m base tot = Some (False, s, m)"
      using bc by (simp add: add_block_def choice_def)
    then show ?thesis using sstep_refl [OF r] by auto
  next
    case (Some x)
    obtain i s1 where x: "x = (i, s1)" by fastforce
    have i: "i \<notin> slots s" "i < block_count s1" "block_count s1 \<le> length (slab_table s)"
      "slab_table s1 = slab_table s" "slab_offset s1 = slab_offset s" "slab_block_size s1 = slab_block_size s"
      "\<And>j. j < block_count s1 \<Longrightarrow> j = i \<or> j < block_count s" "block_count s \<le> block_count s1"
      using Some x bc unfolding choice_def slab_position_def
      by (auto simp: find_Some_iff slots_def split: option.splits if_splits)
    define nb where "nb = \<lparr>phys_base = base, total_blocks = tot, allocated_blocks = 0, free_list = base, used = True\<rparr>"
    define s' where "s' = s1\<lparr>slab_table := (slab_table s)[i := nb]\<rparr>"
    define m' where "m' = wr_free_range m (base + ?off) 0 tot"
    define rls' where "rls' = rls[i := [(base, tot)]]"
    have vn: "vn (base + ?off) = Some (base + ?off)" by (rule block_mapped [OF un ok])
    have il: "i < length (slab_table s)" using i by simp
    have add: "add_block vn s m base tot = Some (True, s', m')"
      using Some x bc i vn il
      by (simp add: add_block_def flip: choice_def)
         (simp add: slab_upd_def s'_def m'_def nb_def)
    have bo: "blk_of nb = (base, k)" using tot by (simp add: blk_of_def nb_def)
    have z: "rset cfg (base, tot) = blk cfg (base, k)"
      using tot by (simp add: rset_def blk_def bsz_def power_add)
    have fit: "range_fits cfg (base, k) (base, tot)"
    proof -
      have "unit_size cfg dvd bsz cfg k" by (simp add: bsz_def le_imp_power_dvd)
      then have "unit_size cfg dvd unat base" using ok by (auto simp: block_ok_def intro: dvd_trans)
      then show ?thesis using tot z by (simp add: range_fits_def)
    qed
    note e = range_end [OF c ok fit]
    have v': "view ?off m' = wr_free_range (view ?off m) base 0 tot"
      by (simp add: m'_def wr_free_range_view)
    have frame: "same_on (- blk cfg (base, k)) (view ?off m) (view ?off m')"
      unfolding v' using cell12 [OF c fit] z e(2) by (intro wr_free_range_frame) auto
    have b0: "base \<noteq> 0" by (rule block_nonzero [OF un ok])
    have nbb: "rblock cfg U (view ?off m') nb [(base, tot)]"
      using ok bo tot fit b0 wr_free_range_read [OF e(2)] unfolding rblock_def v'
      by (simp add: nb_def rdisj_def rsum_def)
    have sl: "slots s' = insert i (slots s)"
    proof -
      have "j \<in> slots s' \<longleftrightarrow> j = i \<or> j \<in> slots s" for j
        using i(2,7) i(8) il by (cases "j = i") (auto simp: slots_def s'_def nb_def)
      then show ?thesis by blast
    qed
    have ssi: "slot_set cfg s' i = blk cfg (base, k)" using il bo by (simp add: slot_set_def s'_def)
    have ssj: "slot_set cfg s' j = slot_set cfg s j" if "j \<in> slots s" for j
      using that i(1) by (cases "j = i") (simp_all add: slot_set_def s'_def)
    have rbj: "rblock cfg U (view ?off m') (slab_table s' ! j) (rls' ! j)" if j: "j \<in> slots s" for j
    proof -
      have ne: "j \<noteq> i" using j i(1) by blast
      have "slot_set cfg s j \<inter> blk cfg (base, k) = {}" using dj j by (auto simp: slab_owned_def)
      then have "same_on (slot_set cfg s j) (view ?off m) (view ?off m')"
        using frame by (intro same_on_mono [OF frame]) auto
      then have "rblock cfg U (view ?off m') (slab_table s ! j) (rls ! j)"
        using rblock_same_on [OF c slot_facts(1) [OF r j]] by (simp add: slot_set_def)
      then show ?thesis using ne by (simp add: s'_def rls'_def)
    qed
    have rbi: "rblock cfg U (view ?off m') (slab_table s' ! i) (rls' ! i)"
      using nbb il lr by (simp add: s'_def rls'_def)
    have pw: "pairwise (\<lambda>i j. slot_set cfg s' i \<inter> slot_set cfg s' j = {}) (insert i (slots s))"
    proof -
      have "pairwise (\<lambda>i j. slot_set cfg s' i \<inter> slot_set cfg s' j = {}) (slots s)"
        using r ssj by (auto simp: srel_def pairwise_def)
      then show ?thesis using ssi ssj dj by (auto simp: pairwise_insert slab_owned_def)
    qed
    have "srel cfg vn U s' m' rls'"
      unfolding srel_def sl using c un bs i rbj rbi pw lr by (simp add: s'_def rls'_def)
    moreover have "slab_avail cfg s' rls' = slab_avail cfg s rls \<union> blk cfg (base, k)"
    proof -
      have "rfree cfg (rls' ! j) = rfree cfg (rls ! j)" if "j \<in> slots s" for j
        using that i(1) by (cases "j = i") (auto simp: rls'_def)
      moreover have "rfree cfg (rls' ! i) = blk cfg (base, k)"
        using il lr z by (simp add: rls'_def rfree_def)
      ultimately show ?thesis by (auto simp: slab_avail_def sl)
    qed
    moreover have "rls' ! i = [(base, tot)]" using il lr by (simp add: rls'_def)
    moreover have "slab_offset s' = slab_offset s" using i(5) by (simp add: s'_def)
    ultimately show ?thesis using add frame i(1) sl ssi ssj unfolding sstep_def by auto
  qed
qed

end
