(* ===== verification/Page_Alloc.thy ===== *)
theory Page_Alloc
  imports Slab_Core
begin

text \<open>
  Buddy allocator and page slab together: \<^verbatim>\<open>alloc_range\<close> and \<^verbatim>\<open>free_range\<close>, which the frame allocator
  and the kernel heap call. The two parts manage disjoint memory, so a step of one is framed out of
  the invariant of the other.
\<close>

section \<open>Framing\<close>

lemma brel_same_on:
  assumes r: "brel cfg vn U b m fls"
    and f: "same_on (avail_set cfg fls) (view (buddy_offset b) m) (view (buddy_offset b) m')"
  shows "brel cfg vn U b m' fls"
proof -
  have c: "cfg_ok cfg" using r by (simp add: brel_def)
  have "chain (view (buddy_offset b) m') (heads b ! k) (fls ! k)" if k: "k < ORDER_COUNT cfg" for k
  proof (rule chain_same_on [OF f])
    show "chain (view (buddy_offset b) m) (heads b ! k) (fls ! k)" using r k by (simp add: brel_def)
    fix a assume "a \<in> set (fls ! k)"
    note x = brel_block [OF r k this]
    show "span a 8 \<subseteq> avail_set cfg fls \<and> unat a + 8 \<le> 2 ^ 64"
      using cell_in_blk [OF c, of a k] cell_end [OF c x(1)] x(2) by (auto simp: avail_set_def)
  qed
  then show ?thesis using r by (simp add: brel_def)
qed

lemma srel_same_on:
  assumes r: "srel cfg vn U s m rls"
    and f: "same_on (slab_avail cfg s rls) (view (slab_offset s) m) (view (slab_offset s) m')"
  shows "srel cfg vn U s m' rls"
proof -
  have c: "cfg_ok cfg" using r by (simp add: srel_def)
  have "rblock cfg U (view (slab_offset s) m') (slab_table s ! i) (rls ! i)" if i: "i \<in> slots s" for i
  proof -
    note rb = slot_facts(1) [OF r i]
    have sub: "rfree cfg (rls ! i) \<subseteq> slab_avail cfg s rls" using i by (auto simp: slab_avail_def)
    have "rchain (view (slab_offset s) m') (free_list (slab_table s ! i)) (rls ! i)"
    proof (rule rchain_same_on [OF f])
      show "rchain (view (slab_offset s) m) (free_list (slab_table s ! i)) (rls ! i)"
        using rb by (simp add: rblock_def)
      fix x assume x: "x \<in> set (rls ! i)"
      then have fx: "range_fits cfg (blk_of (slab_table s ! i)) (fst x, snd x)"
        and ok: "block_ok cfg U (blk_of (slab_table s ! i))" using rb by (auto simp: rblock_def)
      have "rset cfg x \<subseteq> slab_avail cfg s rls" using x sub by (auto simp: rfree_def)
      then show "{unat (fst x) ..< unat (fst x) + 12} \<subseteq> slab_avail cfg s rls \<and> unat (fst x) + 16 \<le> 2 ^ 64"
        using cell12 [OF c fx] range_end(2) [OF c ok fx] by auto
    qed
    then show ?thesis using rb by (simp add: rblock_def)
  qed
  then show ?thesis using r by (simp add: srel_def)
qed

lemma slab_avail_owned: "srel cfg vn U s m rls \<Longrightarrow> slab_avail cfg s rls \<subseteq> slab_owned cfg s"
  using slot_facts(5) by (fastforce simp: slab_avail_def slab_owned_def)

lemma rchain_unique: "rchain v h rs \<Longrightarrow> rchain v h rs' \<Longrightarrow> rs = rs'"
proof (induction rs arbitrary: h rs')
  case Nil
  then show ?case by (cases rs') auto
next
  case (Cons x rs)
  then show ?case by (cases rs') (auto simp: prod_eq_iff)
qed

section \<open>The invariant\<close>

definition prel ::
  "buddy_cfg \<Rightarrow> (u64 \<Rightarrow> u64 option) \<Rightarrow> nat set \<Rightarrow> buddy \<Rightarrow> mem \<Rightarrow> u64 list list \<Rightarrow> (u64 \<times> u32) list list \<Rightarrow> bool"
where
  "prel cfg vn U b m fls rls \<longleftrightarrow> brel cfg vn U b m fls \<and> srel cfg vn U (slab b) m rls
     \<and> slab_offset (slab b) = buddy_offset b \<and> avail_set cfg fls \<inter> slab_owned cfg (slab b) = {}"

definition free_mem ::
  "buddy_cfg \<Rightarrow> buddy \<Rightarrow> u64 list list \<Rightarrow> (u64 \<times> u32) list list \<Rightarrow> nat set" where
  "free_mem cfg b fls rls = avail_set cfg fls \<union> slab_avail cfg (slab b) rls"

definition page_inv :: "buddy_cfg \<Rightarrow> (u64 \<Rightarrow> u64 option) \<Rightarrow> nat set \<Rightarrow> buddy \<times> mem \<Rightarrow> bool" where
  "page_inv cfg vn U s \<longleftrightarrow> (\<exists>fls rls. prel cfg vn U (fst s) (snd s) fls rls)"

text \<open>The memory that is free: in a block of a free list or a range of the slab.\<close>

definition page_avail :: "buddy_cfg \<Rightarrow> (u64 \<Rightarrow> u64 option) \<Rightarrow> nat set \<Rightarrow> buddy \<times> mem \<Rightarrow> nat set" where
  "page_avail cfg vn U s =
     {x. \<exists>fls rls. prel cfg vn U (fst s) (snd s) fls rls \<and> x \<in> free_mem cfg (fst s) fls rls}"

lemma prel_unique:
  assumes "prel cfg vn U b m fls rls" "prel cfg vn U b m fls' rls'"
  shows "free_mem cfg b fls' rls' = free_mem cfg b fls rls"
proof -
  have "length fls = ORDER_COUNT cfg" "length fls' = ORDER_COUNT cfg"
    using assms by (auto simp: prel_def brel_def lists_ok_def)
  moreover have "fls ! k = fls' ! k" if k: "k < ORDER_COUNT cfg" for k
  proof (rule chain_unique)
    show "chain (view (buddy_offset b) m) (heads b ! k) (fls ! k)"
      using assms(1) k by (simp add: prel_def brel_def)
    show "chain (view (buddy_offset b) m) (heads b ! k) (fls' ! k)"
      using assms(2) k by (simp add: prel_def brel_def)
  qed
  ultimately have f: "fls = fls'" by (intro nth_equalityI) auto
  have s: "srel cfg vn U (slab b) m rls" "srel cfg vn U (slab b) m rls'"
    using assms by (auto simp: prel_def)
  have "rls ! i = rls' ! i" if i: "i \<in> slots (slab b)" for i
    using slot_facts(1) [OF s(1) i] slot_facts(1) [OF s(2) i] by (auto simp: rblock_def dest: rchain_unique)
  then show ?thesis by (simp add: free_mem_def slab_avail_def f)
qed

lemma page_avail_eq:
  assumes "prel cfg vn U b m fls rls"
  shows "page_avail cfg vn U (b, m) = free_mem cfg b fls rls"
proof (intro equalityI subsetI)
  fix x assume "x \<in> page_avail cfg vn U (b, m)"
  then obtain fls' rls' where "prel cfg vn U b m fls' rls'" "x \<in> free_mem cfg b fls' rls'"
    by (auto simp: page_avail_def)
  then show "x \<in> free_mem cfg b fls rls" using prel_unique [OF assms] by simp
next
  fix x assume "x \<in> free_mem cfg b fls rls"
  then show "x \<in> page_avail cfg vn U (b, m)" using assms by (auto simp: page_avail_def)
qed

section \<open>Allocating and releasing counts of pages\<close>

lemma count_order_ceil: "count_order cnt = ceil_log (unat cnt)"
proof (cases "ceil_log (unat cnt) < 64")
  case True
  then show ?thesis by (simp add: count_order_def order_ceil)
next
  case False
  have "ceil_log (unat cnt) \<le> 64"
    using unat_bound [of cnt] by (intro ceil_log_least) simp
  with False have e: "ceil_log (unat cnt) = 64" by simp
  then have "1 < unat cnt" by (auto simp: ceil_log_def split: if_splits)
  then have "\<not> cnt \<le> 1" by (simp add: word_le_nat_alt)
  then have "next_power_of_two cnt = 0"
    using e \<open>1 < unat cnt\<close> by (simp add: next_power_of_two_def ceil_log_def)
  then show ?thesis by (simp add: count_order_def trailing_zeros_def e)
qed

text \<open>A step of the buddy allocator leaves the slab alone, and the other way round.\<close>

lemma prel_bstep:
  assumes r: "prel cfg vn U b m fls rls" and st: "bstep cfg vn U S b m b' m' fls'"
    and S: "S \<inter> slab_owned cfg (slab b) = {}" and S': "avail_set cfg fls' \<inter> slab_owned cfg (slab b) = {}"
  shows "prel cfg vn U b' m' fls' rls"
proof -
  have s: "srel cfg vn U (slab b) m rls" "slab_offset (slab b) = buddy_offset b"
    using r by (auto simp: prel_def)
  have "same_on (slab_avail cfg (slab b) rls) (view (buddy_offset b) m) (view (buddy_offset b) m')"
    using st slab_avail_owned [OF s(1)] S unfolding bstep_def
    by (blast intro: same_on_mono)
  then have "srel cfg vn U (slab b) m' rls" using srel_same_on [OF s(1)] s(2) by simp
  then show ?thesis using st s(2) S' by (simp add: prel_def bstep_def)
qed

lemma prel_sstep:
  assumes r: "prel cfg vn U b m fls rls" and st: "sstep cfg vn U S (slab b) m s' m' rls'"
    and S: "S \<inter> avail_set cfg fls = {}" and S': "avail_set cfg fls \<inter> slab_owned cfg s' = {}"
  shows "prel cfg vn U (b\<lparr>slab := s'\<rparr>) m' fls rls'"
proof -
  have b: "brel cfg vn U b m fls" "slab_offset (slab b) = buddy_offset b"
    using r by (auto simp: prel_def)
  have "same_on (avail_set cfg fls) (view (buddy_offset b) m) (view (buddy_offset b) m')"
    using st S b(2) unfolding sstep_def by (auto intro: same_on_mono)
  then have "brel cfg vn U b m' fls" by (rule brel_same_on [OF b(1)])
  then have "brel cfg vn U (b\<lparr>slab := s'\<rparr>) m' fls" by (simp add: brel_def)
  then show ?thesis using st b(2) S' by (simp add: prel_def sstep_def)
qed

lemma slab_owned_same:
  "slots s' = slots s \<Longrightarrow> (\<forall>j. slot_set cfg s' j = slot_set cfg s j) \<Longrightarrow> slab_owned cfg s' = slab_owned cfg s"
  by (simp add: slab_owned_def)

text \<open>The three ways \<^verbatim>\<open>alloc_range\<close> ends: nothing is large enough, a range of a slab block, or a whole
  block of the buddy allocator.\<close>

datatype outcome = Failed | Ranged u64 | Blocked u64

fun outcome_addr :: "outcome \<Rightarrow> u64 option" where
  "outcome_addr Failed = None"
| "outcome_addr (Ranged a) = Some a"
| "outcome_addr (Blocked a) = Some a"

definition page_step ::
  "buddy_cfg \<Rightarrow> (u64 \<Rightarrow> u64 option) \<Rightarrow> nat set \<Rightarrow> buddy \<Rightarrow> mem \<Rightarrow> u64 list list \<Rightarrow> (u64 \<times> u32) list list
    \<Rightarrow> usize \<Rightarrow> outcome \<Rightarrow> buddy \<Rightarrow> mem \<Rightarrow> bool" where
  "page_step cfg vn U b m fls rls cnt out b' m' \<longleftrightarrow> (\<exists>fls' rls'. prel cfg vn U b' m' fls' rls'
     \<and> buddy_offset b' = buddy_offset b
     \<and> same_on (- free_mem cfg b fls rls) (view (buddy_offset b) m) (view (buddy_offset b) m')
     \<and> slab_owned cfg (slab b) \<subseteq> slab_owned cfg (slab b')
     \<and> slab_owned cfg (slab b') \<subseteq> slab_owned cfg (slab b) \<union> free_mem cfg b fls rls
     \<and> (\<forall>i \<in> slots (slab b). \<exists>j \<in> slots (slab b'). slot_set cfg (slab b') j = slot_set cfg (slab b) i)
     \<and> (case out of
          Failed \<Rightarrow> b' = b \<and> m' = m \<and> free_mem cfg b' fls' rls' = free_mem cfg b fls rls
            \<and> (\<forall>k. count_order cnt \<le> k \<longrightarrow> k < ORDER_COUNT cfg \<longrightarrow> fls ! k = [])
        | Ranged a \<Rightarrow> unit_size cfg dvd unat a \<and> units cfg a cnt \<subseteq> free_mem cfg b fls rls
            \<and> (\<exists>i \<in> slots (slab b'). units cfg a cnt \<subseteq> slot_set cfg (slab b') i)
            \<and> free_mem cfg b' fls' rls' = free_mem cfg b fls rls - units cfg a cnt
        | Blocked a \<Rightarrow> block_ok cfg U (a, count_order cnt)
            \<and> blk cfg (a, count_order cnt) \<subseteq> free_mem cfg b fls rls
            \<and> blk cfg (a, count_order cnt) \<inter> slab_owned cfg (slab b') = {}
            \<and> free_mem cfg b' fls' rls' = free_mem cfg b fls rls - blk cfg (a, count_order cnt)))"

lemma buddy_page_step:
  assumes r: "prel cfg vn U b m fls rls"
  shows "\<exists>out b' m'. buddy_alloc cfg vn b m (count_order cnt) = Some (outcome_addr out, b', m')
    \<and> (out = Failed \<or> (\<exists>a. out = Blocked a)) \<and> page_step cfg vn U b m fls rls cnt out b' m'
    \<and> slab b' = slab b"
proof -
  let ?o = "count_order cnt"
  have br: "brel cfg vn U b m fls" and sr: "srel cfg vn U (slab b) m rls"
    and dj: "avail_set cfg fls \<inter> slab_owned cfg (slab b) = {}" using r by (auto simp: prel_def)
  obtain res b' m' fls' where a: "buddy_alloc cfg vn b m ?o = Some (res, b', m')"
    "bstep cfg vn U (avail_set cfg fls) b m b' m' fls'"
    "case res of
        None \<Rightarrow> b' = b \<and> m' = m \<and> fls' = fls \<and> (\<forall>k. ?o \<le> k \<longrightarrow> k < ORDER_COUNT cfg \<longrightarrow> fls ! k = [])
      | Some a \<Rightarrow> block_ok cfg U (a, ?o) \<and> blk cfg (a, ?o) \<subseteq> avail_set cfg fls
          \<and> avail_set cfg fls' = avail_set cfg fls - blk cfg (a, ?o)"
    using buddy_alloc_step [OF br, of ?o] by blast
  have sl: "slab b' = slab b" "buddy_offset b' = buddy_offset b" using a(2) by (auto simp: bstep_def)
  show ?thesis
  proof (cases res)
    case None
    then have e: "b' = b" "m' = m" "\<forall>k. ?o \<le> k \<longrightarrow> k < ORDER_COUNT cfg \<longrightarrow> fls ! k = []" using a(3) by auto
    have "page_step cfg vn U b m fls rls cnt Failed b' m'"
      unfolding page_step_def using r e by (intro exI [of _ fls] exI [of _ rls]) auto
    then show ?thesis using a(1) None sl by (intro exI [of _ Failed]) auto
  next
    case (Some p)
    then have p: "block_ok cfg U (p, ?o)" "blk cfg (p, ?o) \<subseteq> avail_set cfg fls"
      "avail_set cfg fls' = avail_set cfg fls - blk cfg (p, ?o)" using a(3) by auto
    have "prel cfg vn U b' m' fls' rls" using prel_bstep [OF r a(2) dj] p(3) dj by blast
    moreover have "blk cfg (p, ?o) \<inter> slab_avail cfg (slab b) rls = {}"
      using p(2) dj slab_avail_owned [OF sr] by blast
    then have "free_mem cfg b' fls' rls = free_mem cfg b fls rls - blk cfg (p, ?o)"
      using p(3) sl by (auto simp: free_mem_def)
    moreover have "same_on (- free_mem cfg b fls rls) (view (buddy_offset b) m) (view (buddy_offset b) m')"
      using a(2) unfolding bstep_def free_mem_def by (auto intro: same_on_mono)
    moreover have "blk cfg (p, ?o) \<inter> slab_owned cfg (slab b') = {}" using p(2) dj sl by auto
    ultimately have "page_step cfg vn U b m fls rls cnt (Blocked p) b' m'"
      unfolding page_step_def using p(1,2) sl
      by (intro exI [of _ fls'] exI [of _ rls]) (auto simp: free_mem_def)
    then show ?thesis using a(1) Some sl by (intro exI [of _ "Blocked p"]) auto
  qed
qed

lemma slab_page_step:
  assumes r: "prel cfg vn U b m fls rls" and cnt: "cnt \<noteq> 0"
  shows "\<exists>res s' m'. slab_allocate vn (slab b) m cnt = Some (res, s', m')
    \<and> (case res of None \<Rightarrow> s' = slab b \<and> m' = m
          \<and> (\<forall>i \<in> slots (slab b). \<forall>x \<in> set (rls ! i). \<not> cnt \<le> ucast (snd x))
       | Some a \<Rightarrow> page_step cfg vn U b m fls rls cnt (Ranged a) (b\<lparr>slab := s'\<rparr>) m')"
proof -
  have sr: "srel cfg vn U (slab b) m rls" and off: "slab_offset (slab b) = buddy_offset b"
    and dj: "avail_set cfg fls \<inter> slab_owned cfg (slab b) = {}" using r by (auto simp: prel_def)
  obtain res s' m' rls' where a: "slab_allocate vn (slab b) m cnt = Some (res, s', m')"
    "sstep cfg vn U (slab_avail cfg (slab b) rls) (slab b) m s' m' rls'"
    "slots s' = slots (slab b)" "\<forall>j. slot_set cfg s' j = slot_set cfg (slab b) j"
    "case res of None \<Rightarrow> s' = slab b \<and> m' = m \<and> rls' = rls
           \<and> (\<forall>i \<in> slots (slab b). \<forall>x \<in> set (rls ! i). \<not> cnt \<le> ucast (snd x))
       | Some a \<Rightarrow> (\<exists>i \<in> slots (slab b). units cfg a cnt \<subseteq> rfree cfg (rls ! i)) \<and> unit_size cfg dvd unat a
           \<and> slab_avail cfg s' rls' = slab_avail cfg (slab b) rls - units cfg a cnt"
    using slab_allocate_step [OF sr cnt] by blast
  show ?thesis
  proof (cases res)
    case None
    then show ?thesis using a by auto
  next
    case (Some p)
    obtain i where i: "i \<in> slots (slab b)" "units cfg p cnt \<subseteq> rfree cfg (rls ! i)"
      and p: "unit_size cfg dvd unat p" "slab_avail cfg s' rls' = slab_avail cfg (slab b) rls - units cfg p cnt"
      using a(5) Some by auto
    have ow: "slab_owned cfg s' = slab_owned cfg (slab b)" by (rule slab_owned_same [OF a(3,4)])
    have sa: "slab_avail cfg (slab b) rls \<inter> avail_set cfg fls = {}" using slab_avail_owned [OF sr] dj by blast
    have "prel cfg vn U (b\<lparr>slab := s'\<rparr>) m' fls rls'" using prel_sstep [OF r a(2) sa] dj ow by simp
    moreover have "units cfg p cnt \<subseteq> slab_avail cfg (slab b) rls" using i by (auto simp: slab_avail_def)
    then have u: "units cfg p cnt \<subseteq> free_mem cfg b fls rls"
      "free_mem cfg (b\<lparr>slab := s'\<rparr>) fls rls' = free_mem cfg b fls rls - units cfg p cnt"
      using p(2) sa by (auto simp: free_mem_def)
    moreover have "units cfg p cnt \<subseteq> slot_set cfg s' i"
      using i slot_facts(5) [OF sr i(1)] a(4) by auto
    moreover have "same_on (- free_mem cfg b fls rls) (view (buddy_offset b) m) (view (buddy_offset b) m')"
      using a(2) off unfolding sstep_def free_mem_def by (auto intro: same_on_mono)
    ultimately have "page_step cfg vn U b m fls rls cnt (Ranged p) (b\<lparr>slab := s'\<rparr>) m'"
      unfolding page_step_def using p(1) i(1) a(3,4) ow
      by (intro exI [of _ fls] exI [of _ rls']) auto
    then show ?thesis using a(1) Some by auto
  qed
qed

end
