(* ===== verification/Page_Core.thy ===== *)
theory Page_Core
  imports Page_Alloc
begin

text \<open>
  \<^verbatim>\<open>alloc_range\<close> and \<^verbatim>\<open>free_range\<close> satisfy the contract of \<open>region_allocator\<close>, with the holders of
  memory writing to it between the calls.
\<close>

section \<open>Allocation\<close>

lemma slab_fresh_step:
  assumes r: "prel cfg vn U b m fls rls" and cnt: "cnt \<noteq> 0"
    and ok: "block_ok cfg U (p, count_order cnt)"
    and dj: "blk cfg (p, count_order cnt) \<inter> (slab_owned cfg (slab b) \<union> free_mem cfg b fls rls) = {}"
  shows "\<exists>ok s' m'. add_block vn (slab b) m p (push_bit (count_order cnt mod 32) 1) = Some (ok, s', m')
    \<and> (if ok then \<exists>a s2 m2 fls2 rls2. slab_allocate vn s' m' cnt = Some (Some a, s2, m2)
          \<and> prel cfg vn U (b\<lparr>slab := s2\<rparr>) m2 fls2 rls2
          \<and> same_on (- (free_mem cfg b fls rls \<union> blk cfg (p, count_order cnt)))
              (view (buddy_offset b) m) (view (buddy_offset b) m2)
          \<and> slab_owned cfg s2 = slab_owned cfg (slab b) \<union> blk cfg (p, count_order cnt)
          \<and> (\<forall>i \<in> slots (slab b). \<exists>j \<in> slots s2. slot_set cfg s2 j = slot_set cfg (slab b) i)
          \<and> unit_size cfg dvd unat a
          \<and> units cfg a cnt \<subseteq> free_mem cfg b fls rls \<union> blk cfg (p, count_order cnt)
          \<and> (\<exists>i \<in> slots s2. units cfg a cnt \<subseteq> slot_set cfg s2 i)
          \<and> free_mem cfg (b\<lparr>slab := s2\<rparr>) fls2 rls2
             = free_mem cfg b fls rls \<union> blk cfg (p, count_order cnt) - units cfg a cnt
       else s' = slab b \<and> m' = m)"
proof -
  let ?o = "count_order cnt"
  let ?B = "blk cfg (p, ?o)" and ?tot = "push_bit (?o mod 32) 1 :: u32"
  have sr: "srel cfg vn U (slab b) m rls" and c: "cfg_ok cfg" and off: "slab_offset (slab b) = buddy_offset b"
    and dj0: "avail_set cfg fls \<inter> slab_owned cfg (slab b) = {}"
    using r by (auto simp: prel_def srel_def)
  have o: "?o < 32" using ok c by (auto simp: block_ok_def cfg_ok_def)
  then have tot: "unat ?tot = 2 ^ ?o" by (simp add: push_bit_of_1 unat_two_power)
  have djo: "?B \<inter> slab_owned cfg (slab b) = {}" and dja: "?B \<inter> avail_set cfg fls = {}"
    using dj by (auto simp: free_mem_def)
  obtain good s' m' rls' where ab: "add_block vn (slab b) m p ?tot = Some (good, s', m')"
    "sstep cfg vn U ?B (slab b) m s' m' rls'"
    "if good then \<exists>i. i \<notin> slots (slab b) \<and> slots s' = insert i (slots (slab b)) \<and> slot_set cfg s' i = ?B
           \<and> (\<forall>j \<in> slots (slab b). slot_set cfg s' j = slot_set cfg (slab b) j)
           \<and> rls' ! i = [(p, ?tot)] \<and> slab_avail cfg s' rls' = slab_avail cfg (slab b) rls \<union> ?B
       else s' = slab b \<and> m' = m \<and> rls' = rls"
    using add_block_step [OF sr ok djo tot] by blast
  show ?thesis
  proof (cases good)
    case False
    then show ?thesis using ab(1,3) by auto
  next
    case True
    then obtain i where i: "slots s' = insert i (slots (slab b))" "slot_set cfg s' i = ?B"
      "\<forall>j \<in> slots (slab b). slot_set cfg s' j = slot_set cfg (slab b) j"
      "rls' ! i = [(p, ?tot)]" "slab_avail cfg s' rls' = slab_avail cfg (slab b) rls \<union> ?B"
      using ab(3) by auto
    have ow: "slab_owned cfg s' = slab_owned cfg (slab b) \<union> ?B"
      using i(1,2,3) by (auto simp: slab_owned_def)
    have r3: "prel cfg vn U (b\<lparr>slab := s'\<rparr>) m' fls rls'"
      by (rule prel_sstep [OF r ab(2) dja]) (use ow dj0 dja in blast)
    have fm: "free_mem cfg (b\<lparr>slab := s'\<rparr>) fls rls' = free_mem cfg b fls rls \<union> ?B"
      using i(5) by (auto simp: free_mem_def)
    obtain res s2 m2 where a: "slab_allocate vn s' m' cnt = Some (res, s2, m2)"
      "case res of None \<Rightarrow> s2 = s' \<and> m2 = m' \<and> (\<forall>i \<in> slots s'. \<forall>x \<in> set (rls' ! i). \<not> cnt \<le> ucast (snd x))
       | Some a \<Rightarrow> page_step cfg vn U (b\<lparr>slab := s'\<rparr>) m' fls rls' cnt (Ranged a) (b\<lparr>slab := s2\<rparr>) m2"
      using slab_page_step [OF r3 cnt] by (auto cong: option.case_cong)
    have "cnt \<le> ucast ?tot"
    proof -
      have "unat cnt \<le> 2 ^ ?o" unfolding count_order_ceil by (rule ceil_log_upper)
      moreover have "unat (ucast ?tot :: u64) = 2 ^ ?o"
        using tot unat_bound [of ?tot] by (simp add: unat_ucast_mod)
      ultimately show ?thesis by (simp add: word_le_nat_alt)
    qed
    then obtain q where q: "res = Some q" using a(2) i(1,4) by (cases res) auto
    have ps: "page_step cfg vn U (b\<lparr>slab := s'\<rparr>) m' fls rls' cnt (Ranged q) (b\<lparr>slab := s2\<rparr>) m2"
      using a(2) q by simp
    obtain fls2 rls2 where s: "prel cfg vn U (b\<lparr>slab := s2\<rparr>) m2 fls2 rls2"
      "same_on (- free_mem cfg (b\<lparr>slab := s'\<rparr>) fls rls') (view (buddy_offset b) m') (view (buddy_offset b) m2)"
      "slab_owned cfg s' \<subseteq> slab_owned cfg s2"
      "slab_owned cfg s2 \<subseteq> slab_owned cfg s' \<union> free_mem cfg (b\<lparr>slab := s'\<rparr>) fls rls'"
      "\<forall>i \<in> slots s'. \<exists>j \<in> slots s2. slot_set cfg s2 j = slot_set cfg s' i"
      "unit_size cfg dvd unat q" "units cfg q cnt \<subseteq> free_mem cfg (b\<lparr>slab := s'\<rparr>) fls rls'"
      "\<exists>i \<in> slots s2. units cfg q cnt \<subseteq> slot_set cfg s2 i"
      "free_mem cfg (b\<lparr>slab := s2\<rparr>) fls2 rls2 = free_mem cfg (b\<lparr>slab := s'\<rparr>) fls rls' - units cfg q cnt"
      using ps unfolding page_step_def by (simp; blast)
    have "same_on (- (free_mem cfg b fls rls \<union> ?B)) (view (buddy_offset b) m) (view (buddy_offset b) m2)"
    proof (rule same_on_trans)
      show "same_on (- (free_mem cfg b fls rls \<union> ?B)) (view (buddy_offset b) m) (view (buddy_offset b) m')"
        using ab(2) off unfolding sstep_def by (auto intro: same_on_mono)
      show "same_on (- (free_mem cfg b fls rls \<union> ?B)) (view (buddy_offset b) m') (view (buddy_offset b) m2)"
        using s(2) fm by simp
    qed
    moreover have "slab_owned cfg s2 = slab_owned cfg s'"
      using slab_allocate_step [of cfg vn U s' m' rls' cnt] r3 cnt a(1)
      by (auto simp: prel_def intro!: slab_owned_same)
    moreover have "\<exists>j \<in> slots s2. slot_set cfg s2 j = slot_set cfg (slab b) l" if "l \<in> slots (slab b)" for l
      using s(5) i(1,3) that by auto
    ultimately show ?thesis
      using ab(1) True a(1) q s(1,6,7,8,9) fm ow by auto
  qed
qed

lemma page_step_trans_fresh:
  assumes 1: "page_step cfg vn U b m fls rls cnt (Blocked p) b1 m1" and cnt: "cnt \<noteq> 0"
  shows "\<exists>ok s' m'. add_block vn (slab b1) m1 p (push_bit (count_order cnt mod 32) 1) = Some (ok, s', m')
    \<and> (if ok then \<exists>a s2 m2. slab_allocate vn s' m' cnt = Some (Some a, s2, m2)
          \<and> page_step cfg vn U b m fls rls cnt (Ranged a) (b1\<lparr>slab := s2\<rparr>) m2
       else s' = slab b1 \<and> m' = m1)"
proof -
  let ?B = "blk cfg (p, count_order cnt)"
  obtain fls1 rls1 where s: "prel cfg vn U b1 m1 fls1 rls1" "buddy_offset b1 = buddy_offset b"
    "same_on (- free_mem cfg b fls rls) (view (buddy_offset b) m) (view (buddy_offset b) m1)"
    "slab_owned cfg (slab b) \<subseteq> slab_owned cfg (slab b1)"
    "slab_owned cfg (slab b1) \<subseteq> slab_owned cfg (slab b) \<union> free_mem cfg b fls rls"
    "\<forall>i \<in> slots (slab b). \<exists>j \<in> slots (slab b1). slot_set cfg (slab b1) j = slot_set cfg (slab b) i"
    "block_ok cfg U (p, count_order cnt)" "?B \<subseteq> free_mem cfg b fls rls"
    "?B \<inter> slab_owned cfg (slab b1) = {}"
    "free_mem cfg b1 fls1 rls1 = free_mem cfg b fls rls - ?B"
    using 1 unfolding page_step_def by (simp; blast)
  have "?B \<inter> (slab_owned cfg (slab b1) \<union> free_mem cfg b1 fls1 rls1) = {}" using s(9,10) by blast
  from slab_fresh_step [OF s(1) cnt s(7) this]
  obtain good s' m' where ab: "add_block vn (slab b1) m1 p (push_bit (count_order cnt mod 32) 1) = Some (good, s', m')"
    and cont: "if good then \<exists>a s2 m2 fls2 rls2. slab_allocate vn s' m' cnt = Some (Some a, s2, m2)
          \<and> prel cfg vn U (b1\<lparr>slab := s2\<rparr>) m2 fls2 rls2
          \<and> same_on (- (free_mem cfg b1 fls1 rls1 \<union> ?B))
              (view (buddy_offset b1) m1) (view (buddy_offset b1) m2)
          \<and> slab_owned cfg s2 = slab_owned cfg (slab b1) \<union> ?B
          \<and> (\<forall>i \<in> slots (slab b1). \<exists>j \<in> slots s2. slot_set cfg s2 j = slot_set cfg (slab b1) i)
          \<and> unit_size cfg dvd unat a
          \<and> units cfg a cnt \<subseteq> free_mem cfg b1 fls1 rls1 \<union> ?B
          \<and> (\<exists>i \<in> slots s2. units cfg a cnt \<subseteq> slot_set cfg s2 i)
          \<and> free_mem cfg (b1\<lparr>slab := s2\<rparr>) fls2 rls2 = free_mem cfg b1 fls1 rls1 \<union> ?B - units cfg a cnt
       else s' = slab b1 \<and> m' = m1"
    by blast
  show ?thesis
  proof (cases good)
    case False
    then show ?thesis using ab cont by auto
  next
    case True
    obtain a s2 m2 fls2 rls2 where t: "slab_allocate vn s' m' cnt = Some (Some a, s2, m2)"
      "prel cfg vn U (b1\<lparr>slab := s2\<rparr>) m2 fls2 rls2"
      "same_on (- (free_mem cfg b1 fls1 rls1 \<union> ?B)) (view (buddy_offset b1) m1) (view (buddy_offset b1) m2)"
      "slab_owned cfg s2 = slab_owned cfg (slab b1) \<union> ?B"
      "\<forall>i \<in> slots (slab b1). \<exists>j \<in> slots s2. slot_set cfg s2 j = slot_set cfg (slab b1) i"
      "unit_size cfg dvd unat a" "units cfg a cnt \<subseteq> free_mem cfg b1 fls1 rls1 \<union> ?B"
      "\<exists>i \<in> slots s2. units cfg a cnt \<subseteq> slot_set cfg s2 i"
      "free_mem cfg (b1\<lparr>slab := s2\<rparr>) fls2 rls2 = free_mem cfg b1 fls1 rls1 \<union> ?B - units cfg a cnt"
      using cont unfolding if_P [OF True] by blast
    have fm: "free_mem cfg b1 fls1 rls1 \<union> ?B = free_mem cfg b fls rls" using s(8,10) by blast
    have "same_on (- free_mem cfg b fls rls) (view (buddy_offset b) m) (view (buddy_offset b) m2)"
      using t(3) s(2) fm by (intro same_on_trans [OF s(3)]) simp
    moreover have "\<exists>j \<in> slots s2. slot_set cfg s2 j = slot_set cfg (slab b) i" if "i \<in> slots (slab b)" for i
      using s(6) t(5) that by metis
    moreover have "slab_owned cfg s2 \<subseteq> slab_owned cfg (slab b) \<union> free_mem cfg b fls rls"
      "slab_owned cfg (slab b) \<subseteq> slab_owned cfg s2"
      using t(4) s(4,5,8) by blast+
    ultimately have "page_step cfg vn U b m fls rls cnt (Ranged a) (b1\<lparr>slab := s2\<rparr>) m2"
      unfolding page_step_def using t(2,6,7,8,9) s(2) fm
      by (intro exI [of _ fls2] exI [of _ rls2]) simp
    then show ?thesis using ab True t(1) by auto
  qed
qed

lemma alloc_range_step:
  assumes r: "prel cfg vn U b m fls rls" and cnt: "cnt \<noteq> 0"
  shows "\<exists>out b' m'. alloc_range cfg vn b m cnt = Some (outcome_addr out, b', m')
    \<and> page_step cfg vn U b m fls rls cnt out b' m'
    \<and> (\<forall>a. out = Ranged a \<longrightarrow> HAS_SLAB cfg \<and> \<not> is_power_of_two cnt)"
proof -
  obtain out1 b1 m1 where bd: "buddy_alloc cfg vn b m (count_order cnt) = Some (outcome_addr out1, b1, m1)"
    "out1 = Failed \<or> (\<exists>a. out1 = Blocked a)" "page_step cfg vn U b m fls rls cnt out1 b1 m1"
    using buddy_page_step [OF r] by blast
  show ?thesis
  proof (cases "HAS_SLAB cfg \<and> \<not> is_power_of_two cnt")
    case False
    then show ?thesis using bd by (auto simp: alloc_range_def)
  next
    case True
    obtain res s' m' where sl: "slab_allocate vn (slab b) m cnt = Some (res, s', m')"
      "case res of None \<Rightarrow> s' = slab b \<and> m' = m
          \<and> (\<forall>i \<in> slots (slab b). \<forall>x \<in> set (rls ! i). \<not> cnt \<le> ucast (snd x))
       | Some a \<Rightarrow> page_step cfg vn U b m fls rls cnt (Ranged a) (b\<lparr>slab := s'\<rparr>) m'"
      using slab_page_step [OF r cnt] by blast
    show ?thesis
    proof (cases res)
      case (Some a)
      then have "alloc_range cfg vn b m cnt = Some (outcome_addr (Ranged a), b\<lparr>slab := s'\<rparr>, m')"
        using True sl(1) by (simp add: alloc_range_def)
      moreover have "page_step cfg vn U b m fls rls cnt (Ranged a) (b\<lparr>slab := s'\<rparr>) m'"
        using sl(2) Some by simp
      ultimately show ?thesis using True by blast
    next
      case None
      then have s': "s' = slab b" "m' = m" using sl(2) by auto
      show ?thesis
      proof (cases out1)
        case Failed
        then have "alloc_range cfg vn b m cnt = Some (outcome_addr Failed, b1, m1)"
          using True sl(1) None s' bd(1) by (simp add: alloc_range_def)
        then show ?thesis using bd(3) Failed by blast
      next
        case (Ranged a)
        then show ?thesis using bd(2) by simp
      next
        case (Blocked p)
        have ps: "page_step cfg vn U b m fls rls cnt (Blocked p) b1 m1" using bd(3) Blocked by simp
        obtain good s2 m2 where ab:
          "add_block vn (slab b1) m1 p (push_bit (count_order cnt mod 32) 1) = Some (good, s2, m2)"
          "if good then \<exists>a s3 m3. slab_allocate vn s2 m2 cnt = Some (Some a, s3, m3)
             \<and> page_step cfg vn U b m fls rls cnt (Ranged a) (b1\<lparr>slab := s3\<rparr>) m3
           else s2 = slab b1 \<and> m2 = m1"
          using page_step_trans_fresh [OF ps cnt] by blast
        show ?thesis
        proof (cases good)
          case False
          then have "alloc_range cfg vn b m cnt = Some (outcome_addr (Blocked p), b1, m1)"
            using True sl(1) None s' bd(1) Blocked ab by (simp add: alloc_range_def)
          then show ?thesis using ps by blast
        next
          case True
          then obtain a s3 m3 where t: "slab_allocate vn s2 m2 cnt = Some (Some a, s3, m3)"
            "page_step cfg vn U b m fls rls cnt (Ranged a) (b1\<lparr>slab := s3\<rparr>) m3"
            using ab(2) by auto
          have "alloc_range cfg vn b m cnt = Some (outcome_addr (Ranged a), b1\<lparr>slab := s3\<rparr>, m3)"
            using \<open>HAS_SLAB cfg \<and> \<not> is_power_of_two cnt\<close> sl(1) None s' bd(1) Blocked ab(1) True t(1)
            by (simp add: alloc_range_def)
          then show ?thesis using t(2) \<open>HAS_SLAB cfg \<and> \<not> is_power_of_two cnt\<close> by blast
        qed
      qed
    qed
  qed
qed

section \<open>Release\<close>

text \<open>What is held: a range of a slab block, or a whole block of the buddy allocator. The flag says
  which, as \<^verbatim>\<open>free_range\<close> finds out again with \<^verbatim>\<open>owns\<close>.\<close>

definition page_region :: "buddy_cfg \<Rightarrow> u64 \<times> usize \<times> bool \<Rightarrow> nat set" where
  "page_region cfg r = (case r of (a, cnt, slabbed) \<Rightarrow>
     if slabbed then units cfg a cnt else blk cfg (a, count_order cnt))"

definition page_granted :: "buddy_cfg \<Rightarrow> nat set \<Rightarrow> buddy \<times> mem \<Rightarrow> u64 \<times> usize \<times> bool \<Rightarrow> bool" where
  "page_granted cfg U s r = (case r of (a, cnt, slabbed) \<Rightarrow> cnt \<noteq> 0 \<and>
     (if slabbed then HAS_SLAB cfg \<and> unit_size cfg dvd unat a
        \<and> (\<exists>i \<in> slots (slab (fst s)). units cfg a cnt \<subseteq> slot_set cfg (slab (fst s)) i)
      else block_ok cfg U (a, count_order cnt)
        \<and> blk cfg (a, count_order cnt) \<inter> slab_owned cfg (slab (fst s)) = {}))"

definition free_step ::
  "buddy_cfg \<Rightarrow> (u64 \<Rightarrow> u64 option) \<Rightarrow> nat set \<Rightarrow> buddy \<Rightarrow> mem \<Rightarrow> u64 list list \<Rightarrow> (u64 \<times> u32) list list
    \<Rightarrow> nat set \<Rightarrow> buddy \<Rightarrow> mem \<Rightarrow> bool" where
  "free_step cfg vn U b m fls rls R b' m' \<longleftrightarrow> (\<exists>fls' rls'. prel cfg vn U b' m' fls' rls'
     \<and> buddy_offset b' = buddy_offset b
     \<and> same_on (- (free_mem cfg b fls rls \<union> R)) (view (buddy_offset b) m) (view (buddy_offset b) m')
     \<and> slab_owned cfg (slab b') \<subseteq> slab_owned cfg (slab b)
     \<and> (\<forall>i \<in> slots (slab b). slot_set cfg (slab b) i \<subseteq> free_mem cfg b fls rls \<union> R
          \<or> (\<exists>j \<in> slots (slab b'). slot_set cfg (slab b') j = slot_set cfg (slab b) i))
     \<and> free_mem cfg b' fls' rls' = free_mem cfg b fls rls \<union> R)"

lemma buddy_free_page:
  assumes r: "prel cfg vn U b m fls rls" and ok: "block_ok cfg U (a, k)"
    and dj: "blk cfg (a, k) \<inter> slab_owned cfg (slab b) = {}" "blk cfg (a, k) \<inter> avail_set cfg fls = {}"
  shows "\<exists>b' m' fls'. buddy_free cfg vn b m a k = Some (b', m') \<and> prel cfg vn U b' m' fls' rls
    \<and> buddy_offset b' = buddy_offset b \<and> slab b' = slab b
    \<and> same_on (- (avail_set cfg fls \<union> blk cfg (a, k))) (view (buddy_offset b) m) (view (buddy_offset b) m')
    \<and> avail_set cfg fls' = avail_set cfg fls \<union> blk cfg (a, k)"
proof -
  have br: "brel cfg vn U b m fls" and d0: "avail_set cfg fls \<inter> slab_owned cfg (slab b) = {}"
    using r by (auto simp: prel_def)
  obtain b' m' fls' where f: "buddy_free cfg vn b m a k = Some (b', m')"
    "bstep cfg vn U (avail_set cfg fls \<union> blk cfg (a, k)) b m b' m' fls'"
    "avail_set cfg fls' = avail_set cfg fls \<union> blk cfg (a, k)"
    using free_with_step [OF br ok dj(2)] unfolding buddy_free_def by blast
  have "prel cfg vn U b' m' fls' rls"
    using prel_bstep [OF r f(2)] f(3) dj(1) d0 by blast
  then show ?thesis using f by (auto simp: bstep_def)
qed

lemma free_range_block:
  assumes r: "prel cfg vn U b m fls rls" and g: "page_granted cfg U (b, m) (a, cnt, False)"
    and dj: "blk cfg (a, count_order cnt) \<inter> free_mem cfg b fls rls = {}"
  shows "\<exists>b' m'. free_range cfg vn b m a cnt = Some (b', m')
    \<and> free_step cfg vn U b m fls rls (blk cfg (a, count_order cnt)) b' m'"
proof -
  let ?B = "blk cfg (a, count_order cnt)"
  have g': "cnt \<noteq> 0" "block_ok cfg U (a, count_order cnt)" "?B \<inter> slab_owned cfg (slab b) = {}"
    using g by (auto simp: page_granted_def)
  have sr: "srel cfg vn U (slab b) m rls" using r by (simp add: prel_def)
  have da: "?B \<inter> avail_set cfg fls = {}" using dj by (auto simp: free_mem_def)
  obtain b' m' fls' where f: "buddy_free cfg vn b m a (count_order cnt) = Some (b', m')"
    "prel cfg vn U b' m' fls' rls" "buddy_offset b' = buddy_offset b" "slab b' = slab b"
    "same_on (- (avail_set cfg fls \<union> ?B)) (view (buddy_offset b) m) (view (buddy_offset b) m')"
    "avail_set cfg fls' = avail_set cfg fls \<union> ?B"
    using buddy_free_page [OF r g'(2,3) da] by blast
  have "unat a \<notin> slab_owned cfg (slab b)" using g'(3) blk_start [of a cfg] by blast
  then have "free_range cfg vn b m a cnt = Some (b', m')"
    using g'(1) f(1) owns_spec [OF sr, of a] by (simp add: free_range_def)
  moreover have "free_mem cfg b' fls' rls = free_mem cfg b fls rls \<union> ?B"
    using f(4,6) by (auto simp: free_mem_def)
  moreover have "same_on (- (free_mem cfg b fls rls \<union> ?B)) (view (buddy_offset b) m) (view (buddy_offset b) m')"
    by (rule same_on_mono [OF f(5)]) (auto simp: free_mem_def)
  ultimately show ?thesis using f(2,3,4) unfolding free_step_def by auto
qed

lemma free_range_units:
  assumes r: "prel cfg vn U b m fls rls" and g: "page_granted cfg U (b, m) (a, cnt, True)"
    and dj: "units cfg a cnt \<inter> free_mem cfg b fls rls = {}"
  shows "\<exists>b' m'. free_range cfg vn b m a cnt = Some (b', m')
    \<and> free_step cfg vn U b m fls rls (units cfg a cnt) b' m'"
proof -
  let ?R = "units cfg a cnt" and ?s = "slab b"
  obtain i where g': "cnt \<noteq> 0" "HAS_SLAB cfg" "unit_size cfg dvd unat a" "i \<in> slots ?s" "?R \<subseteq> slot_set cfg ?s i"
    using g by (auto simp: page_granted_def)
  have sr: "srel cfg vn U ?s m rls" and c: "cfg_ok cfg" and off: "slab_offset ?s = buddy_offset b"
    and d0: "avail_set cfg fls \<inter> slab_owned cfg ?s = {}"
    using r by (auto simp: prel_def brel_def)
  have das: "?R \<inter> slab_avail cfg ?s rls = {}" and daf: "?R \<inter> avail_set cfg fls = {}"
    using dj by (auto simp: free_mem_def)
  obtain res s' m' rls' where f: "slab_free vn ?s m a cnt = Some (res, s', m')"
    "sstep cfg vn U ?R ?s m s' m' rls'" "\<forall>j. slot_set cfg s' j = slot_set cfg ?s j"
    "case res of
        None \<Rightarrow> slots s' = slots ?s \<and> slab_avail cfg s' rls' = slab_avail cfg ?s rls \<union> ?R
      | Some (base, tot) \<Rightarrow> (base, trailing_zeros tot) = blk_of (slab_table ?s ! i) \<and> slots s' = slots ?s - {i}
          \<and> slab_avail cfg s' rls' = slab_avail cfg ?s rls - slot_set cfg ?s i
          \<and> slot_set cfg ?s i \<subseteq> slab_avail cfg ?s rls \<union> ?R"
    using slab_free_step [OF sr g'(4,5) das g'(1,3)] by blast
  have "0 < unat cnt * unit_size cfg" using g'(1) by (simp add: unat_gt_0)
  then have "unat a \<in> slot_set cfg ?s i" using g'(5) by (auto simp: units_def subset_eq)
  then have own: "owns ?s a = Some True" using owns_spec [OF sr] g'(4) by (auto simp: slab_owned_def)
  have sl: "slots s' \<subseteq> slots ?s" using f(4) by (cases res) auto
  then have ow: "slab_owned cfg s' \<subseteq> slab_owned cfg ?s" using f(3) by (auto simp: slab_owned_def)
  have r1: "prel cfg vn U (b\<lparr>slab := s'\<rparr>) m' fls rls'"
    by (rule prel_sstep [OF r f(2) daf]) (use d0 ow in blast)
  have fr1: "same_on (- (free_mem cfg b fls rls \<union> ?R)) (view (buddy_offset b) m) (view (buddy_offset b) m')"
    using f(2) off unfolding sstep_def by (auto intro: same_on_mono)
  show ?thesis
  proof (cases res)
    case None
    then have n: "slots s' = slots ?s" "slab_avail cfg s' rls' = slab_avail cfg ?s rls \<union> ?R" using f(4) by auto
    have "free_range cfg vn b m a cnt = Some (b\<lparr>slab := s'\<rparr>, m')"
      using g'(1,2) own f(1) None by (simp add: free_range_def)
    moreover have "free_mem cfg (b\<lparr>slab := s'\<rparr>) fls rls' = free_mem cfg b fls rls \<union> ?R"
      using n(2) by (auto simp: free_mem_def)
    ultimately show ?thesis using r1 fr1 ow n(1) f(3) unfolding free_step_def by auto
  next
    case (Some x)
    obtain base tot where x: "x = (base, tot)" by fastforce
    have n: "(base, trailing_zeros tot) = blk_of (slab_table ?s ! i)" "slots s' = slots ?s - {i}"
      "slab_avail cfg s' rls' = slab_avail cfg ?s rls - slot_set cfg ?s i"
      "slot_set cfg ?s i \<subseteq> slab_avail cfg ?s rls \<union> ?R"
      using f(4) Some x by auto
    let ?k = "trailing_zeros tot"
    have B: "blk cfg (base, ?k) = slot_set cfg ?s i" using n(1) by (simp add: slot_set_def)
    have ok: "block_ok cfg U (base, ?k)"
      using slot_facts(1) [OF sr g'(4)] n(1) by (simp add: rblock_def)
    have d1: "blk cfg (base, ?k) \<inter> slab_owned cfg (slab (b\<lparr>slab := s'\<rparr>)) = {}"
    proof -
      have "slot_set cfg ?s j \<inter> slot_set cfg ?s i = {}" if "j \<in> slots ?s" "j \<noteq> i" for j
        using sr g'(4) that by (auto simp: srel_def pairwise_def)
      then show ?thesis using n(2) f(3) unfolding B by (simp add: slab_owned_def) blast
    qed
    have d2: "blk cfg (base, ?k) \<inter> avail_set cfg fls = {}"
      using d0 g'(4) B by (auto simp: slab_owned_def)
    obtain b2 m2 fls2 where p: "buddy_free cfg vn (b\<lparr>slab := s'\<rparr>) m' base ?k = Some (b2, m2)"
      "prel cfg vn U b2 m2 fls2 rls'" "buddy_offset b2 = buddy_offset b" "slab b2 = s'"
      "same_on (- (avail_set cfg fls \<union> slot_set cfg ?s i)) (view (buddy_offset b) m') (view (buddy_offset b) m2)"
      "avail_set cfg fls2 = avail_set cfg fls \<union> slot_set cfg ?s i"
      using buddy_free_page [OF r1 ok d1 d2] B by auto
    have "free_range cfg vn b m a cnt = Some (b2, m2)"
      using g'(1,2) own f(1) Some x p(1) by (simp add: free_range_def)
    moreover have fm: "free_mem cfg b2 fls2 rls' = free_mem cfg b fls rls \<union> ?R"
      using n(3,4) p(4,6) g'(5) by (auto simp: free_mem_def)
    moreover have "same_on (- (free_mem cfg b fls rls \<union> ?R)) (view (buddy_offset b) m) (view (buddy_offset b) m2)"
      using fr1
    proof (rule same_on_trans)
      show "same_on (- (free_mem cfg b fls rls \<union> ?R)) (view (buddy_offset b) m') (view (buddy_offset b) m2)"
        by (rule same_on_mono [OF p(5)]) (use n(4) in \<open>auto simp: free_mem_def\<close>)
    qed
    moreover have "slot_set cfg ?s l \<subseteq> free_mem cfg b fls rls \<union> ?R
      \<or> (\<exists>j \<in> slots s'. slot_set cfg s' j = slot_set cfg ?s l)" if "l \<in> slots ?s" for l
      using that n(2,4) f(3) by (cases "l = i") (auto simp: free_mem_def)
    ultimately show ?thesis using p(2,3,4) ow unfolding free_step_def by blast
  qed
qed

end
