(* ===== verification/Frames.thy ===== *)
theory Frames
  imports Page_Core
begin

text \<open>
  The users of the buddy allocator: the frame allocator of \<^verbatim>\<open>memory/physical.rs\<close>, which is filled
  from the bootloader's memory map, and the kernel heap of \<^verbatim>\<open>memory/heap.rs\<close>.
\<close>

section \<open>The frame allocator\<close>

definition frame_cfg :: buddy_cfg where
  "frame_cfg = \<lparr>MIN_ORDER = 12, ORDER_COUNT = 19, SLAB_BLOCKS = 64, HAS_SLAB = True\<rparr>"

text \<open>An entry of the bootloader's memory map; its type is compared with the constant
  \<^verbatim>\<open>MEMMAP_USABLE\<close> of the limine crate, the argument \<open>usable\<close>.\<close>

record memmap_entry =
  mm_base :: u64
  mm_length :: u64
  mm_type :: u64

text \<open>The largest order whose block is aligned at \<open>addr\<close> and fits, zero if none does.\<close>

fun pick_order :: "buddy_cfg \<Rightarrow> u64 \<Rightarrow> u64 \<Rightarrow> nat \<Rightarrow> nat" where
  "pick_order cfg addr remain 0 = 0"
| "pick_order cfg addr remain (Suc order) =
    (if block_size cfg (Suc order) \<le> remain \<and> is_multiple_of addr (block_size cfg (Suc order))
     then Suc order else pick_order cfg addr remain order)"

partial_function (option) init_region ::
  "buddy_cfg \<Rightarrow> (u64 \<Rightarrow> u64 option) \<Rightarrow> buddy \<Rightarrow> mem \<Rightarrow> u64 \<Rightarrow> u64 \<Rightarrow> (buddy \<times> mem) option" where
  "init_region cfg vn b m addr fin =
    (if addr + PAGE_SIZE \<le> fin then do {
       let order = pick_order cfg addr (fin - addr) (max_order cfg);
       (b', m') \<leftarrow> push vn b m addr order;
       init_region cfg vn b' m' (addr + block_size cfg order) fin }
     else Some (b, m))"

primrec init_entries ::
  "(u64 \<Rightarrow> u64 option) \<Rightarrow> u64 \<Rightarrow> buddy \<Rightarrow> mem \<Rightarrow> memmap_entry list \<Rightarrow> (buddy \<times> mem) option" where
  "init_entries vn usable b m [] = Some (b, m)"
| "init_entries vn usable b m (e # es) =
    (if mm_type e \<noteq> usable then init_entries vn usable b m es
     else do {
       let start = mm_base e;
       let fin = mm_length e + start;
       (b', m') \<leftarrow> init_region frame_cfg vn b m (next_multiple_of start PAGE_SIZE) fin;
       init_entries vn usable b' m' es })"

definition physical_init ::
  "(u64 \<Rightarrow> u64 option) \<Rightarrow> u64 \<Rightarrow> u64 \<Rightarrow> mem \<Rightarrow> memmap_entry list \<Rightarrow> (buddy \<times> mem) option" where
  "physical_init vn usable hhdm m mmap =
     init_entries vn usable (buddy_set_offset hhdm (buddy_new frame_cfg)) m mmap"

text \<open>\<^verbatim>\<open>PhysAddr::new\<close> panics on an address of more than 52 bits.\<close>

definition alloc_pages_raw ::
  "(u64 \<Rightarrow> u64 option) \<Rightarrow> buddy \<Rightarrow> mem \<Rightarrow> usize \<Rightarrow> (u64 option \<times> buddy \<times> mem) option" where
  "alloc_pages_raw vn b m cnt =
     (case alloc_range frame_cfg vn b m cnt of
        Some (Some a, b, m) \<Rightarrow> if unat a < 2 ^ 52 then Some (Some a, b, m) else None
      | r \<Rightarrow> r)"

definition free_frames ::
  "(u64 \<Rightarrow> u64 option) \<Rightarrow> buddy \<Rightarrow> mem \<Rightarrow> u64 \<Rightarrow> usize \<Rightarrow> (buddy \<times> mem) option" where
  "free_frames vn b m start cnt = free_range frame_cfg vn b m start cnt"

definition zero_pages :: "mem \<Rightarrow> u64 \<Rightarrow> usize \<Rightarrow> mem" where
  "zero_pages m start cnt =
    (let word_count = cnt * PAGE_SIZE div 8
     in wr_bytes m start (replicate (8 * unat word_count) 0))"

section \<open>The kernel heap\<close>

definition heap_cfg :: buddy_cfg where
  "heap_cfg = \<lparr>MIN_ORDER = 4, ORDER_COUNT = 17, SLAB_BLOCKS = 64, HAS_SLAB = True\<rparr>"

definition HEAP_SIZE :: usize where
  "HEAP_SIZE = 1024 * 1024"

text \<open>\<^verbatim>\<open>core::alloc::Layout\<close>, and the count of 16-byte units that serves one.\<close>

record layout =
  l_size :: usize
  l_align :: usize

definition layout_to_size :: "layout \<Rightarrow> usize" where
  "layout_to_size l =
    (let align_units = div_ceil (l_align l) 16;
         units = div_ceil (max (l_size l) 16) 16
     in if align_units = 1 then units else next_power_of_two (max units align_units))"

text \<open>An order below zero wraps around and is then out of the range of the free lists, a panic.\<close>

definition heap_init ::
  "(u64 \<Rightarrow> u64 option) \<Rightarrow> buddy \<Rightarrow> mem \<Rightarrow> u64 \<Rightarrow> usize \<Rightarrow> (buddy \<times> mem) option" where
  "heap_init vn b m addr page_count =
    (let zeros = trailing_zeros (next_power_of_two (page_count * PAGE_SIZE))
     in if zeros < 4 then None else push vn b m addr (zeros - 4))"

definition heap_alloc ::
  "(u64 \<Rightarrow> u64 option) \<Rightarrow> buddy \<Rightarrow> mem \<Rightarrow> layout \<Rightarrow> (u64 \<times> buddy \<times> mem) option" where
  "heap_alloc vn b m l = do {
     (r, b', m') \<leftarrow> alloc_range heap_cfg vn b m (layout_to_size l);
     Some (case r of Some a \<Rightarrow> a | None \<Rightarrow> 0, b', m') }"

definition heap_dealloc ::
  "(u64 \<Rightarrow> u64 option) \<Rightarrow> buddy \<Rightarrow> mem \<Rightarrow> u64 \<Rightarrow> layout \<Rightarrow> (buddy \<times> mem) option" where
  "heap_dealloc vn b m p l = free_range heap_cfg vn b m p (layout_to_size l)"

section \<open>The contract\<close>

text \<open>A request for \<open>cnt\<close> pages as a holder sees it: what it must hand back, and whether the slab
  served it.\<close>

definition take_pages ::
  "buddy_cfg \<Rightarrow> (u64 \<Rightarrow> u64 option) \<Rightarrow> buddy \<times> mem \<Rightarrow> usize \<Rightarrow> ((u64 \<times> usize \<times> bool) \<times> buddy \<times> mem) option"
where
  "take_pages cfg vn s cnt = do {
     (r, b', m') \<leftarrow> alloc_range cfg vn (fst s) (snd s) cnt;
     a \<leftarrow> r;
     own \<leftarrow> owns (slab b') a;
     Some ((a, cnt, own), b', m') }"

definition give_pages ::
  "buddy_cfg \<Rightarrow> (u64 \<Rightarrow> u64 option) \<Rightarrow> buddy \<times> mem \<Rightarrow> u64 \<times> usize \<times> bool \<Rightarrow> (buddy \<times> mem) option" where
  "give_pages cfg vn s r = free_range cfg vn (fst s) (snd s) (fst r) (fst (snd r))"

definition page_client ::
  "buddy_cfg \<Rightarrow> (u64 \<Rightarrow> u64 option) \<Rightarrow> nat set \<Rightarrow> buddy \<times> mem \<Rightarrow> buddy \<times> mem \<Rightarrow> bool" where
  "page_client cfg vn U s s' \<longleftrightarrow> fst s' = fst s \<and>
     same_on (page_avail cfg vn U s) (view (buddy_offset (fst s)) (snd s)) (view (buddy_offset (fst s)) (snd s'))"

lemma prel_client:
  assumes r: "prel cfg vn U b m fls rls"
    and f: "same_on (free_mem cfg b fls rls) (view (buddy_offset b) m) (view (buddy_offset b) m')"
  shows "prel cfg vn U b m' fls rls"
proof -
  have b: "brel cfg vn U b m fls" and s: "srel cfg vn U (slab b) m rls"
    and o: "slab_offset (slab b) = buddy_offset b" using r by (auto simp: prel_def)
  have "same_on (avail_set cfg fls) (view (buddy_offset b) m) (view (buddy_offset b) m')"
    by (rule same_on_mono [OF f]) (simp add: free_mem_def)
  then have "brel cfg vn U b m' fls" by (rule brel_same_on [OF b])
  moreover have "same_on (slab_avail cfg (slab b) rls) (view (buddy_offset b) m) (view (buddy_offset b) m')"
    by (rule same_on_mono [OF f]) (simp add: free_mem_def)
  then have "srel cfg vn U (slab b) m' rls" using srel_same_on [OF s] o by simp
  ultimately show ?thesis using r by (simp add: prel_def)
qed

lemma units_nonempty: "cnt \<noteq> 0 \<Longrightarrow> unat a \<in> units cfg a cnt"
  by (simp add: units_def unat_gt_0 bsz_def)

text \<open>Each outcome of \<^verbatim>\<open>alloc_range\<close> as a region that is held.\<close>

lemma page_step_take:
  assumes ps: "page_step cfg vn U b m fls rls cnt out b' m'" and a: "outcome_addr out = Some a"
    and cnt: "cnt \<noteq> 0" and hs: "\<forall>a. out = Ranged a \<longrightarrow> HAS_SLAB cfg"
  shows "\<exists>own. owns (slab b') a = Some own \<and> page_inv cfg vn U (b', m')
    \<and> page_granted cfg U (b', m') (a, cnt, own) \<and> page_region cfg (a, cnt, own) \<subseteq> free_mem cfg b fls rls
    \<and> page_avail cfg vn U (b', m') = free_mem cfg b fls rls - page_region cfg (a, cnt, own)"
proof -
  obtain fls' rls' where r': "prel cfg vn U b' m' fls' rls'"
    and o: "case out of Failed \<Rightarrow> True
        | Ranged a \<Rightarrow> unit_size cfg dvd unat a \<and> units cfg a cnt \<subseteq> free_mem cfg b fls rls
            \<and> (\<exists>i \<in> slots (slab b'). units cfg a cnt \<subseteq> slot_set cfg (slab b') i)
            \<and> free_mem cfg b' fls' rls' = free_mem cfg b fls rls - units cfg a cnt
        | Blocked a \<Rightarrow> block_ok cfg U (a, count_order cnt)
            \<and> blk cfg (a, count_order cnt) \<subseteq> free_mem cfg b fls rls
            \<and> blk cfg (a, count_order cnt) \<inter> slab_owned cfg (slab b') = {}
            \<and> free_mem cfg b' fls' rls' = free_mem cfg b fls rls - blk cfg (a, count_order cnt)"
    using ps unfolding page_step_def by (cases out) auto
  have inv: "page_inv cfg vn U (b', m')" using r' by (auto simp: page_inv_def)
  have sr: "srel cfg vn U (slab b') m' rls'" using r' by (simp add: prel_def)
  note av = page_avail_eq [OF r']
  show ?thesis
  proof (cases out)
    case Failed
    then show ?thesis using a by simp
  next
    case (Ranged x)
    then obtain i where i: "i \<in> slots (slab b')" "units cfg a cnt \<subseteq> slot_set cfg (slab b') i"
      and x: "x = a" "unit_size cfg dvd unat a" "units cfg a cnt \<subseteq> free_mem cfg b fls rls"
      "free_mem cfg b' fls' rls' = free_mem cfg b fls rls - units cfg a cnt"
      using o a by auto
    have "unat a \<in> slab_owned cfg (slab b')" using i units_nonempty [OF cnt] by (auto simp: slab_owned_def)
    then show ?thesis using owns_spec [OF sr, of a] inv av i x cnt hs Ranged
      by (auto simp: page_granted_def page_region_def)
  next
    case (Blocked x)
    then have x: "x = a" "block_ok cfg U (a, count_order cnt)"
      "blk cfg (a, count_order cnt) \<subseteq> free_mem cfg b fls rls"
      "blk cfg (a, count_order cnt) \<inter> slab_owned cfg (slab b') = {}"
      "free_mem cfg b' fls' rls' = free_mem cfg b fls rls - blk cfg (a, count_order cnt)"
      using o a by auto
    have "unat a \<notin> slab_owned cfg (slab b')" using x(4) blk_start [of a cfg] by blast
    then show ?thesis using owns_spec [OF sr, of a] inv av x cnt
      by (auto simp: page_granted_def page_region_def)
  qed
qed

lemma take_pages_step:
  assumes "page_inv cfg vn U s" "cnt \<noteq> 0" "take_pages cfg vn s cnt = Some (r, s')"
  shows "page_inv cfg vn U s' \<and> page_granted cfg U s' r \<and> page_region cfg r \<subseteq> page_avail cfg vn U s
    \<and> page_avail cfg vn U s' = page_avail cfg vn U s - page_region cfg r"
    and "page_granted cfg U s r' \<Longrightarrow> page_region cfg r' \<inter> page_avail cfg vn U s = {} \<Longrightarrow>
      page_granted cfg U s' r'"
proof -
  obtain b m where s: "s = (b, m)" by fastforce
  obtain fls rls where p: "prel cfg vn U b m fls rls" using assms(1) s by (auto simp: page_inv_def)
  note av = page_avail_eq [OF p]
  obtain out b' m' where a: "alloc_range cfg vn b m cnt = Some (outcome_addr out, b', m')"
    "page_step cfg vn U b m fls rls cnt out b' m'" "\<forall>a. out = Ranged a \<longrightarrow> HAS_SLAB cfg"
    using alloc_range_step [OF p assms(2)] by blast
  obtain x where x: "outcome_addr out = Some x"
    using assms(3) a(1) s by (cases "outcome_addr out") (auto simp: take_pages_def)
  obtain own where o: "owns (slab b') x = Some own" "page_inv cfg vn U (b', m')"
    "page_granted cfg U (b', m') (x, cnt, own)" "page_region cfg (x, cnt, own) \<subseteq> free_mem cfg b fls rls"
    "page_avail cfg vn U (b', m') = free_mem cfg b fls rls - page_region cfg (x, cnt, own)"
    using page_step_take [OF a(2) x assms(2) a(3)] by blast
  have rs: "r = (x, cnt, own)" "s' = (b', m')"
    using assms(3) a(1) x o(1) s by (auto simp: take_pages_def)
  show "page_inv cfg vn U s' \<and> page_granted cfg U s' r \<and> page_region cfg r \<subseteq> page_avail cfg vn U s
    \<and> page_avail cfg vn U s' = page_avail cfg vn U s - page_region cfg r"
    using o rs s av by simp
  have sl: "slab_owned cfg (slab b') \<subseteq> slab_owned cfg (slab b) \<union> free_mem cfg b fls rls"
    "\<forall>i \<in> slots (slab b). \<exists>j \<in> slots (slab b'). slot_set cfg (slab b') j = slot_set cfg (slab b) i"
    using a(2) by (auto simp: page_step_def)
  assume g: "page_granted cfg U s r'" and d: "page_region cfg r' \<inter> page_avail cfg vn U s = {}"
  obtain y c w where r': "r' = (y, c, w)" by (metis prod_cases3)
  show "page_granted cfg U s' r'"
  proof (cases w)
    case True
    then obtain i where "i \<in> slots (slab b)" "units cfg y c \<subseteq> slot_set cfg (slab b) i" "HAS_SLAB cfg"
      "unit_size cfg dvd unat y" "c \<noteq> 0"
      using g r' s by (auto simp: page_granted_def)
    then show ?thesis using sl(2) True r' rs by (fastforce simp: page_granted_def)
  next
    case False
    then show ?thesis using g d sl(1) r' rs s av by (auto simp: page_granted_def page_region_def)
  qed
qed

lemma give_pages_step:
  assumes "page_inv cfg vn U s" "page_granted cfg U s r" "page_region cfg r \<inter> page_avail cfg vn U s = {}"
  shows "\<exists>s'. give_pages cfg vn s r = Some s' \<and> page_inv cfg vn U s'
    \<and> page_avail cfg vn U s' = page_avail cfg vn U s \<union> page_region cfg r
    \<and> (\<forall>r'. page_granted cfg U s r' \<longrightarrow> page_region cfg r' \<inter> (page_avail cfg vn U s \<union> page_region cfg r) = {}
        \<longrightarrow> page_granted cfg U s' r')"
proof -
  obtain b m where s: "s = (b, m)" by fastforce
  obtain fls rls where p: "prel cfg vn U b m fls rls" using assms(1) s by (auto simp: page_inv_def)
  note av = page_avail_eq [OF p]
  obtain a cnt w where r: "r = (a, cnt, w)" by (metis prod_cases3)
  have "\<exists>b' m'. free_range cfg vn b m a cnt = Some (b', m')
    \<and> free_step cfg vn U b m fls rls (page_region cfg r) b' m'"
  proof (cases w)
    case True
    then show ?thesis
      using free_range_units [OF p, of a cnt] assms(2,3) r s av by (simp add: page_region_def)
  next
    case False
    then show ?thesis
      using free_range_block [OF p, of a cnt] assms(2,3) r s av by (simp add: page_region_def)
  qed
  then obtain b' m' where f: "free_range cfg vn b m a cnt = Some (b', m')"
    "free_step cfg vn U b m fls rls (page_region cfg r) b' m'" by blast
  obtain fls' rls' where q: "prel cfg vn U b' m' fls' rls'"
    "free_mem cfg b' fls' rls' = free_mem cfg b fls rls \<union> page_region cfg r"
    "slab_owned cfg (slab b') \<subseteq> slab_owned cfg (slab b)"
    "\<forall>i \<in> slots (slab b). slot_set cfg (slab b) i \<subseteq> free_mem cfg b fls rls \<union> page_region cfg r
          \<or> (\<exists>j \<in> slots (slab b'). slot_set cfg (slab b') j = slot_set cfg (slab b) i)"
    using f(2) by (auto simp: free_step_def)
  have keep: "page_granted cfg U (b', m') r'"
    if g: "page_granted cfg U s r'" and d: "page_region cfg r' \<inter> (free_mem cfg b fls rls \<union> page_region cfg r) = {}"
    for r'
  proof -
    obtain y c v where r': "r' = (y, c, v)" by (metis prod_cases3)
    show ?thesis
    proof (cases v)
      case True
      then obtain i where i: "i \<in> slots (slab b)" "units cfg y c \<subseteq> slot_set cfg (slab b) i" "HAS_SLAB cfg"
        "unit_size cfg dvd unat y" "c \<noteq> 0"
        using g r' s by (auto simp: page_granted_def)
      have "unat y \<notin> free_mem cfg b fls rls \<union> page_region cfg r"
        using units_nonempty [OF i(5), of y cfg] d True r' by (auto simp: page_region_def)
      moreover have "unat y \<in> slot_set cfg (slab b) i" using units_nonempty [OF i(5), of y cfg] i(2) by blast
      ultimately obtain j where "j \<in> slots (slab b')" "slot_set cfg (slab b') j = slot_set cfg (slab b) i"
        using q(4) i(1) by blast
      then show ?thesis using i True r' by (auto simp: page_granted_def)
    next
      case False
      then show ?thesis using g q(3) r' s by (auto simp: page_granted_def)
    qed
  qed
  have "give_pages cfg vn s r = Some (b', m')" using f(1) s r by (simp add: give_pages_def)
  moreover have "page_inv cfg vn U (b', m')" using q(1) by (auto simp: page_inv_def)
  ultimately show ?thesis using keep page_avail_eq [OF q(1)] q(2) av s by auto
qed

interpretation pa: region_allocator "page_inv cfg vn U" "page_avail cfg vn U" "take_pages cfg vn"
  "give_pages cfg vn" "page_client cfg vn U" "\<lambda>_ cnt. cnt \<noteq> 0" "page_region cfg" "page_granted cfg U"
  for cfg vn U
proof (unfold_locales, goal_cases)
  case (1 s q r s')
  then show ?case using take_pages_step(1) by blast
next
  case (2 s q r s' r')
  then show ?case using take_pages_step(2) by blast
next
  case (3 s r)
  then show ?case using give_pages_step by blast
next
  case (4 s r s' r')
  obtain s2 where "give_pages cfg vn s r = Some s2" "\<forall>r'. page_granted cfg U s r' \<longrightarrow>
      page_region cfg r' \<inter> (page_avail cfg vn U s \<union> page_region cfg r) = {} \<longrightarrow> page_granted cfg U s2 r'"
    using give_pages_step [OF 4(1-3)] by blast
  then show ?case using 4(4-6) by (metis option.inject)
next
  case (5 s s')
  obtain b m m' where s: "s = (b, m)" "s' = (b, m')" using 5(2) by (cases s, cases s') (auto simp: page_client_def)
  obtain fls rls where p: "prel cfg vn U b m fls rls" using 5(1) s by (auto simp: page_inv_def)
  have "prel cfg vn U b m' fls rls"
    using prel_client [OF p] 5(2) page_avail_eq [OF p] s by (simp add: page_client_def)
  then show ?case using page_avail_eq p s by (auto simp: page_inv_def)
next
  case (6 s s' r)
  then show ?case by (auto simp: page_client_def page_granted_def split: prod.splits)
qed

section \<open>Filling the frame allocator\<close>

lemma frame_cfg_ok: "cfg_ok frame_cfg"
  by (simp add: cfg_ok_def frame_cfg_def)

lemma heap_cfg_ok: "cfg_ok heap_cfg"
  by (simp add: cfg_ok_def heap_cfg_def)

lemma frame_unit [simp]: "unit_size frame_cfg = 4096"
  by (simp add: bsz_def frame_cfg_def)

lemma pick_order_spec:
  assumes "cfg_ok cfg" "n < ORDER_COUNT cfg"
  shows "pick_order cfg addr remain n \<le> n"
    and "pick_order cfg addr remain n \<noteq> 0 \<Longrightarrow>
      bsz cfg (pick_order cfg addr remain n) \<le> unat remain \<and> bsz cfg (pick_order cfg addr remain n) dvd unat addr"
proof -
  have "pick_order cfg addr remain n \<le> n \<and> (pick_order cfg addr remain n \<noteq> 0 \<longrightarrow>
      bsz cfg (pick_order cfg addr remain n) \<le> unat remain \<and> bsz cfg (pick_order cfg addr remain n) dvd unat addr)"
    using assms(2)
  proof (induction n)
    case 0
    then show ?case by simp
  next
    case (Suc n)
    have u: "unat (block_size cfg (Suc n)) = bsz cfg (Suc n)"
      by (rule unat_block_size [OF assms(1) Suc.prems])
    then have nz: "block_size cfg (Suc n) \<noteq> 0" using bsz_pos [of cfg "Suc n"] by (metis unat_0 less_irrefl)
    have "is_multiple_of addr (block_size cfg (Suc n)) \<longleftrightarrow> bsz cfg (Suc n) dvd unat addr"
      using nz u by (simp add: is_multiple_of_def word_eq_unat unat_mod dvd_eq_mod_eq_0)
    then show ?case using Suc u by (auto simp: word_le_nat_alt)
  qed
  then show "pick_order cfg addr remain n \<le> n" "pick_order cfg addr remain n \<noteq> 0 \<Longrightarrow>
      bsz cfg (pick_order cfg addr remain n) \<le> unat remain \<and> bsz cfg (pick_order cfg addr remain n) dvd unat addr"
    by blast+
qed

lemma init_region_step:
  assumes "brel frame_cfg vn U b m fls" "4096 dvd unat addr" "unat fin + 4096 < 2 ^ 64"
    and "unat addr + 4096 < 2 ^ 64" "{unat addr ..< unat fin div 4096 * 4096} \<subseteq> U"
    and "{unat addr ..< unat fin div 4096 * 4096} \<inter> avail_set frame_cfg fls = {}"
  shows "\<exists>b' m' fls'. init_region frame_cfg vn b m addr fin = Some (b', m')
    \<and> bstep frame_cfg vn U {unat addr ..< unat fin div 4096 * 4096} b m b' m' fls'
    \<and> avail_set frame_cfg fls' = avail_set frame_cfg fls \<union> {unat addr ..< unat fin div 4096 * 4096}"
  using assms
proof (induction "unat fin - unat addr" arbitrary: addr b m fls rule: less_induct)
  case less
  note r = less.prems(1)
  define top where "top = unat fin div 4096 * 4096"
  have un: "unat (addr + PAGE_SIZE) = unat addr + 4096"
    using less.prems(4) by (subst unat_add_nowrap) simp_all
  obtain q where q: "unat addr = 4096 * q" using less.prems(2) by (elim dvdE)
  show ?case
  proof (cases "addr + PAGE_SIZE \<le> fin")
    case False
    then have lt: "unat fin < unat addr + 4096" using un by (simp add: word_le_nat_alt)
    then have "unat fin div 4096 \<le> q" using q by simp
    then have "{unat addr ..< unat fin div 4096 * 4096} = {}" using q by simp
    then show ?thesis using False r by (auto simp: init_region.simps intro: bstep_refl)
  next
    case True
    then have ge: "unat addr + 4096 \<le> unat fin" using un by (simp add: word_le_nat_alt)
    define k where "k = pick_order frame_cfg addr (fin - addr) (max_order frame_cfg)"
    have rem: "unat (fin - addr) = unat fin - unat addr" using ge by (simp add: unat_sub_nowrap)
    have mx: "max_order frame_cfg < ORDER_COUNT frame_cfg" by (simp add: max_order_def frame_cfg_def)
    note po = pick_order_spec [OF frame_cfg_ok mx, of addr "fin - addr", folded k_def]
    have k: "k < ORDER_COUNT frame_cfg" using po(1) mx by simp
    have z: "bsz frame_cfg k \<le> unat fin - unat addr \<and> bsz frame_cfg k dvd unat addr"
      using po(2) rem less.prems(2) ge by (cases "k = 0") auto
    then have le: "unat addr + bsz frame_cfg k \<le> unat fin" using ge by linarith
    let ?a = "addr + block_size frame_cfg k"
    have ub: "unat (block_size frame_cfg k) = bsz frame_cfg k" by (rule unat_block_size [OF frame_cfg_ok k])
    have ua: "unat ?a = unat addr + bsz frame_cfg k"
      using le less.prems(3) ub by (subst unat_add_nowrap) simp_all
    have "4096 dvd bsz frame_cfg k"
      using le_imp_power_dvd [of 12 "k + 12" "2::nat"] by (simp add: bsz_def frame_cfg_def)
    then have d4: "4096 dvd unat ?a" using ua less.prems(2) by simp
    then obtain q' where q': "unat ?a = 4096 * q'" by (elim dvdE)
    then have "q' \<le> unat fin div 4096" using le ua by (simp add: less_eq_div_iff_mult_less_eq)
    then have at: "unat ?a \<le> top" using q' by (simp add: top_def)
    have B: "blk frame_cfg (addr, k) = {unat addr ..< unat ?a}" using ua by (simp add: blk_def)
    have Bt: "blk frame_cfg (addr, k) \<subseteq> {unat addr ..< top}" using B at by auto
    have ok: "block_ok frame_cfg U (addr, k)"
      using k z Bt less.prems(5) by (auto simp: block_ok_def top_def)
    have dj: "blk frame_cfg (addr, k) \<inter> avail_set frame_cfg fls = {}"
      using Bt less.prems(6) by (auto simp: top_def)
    obtain b1 m1 where p: "push vn b m addr k = Some (b1, m1)"
      "bstep frame_cfg vn U (blk frame_cfg (addr, k)) b m b1 m1 (fls[k := addr # fls ! k])"
      using push_step [OF r ok dj] by blast
    let ?fls = "fls[k := addr # fls ! k]"
    have lok: "lists_ok frame_cfg U fls" using r by (simp add: brel_def)
    have av: "avail_set frame_cfg ?fls = avail_set frame_cfg fls \<union> blk frame_cfg (addr, k)"
      by (rule lists_ok_push(2) [OF lok ok dj])
    have lower: "{unat ?a ..< top} \<subseteq> {unat addr ..< top} - blk frame_cfg (addr, k)" using B ua by auto
    have "\<exists>b' m' fls'. init_region frame_cfg vn b1 m1 ?a fin = Some (b', m')
      \<and> bstep frame_cfg vn U {unat ?a ..< top} b1 m1 b' m' fls'
      \<and> avail_set frame_cfg fls' = avail_set frame_cfg ?fls \<union> {unat ?a ..< top}"
      unfolding top_def
    proof (rule less.hyps)
      show "unat fin - unat ?a < unat fin - unat addr" using ua ge bsz_pos [of frame_cfg k] by linarith
      show "brel frame_cfg vn U b1 m1 ?fls" using p(2) by (simp add: bstep_def)
      show "{unat ?a ..< unat fin div 4096 * 4096} \<subseteq> U"
        using less.prems(5) lower unfolding top_def by blast
      show "{unat ?a ..< unat fin div 4096 * 4096} \<inter> avail_set frame_cfg ?fls = {}"
        using less.prems(6) lower unfolding av top_def by blast
    qed (use ua le less.prems(3) d4 in simp_all)
    then obtain b2 m2 fls2 where s: "init_region frame_cfg vn b1 m1 ?a fin = Some (b2, m2)"
      "bstep frame_cfg vn U {unat ?a ..< top} b1 m1 b2 m2 fls2"
      "avail_set frame_cfg fls2 = avail_set frame_cfg ?fls \<union> {unat ?a ..< top}"
      by blast
    have "init_region frame_cfg vn b m addr fin = Some (b2, m2)"
      using True p(1) s(1) by (subst init_region.simps) (simp add: k_def Let_def)
    moreover have "bstep frame_cfg vn U {unat addr ..< top} b m b2 m2 fls2"
    proof (rule bstep_trans [OF _ s(2)])
      show "bstep frame_cfg vn U {unat addr ..< top} b m b1 m1 ?fls" by (rule bstep_mono [OF p(2) Bt])
    qed (use lower in blast)
    moreover have "avail_set frame_cfg fls2 = avail_set frame_cfg fls \<union> {unat addr ..< top}"
    proof -
      have "{unat addr ..< unat ?a} \<union> {unat ?a ..< top} = {unat addr ..< top}" using ua at by auto
      then show ?thesis using s(3) av B by (simp add: Un_assoc)
    qed
    ultimately show ?thesis unfolding top_def by blast
  qed
qed

text \<open>The whole pages inside an entry, and those of all usable entries.\<close>

definition entry_pages :: "memmap_entry \<Rightarrow> nat set" where
  "entry_pages e = {(unat (mm_base e) + 4095) div 4096 * 4096 ..<
     (unat (mm_base e) + unat (mm_length e)) div 4096 * 4096}"

definition usable_pages :: "u64 \<Rightarrow> memmap_entry list \<Rightarrow> nat set" where
  "usable_pages usable es = (\<Union>e \<in> {e \<in> set es. mm_type e = usable}. entry_pages e)"

definition mmap_ok :: "u64 \<Rightarrow> memmap_entry list \<Rightarrow> bool" where
  "mmap_ok usable es \<longleftrightarrow>
     (\<forall>e \<in> set es. mm_type e = usable \<longrightarrow> unat (mm_base e) + unat (mm_length e) + 8192 < 2 ^ 64)
     \<and> sorted_wrt (\<lambda>e e'. entry_pages e \<inter> entry_pages e' = {}) (filter (\<lambda>e. mm_type e = usable) es)"

lemma init_entry_step:
  assumes r: "brel frame_cfg vn U b m fls" and e: "unat (mm_base e) + unat (mm_length e) + 8192 < 2 ^ 64"
    and sub: "entry_pages e \<subseteq> U" and dj: "entry_pages e \<inter> avail_set frame_cfg fls = {}"
  shows "\<exists>b' m' fls'. init_region frame_cfg vn b m (next_multiple_of (mm_base e) PAGE_SIZE)
        (mm_length e + mm_base e) = Some (b', m')
    \<and> bstep frame_cfg vn U (entry_pages e) b m b' m' fls'
    \<and> avail_set frame_cfg fls' = avail_set frame_cfg fls \<union> entry_pages e"
proof -
  define addr where "addr = next_multiple_of (mm_base e) PAGE_SIZE"
  define fin where "fin = mm_length e + mm_base e"
  have uf: "unat fin = unat (mm_base e) + unat (mm_length e)"
    unfolding fin_def using e by (subst unat_add_nowrap) simp_all
  have nm: "4096 dvd unat addr" "unat (mm_base e) \<le> unat addr" "unat addr < unat (mm_base e) + 4096"
    using next_multiple_of_exact [of PAGE_SIZE "mm_base e"] e by (auto simp: addr_def PAGE_SIZE_def)
  obtain q where q: "unat addr = 4096 * q" using nm(1) by (elim dvdE)
  then have "(unat (mm_base e) + 4095) div 4096 = q" using nm(2,3) by simp
  then have pg: "entry_pages e = {unat addr ..< unat fin div 4096 * 4096}"
    using q by (simp add: entry_pages_def uf mult.commute)
  show ?thesis
    unfolding addr_def [symmetric] fin_def [symmetric] pg
    by (rule init_region_step [OF r nm(1)]) (use e uf nm(3) sub dj pg in simp_all)
qed

lemma init_entries_step:
  assumes "brel frame_cfg vn U b m fls" "mmap_ok usable es" "usable_pages usable es \<subseteq> U"
    and "usable_pages usable es \<inter> avail_set frame_cfg fls = {}"
  shows "\<exists>b' m' fls'. init_entries vn usable b m es = Some (b', m')
    \<and> bstep frame_cfg vn U (usable_pages usable es) b m b' m' fls'
    \<and> avail_set frame_cfg fls' = avail_set frame_cfg fls \<union> usable_pages usable es"
  using assms
proof (induction es arbitrary: b m fls)
  case Nil
  then show ?case by (auto simp: usable_pages_def intro: bstep_refl)
next
  case (Cons e es)
  show ?case
  proof (cases "mm_type e = usable")
    case False
    then have u: "usable_pages usable (e # es) = usable_pages usable es" by (auto simp: usable_pages_def)
    have "mmap_ok usable es" using Cons.prems(2) False by (simp add: mmap_ok_def)
    with Cons False u show ?thesis by simp
  next
    case True
    then have u: "usable_pages usable (e # es) = entry_pages e \<union> usable_pages usable es"
      by (auto simp: usable_pages_def)
    have ok: "mmap_ok usable es" "unat (mm_base e) + unat (mm_length e) + 8192 < 2 ^ 64"
      "entry_pages e \<inter> usable_pages usable es = {}"
      using Cons.prems(2) True by (auto simp: mmap_ok_def usable_pages_def)
    obtain b1 m1 fls1 where s: "init_region frame_cfg vn b m (next_multiple_of (mm_base e) PAGE_SIZE)
        (mm_length e + mm_base e) = Some (b1, m1)"
      "bstep frame_cfg vn U (entry_pages e) b m b1 m1 fls1"
      "avail_set frame_cfg fls1 = avail_set frame_cfg fls \<union> entry_pages e"
      using init_entry_step [OF Cons.prems(1) ok(2)] Cons.prems(3,4) u by blast
    have "brel frame_cfg vn U b1 m1 fls1" using s(2) by (simp add: bstep_def)
    moreover have "usable_pages usable es \<subseteq> U" using Cons.prems(3) u by blast
    moreover have "usable_pages usable es \<inter> avail_set frame_cfg fls1 = {}"
      using Cons.prems(4) u s(3) ok(3) by blast
    ultimately obtain b2 m2 fls2 where t: "init_entries vn usable b1 m1 es = Some (b2, m2)"
      "bstep frame_cfg vn U (usable_pages usable es) b1 m1 b2 m2 fls2"
      "avail_set frame_cfg fls2 = avail_set frame_cfg fls1 \<union> usable_pages usable es"
      using Cons.IH [OF _ ok(1)] by blast
    have "init_entries vn usable b m (e # es) = Some (b2, m2)" using True s(1) t(1) by simp
    moreover have "bstep frame_cfg vn U (entry_pages e \<union> usable_pages usable es) b m b2 m2 fls2"
      by (rule bstep_trans [OF bstep_mono [OF s(2)] t(2)]) auto
    ultimately show ?thesis using s(3) t(3) u by auto
  qed
qed

lemma physical_init_step:
  assumes "mmap_ok usable mmap" "universe vn hhdm (usable_pages usable mmap)"
  shows "\<exists>b m'. physical_init vn usable hhdm m mmap = Some (b, m')
    \<and> page_inv frame_cfg vn (usable_pages usable mmap) (b, m')
    \<and> page_avail frame_cfg vn (usable_pages usable mmap) (b, m') = usable_pages usable mmap
    \<and> buddy_offset b = hhdm
    \<and> same_on (- usable_pages usable mmap) (view hhdm m) (view hhdm m')"
proof -
  let ?U = "usable_pages usable mmap"
  define b0 where "b0 = buddy_set_offset hhdm (buddy_new frame_cfg)"
  define fls0 :: "u64 list list" where "fls0 = replicate 19 []"
  have fb: "free_blocks fls0 = {}" by (auto simp: free_blocks_def fls0_def)
  have off: "buddy_offset b0 = hhdm" by (simp add: b0_def buddy_set_offset_def)
  have r0: "brel frame_cfg vn ?U b0 m fls0"
    using assms(2) frame_cfg_ok fb
    by (simp add: brel_def lists_ok_def b0_def buddy_set_offset_def buddy_new_def)
       (simp add: fls0_def frame_cfg_def)
  have a0: "avail_set frame_cfg fls0 = {}" using fb by (simp add: avail_set_def)
  obtain b m' fls where s: "init_entries vn usable b0 m mmap = Some (b, m')"
    "bstep frame_cfg vn ?U ?U b0 m b m' fls" "avail_set frame_cfg fls = avail_set frame_cfg fls0 \<union> ?U"
    using init_entries_step [OF r0 assms(1)] a0 by blast
  have sl: "slots (slab b0) = {}"
    by (simp add: slots_def b0_def buddy_set_offset_def slab_set_offset_def buddy_new_def slab_new_def)
  have "srel frame_cfg vn ?U (slab b0) m (replicate 64 [])"
    using assms(2) frame_cfg_ok sl
    by (simp add: srel_def b0_def buddy_set_offset_def slab_set_offset_def buddy_new_def slab_new_def)
       (simp add: frame_cfg_def shl64_def bsz_def)
  then have "prel frame_cfg vn ?U b0 m fls0 (replicate 64 [])"
    using r0 sl by (simp add: prel_def slab_owned_def)
       (simp add: b0_def buddy_set_offset_def slab_set_offset_def)
  then have p: "prel frame_cfg vn ?U b m' fls (replicate 64 [])"
    using s(2) by (rule prel_bstep) (simp_all add: slab_owned_def sl)
  have "slab b = slab b0" using s(2) by (simp add: bstep_def)
  then have "free_mem frame_cfg b fls (replicate 64 []) = ?U"
    using s(3) a0 sl by (simp add: free_mem_def slab_avail_def)
  then show ?thesis
    using s(1,2) p page_avail_eq [OF p] off
    by (auto simp: physical_init_def b0_def [symmetric] page_inv_def bstep_def)
qed

end
