(* ===== verification/Memory_Props.thy ===== *)
theory Memory_Props
  imports Frames
begin

text \<open>
  What the page allocators promise: the properties of the buddy allocator on its own, of
  \<^verbatim>\<open>alloc_range\<close> and \<^verbatim>\<open>free_range\<close> with the slab, of the frame allocator from boot on, and of the
  kernel heap.
\<close>

section \<open>The buddy allocator by order\<close>

definition buddy_inv :: "buddy_cfg \<Rightarrow> (u64 \<Rightarrow> u64 option) \<Rightarrow> nat set \<Rightarrow> buddy \<times> mem \<Rightarrow> bool" where
  "buddy_inv cfg vn U s \<longleftrightarrow> (\<exists>fls. brel cfg vn U (fst s) (snd s) fls \<and> no_buddies cfg fls)"

definition buddy_avail :: "buddy_cfg \<Rightarrow> (u64 \<Rightarrow> u64 option) \<Rightarrow> nat set \<Rightarrow> buddy \<times> mem \<Rightarrow> nat set" where
  "buddy_avail cfg vn U s = {x. \<exists>fls. brel cfg vn U (fst s) (snd s) fls \<and> x \<in> avail_set cfg fls}"

definition take_block ::
  "buddy_cfg \<Rightarrow> (u64 \<Rightarrow> u64 option) \<Rightarrow> buddy \<times> mem \<Rightarrow> nat \<Rightarrow> ((u64 \<times> nat) \<times> buddy \<times> mem) option" where
  "take_block cfg vn s k = do {
     (r, b', m') \<leftarrow> buddy_alloc cfg vn (fst s) (snd s) k;
     a \<leftarrow> r;
     Some ((a, k), b', m') }"

definition give_block ::
  "buddy_cfg \<Rightarrow> (u64 \<Rightarrow> u64 option) \<Rightarrow> buddy \<times> mem \<Rightarrow> u64 \<times> nat \<Rightarrow> (buddy \<times> mem) option" where
  "give_block cfg vn s r = buddy_free cfg vn (fst s) (snd s) (fst r) (snd r)"

definition buddy_client ::
  "buddy_cfg \<Rightarrow> (u64 \<Rightarrow> u64 option) \<Rightarrow> nat set \<Rightarrow> buddy \<times> mem \<Rightarrow> buddy \<times> mem \<Rightarrow> bool" where
  "buddy_client cfg vn U s s' \<longleftrightarrow> fst s' = fst s \<and>
     same_on (buddy_avail cfg vn U s) (view (buddy_offset (fst s)) (snd s)) (view (buddy_offset (fst s)) (snd s'))"

lemma brel_unique:
  assumes "brel cfg vn U b m fls" "brel cfg vn U b m fls'"
  shows "fls' = fls"
proof (rule nth_equalityI)
  show "length fls' = length fls" using assms by (simp add: brel_def lists_ok_def)
  fix k assume "k < length fls'"
  then have k: "k < ORDER_COUNT cfg" using assms by (simp add: brel_def lists_ok_def)
  show "fls' ! k = fls ! k"
  proof (rule chain_unique)
    show "chain (view (buddy_offset b) m) (heads b ! k) (fls' ! k)" using assms(2) k by (simp add: brel_def)
    show "chain (view (buddy_offset b) m) (heads b ! k) (fls ! k)" using assms(1) k by (simp add: brel_def)
  qed
qed

lemma buddy_avail_eq:
  assumes "brel cfg vn U b m fls"
  shows "buddy_avail cfg vn U (b, m) = avail_set cfg fls"
proof (intro equalityI subsetI)
  fix x assume "x \<in> buddy_avail cfg vn U (b, m)"
  then obtain fls' where "brel cfg vn U b m fls'" "x \<in> avail_set cfg fls'" by (auto simp: buddy_avail_def)
  then show "x \<in> avail_set cfg fls" using brel_unique [OF assms] by metis
next
  fix x assume "x \<in> avail_set cfg fls"
  then show "x \<in> buddy_avail cfg vn U (b, m)" using assms by (auto simp: buddy_avail_def)
qed

interpretation bd: region_allocator "buddy_inv cfg vn U" "buddy_avail cfg vn U" "take_block cfg vn"
  "give_block cfg vn" "buddy_client cfg vn U" "\<lambda>_ _. True" "blk cfg" "\<lambda>_. block_ok cfg U"
  for cfg vn U
proof (unfold_locales, goal_cases)
  case (1 s q r s')
  obtain b m where s: "s = (b, m)" by fastforce
  obtain fls where f: "brel cfg vn U b m fls" "no_buddies cfg fls" using 1(1) s by (auto simp: buddy_inv_def)
  obtain res b' m' fls' where a: "buddy_alloc cfg vn b m q = Some (res, b', m')"
    "bstep cfg vn U (avail_set cfg fls) b m b' m' fls'"
    "case res of
        None \<Rightarrow> b' = b \<and> m' = m \<and> fls' = fls \<and> (\<forall>k. q \<le> k \<longrightarrow> k < ORDER_COUNT cfg \<longrightarrow> fls ! k = [])
      | Some a \<Rightarrow> block_ok cfg U (a, q) \<and> blk cfg (a, q) \<subseteq> avail_set cfg fls
          \<and> avail_set cfg fls' = avail_set cfg fls - blk cfg (a, q)"
    "no_buddies cfg fls'"
    using buddy_alloc_step [OF f(1), of q] f(2) by blast
  obtain x where x: "res = Some x" using 1(3) a(1) s by (cases res) (auto simp: take_block_def)
  have rs: "r = (x, q)" "s' = (b', m')" using 1(3) a(1) x s by (auto simp: take_block_def)
  have br: "brel cfg vn U b' m' fls'" using a(2) by (simp add: bstep_def)
  then have "buddy_inv cfg vn U s'" using a(4) rs by (auto simp: buddy_inv_def)
  then show ?case using a(3) x rs s buddy_avail_eq [OF f(1)] buddy_avail_eq [OF br] by simp
next
  case (3 s r)
  obtain b m a k where s: "s = (b, m)" "r = (a, k)" by fastforce
  obtain fls where f: "brel cfg vn U b m fls" "no_buddies cfg fls" using 3(1) s by (auto simp: buddy_inv_def)
  have "blk cfg (a, k) \<inter> avail_set cfg fls = {}" using 3(3) s buddy_avail_eq [OF f(1)] by simp
  then obtain b' m' fls' where q: "free_with cfg vn (\<lambda>_ _. True) b m a k = Some (b', m')"
    "bstep cfg vn U (avail_set cfg fls \<union> blk cfg (a, k)) b m b' m' fls'"
    "avail_set cfg fls' = avail_set cfg fls \<union> blk cfg (a, k)" "no_buddies cfg fls'"
    using free_with_step [OF f(1), of a k "\<lambda>_ _. True"] 3(2) s f(2) by auto
  have br: "brel cfg vn U b' m' fls'" using q(2) by (simp add: bstep_def)
  then have "buddy_inv cfg vn U (b', m')" using q(4) by (auto simp: buddy_inv_def)
  then show ?case
    using q(1,3) s buddy_avail_eq [OF f(1)] buddy_avail_eq [OF br]
    by (simp add: give_block_def buddy_free_def)
next
  case (5 s s')
  obtain b m m' where s: "s = (b, m)" "s' = (b, m')" using 5(2) by (cases s, cases s') (auto simp: buddy_client_def)
  obtain fls where f: "brel cfg vn U b m fls" "no_buddies cfg fls" using 5(1) s by (auto simp: buddy_inv_def)
  have "brel cfg vn U b m' fls"
    using brel_same_on [OF f(1)] 5(2) s buddy_avail_eq [OF f(1)] by (simp add: buddy_client_def)
  then show ?case using f buddy_avail_eq s by (auto simp: buddy_inv_def)
qed auto

section \<open>Allocation and the heap\<close>

lemma alloc_range_spec:
  assumes "page_inv cfg vn U (b, m)" "cnt \<noteq> 0"
  shows "\<exists>res b' m'. alloc_range cfg vn b m cnt = Some (res, b', m') \<and> page_inv cfg vn U (b', m')
    \<and> same_on (- page_avail cfg vn U (b, m)) (view (buddy_offset b) m) (view (buddy_offset b) m')
    \<and> (case res of
        None \<Rightarrow> b' = b \<and> m' = m \<and> (\<forall>k. count_order cnt \<le> k \<longrightarrow> k < ORDER_COUNT cfg \<longrightarrow> heads b ! k = 0)
      | Some a \<Rightarrow> unit_size cfg dvd unat a \<and> (is_power_of_two cnt \<longrightarrow> unat cnt * unit_size cfg dvd unat a)
          \<and> units cfg a cnt \<subseteq> page_avail cfg vn U (b, m)
          \<and> page_avail cfg vn U (b', m') \<subseteq> page_avail cfg vn U (b, m) - units cfg a cnt)"
proof -
  obtain fls rls where p: "prel cfg vn U b m fls rls" using assms(1) by (auto simp: page_inv_def)
  note av = page_avail_eq [OF p]
  obtain out b' m' where a: "alloc_range cfg vn b m cnt = Some (outcome_addr out, b', m')"
    "page_step cfg vn U b m fls rls cnt out b' m'"
    "\<forall>a. out = Ranged a \<longrightarrow> HAS_SLAB cfg \<and> \<not> is_power_of_two cnt"
    using alloc_range_step [OF p assms(2)] by blast
  obtain fls' rls' where s: "prel cfg vn U b' m' fls' rls'"
    "same_on (- free_mem cfg b fls rls) (view (buddy_offset b) m) (view (buddy_offset b) m')"
    and o: "case out of
          Failed \<Rightarrow> b' = b \<and> m' = m \<and> (\<forall>k. count_order cnt \<le> k \<longrightarrow> k < ORDER_COUNT cfg \<longrightarrow> fls ! k = [])
        | Ranged a \<Rightarrow> unit_size cfg dvd unat a \<and> units cfg a cnt \<subseteq> free_mem cfg b fls rls
            \<and> free_mem cfg b' fls' rls' = free_mem cfg b fls rls - units cfg a cnt
        | Blocked a \<Rightarrow> block_ok cfg U (a, count_order cnt)
            \<and> blk cfg (a, count_order cnt) \<subseteq> free_mem cfg b fls rls
            \<and> free_mem cfg b' fls' rls' = free_mem cfg b fls rls - blk cfg (a, count_order cnt)"
    using a(2) unfolding page_step_def by (cases out) auto
  note av' = page_avail_eq [OF s(1)]
  have inv: "page_inv cfg vn U (b', m')" using s(1) by (auto simp: page_inv_def)
  have "case outcome_addr out of
        None \<Rightarrow> b' = b \<and> m' = m \<and> (\<forall>k. count_order cnt \<le> k \<longrightarrow> k < ORDER_COUNT cfg \<longrightarrow> heads b ! k = 0)
      | Some a \<Rightarrow> unit_size cfg dvd unat a \<and> (is_power_of_two cnt \<longrightarrow> unat cnt * unit_size cfg dvd unat a)
          \<and> units cfg a cnt \<subseteq> free_mem cfg b fls rls
          \<and> free_mem cfg b' fls' rls' \<subseteq> free_mem cfg b fls rls - units cfg a cnt"
  proof (cases out)
    case Failed
    have "heads b ! k = 0" if "count_order cnt \<le> k" "k < ORDER_COUNT cfg" for k
    proof -
      have "fls ! k = []" using o Failed that by simp
      moreover have "chain (view (buddy_offset b) m) (heads b ! k) (fls ! k)"
        using p that by (simp add: prel_def brel_def)
      ultimately show ?thesis by simp
    qed
    then show ?thesis using o Failed by simp
  next
    case (Ranged x)
    then show ?thesis using o a(3) by simp
  next
    case (Blocked x)
    let ?k = "count_order cnt"
    have x: "block_ok cfg U (x, ?k)" "blk cfg (x, ?k) \<subseteq> free_mem cfg b fls rls"
      "free_mem cfg b' fls' rls' = free_mem cfg b fls rls - blk cfg (x, ?k)"
      using o Blocked by auto
    have z: "bsz cfg ?k = 2 ^ ?k * unit_size cfg" by (simp add: bsz_def power_add)
    have "unat cnt \<le> 2 ^ ?k" unfolding count_order_ceil by (rule ceil_log_upper)
    then have "units cfg x cnt \<subseteq> blk cfg (x, ?k)" by (auto simp: units_def blk_def z intro: less_le_trans)
    moreover have al: "bsz cfg ?k dvd unat x" using x(1) by (simp add: block_ok_def)
    then have "unit_size cfg dvd unat x" using z by (metis dvd_mult_right)
    moreover have "unat cnt * unit_size cfg dvd unat x" if pw: "is_power_of_two cnt"
    proof -
      obtain j where "unat cnt = 2 ^ j" using pw by (auto simp: is_power_of_two_iff)
      then show ?thesis using al z by (simp add: count_order_ceil)
    qed
    ultimately show ?thesis using x Blocked by auto
  qed
  note out = this [folded av av']
  show ?thesis
    by (rule exI [of _ "outcome_addr out"], rule exI [of _ b'], rule exI [of _ m'])
       (use a(1) inv s(2) av out in simp)
qed

lemma heap_unit [simp]: "unit_size heap_cfg = 16"
  by (simp add: bsz_def heap_cfg_def)

text \<open>The count for a layout covers its size, and is a power of two that is a multiple of the
  alignment wherever the alignment exceeds the unit.\<close>

lemma layout_to_size_spec:
  assumes al: "unat (l_align l) = 2 ^ j" and sz: "unat (l_size l) \<le> 2 ^ 62" "j \<le> 62"
  shows "layout_to_size l \<noteq> 0" and "unat (l_size l) \<le> unat (layout_to_size l) * 16"
    and "j \<le> 4 \<or> is_power_of_two (layout_to_size l) \<and> 2 ^ j dvd unat (layout_to_size l) * 16"
proof -
  define au un where "au = div_ceil (l_align l) 16" and "un = div_ceil (max (l_size l) 16) 16"
  have a: "unat au = (2 ^ j + 15) div 16" by (simp add: au_def unat_div_ceil al)
  have mx: "unat (max (l_size l) 16) = max (unat (l_size l)) 16"
    by (simp add: max_def word_le_nat_alt)
  have u: "unat un = (max (unat (l_size l)) 16 + 15) div 16"
    by (simp add: un_def unat_div_ceil mx)
  then have u1: "1 \<le> unat un" and us: "unat (l_size l) \<le> unat un * 16" by simp_all
  have ub: "unat un \<le> 2 ^ 62" using u sz(1) by simp
  have "layout_to_size l \<noteq> 0 \<and> unat (l_size l) \<le> unat (layout_to_size l) * 16
    \<and> (j \<le> 4 \<or> is_power_of_two (layout_to_size l) \<and> 2 ^ j dvd unat (layout_to_size l) * 16)"
  proof (cases "j \<le> 4")
    case True
    then have "(2::nat) ^ j \<le> 2 ^ 4" by (rule power_increasing) simp
    moreover have "(1::nat) \<le> 2 ^ j" by simp
    moreover have "(x + 15) div 16 = 1" if "1 \<le> x" "x \<le> 16" for x :: nat using that by presburger
    ultimately have "unat au = 1" using a by simp
    then have "au = 1" by (simp add: word_eq_unat)
    then have "layout_to_size l = un" by (simp add: layout_to_size_def au_def un_def)
    then show ?thesis using True u1 us by (auto simp: unat_eq_0 [symmetric])
  next
    case False
    then obtain i where i: "j = i + 5" using nat_le_iff_add [of 5 j] by (auto simp: ac_simps)
    have ai: "unat au = 2 ^ (i + 1)" using a i by (simp add: power_add)
    then have "au \<noteq> 1" by (auto simp: word_eq_unat)
    let ?M = "max un au"
    have M: "unat ?M = max (unat un) (unat au)" by (simp add: max_def word_le_nat_alt)
    let ?c = "ceil_log (unat ?M)"
    have "(2::nat) ^ (i + 1) \<le> 2 ^ 62" using sz(2) i by (intro power_increasing) simp_all
    then have "?c \<le> 62" using ub ai M by (intro ceil_log_least) simp
    then have np: "unat (next_power_of_two ?M) = 2 ^ ?c" by (intro next_power_of_two_ceil) simp
    have l: "layout_to_size l = next_power_of_two ?M"
      using \<open>au \<noteq> 1\<close> by (simp add: layout_to_size_def au_def un_def Let_def)
    have Mc: "unat ?M \<le> 2 ^ ?c" by (rule ceil_log_upper)
    have "(2::nat) ^ (i + 1) \<le> 2 ^ ?c" using Mc M ai by simp
    then have "i + 1 \<le> ?c" by (simp only: power_increasing_iff)
    then have "(2::nat) ^ (i + 1 + 4) dvd 2 ^ (?c + 4)" by (intro le_imp_power_dvd) simp
    then have "2 ^ j dvd unat (layout_to_size l) * 16" using i np l by (simp add: power_add)
    moreover have "is_power_of_two (layout_to_size l)" using np l by (auto simp: is_power_of_two_iff)
    moreover have "unat (l_size l) \<le> 2 ^ ?c * 16" using us Mc M by linarith
    ultimately show ?thesis using np l by (auto simp: unat_eq_0 [symmetric])
  qed
  then show "layout_to_size l \<noteq> 0" "unat (l_size l) \<le> unat (layout_to_size l) * 16"
    "j \<le> 4 \<or> is_power_of_two (layout_to_size l) \<and> 2 ^ j dvd unat (layout_to_size l) * 16"
    by blast+
qed

section \<open>Properties\<close>

text \<open>C9. In every history of block allocations and releases, with the holders of blocks writing to
  them in between, the buddy allocator keeps its free lists intact, hands out only aligned blocks
  that overlap neither each other nor the free memory, loses no memory, and never leaves a block
  and its buddy both free: merging is complete.\<close>

theorem buddy_run_merged:
  assumes "alloc_run (take_block cfg vn) (give_block cfg vn) (buddy_client cfg vn U) (\<lambda>_ _. True) s0 s live"
    and "buddy_inv cfg vn U s0"
  shows "(\<exists>fls. brel cfg vn U (fst s) (snd s) fls \<and> no_buddies cfg fls)
    \<and> (\<forall>r \<in> set live. block_ok cfg U r)
    \<and> sorted_wrt (\<lambda>r r'. blk cfg r \<inter> blk cfg r' = {}) live
    \<and> (\<Union>r \<in> set live. blk cfg r) \<inter> buddy_avail cfg vn U s = {}
    \<and> buddy_avail cfg vn U s \<union> (\<Union>r \<in> set live. blk cfg r) = buddy_avail cfg vn U s0"
  using bd.run_conserves [OF assms] by (simp add: bd.disjoint_regions_def buddy_inv_def)

text \<open>An allocator that manages one block, for the witnesses.\<close>

definition one_block :: "buddy_cfg \<Rightarrow> u64 \<Rightarrow> nat \<Rightarrow> buddy" where
  "one_block cfg a k = (buddy_new cfg)\<lparr>heads := (replicate (ORDER_COUNT cfg) 0)[k := a]\<rparr>"

abbreviation one_list :: "buddy_cfg \<Rightarrow> u64 \<Rightarrow> nat \<Rightarrow> u64 list list" where
  "one_list cfg a k \<equiv> (replicate (ORDER_COUNT cfg) [])[k := [a]]"

lemma one_block_brel:
  assumes c: "cfg_ok cfg" and a: "bsz cfg k dvd unat a" "k < ORDER_COUNT cfg" "a \<noteq> 0"
    "unat a + bsz cfg k < 2 ^ 64"
  shows "brel cfg Some (blk cfg (a, k)) (one_block cfg a k) (\<lambda>_. 0) (one_list cfg a k)"
    and "no_buddies cfg (one_list cfg a k)" and "avail_set cfg (one_list cfg a k) = blk cfg (a, k)"
proof -
  let ?U = "blk cfg (a, k)"
  have fb: "free_blocks (one_list cfg a k) = {(a, k)}"
    using a(2) by (auto simp: free_blocks_def nth_list_update split: if_splits)
  have un: "universe Some 0 ?U" using a(3,4) by (auto simp: universe_def blk_def word_eq_unat)
  have ok: "lists_ok cfg ?U (one_list cfg a k)"
    using a(1,2) by (auto simp: lists_ok_def fb block_ok_def nth_list_update)
  have z: "rd64 (\<lambda>_. 0) p = 0" for p
    by (simp add: rd64_def rd_bytes_def le_word_def eval_nat_numeral)
  have off: "buddy_offset (one_block cfg a k) = 0" by (simp add: one_block_def buddy_new_def)
  have "chain (\<lambda>_. 0) (heads (one_block cfg a k) ! j) (one_list cfg a k ! j)" if "j < ORDER_COUNT cfg" for j
    using that a(2,3) z by (cases "j = k") (simp_all add: one_block_def)
  then show "brel cfg Some ?U (one_block cfg a k) (\<lambda>_. 0) (one_list cfg a k)"
    using c un ok off by (simp add: brel_def) (simp add: one_block_def)
  have "buddy_of cfg a k \<noteq> a" if "Suc k < ORDER_COUNT cfg"
    using buddy_cases(4) [OF c, of k a] a(1) that blk_start [of a cfg k]
    by (auto simp del: blk_start)
  then show "no_buddies cfg (one_list cfg a k)" by (auto simp: no_buddies_def fb)
  show "avail_set cfg (one_list cfg a k) = ?U" by (simp add: avail_set_def fb)
qed

theorem buddy_run_merged_witness:
  "\<exists>r s. alloc_run (take_block frame_cfg Some) (give_block frame_cfg Some)
       (buddy_client frame_cfg Some (blk frame_cfg (0x100000, 4))) (\<lambda>_ _. True)
       (one_block frame_cfg 0x100000 4, \<lambda>_. 0) s [r]
     \<and> (\<exists>fls. brel frame_cfg Some (blk frame_cfg (0x100000, 4)) (fst s) (snd s) fls \<and> no_buddies frame_cfg fls)"
proof -
  let ?U = "blk frame_cfg (0x100000, 4)" and ?s = "(one_block frame_cfg 0x100000 4, (\<lambda>_. 0) :: mem)"
  have d: "bsz frame_cfg 4 = 0x10000" by (simp add: bsz_def frame_cfg_def)
  have oc: "ORDER_COUNT frame_cfg = 19" by (simp add: frame_cfg_def)
  note o = one_block_brel [OF frame_cfg_ok, of 4 "0x100000"]
  have i: "buddy_inv frame_cfg Some ?U ?s" using o d oc by (auto simp: buddy_inv_def)
  obtain res b' m' where a: "buddy_alloc frame_cfg Some (one_block frame_cfg 0x100000 4) (\<lambda>_. 0) 2 = Some (res, b', m')"
    and n: "res = None \<longrightarrow> (\<forall>k. 2 \<le> k \<longrightarrow> k < ORDER_COUNT frame_cfg \<longrightarrow> one_list frame_cfg 0x100000 4 ! k = [])"
    using buddy_alloc_step [OF o(1), of 2] d oc by (fastforce split: option.splits)
  have "res \<noteq> None"
  proof
    assume "res = None"
    with n have "2 \<le> (4 :: nat) \<longrightarrow> 4 < ORDER_COUNT frame_cfg \<longrightarrow>
      one_list frame_cfg 0x100000 4 ! 4 = []" by blast
    then show False by (simp add: frame_cfg_def)
  qed
  then obtain x where "res = Some x" by auto
  then have "take_block frame_cfg Some ?s 2 = Some ((x, 2), b', m')" using a by (simp add: take_block_def)
  then have run: "alloc_run (take_block frame_cfg Some) (give_block frame_cfg Some)
       (buddy_client frame_cfg Some ?U) (\<lambda>_ _. True) ?s (b', m') [(x, 2)]"
    by (intro run_single [where q = 2]) simp_all
  note merged = conjunct1 [OF buddy_run_merged [OF run i]]
  show ?thesis by (rule exI, rule exI, rule conjI, rule run, rule merged)
qed

text \<open>C8. \<^verbatim>\<open>alloc_range\<close> returns for every non-zero count. On success the pages are aligned to the unit,
  and to the whole size if the count is a power of two; all of them were free, and none of them is
  free any more. It fails only if every free list of a large enough order is empty, and then changes
  nothing. It writes to free memory only.\<close>

theorem alloc_range_correct:
  assumes "page_inv cfg vn U (b, m)" "cnt \<noteq> 0"
  shows "\<exists>res b' m'. alloc_range cfg vn b m cnt = Some (res, b', m') \<and> page_inv cfg vn U (b', m')
    \<and> same_on (- page_avail cfg vn U (b, m)) (view (buddy_offset b) m) (view (buddy_offset b) m')
    \<and> (case res of
        None \<Rightarrow> b' = b \<and> m' = m \<and> (\<forall>k. count_order cnt \<le> k \<longrightarrow> k < ORDER_COUNT cfg \<longrightarrow> heads b ! k = 0)
      | Some a \<Rightarrow> unit_size cfg dvd unat a \<and> (is_power_of_two cnt \<longrightarrow> unat cnt * unit_size cfg dvd unat a)
          \<and> units cfg a cnt \<subseteq> page_avail cfg vn U (b, m)
          \<and> page_avail cfg vn U (b', m') \<subseteq> page_avail cfg vn U (b, m) - units cfg a cnt)"
  by (rule alloc_range_spec [OF assms])

lemma one_block_page:
  assumes c: "cfg_ok cfg" and a: "bsz cfg k dvd unat a" "k < ORDER_COUNT cfg" "a \<noteq> 0"
    "unat a + bsz cfg k < 2 ^ 64"
  shows "page_inv cfg Some (blk cfg (a, k)) (one_block cfg a k, \<lambda>_. 0)"
    and "page_avail cfg Some (blk cfg (a, k)) (one_block cfg a k, \<lambda>_. 0) = blk cfg (a, k)"
proof -
  let ?U = "blk cfg (a, k)" and ?b = "one_block cfg a k" and ?rls = "replicate (SLAB_BLOCKS cfg) []"
  note o = one_block_brel [OF assms]
  have sl: "slots (slab ?b) = {}" by (simp add: slots_def one_block_def buddy_new_def slab_new_def)
  have un: "universe Some (buddy_offset ?b) ?U" using o(1) by (simp add: brel_def)
  have "unat (shl64 1 (MIN_ORDER cfg)) = unit_size cfg"
    using unat_block_size [OF c, of 0] a(2) by (simp add: block_size_def)
  then have "srel cfg Some ?U (slab ?b) (\<lambda>_. 0) ?rls"
    using un c sl by (simp add: srel_def) (simp add: one_block_def buddy_new_def slab_new_def)
  then have p: "prel cfg Some ?U ?b (\<lambda>_. 0) (one_list cfg a k) ?rls"
    using o(1) sl by (simp add: prel_def slab_owned_def) (simp add: one_block_def buddy_new_def slab_new_def)
  then show "page_inv cfg Some ?U (?b, \<lambda>_. 0)" by (auto simp: page_inv_def)
  have "free_mem cfg ?b (one_list cfg a k) ?rls = ?U"
    using o(3) sl by (simp add: free_mem_def slab_avail_def)
  then show "page_avail cfg Some ?U (?b, \<lambda>_. 0) = ?U" using page_avail_eq [OF p] by simp
qed

text \<open>One free block of sixteen pages, and a heap of one kilobyte.\<close>

lemma sixteen_pages:
  "page_inv frame_cfg Some (blk frame_cfg (0x100000, 4)) (one_block frame_cfg 0x100000 4, \<lambda>_. 0)"
  "page_avail frame_cfg Some (blk frame_cfg (0x100000, 4)) (one_block frame_cfg 0x100000 4, \<lambda>_. 0)
    = {0x100000 ..< 0x110000}"
proof -
  have d: "bsz frame_cfg 4 = 0x10000" "ORDER_COUNT frame_cfg = 19" by (simp_all add: bsz_def frame_cfg_def)
  note o = one_block_page [OF frame_cfg_ok, of 4 "0x100000"]
  show "page_inv frame_cfg Some (blk frame_cfg (0x100000, 4)) (one_block frame_cfg 0x100000 4, \<lambda>_. 0)"
    using o(1) d by simp
  show "page_avail frame_cfg Some (blk frame_cfg (0x100000, 4)) (one_block frame_cfg 0x100000 4, \<lambda>_. 0)
    = {0x100000 ..< 0x110000}"
    using o(2) d by (simp add: blk_def)
qed

lemma kilobyte_heap:
  "page_inv heap_cfg Some (blk heap_cfg (0x100000, 6)) (one_block heap_cfg 0x100000 6, \<lambda>_. 0)"
  using one_block_page(1) [OF heap_cfg_ok, of 6 "0x100000"] by (simp add: bsz_def heap_cfg_def)

theorem alloc_range_correct_witness:
  "\<exists>res b' m'. alloc_range frame_cfg Some (one_block frame_cfg 0x100000 4) (\<lambda>_. 0) 3 = Some (res, b', m')
     \<and> page_inv frame_cfg Some (blk frame_cfg (0x100000, 4)) (b', m')"
proof -
  have "(3 :: usize) \<noteq> 0" by simp
  from alloc_range_correct [OF sixteen_pages(1) this] show ?thesis by (elim exE conjE) (intro exI conjI)
qed

text \<open>C10. \<^verbatim>\<open>free_range\<close> undoes \<^verbatim>\<open>alloc_range\<close>: pages taken can be given back at once, whichever of slab and
  buddy lists served them, and exactly the memory that was free before is free again.\<close>

theorem alloc_free_range_roundtrip:
  assumes "page_inv cfg vn U s" "cnt \<noteq> 0" "take_pages cfg vn s cnt = Some (r, s')"
  shows "\<exists>s''. give_pages cfg vn s' r = Some s'' \<and> page_inv cfg vn U s''
    \<and> page_avail cfg vn U s'' = page_avail cfg vn U s"
proof -
  have t: "page_inv cfg vn U s'" "page_granted cfg U s' r" "page_region cfg r \<subseteq> page_avail cfg vn U s"
    "page_avail cfg vn U s' = page_avail cfg vn U s - page_region cfg r"
    using take_pages_step(1) [OF assms] by blast+
  then have "page_region cfg r \<inter> page_avail cfg vn U s' = {}" by blast
  then obtain s'' where "give_pages cfg vn s' r = Some s''" "page_inv cfg vn U s''"
    "page_avail cfg vn U s'' = page_avail cfg vn U s' \<union> page_region cfg r"
    using give_pages_step [OF t(1,2)] by blast
  then show ?thesis using t(3,4) by blast
qed

lemma take_pages_some:
  assumes "page_inv cfg vn U (b, m)" "cnt \<noteq> 0" "count_order cnt \<le> k" "k < ORDER_COUNT cfg" "heads b ! k \<noteq> 0"
  shows "\<exists>r s'. take_pages cfg vn (b, m) cnt = Some (r, s')"
proof -
  obtain fls rls where p: "prel cfg vn U b m fls rls" using assms(1) by (auto simp: page_inv_def)
  obtain out b' m' where a: "alloc_range cfg vn b m cnt = Some (outcome_addr out, b', m')"
    "page_step cfg vn U b m fls rls cnt out b' m'" "\<forall>a. out = Ranged a \<longrightarrow> HAS_SLAB cfg"
    using alloc_range_step [OF p assms(2)] by blast
  have "out \<noteq> Failed"
  proof
    assume "out = Failed"
    then have "fls ! k = []" using a(2) assms(3,4) by (auto simp: page_step_def)
    moreover have "chain (view (buddy_offset b) m) (heads b ! k) (fls ! k)"
      using p assms(4) by (simp add: prel_def brel_def)
    ultimately show False using assms(5) by simp
  qed
  then obtain x where x: "outcome_addr out = Some x" by (cases out) auto
  then obtain own where "owns (slab b') x = Some own"
    using page_step_take [OF a(2) x assms(2) a(3)] by blast
  then show ?thesis using a(1) x by (simp add: take_pages_def)
qed

lemma one_block_take:
  "\<exists>r s'. take_pages frame_cfg Some (one_block frame_cfg 0x100000 4, \<lambda>_. 0) 3 = Some (r, s')"
proof (rule take_pages_some [OF sixteen_pages(1), where k = 4])
  have "ceil_log 3 \<le> 4" by (rule ceil_log_least) simp
  then show "count_order 3 \<le> 4" by (simp add: count_order_ceil)
qed (simp_all add: frame_cfg_def one_block_def buddy_new_def)

theorem alloc_free_range_roundtrip_witness:
  "\<exists>r s' s''. take_pages frame_cfg Some (one_block frame_cfg 0x100000 4, \<lambda>_. 0) 3 = Some (r, s')
     \<and> give_pages frame_cfg Some s' r = Some s''
     \<and> page_avail frame_cfg Some (blk frame_cfg (0x100000, 4)) s'' = {0x100000 ..< 0x110000}"
proof -
  obtain r s' where t: "take_pages frame_cfg Some (one_block frame_cfg 0x100000 4, \<lambda>_. 0) 3 = Some (r, s')"
    using one_block_take by blast
  have "(3 :: usize) \<noteq> 0" by simp
  from alloc_free_range_roundtrip [OF sixteen_pages(1) this t] show ?thesis
    using t sixteen_pages(2) by auto
qed

text \<open>C11. Boot fills the frame allocator with exactly the whole pages of the usable memory-map entries,
  writing nowhere else, and the allocator's invariant holds.\<close>

theorem physical_init_correct:
  assumes "mmap_ok usable mmap" "universe vn hhdm (usable_pages usable mmap)"
  shows "\<exists>b m'. physical_init vn usable hhdm m mmap = Some (b, m')
    \<and> page_inv frame_cfg vn (usable_pages usable mmap) (b, m')
    \<and> page_avail frame_cfg vn (usable_pages usable mmap) (b, m') = usable_pages usable mmap
    \<and> same_on (- usable_pages usable mmap) (view hhdm m) (view hhdm m')"
  using physical_init_step [OF assms] by blast

definition demo_mmap :: "memmap_entry list" where
  "demo_mmap = [\<lparr>mm_base = 0, mm_length = 0x1000, mm_type = 1\<rparr>,
     \<lparr>mm_base = 0x1800, mm_length = 0x3000, mm_type = 0\<rparr>]"

lemma demo_mmap_ok: "mmap_ok 0 demo_mmap" "universe Some 0xFFFF800000000000 (usable_pages 0 demo_mmap)"
  "usable_pages 0 demo_mmap = {0x2000 ..< 0x4000}"
proof -
  show u: "usable_pages 0 demo_mmap = {0x2000 ..< 0x4000}"
    by (auto simp: usable_pages_def demo_mmap_def entry_pages_def)
  show "universe Some 0xFFFF800000000000 (usable_pages 0 demo_mmap)" by (simp add: u universe_def)
  show "mmap_ok 0 demo_mmap" by (simp add: mmap_ok_def demo_mmap_def)
qed

theorem physical_init_correct_witness:
  "\<exists>b m'. physical_init Some 0 0xFFFF800000000000 (\<lambda>_. 0) demo_mmap = Some (b, m')
     \<and> page_avail frame_cfg Some (usable_pages 0 demo_mmap) (b, m') = {0x2000 ..< 0x4000}"
  using physical_init_correct [OF demo_mmap_ok(1,2), of "\<lambda>_. 0"] demo_mmap_ok(3) by metis

text \<open>C7. From boot on, in every history of frame allocations and releases of any non-zero count with
  the holders writing to their frames in between: frames that are held never overlap each other or
  the free frames, every usable page is either held or free, and whatever is held can be given
  back.\<close>

theorem frame_histories:
  assumes "mmap_ok usable mmap" "universe vn hhdm (usable_pages usable mmap)"
    and "physical_init vn usable hhdm m mmap = Some s0"
    and "alloc_run (take_pages frame_cfg vn) (give_pages frame_cfg vn)
      (page_client frame_cfg vn (usable_pages usable mmap)) (\<lambda>_ cnt. cnt \<noteq> 0) s0 s live"
  shows "sorted_wrt (\<lambda>r r'. page_region frame_cfg r \<inter> page_region frame_cfg r' = {}) live
    \<and> (\<Union>r \<in> set live. page_region frame_cfg r) \<inter> page_avail frame_cfg vn (usable_pages usable mmap) s = {}
    \<and> page_avail frame_cfg vn (usable_pages usable mmap) s \<union> (\<Union>r \<in> set live. page_region frame_cfg r)
       = usable_pages usable mmap
    \<and> (\<forall>r \<in> set live. \<exists>s'. give_pages frame_cfg vn s r = Some s'
        \<and> page_avail frame_cfg vn (usable_pages usable mmap) s'
          = page_avail frame_cfg vn (usable_pages usable mmap) s \<union> page_region frame_cfg r)"
proof -
  have i: "page_inv frame_cfg vn (usable_pages usable mmap) s0"
    "page_avail frame_cfg vn (usable_pages usable mmap) s0 = usable_pages usable mmap"
    using physical_init_step [OF assms(1,2), of m] assms(3) by auto
  note c = pa.run_conserves [OF assms(4) i(1)]
  have "\<exists>s'. give_pages frame_cfg vn s r = Some s' \<and> page_avail frame_cfg vn (usable_pages usable mmap) s'
      = page_avail frame_cfg vn (usable_pages usable mmap) s \<union> page_region frame_cfg r"
    if r: "r \<in> set live" for r
    using pa.held_release [OF assms(4) i(1) r] by blast
  then show ?thesis using c i(2) unfolding pa.disjoint_regions_def by simp
qed

theorem frame_histories_witness:
  "\<exists>s0 live. physical_init Some 0 0xFFFF800000000000 (\<lambda>_. 0) demo_mmap = Some s0
     \<and> page_avail frame_cfg Some (usable_pages 0 demo_mmap) s0 \<union> (\<Union>r \<in> set live. page_region frame_cfg r)
        = {0x2000 ..< 0x4000}"
proof -
  obtain s0 where s: "physical_init Some 0 0xFFFF800000000000 (\<lambda>_. 0) demo_mmap = Some s0"
    using physical_init_step [OF demo_mmap_ok(1,2), of "\<lambda>_. 0"] by blast
  have "alloc_run (take_pages frame_cfg Some) (give_pages frame_cfg Some)
      (page_client frame_cfg Some (usable_pages 0 demo_mmap)) (\<lambda>_ cnt. cnt \<noteq> 0) s0 s0 []"
    by (rule run_start)
  from frame_histories [OF demo_mmap_ok(1,2) s this] s demo_mmap_ok(3) show ?thesis by metis
qed

text \<open>C12. The heap serves a layout: a pointer other than null is aligned as the layout asks, the whole
  size was free and is not free any more.\<close>

theorem heap_alloc_fits:
  assumes "page_inv heap_cfg vn U (b, m)" "is_power_of_two (l_align l)"
    and "unat (l_size l) \<le> 2 ^ 62" "unat (l_align l) \<le> 2 ^ 62"
  shows "\<exists>p b' m'. heap_alloc vn b m l = Some (p, b', m') \<and> page_inv heap_cfg vn U (b', m')
    \<and> (p \<noteq> 0 \<longrightarrow> unat (l_align l) dvd unat p
        \<and> {unat p ..< unat p + unat (l_size l)} \<subseteq> page_avail heap_cfg vn U (b, m)
        \<and> {unat p ..< unat p + unat (l_size l)} \<inter> page_avail heap_cfg vn U (b', m') = {})"
proof -
  obtain j where j: "unat (l_align l) = 2 ^ j" using assms(2) by (auto simp: is_power_of_two_iff)
  have "(2::nat) ^ j \<le> 2 ^ 62" using assms(4) j by simp
  then have j62: "j \<le> 62" by (simp only: power_increasing_iff)
  note l = layout_to_size_spec [OF j assms(3) j62]
  obtain res b' m' where a: "alloc_range heap_cfg vn b m (layout_to_size l) = Some (res, b', m')"
    "page_inv heap_cfg vn U (b', m')"
    and r: "\<And>a. res = Some a \<Longrightarrow> 16 dvd unat a \<and> (is_power_of_two (layout_to_size l) \<longrightarrow> unat (layout_to_size l) * 16 dvd unat a)
          \<and> units heap_cfg a (layout_to_size l) \<subseteq> page_avail heap_cfg vn U (b, m)
          \<and> page_avail heap_cfg vn U (b', m') \<subseteq> page_avail heap_cfg vn U (b, m) - units heap_cfg a (layout_to_size l)"
    using alloc_range_spec [OF assms(1) l(1)] by (elim exE conjE) (rule that, auto)
  show ?thesis
  proof (cases res)
    case None
    then show ?thesis using a by (simp add: heap_alloc_def)
  next
    case (Some p)
    note q = r [OF Some]
    have "{unat p ..< unat p + unat (l_size l)} \<subseteq> units heap_cfg p (layout_to_size l)"
      using l(2) by (auto simp: units_def)
    moreover have "2 ^ j dvd unat p"
    proof (cases "j \<le> 4")
      case True
      then have "(2::nat) ^ j dvd 2 ^ 4" by (rule le_imp_power_dvd)
      then show ?thesis using q by (auto intro: dvd_trans)
    next
      case False
      then show ?thesis using q l(3) by (auto intro: dvd_trans)
    qed
    ultimately show ?thesis using a Some q j by (simp add: heap_alloc_def) blast
  qed
qed

theorem heap_alloc_fits_witness:
  "\<exists>p b' m'. heap_alloc Some (one_block heap_cfg 0x100000 6) (\<lambda>_. 0) \<lparr>l_size = 40, l_align = 64\<rparr> = Some (p, b', m')
     \<and> (p \<noteq> 0 \<longrightarrow> 64 dvd unat p)"
proof -
  have "is_power_of_two (64 :: usize)" unfolding is_power_of_two_iff by (intro exI [of _ 6]) simp
  then have "\<exists>p b' m'. heap_alloc Some (one_block heap_cfg 0x100000 6) (\<lambda>_. 0) \<lparr>l_size = 40, l_align = 64\<rparr> = Some (p, b', m')
    \<and> page_inv heap_cfg Some (blk heap_cfg (0x100000, 6)) (b', m')
    \<and> (p \<noteq> 0 \<longrightarrow> unat (l_align \<lparr>l_size = 40, l_align = 64\<rparr>) dvd unat p
        \<and> {unat p ..< unat p + unat (l_size \<lparr>l_size = 40, l_align = 64\<rparr>)}
            \<subseteq> page_avail heap_cfg Some (blk heap_cfg (0x100000, 6)) (one_block heap_cfg 0x100000 6, \<lambda>_. 0)
        \<and> {unat p ..< unat p + unat (l_size \<lparr>l_size = 40, l_align = 64\<rparr>)}
            \<inter> page_avail heap_cfg Some (blk heap_cfg (0x100000, 6)) (b', m') = {})"
    by (intro heap_alloc_fits [OF kilobyte_heap]) simp_all
  then show ?thesis by (elim exE conjE) (intro exI conjI, assumption, simp)
qed

end
