(* ===== verification/Effects.thy ===== *)
theory Effects
  imports Prelude
begin

text \<open>
  The results of kernel code with effects: the errors of \<^verbatim>\<open>errors.rs\<close> and of the modules, the
  type of a computation on the state of the machine that may fail or never return, the \<^verbatim>\<open>?\<close>
  operator and \<^verbatim>\<open>for\<close> loops, and a calculus of total correctness for them.
\<close>

section \<open>Errors\<close>

typedecl parse_error \<comment> \<open>\<^verbatim>\<open>elf::ParseError\<close> of the \<^verbatim>\<open>elf\<close> crate\<close>

datatype memory_error = OutOfMemory | InvalidMapping | OutOfBounds

datatype acpi_error =
    RSDPIntegrityFailed | RSDPUnsupportedRevision | XSDTChecksumFailed | SDTChecksumFailed
  | FADTRevisionTooOld | FADTNoResetRegister | FADTUnsupportedResetAddressSpace
  | HPETPeriodZero | MADTNoIoApicFound | MADTEntryLengthZero | IOAPICNotInitialized
  | GSIUnderflow | HPETNotInitialized | LAPICBaseNotMapped | NoX2APIC

datatype pci_error = InvalidMCFGEntry

datatype ps2_error = FloatingController | ControllerTestFailed | KeyboardACKFailed | IRQFail

datatype storage_error = PCIeError | InitFailed | BlockOutOfBounds | CommandFailed | Timeout

datatype gpt_error = GPT_IOError | BadHeader | EntryCRCFailed | BadMBR

datatype fs_error =
    WrongFS | BadSuperblock | IOError | NoSpace | BadFileType | FileNotFound | FileExists
  | BadFilename | IsRoot | BadFlags

datatype loader_error =
    BadClass | BadTarget | BadType | NoSegments | OverlappingSegments | BadSegments
  | ParseError parse_error | Loader_MemoryError memory_error | Loader_IO fs_error

datatype driver_error =
    PS2 ps2_error | PCIe pci_error | Storage storage_error | Gpt gpt_error

datatype kernel_error =
    BadLimineResp | MemoryError memory_error | ACPIError acpi_error | DriverError driver_error
  | FSError fs_error | IDTRegisterError u8 | LoaderError loader_error

definition kernel_error_from_ps2 :: "ps2_error \<Rightarrow> kernel_error" where
  "kernel_error_from_ps2 e = DriverError (PS2 e)"

definition kernel_error_from_pci :: "pci_error \<Rightarrow> kernel_error" where
  "kernel_error_from_pci e = DriverError (PCIe e)"

definition kernel_error_from_storage :: "storage_error \<Rightarrow> kernel_error" where
  "kernel_error_from_storage e = DriverError (Storage e)"

definition kernel_error_from_gpt :: "gpt_error \<Rightarrow> kernel_error" where
  "kernel_error_from_gpt e = DriverError (Gpt e)"

section \<open>Computations\<close>

text \<open>
  A computation on a state \<open>'w\<close> of the machine yields the new state and a value or an error; it
  is \<^term>\<open>None\<close> when it panics or never returns.
\<close>

type_synonym ('w, 'e, 'a) res = "('w \<times> ('e + 'a)) option"

definition ok :: "'a \<Rightarrow> 'w \<Rightarrow> ('w, 'e, 'a) res" where
  "ok x w = Some (w, Inr x)"

definition err :: "'e \<Rightarrow> 'w \<Rightarrow> ('w, 'e, 'a) res" where
  "err e w = Some (w, Inl e)"

text \<open>\<open>ques m f\<close> is \<^verbatim>\<open>m?\<close> followed by the rest \<open>f\<close> of the function.\<close>

definition ques :: "('w, 'e, 'a) res \<Rightarrow> ('a \<Rightarrow> 'w \<Rightarrow> ('w, 'e, 'b) res) \<Rightarrow> ('w, 'e, 'b) res" where
  "ques m f =
     (case m of
        None \<Rightarrow> None
      | Some (w, Inl e) \<Rightarrow> Some (w, Inl e)
      | Some (w, Inr x) \<Rightarrow> f x w)"

definition map_err :: "('e \<Rightarrow> 'f) \<Rightarrow> ('w, 'e, 'a) res \<Rightarrow> ('w, 'f, 'a) res" where
  "map_err g m =
     (case m of
        None \<Rightarrow> None
      | Some (w, Inl e) \<Rightarrow> Some (w, Inl (g e))
      | Some (w, Inr x) \<Rightarrow> Some (w, Inr x))"

definition ok_or :: "'a option \<Rightarrow> 'e \<Rightarrow> 'w \<Rightarrow> ('w, 'e, 'a) res" where
  "ok_or x e w = (case x of None \<Rightarrow> err e w | Some y \<Rightarrow> ok y w)"

definition of_result :: "'e + 'a \<Rightarrow> 'w \<Rightarrow> ('w, 'e, 'a) res" where
  "of_result r w = Some (w, r)"

text \<open>A panicking index or \<^verbatim>\<open>unwrap\<close>.\<close>

definition unwrap :: "'a option \<Rightarrow> 'w \<Rightarrow> ('w, 'e, 'a) res" where
  "unwrap x w = (case x of None \<Rightarrow> None | Some y \<Rightarrow> ok y w)"

text \<open>A \<^verbatim>\<open>for\<close> loop whose body updates the variables \<open>s\<close> and may leave with \<^verbatim>\<open>?\<close>.\<close>

primrec for_each ::
  "('i \<Rightarrow> 's \<Rightarrow> 'w \<Rightarrow> ('w, 'e, 's) res) \<Rightarrow> 'i list \<Rightarrow> 's \<Rightarrow> 'w \<Rightarrow> ('w, 'e, 's) res" where
  "for_each f [] s w = ok s w"
| "for_each f (x # xs) s w = ques (f x s w) (for_each f xs)"

lemma for_each_map: "for_each f (map g xs) s w = for_each (\<lambda>x. f (g x)) xs s w"
  by (induction xs arbitrary: s w) (simp_all add: ques_def split: option.splits sum.splits)

lemma for_each_cong:
  "(\<And>x s w. x \<in> set xs \<Longrightarrow> f x s w = g x s w) \<Longrightarrow> for_each f xs s w = for_each g xs s w"
  by (induction xs arbitrary: s w) (simp_all add: ques_def split: option.splits sum.splits)

text \<open>The ranges \<^verbatim>\<open>a..b\<close> and \<^verbatim>\<open>a..=b\<close>.\<close>

definition upto_excl :: "'a::len word \<Rightarrow> 'a word \<Rightarrow> 'a word list" where
  "upto_excl a b = map word_of_nat [unat a..<unat b]"

definition upto_incl :: "'a::len word \<Rightarrow> 'a word \<Rightarrow> 'a word list" where
  "upto_incl a b = map word_of_nat [unat a..<Suc (unat b)]"

lemma ques_simps [simp]:
  "ques None f = None"
  "ques (ok x w) f = f x w"
  "ques (err e w) f = err e w"
  "ques (Some (w, Inr x)) f = f x w"
  "ques (Some (w, Inl e)) f = Some (w, Inl e)"
  by (simp_all add: ques_def ok_def err_def)

lemma ques_assoc: "ques (ques m f) g = ques m (\<lambda>x w. ques (f x w) g)"
  by (auto simp: ques_def split: option.splits sum.splits)

lemma ques_mono [partial_function_mono]:
  fixes C :: "'a \<Rightarrow> 'w \<Rightarrow> _ \<Rightarrow> ('w, 'e, 'b) res"
  assumes "mono_option B" and "\<And>y w. mono_option (\<lambda>f. C y w f)"
  shows "mono_option (\<lambda>f. ques (B f) (\<lambda>y w. C y w f))"
proof -
  have "ques m g = Option.bind m (\<lambda>p. case snd p of Inl e \<Rightarrow> Some (fst p, Inl e) | Inr x \<Rightarrow> g x (fst p))"
    for m :: "('w, 'e, 'a) res" and g :: "'a \<Rightarrow> 'w \<Rightarrow> ('w, 'e, 'b) res"
    by (auto simp: ques_def split: option.splits sum.splits)
  moreover have "mono_option (\<lambda>f. Option.bind (B f)
      (\<lambda>p. case snd p of Inl e \<Rightarrow> Some (fst p, Inl e) | Inr x \<Rightarrow> C x (fst p) f))"
  proof (rule bind_mono [OF assms(1)])
    fix p :: "'w \<times> ('e + 'a)"
    show "mono_option (\<lambda>f. case snd p of Inl e \<Rightarrow> Some (fst p, Inl e) | Inr x \<Rightarrow> C x (fst p) f)"
      by (cases "snd p") (simp_all add: assms(2) option.const_mono)
  qed
  ultimately show ?thesis by simp
qed

section \<open>Total correctness\<close>

text \<open>
  \<open>sat m Q E\<close>: the computation \<open>m\<close> returns, with a value and a state in \<open>Q\<close> or with an error
  and a state in \<open>E\<close>.
\<close>

definition sat :: "('w, 'e, 'a) res \<Rightarrow> ('a \<Rightarrow> 'w \<Rightarrow> bool) \<Rightarrow> ('e \<Rightarrow> 'w \<Rightarrow> bool) \<Rightarrow> bool" where
  "sat m Q E =
     (case m of None \<Rightarrow> False | Some (w, Inl e) \<Rightarrow> E e w | Some (w, Inr x) \<Rightarrow> Q x w)"

named_theorems sat_rules \<open>rules of the calculus\<close>

lemma sat_ok [simp]: "sat (ok x w) Q E = Q x w"
  and sat_err [simp]: "sat (err e w) Q E = E e w"
  and sat_None [simp]: "sat None Q E = False"
  and sat_Inr [simp]: "sat (Some (w, Inr x)) Q E = Q x w"
  and sat_Inl [simp]: "sat (Some (w, Inl e)) Q E = E e w"
  by (simp_all add: sat_def ok_def err_def)

lemma sat_ques [simp]: "sat (ques m f) Q E = sat m (\<lambda>x w. sat (f x w) Q E) E"
  by (auto simp: sat_def ques_def split: option.splits sum.splits)

lemma sat_map_err [simp]: "sat (map_err g m) Q E = sat m Q (\<lambda>e w. E (g e) w)"
  by (auto simp: sat_def map_err_def split: option.splits sum.splits)

lemma sat_ok_or [simp]:
  "sat (ok_or x e w) Q E = (case x of None \<Rightarrow> E e w | Some y \<Rightarrow> Q y w)"
  by (auto simp: ok_or_def split: option.splits)

lemma sat_of_result [simp]:
  "sat (of_result r w) Q E = (case r of Inl e \<Rightarrow> E e w | Inr x \<Rightarrow> Q x w)"
  by (auto simp: of_result_def split: sum.splits)

lemma sat_unwrap [simp]:
  "sat (unwrap x w) Q E = (case x of None \<Rightarrow> False | Some y \<Rightarrow> Q y w)"
  by (auto simp: unwrap_def split: option.splits)

lemma sat_mono:
  assumes "sat m Q E" and "\<And>x w. Q x w \<Longrightarrow> Q' x w" and "\<And>e w. E e w \<Longrightarrow> E' e w"
  shows "sat m Q' E'"
  using assms by (auto simp: sat_def split: option.splits sum.splits)

lemma sat_conj:
  "sat m Q E \<Longrightarrow> sat m Q' E' \<Longrightarrow> sat m (\<lambda>x w. Q x w \<and> Q' x w) (\<lambda>e w. E e w \<and> E' e w)"
  by (auto simp: sat_def split: option.splits sum.splits)

lemma sat_returns: "sat m Q E \<Longrightarrow> m \<noteq> None"
  by (cases m) simp_all

lemma sat_cases:
  assumes "sat m Q E"
  obtains (returned) w x where "m = Some (w, Inr x)" and "Q x w"
  | (failed) w e where "m = Some (w, Inl e)" and "E e w"
proof (cases m)
  case None
  with assms show ?thesis by simp
next
  case (Some p)
  then obtain w r where "m = Some (w, r)" by (cases p) simp
  with assms that show ?thesis by (cases r) simp_all
qed

lemma sat_Some:
  assumes "sat m Q (\<lambda>e w. False)"
  obtains w x where "m = Some (w, Inr x)" and "Q x w"
  by (rule sat_cases [OF assms]) (use that in blast)+

lemma sat_for_each:
  assumes "I 0 s w"
    and step: "\<And>k s w. k < length xs \<Longrightarrow> I k s w \<Longrightarrow> sat (f (xs ! k) s w) (I (Suc k)) E"
    and "\<And>s w. I (length xs) s w \<Longrightarrow> Q s w"
  shows "sat (for_each f xs s w) Q E"
  using assms
proof (induction xs arbitrary: I s w)
  case Nil
  then show ?case by simp
next
  case (Cons x xs)
  have "sat (f x s w) (I (Suc 0)) E" using Cons.prems(2) [of 0 s w] Cons.prems(1) by simp
  moreover have "sat (for_each f xs s' w') Q E" if "I (Suc 0) s' w'" for s' w'
  proof (rule Cons.IH [where I = "\<lambda>k. I (Suc k)"])
    show "I (Suc 0) s' w'" by (rule that)
    show "sat (f (xs ! k) s w) (I (Suc (Suc k))) E" if "k < length xs" "I (Suc k) s w" for k s w
      using Cons.prems(2) [of "Suc k" s w] that by simp
    show "Q s w" if "I (Suc (length xs)) s w" for s w
      using Cons.prems(3) that by simp
  qed
  ultimately show ?case by (auto intro: sat_mono)
qed

lemma upto_excl_nth [simp]:
  "k < length (upto_excl a b) \<Longrightarrow> upto_excl a b ! k = a + word_of_nat k"
  by (simp add: upto_excl_def)

lemma length_upto_excl [simp]: "length (upto_excl a b) = unat b - unat a"
  by (simp add: upto_excl_def)

lemma upto_incl_nth [simp]:
  "k < length (upto_incl a b) \<Longrightarrow> upto_incl a b ! k = a + word_of_nat k"
  by (simp add: upto_incl_def del: upt_Suc)

lemma length_upto_incl [simp]: "length (upto_incl a b) = Suc (unat b) - unat a"
  by (simp add: upto_incl_def del: upt_Suc)

end
