(* ===== verification/Storage.thy ===== *)
theory Storage
  imports Effects Bytes
begin

text \<open>
  Block storage: pages of memory as byte buffers (\<^verbatim>\<open>memory/wrappers.rs\<close>), the drive and its
  partitions (\<^verbatim>\<open>drivers/storage/mod.rs\<close>), and the 512-byte sector device the file systems use
  (\<^verbatim>\<open>fs/lba_abstractor.rs\<close>).

  A \<^verbatim>\<open>dyn StorageDrive\<close> is the record of its operations, on a state \<open>'w\<close> of the machine; the
  frame allocator that \<^verbatim>\<open>PhysPage::new\<close> asks is a field of it. The locale \<open>block_device\<close> states
  what the operations promise in terms of the disk as an array of bytes.
\<close>

section \<open>Pages as buffers\<close>

record phys_page =
  pp_count :: usize
  pp_data :: bytes

definition splice :: "nat \<Rightarrow> 'a list \<Rightarrow> 'a list \<Rightarrow> 'a list" where
  "splice off data xs = take off xs @ data @ drop (off + length data) xs"

definition phys_page_read :: "usize \<Rightarrow> usize \<Rightarrow> phys_page \<Rightarrow> usize \<Rightarrow> bytes option" where
  "phys_page_read sz algn p off =
     (if pp_count p * PAGE_SIZE < off + sz then None
      else if \<not> is_multiple_of off algn then None
      else Some (take (unat sz) (drop (unat off) (pp_data p))))"

definition phys_page_write ::
  "usize \<Rightarrow> phys_page \<Rightarrow> usize \<Rightarrow> bytes \<Rightarrow> memory_error + phys_page" where
  "phys_page_write algn p off data =
     (if pp_count p * PAGE_SIZE < off + word_of_nat (length data) then Inl OutOfBounds
      else if \<not> is_multiple_of off algn then Inl OutOfBounds
      else Inr (p\<lparr>pp_data := splice (unat off) data (pp_data p)\<rparr>))"

section \<open>Drives\<close>

record guid =
  g_time_low :: u32
  g_time_mid :: u16
  g_time_high_ver :: u16
  g_clock_seq :: bytes
  g_node :: bytes

datatype partition_type = Efi | LemonFS | Unknown guid

record partition =
  p_start :: u64
  p_size_blocks :: u64
  p_name :: bytes
  p_type :: partition_type
  p_guid :: guid

record 'w storage_drive =
  sd_block_count :: u64
  sd_block_size :: u64
  sd_read_blocks :: "u64 \<Rightarrow> u64 \<Rightarrow> phys_page \<Rightarrow> 'w \<Rightarrow> ('w, storage_error, phys_page) res"
  sd_write_blocks :: "u64 \<Rightarrow> u64 \<Rightarrow> phys_page \<Rightarrow> 'w \<Rightarrow> ('w, storage_error, unit) res"
  sd_sync :: "'w \<Rightarrow> ('w, storage_error, unit) res"
  sd_alloc_pages :: "usize \<Rightarrow> 'w \<Rightarrow> 'w \<times> bool"

definition phys_page_new ::
  "'w storage_drive \<Rightarrow> usize \<Rightarrow> 'w \<Rightarrow> ('w, memory_error, phys_page) res" where
  "phys_page_new d cnt w =
     (let (w', found) = sd_alloc_pages d cnt w
      in if found
         then ok \<lparr>pp_count = cnt, pp_data = replicate (unat (cnt * PAGE_SIZE)) 0\<rparr> w'
         else err OutOfMemory w')"

text \<open>The default methods of the trait.\<close>

definition read_smart ::
  "'w storage_drive \<Rightarrow> u64 \<Rightarrow> u64 \<Rightarrow> 'w \<Rightarrow> ('w, kernel_error, phys_page) res" where
  "read_smart d start_block cnt w =
     (if sd_block_size d = 0 then None
      else
        let blocks_per_page = div_ceil PAGE_SIZE (sd_block_size d);
            page_count = div_ceil cnt blocks_per_page
        in ques (map_err MemoryError (phys_page_new d page_count w)) (\<lambda>page w.
           map_err kernel_error_from_storage (sd_read_blocks d start_block cnt page w)))"

partial_function (option) zero_blocks_loop ::
  "'w storage_drive \<Rightarrow> phys_page \<Rightarrow> u64 \<Rightarrow> u64 \<Rightarrow> u64 \<Rightarrow> 'w \<Rightarrow> ('w, kernel_error, unit) res" where
  "zero_blocks_loop d page start_block offset rem w =
     (if rem = 0 then ok () w
      else
        let c = min rem (1024 * 1024 * 2 div sd_block_size d)
        in ques (map_err kernel_error_from_storage
                   (sd_write_blocks d (start_block + offset) c page w))
             (\<lambda>_ w. zero_blocks_loop d page start_block (offset + c) (rem - c) w))"

definition zero_blocks ::
  "'w storage_drive \<Rightarrow> u64 \<Rightarrow> u64 \<Rightarrow> 'w \<Rightarrow> ('w, kernel_error, unit) res" where
  "zero_blocks d start_block cnt w =
     (let pages = min (div_ceil (cnt * sd_block_size d) PAGE_SIZE) 512
      in ques (map_err MemoryError (phys_page_new d pages w)) (\<lambda>page w.
         if sd_block_size d = 0 \<and> cnt \<noteq> 0 then None
         else zero_blocks_loop d page start_block 0 cnt w))"

record 'w drive =
  d_inner :: "'w storage_drive"
  d_partitions :: "partition list"

definition find_partition :: "'w drive \<Rightarrow> (partition \<Rightarrow> bool) \<Rightarrow> partition option" where
  "find_partition d f = find f (d_partitions d)"

abbreviation out_of_bounds :: kernel_error where
  "out_of_bounds \<equiv> kernel_error_from_storage BlockOutOfBounds"

abbreviation command_failed :: kernel_error where
  "command_failed \<equiv> kernel_error_from_storage CommandFailed"

definition drive_zero ::
  "'w drive \<Rightarrow> partition \<Rightarrow> u64 \<Rightarrow> u64 \<Rightarrow> 'w \<Rightarrow> ('w, kernel_error, unit) res" where
  "drive_zero d p offset cnt w =
     (if checked_add offset cnt = None then err out_of_bounds w
      else if p_size_blocks p < offset + cnt then err out_of_bounds w
      else ques (ok_or (checked_add (p_start p) offset) out_of_bounds w) (\<lambda>start_block w.
           zero_blocks (d_inner d) start_block cnt w))"

definition drive_read ::
  "'w drive \<Rightarrow> partition \<Rightarrow> u64 \<Rightarrow> u64 \<Rightarrow> 'w \<Rightarrow> ('w, kernel_error, phys_page) res" where
  "drive_read d p offset cnt w =
     (if checked_add offset cnt = None then err out_of_bounds w
      else if p_size_blocks p < offset + cnt then err out_of_bounds w
      else ques (ok_or (checked_add (p_start p) offset) out_of_bounds w) (\<lambda>start_block w.
           read_smart (d_inner d) start_block cnt w))"

definition drive_write ::
  "'w drive \<Rightarrow> partition \<Rightarrow> u64 \<Rightarrow> u64 \<Rightarrow> phys_page \<Rightarrow> 'w \<Rightarrow> ('w, kernel_error, unit) res" where
  "drive_write d p offset cnt src w =
     (if checked_add offset cnt = None then err out_of_bounds w
      else if p_size_blocks p < offset + cnt then err out_of_bounds w
      else if pp_count src * PAGE_SIZE < cnt * sd_block_size (d_inner d) then err command_failed w
      else ques (ok_or (checked_add (p_start p) offset) out_of_bounds w) (\<lambda>start_block w.
           map_err kernel_error_from_storage (sd_write_blocks (d_inner d) start_block cnt src w)))"

definition drive_sync :: "'w drive \<Rightarrow> 'w \<Rightarrow> ('w, kernel_error, unit) res" where
  "drive_sync d w = map_err kernel_error_from_storage (sd_sync (d_inner d) w)"

definition claim_drive :: "'w drive list \<Rightarrow> ('w drive \<Rightarrow> bool) \<Rightarrow> 'w drive option" where
  "claim_drive drives f = find f drives"

section \<open>Sectors of a partition\<close>

record 'w partition_drive =
  pd_drive :: "'w drive"
  pd_partition :: partition

definition sectors_per_block :: "'w partition_drive \<Rightarrow> u64" where
  "sectors_per_block pd = sd_block_size (d_inner (pd_drive pd)) div 512"

definition sector_count :: "'w partition_drive \<Rightarrow> u64" where
  "sector_count pd = p_size_blocks (pd_partition pd) * sectors_per_block pd"

definition copy_sector ::
  "phys_page \<Rightarrow> usize \<Rightarrow> usize \<Rightarrow> phys_page \<Rightarrow> 'w \<Rightarrow> ('w, kernel_error, phys_page) res" where
  "copy_sector src from to dest w =
     ques (ok_or (phys_page_read 512 1 src from) command_failed w) (\<lambda>buf w.
     map_err MemoryError (of_result (phys_page_write 1 dest to buf) w))"

definition read_sectors ::
  "'w partition_drive \<Rightarrow> u64 \<Rightarrow> u64 \<Rightarrow> 'w \<Rightarrow> ('w, kernel_error, phys_page) res" where
  "read_sectors pd start cnt w =
     (if cnt = 0 then err command_failed w
      else
        let bs = sd_block_size (d_inner (pd_drive pd)) in
        if bs = 0 then None
        else
          let native_start = start * 512 div bs;
              native_end = div_ceil ((start + cnt) * 512) bs;
              native_count = native_end - native_start
          in ques (drive_read (pd_drive pd) (pd_partition pd) native_start native_count w)
               (\<lambda>native_pages w.
             ques (map_err MemoryError
                     (phys_page_new (d_inner (pd_drive pd)) (div_ceil (cnt * 512) PAGE_SIZE) w))
               (\<lambda>dest w.
             for_each (\<lambda>i dest w.
                 copy_sector native_pages ((start + i) * 512 - native_start * bs) (i * 512) dest w)
               (upto_excl 0 cnt) dest w)))"

text \<open>One turn of the loop of \<^verbatim>\<open>write_sectors\<close>: fill the native block \<open>i\<close> of the staging pages.\<close>

definition stage_block ::
  "'w partition_drive \<Rightarrow> u64 \<Rightarrow> u64 \<Rightarrow> phys_page \<Rightarrow> u64 \<Rightarrow> u64 \<Rightarrow> phys_page
     \<Rightarrow> 'w \<Rightarrow> ('w, kernel_error, phys_page) res" where
  "stage_block pd start cnt src native_start i staging w =
     (let bs = sd_block_size (d_inner (pd_drive pd));
          sectors_per_block = bs div 512;
          native_block = native_start + i;
          first = native_block * sectors_per_block;
          last = first + sectors_per_block - 1;
          covered_start = max first start;
          covered_end = min last (start + cnt - 1)
      in ques
        (if covered_start \<noteq> first \<or> covered_end \<noteq> last
         then ques (drive_read (pd_drive pd) (pd_partition pd) native_block 1 w) (\<lambda>tmp w.
              for_each (\<lambda>j staging w.
                  copy_sector tmp (j * 512 - native_block * bs) (j * 512 - native_start * bs)
                    staging w)
                (upto_incl first last) staging w)
         else ok staging w)
        (\<lambda>staging w.
           for_each (\<lambda>j staging w.
               copy_sector src ((j - start) * 512) (j * 512 - native_start * bs) staging w)
             (upto_incl covered_start covered_end) staging w))"

definition write_sectors ::
  "'w partition_drive \<Rightarrow> u64 \<Rightarrow> u64 \<Rightarrow> phys_page \<Rightarrow> 'w \<Rightarrow> ('w, kernel_error, unit) res" where
  "write_sectors pd start cnt src w =
     (if cnt = 0 then ok () w
      else
        let bs = sd_block_size (d_inner (pd_drive pd)) in
        if bs = 0 then None
        else
          let native_start = start * 512 div bs;
              native_end = div_ceil ((start + cnt) * 512) bs;
              native_count = native_end - native_start
          in if pp_count src * PAGE_SIZE < cnt * 512 then err command_failed w
             else
               ques (map_err MemoryError (phys_page_new (d_inner (pd_drive pd))
                       (div_ceil (native_count * bs) PAGE_SIZE) w)) (\<lambda>staging w.
               ques (for_each (stage_block pd start cnt src native_start)
                       (upto_excl 0 native_count) staging w) (\<lambda>staging w.
               drive_write (pd_drive pd) (pd_partition pd) native_start native_count staging w)))"

lemma unat_sub_chunk:
  assumes "rem \<noteq> 0" and "m \<noteq> 0"
  shows "unat (rem - min rem m) < unat (rem :: 'a::len word)"
proof -
  have "0 < unat (min rem m)" "unat (min rem m) \<le> unat rem"
    using assms by (auto simp: min_def unat_gt_0 word_le_nat_alt)
  then show ?thesis by (simp add: unat_sub_nowrap)
qed

function zero_sectors_loop ::
  "'w partition_drive \<Rightarrow> phys_page \<Rightarrow> u64 \<Rightarrow> u64 \<Rightarrow> 'w \<Rightarrow> ('w, kernel_error, unit) res" where
  "zero_sectors_loop pd page sector rem w =
     (if rem = 0 then ok () w
      else
        let chunk = min rem 0x1000
        in ques (write_sectors pd sector chunk page w) (\<lambda>_ w.
           zero_sectors_loop pd page (sector + chunk) (rem - chunk) w))"
  by auto
termination
  by (relation "measure (\<lambda>(pd, page, sector, rem, w). unat rem)")
     (auto intro: unat_sub_chunk)

declare zero_sectors_loop.simps [simp del]

definition zero_sectors ::
  "'w partition_drive \<Rightarrow> u64 \<Rightarrow> u64 \<Rightarrow> 'w \<Rightarrow> ('w, kernel_error, unit) res" where
  "zero_sectors pd start cnt w =
     (if cnt = 0 then ok () w
      else
        ques (map_err MemoryError
                (phys_page_new (d_inner (pd_drive pd)) (div_ceil (min cnt 0x1000) 8) w)) (\<lambda>page w.
        zero_sectors_loop pd page start cnt w))"

end
