(* ===== verification/Sectors.thy ===== *)
theory Sectors
  imports Storage
begin

text \<open>
  What the storage layers promise, over the disk as an array of bytes: the contract of a block
  device, and the sector device a partition of it gives (reads, read-modify-write of partly covered
  native blocks, and zeroing).
\<close>

section \<open>Buffers\<close>

definition page_ok :: "phys_page \<Rightarrow> bool" where
  "page_ok p \<longleftrightarrow> length (pp_data p) = unat (pp_count p) * 4096 \<and> unat (pp_count p) < 2 ^ 39"

lemma page_bytes: "page_ok p \<Longrightarrow> unat (pp_count p * PAGE_SIZE) = unat (pp_count p) * 4096"
  by (subst unat_mult_nowrap) (auto simp: page_ok_def)

lemma length_splice [simp]:
  "off + length data \<le> length xs \<Longrightarrow> length (splice off data xs) = length xs"
  by (simp add: splice_def)

lemma splice_nth:
  "off + length data \<le> length xs \<Longrightarrow> i < length xs \<Longrightarrow>
     splice off data xs ! i =
       (if off \<le> i \<and> i < off + length data then data ! (i - off) else xs ! i)"
  by (auto simp: splice_def nth_append min_def)

lemma page_ok_update [simp]:
  "length d = length (pp_data p) \<Longrightarrow> page_ok (p\<lparr>pp_data := d\<rparr>) = page_ok p"
  by (simp add: page_ok_def)

lemma phys_page_read_ok:
  assumes "page_ok p" and "unat off + 512 \<le> length (pp_data p)"
  shows "phys_page_read 512 1 p off = Some (take 512 (drop (unat off) (pp_data p)))"
proof -
  have b: "unat off + 512 < 2 ^ 64" and l: "length (pp_data p) = unat (pp_count p * PAGE_SIZE)"
    using assms unat_bound [of "pp_count p * PAGE_SIZE"]
    by (auto simp: page_bytes page_ok_def)
  then have "unat (off + 512) = unat off + 512" by (subst unat_add_nowrap) auto
  then show ?thesis
    using assms l by (simp add: phys_page_read_def is_multiple_of_def word_less_nat_alt)
qed

lemma phys_page_write_ok:
  assumes "page_ok p" and "unat off + length data \<le> length (pp_data p)"
  shows "phys_page_write 1 p off data = Inr (p\<lparr>pp_data := splice (unat off) data (pp_data p)\<rparr>)"
proof -
  have l: "length (pp_data p) = unat (pp_count p * PAGE_SIZE)"
    using assms by (simp add: page_bytes page_ok_def)
  then have b: "unat off + length data < 2 ^ 64"
    using assms unat_bound [of "pp_count p * PAGE_SIZE"] by simp
  then have "unat (word_of_nat (length data) :: u64) = length data" by (simp add: unat_of_nat)
  with b have "unat (off + word_of_nat (length data)) = unat off + length data"
    by (subst unat_add_nowrap) auto
  then show ?thesis
    using assms l by (simp add: phys_page_write_def is_multiple_of_def word_less_nat_alt)
qed

lemma copy_sector_ok:
  assumes "page_ok src" and "page_ok dest"
    and "unat from + 512 \<le> length (pp_data src)" and "unat to + 512 \<le> length (pp_data dest)"
  shows "copy_sector src from to dest w =
    ok (dest\<lparr>pp_data := splice (unat to) (take 512 (drop (unat from) (pp_data src))) (pp_data dest)\<rparr>) w"
proof -
  have "length (take 512 (drop (unat from) (pp_data src))) = 512" using assms by simp
  with assms show ?thesis
    by (simp add: copy_sector_def phys_page_read_ok ok_or_def phys_page_write_ok of_result_def
          map_err_def ok_def)
qed

lemma splice_splice:
  "length x = n \<Longrightarrow> B + n + length y \<le> length d \<Longrightarrow>
     splice (B + n) y (splice B x d) = splice B (x @ y) d"
  by (simp add: splice_def ac_simps)

lemma splice_nothing: "splice B [] d = d"
  by (simp add: splice_def)

text \<open>A loop that copies consecutive sectors between two buffers.\<close>

lemma copy_loop:
  assumes "page_ok src" and "page_ok dest"
    and "\<And>k. k < length js \<Longrightarrow> unat (from (js ! k)) = A + k * 512"
    and "\<And>k. k < length js \<Longrightarrow> unat (to (js ! k)) = B + k * 512"
    and "A + length js * 512 \<le> length (pp_data src)"
    and "B + length js * 512 \<le> length (pp_data dest)"
  shows "for_each (\<lambda>j. copy_sector src (from j) (to j)) js dest w =
    ok (dest\<lparr>pp_data := splice B (take (length js * 512) (drop A (pp_data src))) (pp_data dest)\<rparr>) w"
  using assms
proof (induction js arbitrary: A B dest)
  case Nil
  then show ?case by (simp add: splice_nothing)
next
  case (Cons j js)
  let ?x = "take 512 (drop A (pp_data src))"
  have fj: "unat (from j) = A" and tj: "unat (to j) = B"
    using Cons.prems(3) [of 0] Cons.prems(4) [of 0] by simp_all
  define d1 where "d1 = dest\<lparr>pp_data := splice B ?x (pp_data dest)\<rparr>"
  have len: "length ?x = 512" using Cons.prems(5) by simp
  then have l1: "length (pp_data d1) = length (pp_data dest)"
    using Cons.prems(6) by (simp add: d1_def)
  have one: "copy_sector src (from j) (to j) dest w = ok d1 w"
    using Cons.prems by (subst copy_sector_ok) (simp_all add: fj tj d1_def)
  have "for_each (\<lambda>j. copy_sector src (from j) (to j)) js d1 w =
    ok (d1\<lparr>pp_data := splice (B + 512) (take (length js * 512) (drop (A + 512) (pp_data src))) (pp_data d1)\<rparr>) w"
  proof (rule Cons.IH)
    show "page_ok d1" using Cons.prems(2) l1 by (simp add: d1_def page_ok_def)
    show "unat (from (js ! k)) = A + 512 + k * 512" "unat (to (js ! k)) = B + 512 + k * 512"
      if "k < length js" for k
      using Cons.prems(3,4) [of "Suc k"] that by simp_all
  qed (use Cons.prems l1 in simp_all)
  also have "\<dots> = ok (dest\<lparr>pp_data := splice B (take (length (j # js) * 512) (drop A (pp_data src))) (pp_data dest)\<rparr>) w"
    using len Cons.prems(5,6)
    by (simp add: d1_def splice_splice take_add ac_simps)
  finally show ?case by (simp add: one)
qed

lemma take_drop_view:
  assumes "take n xs = map f [a..<a + n]" and "i + m \<le> n" and "n \<le> length xs"
  shows "take m (drop i xs) = map f [a + i..<a + i + m]"
proof (rule nth_equalityI)
  show "length (take m (drop i xs)) = length (map f [a + i..<a + i + m])" using assms by simp
next
  fix j assume "j < length (take m (drop i xs))"
  then have j: "j < m" "i + j < n" using assms by auto
  have "take m (drop i xs) ! j = take n xs ! (i + j)" using j assms(3) by simp
  also have "\<dots> = f (a + i + j)" using j assms by (simp add: ac_simps)
  finally show "take m (drop i xs) ! j = map f [a + i..<a + i + m] ! j" using j by simp
qed

section \<open>The contract of a block device\<close>

text \<open>
  \<open>dbyte\<close> reads the disk as an array of bytes; \<open>good\<close> is the invariant of the machine. \<open>fails n\<close>
  says that an operation that needs \<open>n\<close> pages of memory may fail: where it is false the device does
  not fail.
\<close>

locale block_device =
  fixes drv :: "'w storage_drive"
    and dbyte :: "'w \<Rightarrow> nat \<Rightarrow> u8"
    and good :: "'w \<Rightarrow> bool"
    and fails :: "nat \<Rightarrow> bool"
  assumes capacity: "good w \<Longrightarrow>
      unat (sd_block_count drv) * unat (sd_block_size drv) < 2 ^ 64 \<and> sd_block_size drv \<noteq> 0"
    and fails_mono: "good w \<Longrightarrow> fails i \<Longrightarrow> i \<le> j \<Longrightarrow> fails j"
    and alloc_law: "good w \<Longrightarrow> sd_alloc_pages drv n w = (w', found) \<Longrightarrow>
      good w' \<and> dbyte w' = dbyte w \<and> (found \<longrightarrow> unat n < 2 ^ 39) \<and> (\<not> found \<longrightarrow> fails (unat n))"
    and read_law: "good w \<Longrightarrow> page_ok dest \<Longrightarrow>
      unat s + unat c \<le> unat (sd_block_count drv) \<Longrightarrow>
      unat c * unat (sd_block_size drv) \<le> length (pp_data dest) \<Longrightarrow>
      sat (sd_read_blocks drv s c dest w)
        (\<lambda>p w'. good w' \<and> dbyte w' = dbyte w \<and> pp_count p = pp_count dest \<and>
           pp_data p =
             map (dbyte w) [unat s * unat (sd_block_size drv)..<
               (unat s + unat c) * unat (sd_block_size drv)] @
             drop (unat c * unat (sd_block_size drv)) (pp_data dest))
        (\<lambda>e w'. fails 0 \<and> good w' \<and> dbyte w' = dbyte w)"
    and write_law: "good w \<Longrightarrow> page_ok src \<Longrightarrow>
      unat s + unat c \<le> unat (sd_block_count drv) \<Longrightarrow>
      unat c * unat (sd_block_size drv) \<le> length (pp_data src) \<Longrightarrow>
      sat (sd_write_blocks drv s c src w)
        (\<lambda>_ w'. good w' \<and>
           dbyte w' = (\<lambda>a. if unat s * unat (sd_block_size drv) \<le> a \<and>
               a < (unat s + unat c) * unat (sd_block_size drv)
             then pp_data src ! (a - unat s * unat (sd_block_size drv)) else dbyte w a))
        (\<lambda>e w'. fails 0 \<and> good w' \<and>
           (\<forall>a. a < unat s * unat (sd_block_size drv) \<or>
              (unat s + unat c) * unat (sd_block_size drv) \<le> a \<longrightarrow> dbyte w' a = dbyte w a))"
    and sync_law: "good w \<Longrightarrow>
      sat (sd_sync drv w) (\<lambda>_ w'. good w' \<and> dbyte w' = dbyte w)
        (\<lambda>e w'. fails 0 \<and> good w' \<and> dbyte w' = dbyte w)"
begin

lemma page_new_law:
  assumes "good w"
  shows "sat (phys_page_new drv n w)
    (\<lambda>p w'. good w' \<and> dbyte w' = dbyte w \<and> page_ok p \<and> pp_count p = n \<and>
       pp_data p = replicate (unat n * 4096) 0)
    (\<lambda>e w'. fails (unat n) \<and> good w' \<and> dbyte w' = dbyte w)"
proof -
  obtain w' found where a: "sd_alloc_pages drv n w = (w', found)" by force
  note l = alloc_law [OF assms a]
  have "unat (n * PAGE_SIZE) = unat n * 4096" if "unat n < 2 ^ 39"
    using that by (subst unat_mult_nowrap) auto
  with l show ?thesis by (auto simp: phys_page_new_def a page_ok_def)
qed

end

section \<open>A partition as a sector device\<close>

definition block_bytes :: "'w partition_drive \<Rightarrow> nat" where
  "block_bytes pd = unat (sd_block_size (d_inner (pd_drive pd)))"

definition part_byte :: "'w partition_drive \<Rightarrow> ('w \<Rightarrow> nat \<Rightarrow> u8) \<Rightarrow> 'w \<Rightarrow> nat \<Rightarrow> u8" where
  "part_byte pd dbyte w a = dbyte w (unat (p_start (pd_partition pd)) * block_bytes pd + a)"

definition part_sectors :: "'w partition_drive \<Rightarrow> nat" where
  "part_sectors pd = unat (p_size_blocks (pd_partition pd)) * (block_bytes pd div 512)"

text \<open>Nothing outside the partition changes from \<open>w\<close> to \<open>w'\<close>.\<close>

definition part_frame :: "'w partition_drive \<Rightarrow> ('w \<Rightarrow> nat \<Rightarrow> u8) \<Rightarrow> 'w \<Rightarrow> 'w \<Rightarrow> bool" where
  "part_frame pd dbyte w w' \<longleftrightarrow>
     (\<forall>a. a < unat (p_start (pd_partition pd)) * block_bytes pd \<or>
          (unat (p_start (pd_partition pd)) + unat (p_size_blocks (pd_partition pd))) * block_bytes pd \<le> a
        \<longrightarrow> dbyte w' a = dbyte w a)"

lemma part_frame_refl: "dbyte w' = dbyte w \<Longrightarrow> part_frame pd dbyte w w'"
  by (simp add: part_frame_def)

lemma part_frame_trans:
  "part_frame pd dbyte w w' \<Longrightarrow> part_frame pd dbyte w' w'' \<Longrightarrow> part_frame pd dbyte w w''"
  by (auto simp: part_frame_def)

locale partition_device = block_device "d_inner (pd_drive pd)" dbyte good fails
  for pd :: "'w partition_drive" and dbyte :: "'w \<Rightarrow> nat \<Rightarrow> u8"
    and good :: "'w \<Rightarrow> bool" and fails :: "nat \<Rightarrow> bool" +
  assumes block_size_law: "good w \<Longrightarrow> block_bytes pd dvd 4096 \<and> 512 dvd block_bytes pd"
    and partition_law: "good w \<Longrightarrow>
      unat (p_start (pd_partition pd)) + unat (p_size_blocks (pd_partition pd))
        \<le> unat (sd_block_count (d_inner (pd_drive pd)))"
begin

lemma size_facts:
  assumes "good w"
  obtains spb k where "block_bytes pd = 512 * spb" "512 * spb * k = 4096" "0 < spb" "0 < k"
    "(unat (p_start (pd_partition pd)) + unat (p_size_blocks (pd_partition pd))) * (512 * spb) < 2 ^ 64"
    "part_sectors pd = unat (p_size_blocks (pd_partition pd)) * spb"
proof -
  obtain spb where s: "block_bytes pd = 512 * spb" using block_size_law [OF assms] by (auto elim: dvdE)
  obtain k where k: "4096 = block_bytes pd * k" using block_size_law [OF assms] unfolding dvd_def by blast
  have "0 < spb" "0 < k" using s k by (auto intro: Nat.gr0I)
  moreover have le: "(unat (p_start (pd_partition pd)) + unat (p_size_blocks (pd_partition pd))) * (512 * spb)
      \<le> unat (sd_block_count (d_inner (pd_drive pd))) * (512 * spb)"
    by (rule mult_le_mono1) (rule partition_law [OF assms])
  moreover have "(unat (p_start (pd_partition pd)) + unat (p_size_blocks (pd_partition pd))) * (512 * spb)
      < 2 ^ 64"
    using capacity [OF assms] s by (intro le_less_trans [OF le]) (simp add: block_bytes_def)
  ultimately show ?thesis
    using s k by (intro that [of spb k]) (simp_all add: part_sectors_def)
qed

lemma drive_read_law:
  assumes g: "good w" and r: "unat off + unat c \<le> unat (p_size_blocks (pd_partition pd))"
  shows "sat (drive_read (pd_drive pd) (pd_partition pd) off c w)
    (\<lambda>p w'. good w' \<and> dbyte w' = dbyte w \<and> page_ok p \<and>
       unat c * block_bytes pd \<le> length (pp_data p) \<and>
       take (unat c * block_bytes pd) (pp_data p) =
         map (part_byte pd dbyte w) [unat off * block_bytes pd..<(unat off + unat c) * block_bytes pd])
    (\<lambda>e w'. fails (unat c) \<and> good w' \<and> dbyte w' = dbyte w)"
proof -
  let ?d = "d_inner (pd_drive pd)" and ?P = "pd_partition pd"
  obtain spb k where s: "block_bytes pd = 512 * spb" "512 * spb * k = 4096" "0 < spb" "0 < k"
    "(unat (p_start ?P) + unat (p_size_blocks ?P)) * (512 * spb) < 2 ^ 64"
    using size_facts [OF g] by metis
  have bs: "unat (sd_block_size ?d) = 512 * spb" using s(1) by (simp add: block_bytes_def)
  have bs0: "sd_block_size ?d \<noteq> 0" using capacity [OF g] by simp
  have b: "unat (p_start ?P) + unat (p_size_blocks ?P) < 2 ^ 64"
  proof -
    have "unat (p_start ?P) + unat (p_size_blocks ?P)
        \<le> (unat (p_start ?P) + unat (p_size_blocks ?P)) * (512 * spb)" using s(3) by simp
    with s(5) show ?thesis by linarith
  qed
  have ca: "checked_add off c = Some (off + c)" and oc: "unat (off + c) = unat off + unat c"
    using r b by (auto simp: checked_add_def unat_add_nowrap)
  have st: "checked_add (p_start ?P) off = Some (p_start ?P + off)"
    and us: "unat (p_start ?P + off) = unat (p_start ?P) + unat off"
    using r b by (auto simp: checked_add_def unat_add_nowrap)
  define bpp where "bpp = div_ceil PAGE_SIZE (sd_block_size ?d)"
  have bpp: "unat bpp = k"
  proof -
    have "unat bpp = (4096 + 512 * spb - 1) div (512 * spb)"
      unfolding bpp_def by (subst unat_div_ceil [OF bs0]) (simp add: bs)
    also have "\<dots> = (k * (512 * spb) + 512 * spb - 1) div (512 * spb)"
      using s(2) by (simp only: mult.commute [of k])
    also have "\<dots> = k" using s(3) by (intro ceil_div_exact) simp
    finally show ?thesis .
  qed
  then have bpp0: "bpp \<noteq> 0" using s(4) by (metis unat_0 less_irrefl)
  define n where "n = div_ceil c bpp"
  have n: "unat n = (unat c + k - 1) div k" unfolding n_def by (subst unat_div_ceil [OF bpp0]) (simp add: bpp)
  have n1: "unat n \<le> unat c" unfolding n by (rule ceil_div_le [OF s(4)])
  have n2: "unat c * (512 * spb) \<le> unat n * 4096"
  proof -
    have "unat c \<le> unat n * k" unfolding n by (rule ceil_div_covers [OF s(4)])
    then have "unat c * (512 * spb) \<le> unat n * k * (512 * spb)" by simp
    also have "\<dots> = unat n * 4096" using s(2) by (metis mult.assoc mult.commute)
    finally show ?thesis .
  qed
  have rd: "drive_read (pd_drive pd) ?P off c w =
      ques (map_err MemoryError (phys_page_new ?d n w)) (\<lambda>page w.
        map_err kernel_error_from_storage (sd_read_blocks ?d (p_start ?P + off) c page w))"
    using ca st r oc bs0 
    by (simp add: drive_read_def ok_or_def word_less_nat_alt read_smart_def n_def bpp_def Let_def)
  have "sat (sd_read_blocks ?d (p_start ?P + off) c p w1)
      (\<lambda>p w'. good w' \<and> dbyte w' = dbyte w \<and> page_ok p \<and>
         unat c * block_bytes pd \<le> length (pp_data p) \<and>
         take (unat c * block_bytes pd) (pp_data p) =
           map (part_byte pd dbyte w)
             [unat off * block_bytes pd..<(unat off + unat c) * block_bytes pd])
      (\<lambda>e w'. fails (unat c) \<and> good w' \<and> dbyte w' = dbyte w)"
    if p: "good w1" "dbyte w1 = dbyte w" "page_ok p" "pp_count p = n" for p w1
  proof -
    have lp: "length (pp_data p) = unat n * 4096" using p by (simp add: page_ok_def)
    have len: "unat c * unat (sd_block_size ?d) \<le> length (pp_data p)" using n2 lp bs by simp
    have rng: "unat (p_start ?P + off) + unat c \<le> unat (sd_block_count ?d)"
      using partition_law [OF g] r us by simp
    have view: "map (dbyte w1) [unat (p_start ?P + off) * (512 * spb)..<
          (unat (p_start ?P + off) + unat c) * (512 * spb)] =
        map (part_byte pd dbyte w) [unat off * (512 * spb)..<(unat off + unat c) * (512 * spb)]"
      unfolding us by (rule nth_equalityI) (simp_all add: part_byte_def s(1) p(2) algebra_simps)
    show ?thesis
    proof (rule sat_mono [OF read_law [OF p(1,3) rng len]])
      fix q :: phys_page and w'
      assume q: "good w' \<and> dbyte w' = dbyte w1 \<and> pp_count q = pp_count p \<and> pp_data q =
        map (dbyte w1) [unat (p_start ?P + off) * unat (sd_block_size ?d)..<
          (unat (p_start ?P + off) + unat c) * unat (sd_block_size ?d)] @
        drop (unat c * unat (sd_block_size ?d)) (pp_data p)"
      then have d: "pp_data q = map (part_byte pd dbyte w)
          [unat off * (512 * spb)..<(unat off + unat c) * (512 * spb)] @
        drop (unat c * (512 * spb)) (pp_data p)" using view bs by simp
      have "length (pp_data q) = length (pp_data p)"
        using d len bs by (simp add: algebra_simps)
      then show "good w' \<and> dbyte w' = dbyte w \<and> page_ok q \<and>
         unat c * block_bytes pd \<le> length (pp_data q) \<and>
         take (unat c * block_bytes pd) (pp_data q) =
           map (part_byte pd dbyte w)
             [unat off * block_bytes pd..<(unat off + unat c) * block_bytes pd]"
        using q p(2,3) len bs d by (simp add: page_ok_def s(1) algebra_simps)
    next
      fix e w' assume "fails 0 \<and> good w' \<and> dbyte w' = dbyte w1"
      then show "fails (unat c) \<and> good w' \<and> dbyte w' = dbyte w"
        using p(2) fails_mono [OF g, of 0 "unat c"] by simp
    qed
  qed
  moreover have "fails (unat c)" if "fails (unat n)" using fails_mono [OF g that n1] .
  ultimately show ?thesis
    unfolding rd sat_ques sat_map_err
    by (intro sat_mono [OF page_new_law [OF g]]) auto
qed

text \<open>The native blocks that cover the sectors \<open>s..<s + c\<close>.\<close>

lemma native_blocks:
  assumes g: "good w" and c: "0 < unat cnt" and r: "unat start + unat cnt \<le> part_sectors pd"
    and spb: "block_bytes pd = 512 * spb" "0 < spb"
  defines "ns \<equiv> start * 512 div sd_block_size (d_inner (pd_drive pd))"
    and "ne \<equiv> div_ceil ((start + cnt) * 512) (sd_block_size (d_inner (pd_drive pd)))"
  shows "unat ns = unat start div spb"
    and "unat (ne - ns) = (unat start + unat cnt + spb - 1) div spb - unat start div spb"
    and "unat ns * spb \<le> unat start"
    and "unat start + unat cnt \<le> (unat ns + unat (ne - ns)) * spb"
    and "unat ns + unat (ne - ns) \<le> unat (p_size_blocks (pd_partition pd))"
    and "0 < unat (ne - ns)" and "unat (ne - ns) \<le> unat cnt"
    and "unat (start + cnt) = unat start + unat cnt"
    and "unat (start + cnt) * 512 < 2 ^ 64"
    and "unat start < unat ns * spb + spb"
    and "i < unat (ne - ns) \<Longrightarrow> unat ns * spb + i * spb < unat start + unat cnt"
proof -
  let ?s = "unat start" and ?c = "unat cnt" and ?S = "unat (p_size_blocks (pd_partition pd))"
  let ?e = "(?s + ?c + spb - 1) div spb"
  obtain spb' where "block_bytes pd = 512 * spb'" "part_sectors pd = ?S * spb'"
    and B: "(unat (p_start (pd_partition pd)) + ?S) * (512 * spb') < 2 ^ 64"
    using size_facts [OF g] by metis
  then have S: "part_sectors pd = ?S * spb" "?S * spb * 512 < 2 ^ 64"
    using spb by (auto simp: algebra_simps)
  have bs: "unat (sd_block_size (d_inner (pd_drive pd))) = spb * 512"
    using spb by (simp add: block_bytes_def)
  have bs0: "sd_block_size (d_inner (pd_drive pd)) \<noteq> 0" using capacity [OF g] by simp
  have "(?s + ?c) * 512 \<le> ?S * spb * 512" using r S(1) by simp
  with S(2) have sc: "(?s + ?c) * 512 < 2 ^ 64" by linarith
  then show u: "unat (start + cnt) = ?s + ?c" by (subst unat_add_nowrap) auto
  with sc show "unat (start + cnt) * 512 < 2 ^ 64" by simp
  have us: "unat (start * 512) = ?s * 512" using sc by (subst unat_mult_nowrap) auto
  have ue: "unat ((start + cnt) * 512) = (?s + ?c) * 512" using sc u by (subst unat_mult_nowrap) auto
  show ns: "unat ns = ?s div spb" by (simp add: ns_def unat_div us bs)
  have ne: "unat ne = ?e"
  proof -
    have "unat ne = ((?s + ?c) * 512 + spb * 512 - 1) div (spb * 512)"
      unfolding ne_def unat_div_ceil [OF bs0] ue bs by (rule refl)
    also have "\<dots> = ((?s + ?c) * 512 + spb * 512 - 1) div 512 div spb"
      unfolding mult.commute [of spb 512] by (rule div_mult2_eq)
    also have "((?s + ?c) * 512 + spb * 512 - 1) div 512 = ?s + ?c + spb - 1"
    proof -
      have "(?s + ?c) * 512 + spb * 512 - 1 = 511 + (?s + ?c + spb - 1) * 512"
        using spb(2) by (simp add: algebra_simps)
      then show ?thesis by simp
    qed
    finally show ?thesis .
  qed
  have le: "?s + ?c \<le> ?e * spb" by (rule ceil_div_covers [OF spb(2)])
  have lt: "?s div spb < ?e"
  proof (rule ccontr)
    assume "\<not> ?s div spb < ?e"
    then have "?e * spb \<le> ?s div spb * spb" by simp
    also have "\<dots> \<le> ?s" by (rule div_times_less_eq_dividend)
    finally show False using le c by linarith
  qed
  then have sub: "unat (ne - ns) = ?e - ?s div spb" using ns ne by (simp add: unat_sub_nowrap)
  then show "unat (ne - ns) = ?e - ?s div spb" .
  show "unat ns * spb \<le> ?s" unfolding ns by (rule div_times_less_eq_dividend)
  show "?s + ?c \<le> (unat ns + unat (ne - ns)) * spb" using ns sub lt le by simp
  show "unat ns + unat (ne - ns) \<le> ?S"
    using ns sub lt ceil_div_least [OF spb(2), of "?s + ?c" ?S] r S by simp
  show "0 < unat (ne - ns)" using sub lt by simp
  have "(?s + ?c + spb - 1) div spb \<le> (?s div spb + ?c)"
  proof (rule ceil_div_least [OF spb(2)])
    have "?s = ?s div spb * spb + ?s mod spb" by simp
    moreover have "?s mod spb < spb" using spb(2) by simp
    moreover obtain c' where c': "?c = Suc c'" using c gr0_implies_Suc by blast
    moreover have "c' \<le> c' * spb" using spb(2) by simp
    ultimately have "?s + ?c \<le> ?s div spb * spb + (spb + c' * spb)" by linarith
    then show "?s + ?c \<le> (?s div spb + ?c) * spb" by (simp add: c' algebra_simps)
  qed
  then show "unat (ne - ns) \<le> ?c" using sub by simp
  show "?s < unat ns * spb + spb"
    using dividend_less_div_times [OF spb(2), of ?s] by (simp add: ns)
  have "(?e - 1) * spb < ?s + ?c" by (rule ceil_div_tight [OF spb(2)]) (use c in simp)
  moreover have "(unat ns + i) * spb \<le> (?e - 1) * spb" if "i < unat (ne - ns)"
    using that ns sub by (intro mult_le_mono1) simp
  ultimately show "i < unat (ne - ns) \<Longrightarrow> unat ns * spb + i * spb < ?s + ?c"
    by (simp add: add_mult_distrib)
qed

lemma read_sectors_law:
  assumes g: "good w" and c: "0 < unat cnt" and r: "unat start + unat cnt \<le> part_sectors pd"
  shows "sat (read_sectors pd start cnt w)
    (\<lambda>p w'. good w' \<and> dbyte w' = dbyte w \<and> page_ok p \<and>
       unat (pp_count p) = (unat cnt * 512 + 4095) div 4096 \<and>
       pp_data p = map (part_byte pd dbyte w) [unat start * 512..<(unat start + unat cnt) * 512] @
         replicate (unat (pp_count p) * 4096 - unat cnt * 512) 0)
    (\<lambda>e w'. fails (unat cnt) \<and> good w' \<and> dbyte w' = dbyte w)"
    (is "sat _ ?Q ?E")
proof -
  let ?d = "d_inner (pd_drive pd)"
  let ?s = "unat start" and ?c = "unat cnt" and ?pb = "part_byte pd dbyte w"
  obtain spb where spb: "block_bytes pd = 512 * spb" "0 < spb" using size_facts [OF g] by metis
  define ns nc where "ns = start * 512 div sd_block_size ?d"
    and "nc = div_ceil ((start + cnt) * 512) (sd_block_size ?d) - ns"
  note nb = native_blocks [OF g c r spb, folded ns_def, folded nc_def]
  have bs: "unat (sd_block_size ?d) = 512 * spb" using spb by (simp add: block_bytes_def)
  have bs0: "sd_block_size ?d \<noteq> 0" and cnt0: "cnt \<noteq> 0"
    using capacity [OF g] c by auto
  define n where "n = div_ceil (cnt * 512) PAGE_SIZE"
  have c512: "unat (cnt * 512) = ?c * 512"
    using nb(8,9) by (subst unat_mult_nowrap) auto
  have n: "unat n = (?c * 512 + 4095) div 4096"
    unfolding n_def by (subst unat_div_ceil) (simp_all add: c512 PAGE_SIZE_def)
  have nbig: "?c * 512 \<le> unat n * 4096" using ceil_div_covers [of 4096 "?c * 512"] n by simp
  have nle: "unat n \<le> ?c" using ceil_div_least [of 4096 "?c * 512" ?c] n by simp
  have sector_offset: "unat ((start + i) * 512 - ns * sd_block_size ?d) = ?s * 512 - unat ns * (512 * spb) + k * 512"
    if "unat i = k" "k < ?c" for i k
  proof -
    have a: "unat (start + i) = ?s + k"
      using nb(8,9) that by (subst unat_add_nowrap) auto
    have b: "unat ((start + i) * 512) = (?s + k) * 512"
      using nb(8,9) that a by (subst unat_mult_nowrap) auto
    have le: "unat ns * (512 * spb) \<le> ?s * 512" using nb(3) by (simp add: algebra_simps)
    also have "\<dots> < 2 ^ 64" using nb(8,9) by simp
    finally have "unat (ns * sd_block_size ?d) = unat ns * (512 * spb)"
      by (subst unat_mult_nowrap) (simp_all add: bs)
    then show ?thesis using b le by (simp add: unat_sub_nowrap)
  qed
  define f :: "phys_page \<Rightarrow> u64 \<Rightarrow> phys_page \<Rightarrow> 'w \<Rightarrow> ('w, kernel_error, phys_page) res" where
    "f = (\<lambda>native i. copy_sector native ((start + i) * 512 - ns * sd_block_size ?d) (i * 512))"
  have rs: "read_sectors pd start cnt w =
      ques (drive_read (pd_drive pd) (pd_partition pd) ns nc w) (\<lambda>native w.
      ques (map_err MemoryError (phys_page_new ?d n w)) (\<lambda>dest w.
      for_each (f native) (upto_excl 0 cnt) dest w))"
    using bs0 cnt0 by (simp add: read_sectors_def Let_def ns_def nc_def n_def f_def)
  have loop: "sat (for_each (f native) (upto_excl 0 cnt) dest w2) ?Q ?E"
    if p: "page_ok native" "unat nc * (512 * spb) \<le> length (pp_data native)"
      "take (unat nc * (512 * spb)) (pp_data native) =
         map ?pb [unat ns * (512 * spb)..<(unat ns + unat nc) * (512 * spb)]"
      "good w2" "dbyte w2 = dbyte w" "page_ok dest" "pp_count dest = n"
      "pp_data dest = replicate (unat n * 4096) 0" for native dest w2
  proof -
    let ?A = "?s * 512 - unat ns * (512 * spb)"
    have A: "unat ns * (512 * spb) + ?A = ?s * 512" using nb(3) by (simp add: algebra_simps)
    have A2: "?A + ?c * 512 \<le> unat nc * (512 * spb)" using nb(3,4) by (simp add: algebra_simps)
    have A3: "?A + ?c * 512 \<le> length (pp_data native)" using A2 p(2) by (rule le_trans)
    have "for_each (f native) (upto_excl 0 cnt) dest w2 =
        ok (dest\<lparr>pp_data := splice 0 (take (?c * 512) (drop ?A (pp_data native))) (pp_data dest)\<rparr>) w2"
      unfolding f_def
    proof (subst copy_loop [where A = ?A and B = 0])
      fix k assume k: "k < length (upto_excl 0 cnt)"
      show "unat ((start + upto_excl 0 cnt ! k) * 512 - ns * sd_block_size ?d) = ?A + k * 512"
        using sector_offset [of "upto_excl 0 cnt ! k" k] k unat_bound [of cnt]
        by (simp add: unat_of_nat)
      show "unat (upto_excl 0 cnt ! k * 512) = 0 + k * 512"
        using k c512 unat_bound [of "cnt * 512"] unat_bound [of cnt]
        by (subst unat_mult_nowrap) (simp_all add: unat_of_nat)
    qed (use p A3 nbig in simp_all)
    also have "take (?c * 512) (drop ?A (pp_data native)) = map ?pb [?s * 512..<(?s + ?c) * 512]"
      using take_drop_view [of "unat nc * (512 * spb)" "pp_data native" ?pb "unat ns * (512 * spb)" ?A "?c * 512"]
        p(2,3) A A2 by (simp add: algebra_simps)
    finally show ?thesis using p nbig n by (simp add: splice_def page_ok_def)
  qed
  show ?thesis
    unfolding rs sat_ques sat_map_err
    apply (rule sat_mono [OF drive_read_law [OF g nb(5)]])
     apply (elim conjE)
     apply (rule sat_mono [OF page_new_law], assumption)
      apply (elim conjE)
      apply (rule loop; simp add: spb)
     apply (use fails_mono [OF g _ nle] in simp)
    apply (use fails_mono [OF g _ nb(7)] in simp)
    done
qed

lemma stage_block_law:
  fixes i :: u64 and src staging :: phys_page
  assumes g: "good w" and c: "0 < unat cnt" and r: "unat start + unat cnt \<le> part_sectors pd"
    and spb: "block_bytes pd = 512 * spb" "0 < spb"
    and src: "page_ok src" "unat cnt * 512 \<le> length (pp_data src)"
  defines "ns \<equiv> start * 512 div sd_block_size (d_inner (pd_drive pd))"
  defines "nc \<equiv> div_ceil ((start + cnt) * 512) (sd_block_size (d_inner (pd_drive pd))) - ns"
  defines "want \<equiv> \<lambda>x. if unat start * 512 \<le> x \<and> x < (unat start + unat cnt) * 512
      then pp_data src ! (x - unat start * 512) else part_byte pd dbyte w x"
  assumes i: "unat i < unat nc"
    and st: "page_ok staging" "unat nc * (512 * spb) \<le> length (pp_data staging)"
      "\<And>a. a < unat i * spb * 512 \<Longrightarrow> pp_data staging ! a = want (unat ns * spb * 512 + a)"
  shows "sat (stage_block pd start cnt src ns i staging w)
    (\<lambda>p w'. good w' \<and> dbyte w' = dbyte w \<and> page_ok p \<and> pp_count p = pp_count staging \<and>
       (\<forall>a < Suc (unat i) * spb * 512. pp_data p ! a = want (unat ns * spb * 512 + a)))
    (\<lambda>e w'. fails 1 \<and> good w' \<and> dbyte w' = dbyte w)"
    (is "sat _ ?Q ?E")
proof -
  let ?d = "d_inner (pd_drive pd)"
  let ?s = "unat start" and ?c = "unat cnt" and ?pb = "part_byte pd dbyte w"
  note nb = native_blocks [OF g c r spb, folded ns_def, folded nc_def]
  have bs: "unat (sd_block_size ?d) = 512 * spb" using spb by (simp add: block_bytes_def)
  define N I where "N = unat ns * spb" and "I = unat i * spb"
  have spbw: "unat (sd_block_size ?d div 512) = spb" by (simp add: unat_div bs)
  have lim: "(N + I + spb) * 512 < 2 ^ 64"
  proof -
    obtain spb' where s': "block_bytes pd = 512 * spb'"
      "(unat (p_start (pd_partition pd)) + unat (p_size_blocks (pd_partition pd))) * (512 * spb') < 2 ^ 64"
      using size_facts [OF g] by metis
    have "N + I + spb = (unat ns + unat i + 1) * spb" by (simp add: N_def I_def algebra_simps)
    also have "\<dots> \<le> unat (p_size_blocks (pd_partition pd)) * spb"
      using i nb(5) by (intro mult_le_mono1) simp
    finally have "(N + I + spb) * 512 \<le> unat (p_size_blocks (pd_partition pd)) * spb * 512" by simp
    also have "\<dots> \<le> (unat (p_start (pd_partition pd)) + unat (p_size_blocks (pd_partition pd))) * (512 * spb)"
      by (simp add: algebra_simps)
    also have "\<dots> < 2 ^ 64" using s' spb by simp
    finally show ?thesis .
  qed
  have Is: "I + spb \<le> unat nc * spb"
  proof -
    have "Suc (unat i) * spb \<le> unat nc * spb" using i by (intro mult_le_mono1) simp
    then show ?thesis by (simp add: I_def)
  qed
  have ns_bs: "unat (ns * sd_block_size ?d) = N * 512"
  proof -
    have e: "unat ns * (512 * spb) = N * 512" by (simp add: N_def)
    moreover have "N * 512 < 2 ^ 64" using lim by simp
    ultimately show ?thesis by (intro unat_multI [OF refl bs]) simp_all
  qed
  define b where "b = ns + i"
  have b: "unat b = unat ns + unat i"
  proof -
    have "unat ns \<le> N" "unat i \<le> I" using spb(2) by (simp_all add: N_def I_def)
    with lim show ?thesis unfolding b_def by (intro unat_addI refl) simp
  qed
  have b_bs: "unat (b * sd_block_size ?d) = (N + I) * 512"
  proof -
    have e: "(unat ns + unat i) * (512 * spb) = (N + I) * 512" by (simp add: N_def I_def add_mult_distrib)
    moreover have "(N + I) * 512 < 2 ^ 64" using lim by simp
    ultimately show ?thesis by (intro unat_multI [OF b bs]) simp_all
  qed
  define first last where "first = b * (sd_block_size ?d div 512)"
    and "last = first + sd_block_size ?d div 512 - 1"
  have first: "unat first = N + I"
  proof -
    have e: "(unat ns + unat i) * spb = N + I" by (simp add: N_def I_def add_mult_distrib)
    moreover have "N + I < 2 ^ 64" using lim by simp
    ultimately show ?thesis unfolding first_def by (intro unat_multI [OF b spbw]) simp_all
  qed
  have last: "unat last = N + I + spb - 1"
    unfolding last_def using lim spb(2)
    by (intro unat_subI unat_addI first spbw) simp_all
  define cs ce where "cs = max first start" and "ce = min last (start + cnt - 1)"
  have cs: "unat cs = max (N + I) ?s" unfolding cs_def by (intro unat_maxI first refl)
  have ce: "unat ce = min (N + I + spb - 1) (?s + ?c - 1)"
    unfolding ce_def using c by (intro unat_minI last unat_subI nb(8)) simp_all
  have cc: "unat cs \<le> unat ce"
  proof -
    have "?s < N + spb" "N + I < ?s + ?c" using nb(10) nb(11) [OF i] by (simp_all add: N_def I_def)
    then show ?thesis unfolding cs ce using c spb(2) by (intro min.boundedI max.boundedI; linarith)
  qed
  have at: "unat (j * 512 - y) = x * 512 - v"
    if "unat j = x" "unat y = v" "v \<le> x * 512" "x * 512 < 2 ^ 64" for j y :: u64 and x v
    using that by (intro unat_subI unat_multI) auto
  have sc: "(?s + ?c) * 512 < 2 ^ 64" using nb(8,9) by simp
  define L1 where "L1 = (\<lambda>tmp :: phys_page. for_each (\<lambda>j :: u64. copy_sector tmp
      (j * 512 - b * sd_block_size ?d) (j * 512 - ns * sd_block_size ?d)) (upto_incl first last) :: phys_page \<Rightarrow> 'w \<Rightarrow> ('w, kernel_error, phys_page) res)"
  define L2 where "L2 = (for_each (\<lambda>j :: u64. copy_sector src
      ((j - start) * 512) (j * 512 - ns * sd_block_size ?d)) (upto_incl cs ce) :: phys_page \<Rightarrow> 'w \<Rightarrow> ('w, kernel_error, phys_page) res)"
  have sb: "stage_block pd start cnt src ns i staging w =
    ques (if cs \<noteq> first \<or> ce \<noteq> last
          then ques (drive_read (pd_drive pd) (pd_partition pd) b 1 w) (\<lambda>tmp w. L1 tmp staging w)
          else ok staging w)
      (\<lambda>staging w. L2 staging w)"
    by (simp add: stage_block_def Let_def L1_def L2_def b_def first_def last_def cs_def ce_def)
  have l1: "L1 tmp staging w1 =
      ok (staging\<lparr>pp_data := splice (I * 512) (map ?pb [(N + I) * 512..<(N + I) * 512 + spb * 512]) (pp_data staging)\<rparr>) w1"
    if "page_ok tmp" "spb * 512 \<le> length (pp_data tmp)"
      "take (spb * 512) (pp_data tmp) = map ?pb [(N + I) * 512..<(N + I) * 512 + spb * 512]" for tmp w1
  proof -
    have len: "length (upto_incl first last) = spb" using first last spb(2) by simp
    have j: "unat (upto_incl first last ! k) = N + I + k" if "k < spb" for k
    proof -
      have "unat (word_of_nat k :: u64) = k" using that lim by (simp add: unat_of_nat)
      then show ?thesis using that lim first len
        by (subst upto_incl_nth) (auto intro!: unat_addI)
    qed
    have "L1 tmp staging w1 = ok (staging\<lparr>pp_data := splice (I * 512)
        (take (length (upto_incl first last) * 512) (drop 0 (pp_data tmp))) (pp_data staging)\<rparr>) w1"
      unfolding L1_def
    proof (rule copy_loop)
      fix k assume k: "k < length (upto_incl first last)"
      show "unat (upto_incl first last ! k * 512 - b * sd_block_size ?d) = 0 + k * 512"
        using at [OF j b_bs] k len lim by simp
      show "unat (upto_incl first last ! k * 512 - ns * sd_block_size ?d) = I * 512 + k * 512"
        using at [OF j ns_bs] k len lim by simp
    next
      show "I * 512 + length (upto_incl first last) * 512 \<le> length (pp_data staging)"
        using Is st(2) len by (simp add: algebra_simps)
    qed (use that st(1) len in simp_all)
    then show ?thesis using len that(3) by simp
  qed
  have l2: "L2 st w1 = ok (st\<lparr>pp_data := splice (unat cs * 512 - N * 512)
        (take ((Suc (unat ce) - unat cs) * 512) (drop ((unat cs - ?s) * 512) (pp_data src))) (pp_data st)\<rparr>) w1"
    if "page_ok st" "pp_count st = pp_count staging" for st w1
  proof -
    let ?m = "Suc (unat ce) - unat cs"
    have Ncs: "N \<le> unat cs" and scs: "?s \<le> unat cs" unfolding cs by simp_all
    have ce1: "unat ce < N + I + spb" "unat ce < ?s + ?c" unfolding ce using c spb(2) by simp_all
    have len: "length (upto_incl cs ce) = ?m" by simp
    have j: "unat (upto_incl cs ce ! k) = unat cs + k" "(unat cs + k) * 512 < 2 ^ 64" if "k < ?m" for k
    proof -
      have lt: "unat cs + k < ?s + ?c" using that cc c unfolding ce by simp
      then show "(unat cs + k) * 512 < 2 ^ 64" using sc by simp
      have "unat (word_of_nat k :: u64) = k" using lt sc by (simp add: unat_of_nat)
      then show "unat (upto_incl cs ce ! k) = unat cs + k" using that lt sc
        by (subst upto_incl_nth) (auto intro!: unat_addI)
    qed
    show ?thesis
      unfolding L2_def len [symmetric]
    proof (rule copy_loop)
      fix k assume k: "k < length (upto_incl cs ce)"
      then have km: "k < ?m" by simp
      show "unat ((upto_incl cs ce ! k - start) * 512) = (unat cs - ?s) * 512 + k * 512"
      proof (rule unat_multI)
        show "unat (upto_incl cs ce ! k - start) = unat cs + k - ?s"
          using scs by (intro unat_subI j(1) [OF km] refl) simp
        show "(unat cs + k - ?s) * 512 = (unat cs - ?s) * 512 + k * 512"
          using scs by simp
        show "(unat cs - ?s) * 512 + k * 512 < 2 ^ LENGTH(64)" using j(2) [OF km] by simp
      qed simp
      show "unat (upto_incl cs ce ! k * 512 - ns * sd_block_size ?d) = unat cs * 512 - N * 512 + k * 512"
        using at [OF j(1) [OF km] ns_bs] j(2) [OF km] Ncs by simp
    next
      show "(unat cs - ?s) * 512 + length (upto_incl cs ce) * 512 \<le> length (pp_data src)"
        using src(2) scs ce1 cc by simp
      have "unat cs * 512 - N * 512 + ?m * 512 \<le> (I + spb) * 512" using Ncs ce1 cc by simp
      then show "unat cs * 512 - N * 512 + length (upto_incl cs ce) * 512 \<le> length (pp_data st)"
        using Is st(1,2) that len by (simp add: page_ok_def algebra_simps)
    qed (use that src in simp_all)
  qed
  have Ncs: "N \<le> unat cs" "?s \<le> unat cs" "N + I \<le> unat cs" unfolding cs by simp_all
  have ce1: "unat ce < N + I + spb" "unat ce < ?s + ?c" unfolding ce using c spb(2) by simp_all
  have lst: "(I + spb) * 512 \<le> length (pp_data staging)" using Is st(2) by (simp add: algebra_simps)
  have fin: "pp_data (st\<lparr>pp_data := splice (unat cs * 512 - N * 512)
        (take ((Suc (unat ce) - unat cs) * 512) (drop ((unat cs - ?s) * 512) (pp_data src))) (pp_data st)\<rparr>) ! a
      = want (unat ns * spb * 512 + a)"
    if lp: "length (pp_data st) = length (pp_data staging)"
      and before: "\<And>a. a < I * 512 \<Longrightarrow> pp_data st ! a = pp_data staging ! a"
      and part: "\<And>a. cs \<noteq> first \<or> ce \<noteq> last \<Longrightarrow> I * 512 \<le> a \<Longrightarrow> a < (I + spb) * 512
        \<Longrightarrow> pp_data st ! a = ?pb (N * 512 + a)"
      and a: "a < Suc (unat i) * spb * 512" for st a
  proof -
    define D m where "D = unat cs * 512 - N * 512" and "m = Suc (unat ce) - unat cs"
    define X where "X = take (m * 512) (drop ((unat cs - ?s) * 512) (pp_data src))"
    have D1: "D + N * 512 = unat cs * 512" using Ncs by (simp add: D_def)
    have m1: "m + unat cs = Suc (unat ce)" using cc by (simp add: m_def)
    have aI: "a < (I + spb) * 512" using a by (simp add: I_def algebra_simps)
    have Dm: "D + m * 512 + N * 512 = unat ce * 512 + 512" using D1 m1 by linarith
    have lX: "length X = m * 512" unfolding X_def using src(2) Ncs ce1 m1 by simp
    have D: "D + m * 512 \<le> (I + spb) * 512" using Dm ce1 by simp
    have n: "splice D X (pp_data st) ! a =
        (if D \<le> a \<and> a < D + m * 512 then X ! (a - D) else pp_data st ! a)"
      using lX D lst lp aI by (subst splice_nth) simp_all
    have goal: "splice D X (pp_data st) ! a = want (unat ns * spb * 512 + a)"
    proof (cases "D \<le> a \<and> a < D + m * 512")
      case True
      have "X ! (a - D) = drop ((unat cs - ?s) * 512) (pp_data src) ! (a - D)"
        unfolding X_def by (rule nth_take) (use True in linarith)
      also have "\<dots> = pp_data src ! ((unat cs - ?s) * 512 + (a - D))"
        by (rule nth_drop) (use src(2) Ncs ce1 cc in linarith)
      also have "(unat cs - ?s) * 512 + (a - D) = N * 512 + a - ?s * 512"
        using True Ncs D1 by linarith
      finally have "X ! (a - D) = pp_data src ! (N * 512 + a - ?s * 512)" .
      moreover have "N * 512 + a < (?s + ?c) * 512" "?s * 512 \<le> N * 512 + a"
        using True Ncs ce1 D1 Dm by simp_all
      ultimately show ?thesis using True n by (simp add: want_def N_def)
    next
      case False
      show ?thesis
      proof (cases "a < I * 512")
        case True
        then show ?thesis
          using n [unfolded if_not_P [OF False]] before st(3) [of a] by (simp add: I_def)
      next
        case aI2: False
        have p: "cs \<noteq> first \<or> ce \<noteq> last"
        proof (rule ccontr)
          assume "\<not> (cs \<noteq> first \<or> ce \<noteq> last)"
          then have "unat cs = N + I" "unat ce = N + I + spb - 1" using first last by simp_all
          then show False using False aI aI2 spb(2) D1 m1 Dm by simp
        qed
        have "\<not> (?s * 512 \<le> N * 512 + a \<and> N * 512 + a < (?s + ?c) * 512)"
          using False aI aI2 cs ce c spb(2) D1 Dm by (auto simp: max_def min_def split: if_splits)
        then show ?thesis
          using n [unfolded if_not_P [OF False]] part [OF p _ aI] aI2 by (auto simp: want_def N_def)
      qed
    qed
    show ?thesis using goal by (simp add: D_def m_def X_def)
  qed
  have rest: "sat (L2 st w1) ?Q ?E"
    if "page_ok st" "pp_count st = pp_count staging" "good w1" "dbyte w1 = dbyte w"
      "\<And>a. a < I * 512 \<Longrightarrow> pp_data st ! a = pp_data staging ! a"
      "\<And>a. cs \<noteq> first \<or> ce \<noteq> last \<Longrightarrow> I * 512 \<le> a \<Longrightarrow> a < (I + spb) * 512
        \<Longrightarrow> pp_data st ! a = ?pb (N * 512 + a)" for st w1
  proof -
    have lp: "length (pp_data st) = length (pp_data staging)" using that(1,2) st(1) by (simp add: page_ok_def)
    have "(unat cs * 512 - N * 512) + length (take ((Suc (unat ce) - unat cs) * 512)
        (drop ((unat cs - ?s) * 512) (pp_data src))) \<le> length (pp_data st)"
      using lp lst Ncs ce1 cc src(2) by simp
    then show ?thesis
      unfolding l2 [OF that(1,2)] using that(1-4) fin [OF lp that(5,6)] by (simp add: page_ok_def)
  qed
  show ?thesis
  proof (cases "cs \<noteq> first \<or> ce \<noteq> last")
    case True
    have rng: "unat b + unat (1 :: u64) \<le> unat (p_size_blocks (pd_partition pd))"
      using b i nb(5) by simp
    have bb: "unat b * block_bytes pd = (N + I) * 512" by (simp add: b spb N_def I_def algebra_simps)
    have "sat (L1 tmp staging w1) (\<lambda>st w2. sat (L2 st w2) ?Q ?E) ?E"
      if "good w1" "dbyte w1 = dbyte w" "page_ok tmp" "spb * 512 \<le> length (pp_data tmp)"
        "take (spb * 512) (pp_data tmp) = map ?pb [(N + I) * 512..<(N + I) * 512 + spb * 512]" for tmp w1
    proof -
      have lm: "I * 512 + spb * 512 \<le> length (pp_data staging)" using lst by simp
      show ?thesis
        unfolding l1 [OF that(3-5)] sat_ok
        by (rule rest) (use that st(1) lm in \<open>auto simp: page_ok_def splice_nth\<close>)
    qed
    then show ?thesis
      using True drive_read_law [OF g rng] bb spb 
      unfolding sb sat_ques by (auto elim!: sat_mono simp: algebra_simps)
  next
    case False
    then show ?thesis unfolding sb using rest [OF st(1) refl g refl] by simp
  qed
qed

lemma drive_write_law:
  fixes src :: phys_page
  assumes g: "good w" and r: "unat off + unat c \<le> unat (p_size_blocks (pd_partition pd))"
    and src: "page_ok src" "unat c * block_bytes pd \<le> length (pp_data src)"
  shows "sat (drive_write (pd_drive pd) (pd_partition pd) off c src w)
    (\<lambda>_ w'. good w' \<and> part_frame pd dbyte w w' \<and>
       part_byte pd dbyte w' = (\<lambda>x. if unat off * block_bytes pd \<le> x \<and> x < (unat off + unat c) * block_bytes pd
         then pp_data src ! (x - unat off * block_bytes pd) else part_byte pd dbyte w x))
    (\<lambda>e w'. fails 0 \<and> good w' \<and> part_frame pd dbyte w w')"
proof -
  let ?d = "d_inner (pd_drive pd)" and ?P = "pd_partition pd"
  obtain spb k where s: "block_bytes pd = 512 * spb" "0 < spb"
    "(unat (p_start ?P) + unat (p_size_blocks ?P)) * (512 * spb) < 2 ^ 64"
    using size_facts [OF g] by metis
  have bs: "unat (sd_block_size ?d) = block_bytes pd" by (simp add: block_bytes_def)
  have b: "unat (p_start ?P) + unat (p_size_blocks ?P) < 2 ^ 64"
  proof -
    have "unat (p_start ?P) + unat (p_size_blocks ?P)
        \<le> (unat (p_start ?P) + unat (p_size_blocks ?P)) * (512 * spb)" using s(2) by simp
    with s(3) show ?thesis by linarith
  qed
  have ca: "checked_add off c = Some (off + c)" and oc: "unat (off + c) = unat off + unat c"
    using r b by (auto simp: checked_add_def unat_add_nowrap)
  have st: "checked_add (p_start ?P) off = Some (p_start ?P + off)"
    and us: "unat (p_start ?P + off) = unat (p_start ?P) + unat off"
    using r b by (auto simp: checked_add_def unat_add_nowrap)
  have cb: "unat c * block_bytes pd < 2 ^ 64"
  proof -
    have "unat c * block_bytes pd \<le> (unat (p_start ?P) + unat (p_size_blocks ?P)) * block_bytes pd"
      using r by (intro mult_le_mono1) simp
    also have "\<dots> < 2 ^ 64" using s(1,3) by simp
    finally show ?thesis .
  qed
  have room: "\<not> pp_count src * PAGE_SIZE < c * sd_block_size ?d"
    using src page_bytes [OF src(1)] unat_multI [OF refl bs refl, of c] cb
    by (simp add: word_less_nat_alt page_ok_def)
  have dw: "drive_write (pd_drive pd) ?P off c src w =
      map_err kernel_error_from_storage (sd_write_blocks ?d (p_start ?P + off) c src w)"
    using ca st r oc room by (simp add: drive_write_def ok_or_def word_less_nat_alt)
  have rng: "unat (p_start ?P + off) + unat c \<le> unat (sd_block_count ?d)"
    using partition_law [OF g] r us by simp
  have lo: "unat (p_start ?P) * block_bytes pd \<le> unat (p_start ?P + off) * block_bytes pd"
    and hi: "(unat (p_start ?P + off) + unat c) * block_bytes pd
      \<le> (unat (p_start ?P) + unat (p_size_blocks ?P)) * block_bytes pd"
    using us r by (auto intro!: mult_le_mono1)
  show ?thesis
    unfolding dw sat_map_err
  proof (rule sat_mono [OF write_law [OF g src(1) rng]])
    show "unat c * unat (sd_block_size ?d) \<le> length (pp_data src)" using src(2) bs by simp
  next
    fix x and w'
    assume q: "good w' \<and> dbyte w' = (\<lambda>a. if unat (p_start ?P + off) * unat (sd_block_size ?d) \<le> a \<and>
        a < (unat (p_start ?P + off) + unat c) * unat (sd_block_size ?d)
      then pp_data src ! (a - unat (p_start ?P + off) * unat (sd_block_size ?d)) else dbyte w a)"
    have "part_frame pd dbyte w w'"
      unfolding part_frame_def
    proof (intro allI impI)
      fix a assume "a < unat (p_start ?P) * block_bytes pd \<or>
        (unat (p_start ?P) + unat (p_size_blocks ?P)) * block_bytes pd \<le> a"
      then have "\<not> (unat (p_start ?P + off) * block_bytes pd \<le> a \<and>
          a < (unat (p_start ?P + off) + unat c) * block_bytes pd)"
        using lo hi by linarith
      then show "dbyte w' a = dbyte w a" using q unfolding bs by auto
    qed
    moreover have "part_byte pd dbyte w' x = (if unat off * block_bytes pd \<le> x \<and> x < (unat off + unat c) * block_bytes pd
         then pp_data src ! (x - unat off * block_bytes pd) else part_byte pd dbyte w x)" for x
      using q unfolding part_byte_def bs us by (simp add: algebra_simps)
    ultimately show "good w' \<and> part_frame pd dbyte w w' \<and> part_byte pd dbyte w' =
      (\<lambda>x. if unat off * block_bytes pd \<le> x \<and> x < (unat off + unat c) * block_bytes pd
         then pp_data src ! (x - unat off * block_bytes pd) else part_byte pd dbyte w x)"
      using q by blast
  next
    fix e w'
    assume "fails 0 \<and> good w' \<and>
           (\<forall>a. a < unat (p_start ?P + off) * unat (sd_block_size ?d) \<or>
              (unat (p_start ?P + off) + unat c) * unat (sd_block_size ?d) \<le> a \<longrightarrow> dbyte w' a = dbyte w a)"
    then show "fails 0 \<and> good w' \<and> part_frame pd dbyte w w'"
      using lo hi unfolding part_frame_def bs by (meson le_trans less_le_trans)
  qed
qed

lemma write_sectors_law:
  fixes src :: phys_page
  assumes g: "good w" and r: "unat start + unat cnt \<le> part_sectors pd"
    and src: "page_ok src" "unat cnt * 512 \<le> length (pp_data src)"
  shows "sat (write_sectors pd start cnt src w)
    (\<lambda>_ w'. good w' \<and> part_frame pd dbyte w w' \<and>
       part_byte pd dbyte w' = (\<lambda>x. if unat start * 512 \<le> x \<and> x < (unat start + unat cnt) * 512
         then pp_data src ! (x - unat start * 512) else part_byte pd dbyte w x))
    (\<lambda>e w'. fails (unat cnt) \<and> good w' \<and> part_frame pd dbyte w w')"
    (is "sat _ ?Q ?E")
proof (cases "cnt = 0")
  case True
  then show ?thesis using g by (auto simp: write_sectors_def part_frame_refl fun_eq_iff)
next
  case False
  then have c: "0 < unat cnt" by (simp add: unat_gt_0)
  let ?d = "d_inner (pd_drive pd)"
  let ?s = "unat start" and ?c = "unat cnt" and ?pb = "part_byte pd dbyte w"
  obtain spb k where spb: "block_bytes pd = 512 * spb" "0 < spb" "512 * spb * k = 4096" "0 < k"
    using size_facts [OF g] by metis
  define ns nc where "ns = start * 512 div sd_block_size ?d"
    and "nc = div_ceil ((start + cnt) * 512) (sd_block_size ?d) - ns"
  note nb = native_blocks [OF g c r spb(1,2), folded ns_def, folded nc_def]
  have bs: "unat (sd_block_size ?d) = 512 * spb" using spb by (simp add: block_bytes_def)
  have bs0: "sd_block_size ?d \<noteq> 0" using capacity [OF g] by auto
  define want where "want = (\<lambda>x. if ?s * 512 \<le> x \<and> x < (?s + ?c) * 512
      then pp_data src ! (x - ?s * 512) else ?pb x)"
  have ncb: "unat (nc * sd_block_size ?d) = unat nc * (512 * spb)"
  proof (rule unat_multI [OF refl bs refl])
    obtain spb' where s': "block_bytes pd = 512 * spb'"
      "(unat (p_start (pd_partition pd)) + unat (p_size_blocks (pd_partition pd))) * (512 * spb') < 2 ^ 64"
      using size_facts [OF g] by metis
    have "unat nc * (512 * spb) \<le> (unat (p_start (pd_partition pd)) + unat (p_size_blocks (pd_partition pd))) * (512 * spb)"
      using nb(5) by (intro mult_le_mono1) simp
    also have "\<dots> < 2 ^ LENGTH(64)" using s' spb by simp
    finally show "unat nc * (512 * spb) < 2 ^ LENGTH(64)" .
  qed
  define n where "n = div_ceil (nc * sd_block_size ?d) PAGE_SIZE"
  have n: "unat n = (unat nc * (512 * spb) + 4096 - 1) div 4096"
    unfolding n_def by (subst unat_div_ceil) (simp_all add: ncb PAGE_SIZE_def)
  have nbig: "unat nc * (512 * spb) \<le> unat n * 4096"
    unfolding n by (rule ceil_div_covers) simp
  have nle: "unat n \<le> ?c"
  proof -
    have "unat nc * (512 * spb) \<le> unat nc * 4096" using spb(3,4) by (intro mult_le_mono2) (cases k, auto)
    then have "unat n \<le> unat nc" unfolding n by (intro ceil_div_least) simp_all
    then show ?thesis using nb(7) by simp
  qed
  have c512: "unat (cnt * 512) = ?c * 512"
    using nb(8,9) by (subst unat_mult_nowrap) auto
  have room: "\<not> pp_count src * PAGE_SIZE < cnt * 512"
    using src c512 page_bytes [OF src(1)] by (simp add: word_less_nat_alt page_ok_def)
  have ws: "write_sectors pd start cnt src w =
      ques (map_err MemoryError (phys_page_new ?d n w)) (\<lambda>staging w.
      ques (for_each (stage_block pd start cnt src ns) (upto_excl 0 nc) staging w) (\<lambda>staging w.
      drive_write (pd_drive pd) (pd_partition pd) ns nc staging w))"
    using bs0 False room by (simp add: write_sectors_def Let_def ns_def nc_def n_def)
  have wr: "sat (drive_write (pd_drive pd) (pd_partition pd) ns nc st w2) ?Q ?E"
    if "good w2" "dbyte w2 = dbyte w" "page_ok st" "pp_count st = n"
      "\<forall>a < unat nc * spb * 512. pp_data st ! a = want (unat ns * spb * 512 + a)" for st w2
  proof -
    have len: "unat nc * block_bytes pd \<le> length (pp_data st)"
      using nbig that by (simp add: spb page_ok_def)
    have "(if unat ns * block_bytes pd \<le> x \<and> x < (unat ns + unat nc) * block_bytes pd
         then pp_data st ! (x - unat ns * block_bytes pd) else part_byte pd dbyte w2 x) = want x" for x
    proof (cases "unat ns * block_bytes pd \<le> x \<and> x < (unat ns + unat nc) * block_bytes pd")
      case True
      then have "x - unat ns * block_bytes pd < unat nc * spb * 512" "unat ns * spb * 512 \<le> x"
        by (auto simp: spb algebra_simps)
      moreover from this have "unat ns * spb * 512 + (x - unat ns * block_bytes pd) = x"
        by (simp add: spb)
      ultimately show ?thesis using True that(5) by simp
    next
      case False
      moreover have "unat ns * block_bytes pd \<le> ?s * 512" using nb(3) by (simp add: spb)
      moreover have "(?s + ?c) * 512 \<le> (unat ns + unat nc) * block_bytes pd"
        using nb(4) by (simp add: spb)
      ultimately have "\<not> (?s * 512 \<le> x \<and> x < (?s + ?c) * 512)" by (meson le_trans less_le_trans)
      moreover have "part_byte pd dbyte w2 x = ?pb x" using that(2) by (simp add: part_byte_def)
      ultimately show ?thesis by (simp only: if_not_P [OF False] want_def) simp
    qed
    then show ?thesis
      using that(1,2) fails_mono [OF g, of 0 ?c]
      by (intro sat_mono [OF drive_write_law [OF that(1) nb(5) that(3) len]])
         (auto simp: want_def part_frame_def)
  qed
  have stage: "sat (for_each (stage_block pd start cnt src ns) (upto_excl 0 nc) st0 w1)
      (\<lambda>st w2. good w2 \<and> dbyte w2 = dbyte w \<and> page_ok st \<and> pp_count st = n \<and>
         (\<forall>a < unat nc * spb * 512. pp_data st ! a = want (unat ns * spb * 512 + a))) ?E"
    if "good w1" "dbyte w1 = dbyte w" "page_ok st0" "pp_count st0 = n" for st0 w1
  proof (rule sat_for_each [where I = "\<lambda>k st w2. good w2 \<and> dbyte w2 = dbyte w \<and> page_ok st \<and>
        pp_count st = n \<and> (\<forall>a < k * spb * 512. pp_data st ! a = want (unat ns * spb * 512 + a))"])
    fix k st w2
    assume k: "k < length (upto_excl 0 nc)"
      and I: "good w2 \<and> dbyte w2 = dbyte w \<and> page_ok st \<and> pp_count st = n \<and>
        (\<forall>a < k * spb * 512. pp_data st ! a = want (unat ns * spb * 512 + a))"
    from k have uk: "unat (word_of_nat k :: u64) = k" using unat_bound [of nc] by (simp add: unat_of_nat)
    have pb: "part_byte pd dbyte w2 = ?pb" using I by (simp add: part_byte_def fun_eq_iff)
    have "sat (stage_block pd start cnt src ns (word_of_nat k) st w2)
        (\<lambda>p w'. good w' \<and> dbyte w' = dbyte w2 \<and> page_ok p \<and> pp_count p = pp_count st \<and>
           (\<forall>a < Suc (unat (word_of_nat k :: u64)) * spb * 512. pp_data p ! a = want (unat ns * spb * 512 + a)))
        (\<lambda>e w'. fails 1 \<and> good w' \<and> dbyte w' = dbyte w2)"
      unfolding want_def pb [symmetric] ns_def
      by (rule stage_block_law [OF _ c r spb(1,2) src])
         (use I k uk nbig in \<open>auto simp: pb want_def ns_def nc_def page_ok_def\<close>)
    then show "sat (stage_block pd start cnt src ns (upto_excl 0 nc ! k) st w2)
        (\<lambda>st w2. good w2 \<and> dbyte w2 = dbyte w \<and> page_ok st \<and>
          pp_count st = n \<and> (\<forall>a < Suc k * spb * 512. pp_data st ! a = want (unat ns * spb * 512 + a))) ?E"
      using I k uk c fails_mono [OF g, of 1 ?c]
      by (auto elim!: sat_mono simp: part_frame_refl)
  qed (use that in auto)
  show ?thesis
    unfolding ws sat_ques sat_map_err
    apply (rule sat_mono [OF page_new_law [OF g]])
     apply (elim conjE)
     apply (rule sat_mono [OF stage]; (elim conjE)?)
          apply assumption+
      apply (rule wr; assumption)
     apply (intro conjI; assumption)
    using fails_mono [OF g _ nle] by (simp add: part_frame_refl)
qed

lemma zero_sectors_loop_law:
  fixes page :: phys_page
  assumes "good w" and "unat sector + unat rem \<le> part_sectors pd"
    and "page_ok page" and "min (unat rem) 4096 * 512 \<le> length (pp_data page)"
    and "\<And>i. i < length (pp_data page) \<Longrightarrow> pp_data page ! i = 0" and "fails (unat rem) \<Longrightarrow> fails m"
  shows "sat (zero_sectors_loop pd page sector rem w)
    (\<lambda>_ w'. good w' \<and> part_frame pd dbyte w w' \<and>
       part_byte pd dbyte w' = (\<lambda>x. if unat sector * 512 \<le> x \<and> x < (unat sector + unat rem) * 512
         then 0 else part_byte pd dbyte w x))
    (\<lambda>e w'. fails m \<and> good w' \<and> part_frame pd dbyte w w')"
  using assms
proof (induction "unat rem" arbitrary: sector rem w rule: less_induct)
  case less
  show ?case
  proof (cases "rem = 0")
    case True
    then show ?thesis
      using less.prems by (subst zero_sectors_loop.simps) (auto simp: part_frame_refl fun_eq_iff)
  next
    case False
    define chunk where "chunk = min rem 0x1000"
    have uc: "unat chunk = min (unat rem) 4096" unfolding chunk_def by (intro unat_minI) simp_all
    have r0: "0 < unat rem" using False by (simp add: unat_gt_0)
    have ur: "unat (rem - chunk) = unat rem - unat chunk" using uc by (intro unat_subI) simp_all
    have lim: "part_sectors pd < 2 ^ 64"
    proof -
      obtain spb where "0 < spb" "part_sectors pd = unat (p_size_blocks (pd_partition pd)) * spb"
        "(unat (p_start (pd_partition pd)) + unat (p_size_blocks (pd_partition pd))) * (512 * spb) < 2 ^ 64"
        using size_facts [OF less.prems(1)] by metis
      then show ?thesis by (simp add: algebra_simps)
    qed
    have us: "unat (sector + chunk) = unat sector + unat chunk"
      using less.prems(2) uc lim by (intro unat_addI) simp_all
    have w1: "unat sector + unat chunk \<le> part_sectors pd" "unat chunk * 512 \<le> length (pp_data page)"
      using less.prems(2,4) uc by simp_all
    note zero = less.prems(5)
    have fl: "fails m" if "fails (unat chunk)"
      using fails_mono [OF less.prems(1) that, of "unat rem"] uc less.prems(6) by simp
    have ih: "sat (zero_sectors_loop pd page (sector + chunk) (rem - chunk) w1)
        (\<lambda>_ w'. good w' \<and> part_frame pd dbyte w w' \<and>
           part_byte pd dbyte w' = (\<lambda>x. if unat sector * 512 \<le> x \<and> x < (unat sector + unat rem) * 512
             then 0 else part_byte pd dbyte w x))
        (\<lambda>e w'. fails m \<and> good w' \<and> part_frame pd dbyte w w')"
      if q: "good w1" "part_frame pd dbyte w w1"
        "part_byte pd dbyte w1 = (\<lambda>x. if unat sector * 512 \<le> x \<and> x < (unat sector + unat chunk) * 512
             then pp_data page ! (x - unat sector * 512) else part_byte pd dbyte w x)" for w1
    proof (rule sat_mono [OF less.hyps])
      show "unat (rem - chunk) < unat rem" using ur uc r0 by simp
      show "unat (sector + chunk) + unat (rem - chunk) \<le> part_sectors pd"
        using us ur uc less.prems(2) by simp
      show "min (unat (rem - chunk)) 4096 * 512 \<le> length (pp_data page)"
        using less.prems(4) ur by simp
      show "fails m" if "fails (unat (rem - chunk))"
        using fails_mono [OF less.prems(1) that, of "unat rem"] ur less.prems(6) by simp
    next
      fix u w'
      assume z: "good w' \<and> part_frame pd dbyte w1 w' \<and> part_byte pd dbyte w' =
        (\<lambda>x. if unat (sector + chunk) * 512 \<le> x \<and> x < (unat (sector + chunk) + unat (rem - chunk)) * 512
             then 0 else part_byte pd dbyte w1 x)"
      have pbx: "part_byte pd dbyte w' x = (if unat sector * 512 \<le> x \<and> x < (unat sector + unat rem) * 512
             then 0 else part_byte pd dbyte w x)" for x
        using z w1(2) zero [of "x - unat sector * 512"] us ur uc unfolding q(3) by auto
      show "good w' \<and> part_frame pd dbyte w w' \<and>
           part_byte pd dbyte w' = (\<lambda>x. if unat sector * 512 \<le> x \<and> x < (unat sector + unat rem) * 512
             then 0 else part_byte pd dbyte w x)"
      proof (intro conjI)
        show "good w'" by (rule conjunct1 [OF z])
        show "part_frame pd dbyte w w'"
          by (rule part_frame_trans [OF q(2) conjunct1 [OF conjunct2 [OF z]]])
      qed (rule ext, rule pbx)
    next
      fix e w' assume "fails m \<and> good w' \<and> part_frame pd dbyte w1 w'"
      then show "fails m \<and> good w' \<and> part_frame pd dbyte w w'"
        using part_frame_trans [OF q(2), of w'] by simp
    qed (use q(1) less.prems in simp_all)
    show ?thesis
      apply (subst zero_sectors_loop.simps)
      apply (simp only: False if_False Let_def sat_ques chunk_def [symmetric])
      apply (rule sat_mono [OF write_sectors_law [OF less.prems(1) w1(1) less.prems(3) w1(2)]])
       apply (elim conjE)
       apply (rule ih; assumption)
      using fl by simp
  qed
qed

lemma zero_sectors_law:
  assumes g: "good w" and r: "unat start + unat cnt \<le> part_sectors pd"
  shows "sat (zero_sectors pd start cnt w)
    (\<lambda>_ w'. good w' \<and> part_frame pd dbyte w w' \<and>
       part_byte pd dbyte w' = (\<lambda>x. if unat start * 512 \<le> x \<and> x < (unat start + unat cnt) * 512
         then 0 else part_byte pd dbyte w x))
    (\<lambda>e w'. fails (unat cnt) \<and> good w' \<and> part_frame pd dbyte w w')"
proof (cases "cnt = 0")
  case True
  then show ?thesis using g by (auto simp: zero_sectors_def part_frame_refl fun_eq_iff)
next
  case False
  define n where "n = div_ceil (min cnt 0x1000) 8"
  have "unat (min cnt 0x1000) = min (unat cnt) 4096" by (intro unat_minI) simp_all
  then have n: "unat n = (min (unat cnt) 4096 + 7) div 8"
    unfolding n_def by (subst unat_div_ceil) simp_all
  have nle: "unat n \<le> unat cnt" unfolding n using ceil_div_least [of 8 "min (unat cnt) 4096" "unat cnt"] by simp
  have nbig: "min (unat cnt) 4096 \<le> unat n * 8" unfolding n using ceil_div_covers [of 8 "min (unat cnt) 4096"] by simp
  have frame: "part_frame pd dbyte w = part_frame pd dbyte w1" "part_byte pd dbyte w = part_byte pd dbyte w1"
    if "dbyte w1 = dbyte w" for w1
    using that by (auto simp: part_frame_def part_byte_def fun_eq_iff)
  show ?thesis
    apply (simp only: zero_sectors_def False if_False sat_ques sat_map_err n_def [symmetric])
    apply (rule sat_mono [OF page_new_law [OF g]])
     apply (elim conjE)
     apply (subst frame, assumption)+
     apply (rule zero_sectors_loop_law)
    using r nbig fails_mono [OF g _ nle] by (auto simp: part_frame_refl)
qed

end

section \<open>The contract of a sector device\<close>

definition sector_at :: "'w partition_drive \<Rightarrow> ('w \<Rightarrow> nat \<Rightarrow> u8) \<Rightarrow> 'w \<Rightarrow> nat \<Rightarrow> bytes" where
  "sector_at pd dbyte w i = map (part_byte pd dbyte w) [i * 512..<i * 512 + 512]"

text \<open>
  What the file system relies on: \<open>secs w i\<close> is sector \<open>i\<close> of the partition, \<open>n_secs\<close> their
  number. A failed write leaves the sectors of the partition open.
\<close>

locale sector_disk =
  fixes pd :: "'w partition_drive"
    and secs :: "'w \<Rightarrow> nat \<Rightarrow> bytes"
    and good :: "'w \<Rightarrow> bool"
    and fails :: "nat \<Rightarrow> bool"
    and n_secs :: nat
  assumes sec_length: "length (secs w i) = 512"
    and sec_count: "good w \<Longrightarrow> unat (sector_count pd) = n_secs \<and> n_secs * 512 < 2 ^ 64"
    and sec_fails_mono: "good w \<Longrightarrow> fails i \<Longrightarrow> i \<le> j \<Longrightarrow> fails j"
    and sec_page: "good w \<Longrightarrow> sat (phys_page_new (d_inner (pd_drive pd)) n w)
      (\<lambda>p w'. good w' \<and> secs w' = secs w \<and> page_ok p \<and> pp_count p = n \<and>
         pp_data p = replicate (unat n * 4096) 0)
      (\<lambda>e w'. fails (unat n) \<and> good w' \<and> secs w' = secs w)"
    and sec_read: "good w \<Longrightarrow> 0 < unat c \<Longrightarrow> unat s + unat c \<le> n_secs \<Longrightarrow>
      sat (read_sectors pd s c w)
        (\<lambda>p w'. good w' \<and> secs w' = secs w \<and> page_ok p \<and>
           unat (pp_count p) = (unat c * 512 + 4095) div 4096 \<and>
           pp_data p = concat (map (secs w) [unat s..<unat s + unat c]) @
             replicate (unat (pp_count p) * 4096 - unat c * 512) 0)
        (\<lambda>e w'. fails (unat c) \<and> good w' \<and> secs w' = secs w)"
    and sec_write: "good w \<Longrightarrow> unat s + unat c \<le> n_secs \<Longrightarrow> page_ok src \<Longrightarrow>
      unat c * 512 \<le> length (pp_data src) \<Longrightarrow>
      sat (write_sectors pd s c src w)
        (\<lambda>_ w'. good w' \<and> secs w' = (\<lambda>i. if unat s \<le> i \<and> i < unat s + unat c
           then take 512 (drop ((i - unat s) * 512) (pp_data src)) else secs w i))
        (\<lambda>e w'. fails (unat c) \<and> good w')"
    and sec_zero: "good w \<Longrightarrow> unat s + unat c \<le> n_secs \<Longrightarrow>
      sat (zero_sectors pd s c w)
        (\<lambda>_ w'. good w' \<and> secs w' = (\<lambda>i. if unat s \<le> i \<and> i < unat s + unat c
           then replicate 512 0 else secs w i))
        (\<lambda>e w'. fails (unat c) \<and> good w')"

lemma concat_sectors:
  "concat (map (sector_at pd dbyte w) [s..<s + c]) =
     map (part_byte pd dbyte w) [s * 512..<(s + c) * 512]"
proof (induction c)
  case 0
  then show ?case by simp
next
  case (Suc c)
  have "[s * 512..<(s + Suc c) * 512] = [s * 512..<(s + c) * 512] @ [(s + c) * 512..<(s + c) * 512 + 512]"
    using upt_add_eq_append [of "s * 512" "(s + c) * 512" 512] by (simp add: algebra_simps)
  with Suc show ?case by (simp add: sector_at_def)
qed

lemma sector_at_update:
  assumes "part_byte pd dbyte w' = (\<lambda>x. if s * 512 \<le> x \<and> x < (s + c) * 512
      then f (x - s * 512) else part_byte pd dbyte w x)"
  shows "sector_at pd dbyte w' = (\<lambda>i. if s \<le> i \<and> i < s + c
      then map f [(i - s) * 512..<(i - s) * 512 + 512] else sector_at pd dbyte w i)"
proof
  fix i
  show "sector_at pd dbyte w' i = (if s \<le> i \<and> i < s + c
      then map f [(i - s) * 512..<(i - s) * 512 + 512] else sector_at pd dbyte w i)"
  proof (cases "s \<le> i \<and> i < s + c")
    case True
    have "part_byte pd dbyte w' (i * 512 + k) = f ((i - s) * 512 + k)" if "k < 512" for k
    proof -
      have "s * 512 \<le> i * 512 + k" "i * 512 + k < (s + c) * 512"
        "i * 512 + k - s * 512 = (i - s) * 512 + k"
        using True that by (simp_all add: diff_mult_distrib)
      then show ?thesis using assms by simp
    qed
    then show ?thesis using True by (auto simp: sector_at_def intro!: nth_equalityI)
  next
    case False
    have "part_byte pd dbyte w' (i * 512 + k) = part_byte pd dbyte w (i * 512 + k)" if "k < 512" for k
    proof -
      have "\<not> (s * 512 \<le> i * 512 + k \<and> i * 512 + k < (s + c) * 512)"
        using False that by auto
      then show ?thesis using assms by auto
    qed
    then have "sector_at pd dbyte w' i = sector_at pd dbyte w i"
      unfolding sector_at_def by (intro nth_equalityI) simp_all
    then show ?thesis by (simp only: if_not_P [OF False])
  qed
qed

lemma map_nth_slice: "i + n \<le> length xs \<Longrightarrow> map ((!) xs) [i..<i + n] = take n (drop i xs)"
  by (rule nth_equalityI) simp_all

sublocale partition_device < sector_disk pd "sector_at pd dbyte" good fails "part_sectors pd"
proof
  fix w i show "length (sector_at pd dbyte w i) = 512" by (simp add: sector_at_def)
next
  fix w assume g: "good w"
  then obtain spb where s: "block_bytes pd = 512 * spb" "0 < spb"
    "part_sectors pd = unat (p_size_blocks (pd_partition pd)) * spb"
    "(unat (p_start (pd_partition pd)) + unat (p_size_blocks (pd_partition pd))) * (512 * spb) < 2 ^ 64"
    using size_facts by metis
  have lim: "part_sectors pd * 512 < 2 ^ 64" using s(3,4) by (simp add: algebra_simps)
  have spb: "unat (sectors_per_block pd) = spb"
    using s(1) by (simp add: sectors_per_block_def unat_div block_bytes_def)
  have "unat (sector_count pd) = part_sectors pd"
    unfolding sector_count_def using lim by (intro unat_multI [OF refl spb s(3) [symmetric]]) simp
  with lim show "unat (sector_count pd) = part_sectors pd \<and> part_sectors pd * 512 < 2 ^ 64" by simp
next
  fix w i j assume "good w" "fails i" "i \<le> j"
  then show "fails j" by (rule fails_mono)
next
  fix w n assume g: "good w"
  show "sat (phys_page_new (d_inner (pd_drive pd)) n w)
      (\<lambda>p w'. good w' \<and> sector_at pd dbyte w' = sector_at pd dbyte w \<and> page_ok p \<and> pp_count p = n \<and>
         pp_data p = replicate (unat n * 4096) 0)
      (\<lambda>e w'. fails (unat n) \<and> good w' \<and> sector_at pd dbyte w' = sector_at pd dbyte w)"
    by (rule sat_mono [OF page_new_law [OF g]]) (auto simp: sector_at_def part_byte_def fun_eq_iff)
next
  fix w and c s :: u64 assume g: "good w" and c: "0 < unat c" "unat s + unat c \<le> part_sectors pd"
  show "sat (read_sectors pd s c w)
        (\<lambda>p w'. good w' \<and> sector_at pd dbyte w' = sector_at pd dbyte w \<and> page_ok p \<and>
           unat (pp_count p) = (unat c * 512 + 4095) div 4096 \<and>
           pp_data p = concat (map (sector_at pd dbyte w) [unat s..<unat s + unat c]) @
             replicate (unat (pp_count p) * 4096 - unat c * 512) 0)
        (\<lambda>e w'. fails (unat c) \<and> good w' \<and> sector_at pd dbyte w' = sector_at pd dbyte w)"
    unfolding concat_sectors
    by (rule sat_mono [OF read_sectors_law [OF g c]]) (auto simp: sector_at_def part_byte_def fun_eq_iff)
next
  fix w and c s :: u64 and src :: phys_page
  assume g: "good w" and r: "unat s + unat c \<le> part_sectors pd" and p: "page_ok src"
    and l: "unat c * 512 \<le> length (pp_data src)"
  have slice: "map ((!) (pp_data src)) [(i - unat s) * 512..<(i - unat s) * 512 + 512] =
      take 512 (drop ((i - unat s) * 512) (pp_data src))" if "unat s \<le> i" "i < unat s + unat c" for i
  proof (rule map_nth_slice)
    have "Suc (i - unat s) * 512 \<le> unat c * 512" using that by (intro mult_le_mono1) simp
    with l show "(i - unat s) * 512 + 512 \<le> length (pp_data src)" by simp
  qed
  have key: "sector_at pd dbyte w' = (\<lambda>i. if unat s \<le> i \<and> i < unat s + unat c
           then take 512 (drop ((i - unat s) * 512) (pp_data src)) else sector_at pd dbyte w i)"
    if "part_byte pd dbyte w' = (\<lambda>x. if unat s * 512 \<le> x \<and> x < (unat s + unat c) * 512
         then pp_data src ! (x - unat s * 512) else part_byte pd dbyte w x)" for w'
    using sector_at_update [OF that] slice by (simp add: fun_eq_iff)
  show "sat (write_sectors pd s c src w)
        (\<lambda>_ w'. good w' \<and> sector_at pd dbyte w' = (\<lambda>i. if unat s \<le> i \<and> i < unat s + unat c
           then take 512 (drop ((i - unat s) * 512) (pp_data src)) else sector_at pd dbyte w i))
        (\<lambda>e w'. fails (unat c) \<and> good w')"
    by (rule sat_mono [OF write_sectors_law [OF g r p l]])
       (elim conjE, intro conjI, assumption, erule key, simp)
next
  fix w and c s :: u64 assume g: "good w" and r: "unat s + unat c \<le> part_sectors pd"
  have key: "sector_at pd dbyte w' = (\<lambda>i. if unat s \<le> i \<and> i < unat s + unat c
           then replicate 512 0 else sector_at pd dbyte w i)"
    if "part_byte pd dbyte w' = (\<lambda>x. if unat s * 512 \<le> x \<and> x < (unat s + unat c) * 512
         then 0 else part_byte pd dbyte w x)" for w'
    using sector_at_update [where f = "\<lambda>_. 0", OF that] by (simp add: map_replicate_const fun_eq_iff)
  show "sat (zero_sectors pd s c w)
        (\<lambda>_ w'. good w' \<and> sector_at pd dbyte w' = (\<lambda>i. if unat s \<le> i \<and> i < unat s + unat c
           then replicate 512 0 else sector_at pd dbyte w i))
        (\<lambda>e w'. fails (unat c) \<and> good w')"
    by (rule sat_mono [OF zero_sectors_law [OF g r]])
       (elim conjE, intro conjI, assumption, erule key, simp)
qed

context partition_device
begin

lemma sectors: "sector_disk pd (sector_at pd dbyte) good fails (part_sectors pd)"
  by unfold_locales

end

end
