(* ===== verification/Bitmap.thy ===== *)
theory Bitmap
  imports Effects Bytes Alloc_Spec
begin

text \<open>
  The block allocator of LemonFS (\<^verbatim>\<open>fs/lemonfs/bitmap.rs\<close>): one bit per data block, kept per
  bitmap block as \<open>Free\<close>, \<open>Full\<close> or the 512 bytes themselves. The abstraction is the predicate
  \<open>used\<close> on bit numbers. Indices into the table of blocks are natural numbers (the table is in
  memory); an index out of range is a panic, the value \<^term>\<open>None\<close>.
\<close>

section \<open>Operations\<close>

definition BITS_PER_BLOCK :: nat where
  "BITS_PER_BLOCK = 4096"

datatype block_state = Free | Full | Mixed bytes

record bitmap_allocator =
  ba_blocks :: "block_state list"
  ba_data_start :: u64

definition bit_get :: "bytes \<Rightarrow> nat \<Rightarrow> bool" where
  "bit_get b i = (drop_bit (i mod 8) (b ! (i div 8)) AND 1 = 1)"

definition bit_set :: "bytes \<Rightarrow> nat \<Rightarrow> bytes" where
  "bit_set b i = b[i div 8 := b ! (i div 8) OR push_bit (i mod 8) 1]"

definition bit_clear :: "bytes \<Rightarrow> nat \<Rightarrow> bytes" where
  "bit_clear b i = b[i div 8 := b ! (i div 8) AND NOT (push_bit (i mod 8) 1)]"

definition bitmap_new :: "u64 \<Rightarrow> bitmap_allocator" where
  "bitmap_new data_start = \<lparr>ba_blocks = [], ba_data_start = data_start\<rparr>"

definition collapse_state :: "block_state \<Rightarrow> block_state" where
  "collapse_state s =
     (case s of
        Mixed b \<Rightarrow>
          if list_all (\<lambda>x. x = 0) b then Free
          else if list_all (\<lambda>x. x = 0xFF) b then Full
          else Mixed b
      | _ \<Rightarrow> s)"

definition bm_collapse :: "bitmap_allocator \<Rightarrow> nat \<Rightarrow> bitmap_allocator option" where
  "bm_collapse ba i =
     (if i < length (ba_blocks ba)
      then Some (ba\<lparr>ba_blocks := (ba_blocks ba)[i := collapse_state (ba_blocks ba ! i)]\<rparr>)
      else None)"

definition bm_add_block :: "bitmap_allocator \<Rightarrow> bytes \<Rightarrow> bitmap_allocator option" where
  "bm_add_block ba b =
     (let ba' = ba\<lparr>ba_blocks := ba_blocks ba @ [Mixed b]\<rparr>
      in bm_collapse ba' (length (ba_blocks ba') - 1))"

definition block_of :: "u64 \<Rightarrow> nat" where
  "block_of i = unat i div BITS_PER_BLOCK"

definition bit_in :: "u64 \<Rightarrow> nat" where
  "bit_in i = unat i mod BITS_PER_BLOCK"

definition bm_is_free :: "bitmap_allocator \<Rightarrow> u64 \<Rightarrow> bool option" where
  "bm_is_free ba i =
     (if block_of i < length (ba_blocks ba)
      then Some (case ba_blocks ba ! block_of i of
                   Free \<Rightarrow> True
                 | Full \<Rightarrow> False
                 | Mixed b \<Rightarrow> \<not> bit_get b (bit_in i))
      else None)"

definition bm_materialize :: "bitmap_allocator \<Rightarrow> nat \<Rightarrow> bitmap_allocator option" where
  "bm_materialize ba i =
     (if i < length (ba_blocks ba)
      then case ba_blocks ba ! i of
             Free \<Rightarrow> Some (ba\<lparr>ba_blocks := (ba_blocks ba)[i := Mixed (replicate 512 0)]\<rparr>)
           | Full \<Rightarrow> Some (ba\<lparr>ba_blocks := (ba_blocks ba)[i := Mixed (replicate 512 0xFF)]\<rparr>)
           | Mixed _ \<Rightarrow> None
      else None)"

definition bm_set_bit :: "bitmap_allocator \<Rightarrow> u64 \<Rightarrow> bitmap_allocator option" where
  "bm_set_bit ba i =
     (if length (ba_blocks ba) \<le> block_of i then None
      else if ba_blocks ba ! block_of i = Full then Some ba
      else do {
        ba \<leftarrow> (case ba_blocks ba ! block_of i of
                Mixed _ \<Rightarrow> Some ba | _ \<Rightarrow> bm_materialize ba (block_of i));
        let ba = (case ba_blocks ba ! block_of i of
                    Mixed b \<Rightarrow> ba\<lparr>ba_blocks := (ba_blocks ba)[block_of i := Mixed (bit_set b (bit_in i))]\<rparr>
                  | _ \<Rightarrow> ba);
        bm_collapse ba (block_of i) })"

definition bm_clear_bit :: "bitmap_allocator \<Rightarrow> u64 \<Rightarrow> bitmap_allocator option" where
  "bm_clear_bit ba i =
     (if length (ba_blocks ba) \<le> block_of i then None
      else if ba_blocks ba ! block_of i = Free then Some ba
      else do {
        ba \<leftarrow> (case ba_blocks ba ! block_of i of
                Mixed _ \<Rightarrow> Some ba | _ \<Rightarrow> bm_materialize ba (block_of i));
        let ba = (case ba_blocks ba ! block_of i of
                    Mixed b \<Rightarrow> ba\<lparr>ba_blocks := (ba_blocks ba)[block_of i := Mixed (bit_clear b (bit_in i))]\<rparr>
                  | _ \<Rightarrow> ba);
        bm_collapse ba (block_of i) })"

text \<open>The search: the loop over the bits of a block, and the loop over the blocks.\<close>

definition fit_bit :: "bytes \<Rightarrow> nat \<Rightarrow> nat option \<times> nat \<Rightarrow> nat \<Rightarrow> nat option \<times> nat" where
  "fit_bit b base st i =
     (if bit_get b i then (None, 0)
      else (case fst st of None \<Rightarrow> Some (base + i) | Some s \<Rightarrow> Some s, snd st + 1))"

definition fit_block :: "block_state \<Rightarrow> nat \<Rightarrow> nat option \<times> nat \<Rightarrow> nat option \<times> nat" where
  "fit_block s i st =
     (case s of
        Free \<Rightarrow>
          (case fst st of None \<Rightarrow> Some (i * BITS_PER_BLOCK) | Some x \<Rightarrow> Some x,
           snd st + BITS_PER_BLOCK)
      | Full \<Rightarrow> (None, 0)
      | Mixed b \<Rightarrow> foldl (fit_bit b (i * BITS_PER_BLOCK)) st [0..<BITS_PER_BLOCK])"

primrec fit_loop :: "nat \<Rightarrow> block_state list \<Rightarrow> nat \<Rightarrow> nat option \<times> nat \<Rightarrow> nat option" where
  "fit_loop cnt [] i st = None"
| "fit_loop cnt (s # ss) i st =
     (let st' = fit_block s i st
      in if cnt \<le> snd st' then fst st' else fit_loop cnt ss (Suc i) st')"

definition find_first_fit :: "bitmap_allocator \<Rightarrow> u64 \<Rightarrow> nat option" where
  "find_first_fit ba cnt =
     (if cnt = 0 then None else fit_loop (unat cnt) (ba_blocks ba) 0 (None, 0))"

primrec bm_set_bits :: "bitmap_allocator \<Rightarrow> u64 list \<Rightarrow> bitmap_allocator option" where
  "bm_set_bits ba [] = Some ba"
| "bm_set_bits ba (i # is) = do { ba \<leftarrow> bm_set_bit ba i; bm_set_bits ba is }"

primrec bm_clear_bits :: "bitmap_allocator \<Rightarrow> u64 list \<Rightarrow> bitmap_allocator option" where
  "bm_clear_bits ba [] = Some ba"
| "bm_clear_bits ba (i # is) = do { ba \<leftarrow> bm_clear_bit ba i; bm_clear_bits ba is }"

definition bm_alloc :: "bitmap_allocator \<Rightarrow> u64 \<Rightarrow> (bitmap_allocator \<times> u64 option) option" where
  "bm_alloc ba cnt =
     (case find_first_fit ba cnt of
        None \<Rightarrow> Some (ba, None)
      | Some start \<Rightarrow> do {
          ba' \<leftarrow> bm_set_bits ba (map (\<lambda>x. x + word_of_nat start) (upto_excl 0 cnt));
          Some (ba', Some (word_of_nat start + ba_data_start ba)) })"

definition bm_free :: "bitmap_allocator \<Rightarrow> u64 \<Rightarrow> u64 \<Rightarrow> bitmap_allocator option" where
  "bm_free ba start cnt =
     bm_clear_bits ba (map (\<lambda>x. x + (start - ba_data_start ba)) (upto_excl 0 cnt))"

definition bm_reserve_from :: "bitmap_allocator \<Rightarrow> u64 \<Rightarrow> bitmap_allocator option" where
  "bm_reserve_from ba lba =
     (case checked_sub lba (ba_data_start ba) of
        None \<Rightarrow> Some ba
      | Some start_bit \<Rightarrow>
          bm_set_bits ba
            (map word_of_nat
              [unat (start_bit + 1)..<length (ba_blocks ba) * BITS_PER_BLOCK]))"

text \<open>The bytes \<^verbatim>\<open>sync\<close> writes for a bitmap block.\<close>

definition block_raw :: "block_state \<Rightarrow> bytes" where
  "block_raw s =
     (case s of Free \<Rightarrow> replicate 512 0 | Full \<Rightarrow> replicate 512 0xFF | Mixed b \<Rightarrow> b)"

section \<open>Abstraction and invariant\<close>

definition state_used :: "block_state \<Rightarrow> nat \<Rightarrow> bool" where
  "state_used s i = bit_get (block_raw s) i"

definition bit_count :: "bitmap_allocator \<Rightarrow> nat" where
  "bit_count ba = length (ba_blocks ba) * 4096"

definition used :: "bitmap_allocator \<Rightarrow> nat \<Rightarrow> bool" where
  "used ba i = (i < bit_count ba \<longrightarrow> state_used (ba_blocks ba ! (i div 4096)) (i mod 4096))"

definition state_ok :: "block_state \<Rightarrow> bool" where
  "state_ok s = (length (block_raw s) = 512 \<and> collapse_state s = s)"

definition bitmap_ok :: "bitmap_allocator \<Rightarrow> bool" where
  "bitmap_ok ba \<longleftrightarrow> list_all state_ok (ba_blocks ba) \<and> bit_count ba < 2 ^ 64"

subsection \<open>Bits of bytes\<close>

lemma bit_get_bit: "bit_get b i = bit (b ! (i div 8)) (i mod 8)"
  by (simp add: bit_get_def and_one_eq bit_iff_odd_drop_bit odd_iff_mod_2_eq_one)

lemma length_bit_set [simp]: "length (bit_set b i) = length b"
  and length_bit_clear [simp]: "length (bit_clear b i) = length b"
  by (simp_all add: bit_set_def bit_clear_def)

lemma div_mod_8_eq: "i div 8 = j div 8 \<and> i mod 8 = j mod 8 \<longleftrightarrow> i = (j::nat)"
  by (metis mult_div_mod_eq)

lemma bit_get_set:
  "i < length b * 8 \<Longrightarrow> j < length b * 8 \<Longrightarrow> bit_get (bit_set b i) j = (j = i \<or> bit_get b j)"
  using div_mod_8_eq [of i j]
  by (auto simp: bit_get_bit bit_set_def nth_list_update bit_or_iff bit_exp_iff
        less_mult_imp_div_less)

lemma bit_get_clear:
  "i < length b * 8 \<Longrightarrow> j < length b * 8 \<Longrightarrow> bit_get (bit_clear b i) j = (j \<noteq> i \<and> bit_get b j)"
  using div_mod_8_eq [of i j]
  by (auto simp: bit_get_bit bit_clear_def nth_list_update bit_and_iff bit_not_iff
        bit_exp_iff less_mult_imp_div_less)

lemma bytes_eq_bits:
  assumes "length b = length c" and "\<And>i. i < length b * 8 \<Longrightarrow> bit_get b i = bit_get c i"
  shows "b = c"
proof (rule nth_equalityI [OF assms(1)])
  fix k assume k: "k < length b"
  show "b ! k = c ! k"
  proof (rule bit_word_eqI)
    fix n assume "n < LENGTH(8)"
    then have n: "n < 8" by simp
    then have "(k * 8 + n) div 8 = k" "(k * 8 + n) mod 8 = n" "k * 8 + n < length b * 8"
      using k by auto
    then show "bit (b ! k) n = bit (c ! k) n" using assms(2) [of "k * 8 + n"] by (simp add: bit_get_bit)
  qed
qed

subsection \<open>The states of a block\<close>

lemma all_eq_replicate: "list_all (\<lambda>x. x = c) xs \<longleftrightarrow> xs = replicate (length xs) c"
  by (induction xs) auto

lemma block_raw_collapse: "length (block_raw s) = 512 \<Longrightarrow> block_raw (collapse_state s) = block_raw s"
  by (cases s) (auto simp: collapse_state_def block_raw_def all_eq_replicate)

lemma collapse_idem: "collapse_state (collapse_state s) = collapse_state s"
  by (cases s) (auto simp: collapse_state_def)

lemma state_ok_collapse: "length b = 512 \<Longrightarrow> state_ok (collapse_state (Mixed b))"
  by (simp add: state_ok_def collapse_idem block_raw_collapse [of "Mixed b"] block_raw_def [of "Mixed b"])

lemma block_raw_length: "state_ok s \<Longrightarrow> length (block_raw s) = 512"
  by (simp add: state_ok_def)

lemma collapse_raw: "state_ok s \<Longrightarrow> collapse_state (Mixed (block_raw s)) = s"
  by (cases s) (simp_all add: state_ok_def block_raw_def collapse_state_def list_all_iff)

lemma state_eq_bits:
  assumes "state_ok s" and "state_ok t" and "\<And>i. i < 4096 \<Longrightarrow> state_used s i = state_used t i"
  shows "s = t"
proof -
  have "block_raw s = block_raw t"
    using assms by (intro bytes_eq_bits) (simp_all add: state_ok_def state_used_def)
  then show ?thesis using assms(1,2) collapse_raw by metis
qed

lemma bitmap_state_ok:
  "bitmap_ok ba \<Longrightarrow> i < length (ba_blocks ba) \<Longrightarrow> state_ok (ba_blocks ba ! i)"
  by (simp add: bitmap_ok_def list_all_length)

text \<open>The representation is canonical: the bits determine the table.\<close>

lemma bitmap_eqI:
  assumes "bitmap_ok a" and "bitmap_ok b" and "ba_data_start a = ba_data_start b"
    and "length (ba_blocks a) = length (ba_blocks b)"
    and "\<And>i. i < bit_count a \<Longrightarrow> used a i = used b i"
  shows "a = (b :: bitmap_allocator)"
proof -
  have "ba_blocks a ! k = ba_blocks b ! k" if k: "k < length (ba_blocks a)" for k
  proof (rule state_eq_bits)
    show "state_ok (ba_blocks a ! k)" "state_ok (ba_blocks b ! k)"
      using assms k bitmap_state_ok by auto
    fix i :: nat assume i: "i < 4096"
    have "Suc k * 4096 \<le> length (ba_blocks a) * 4096" using k by (intro mult_le_mono1) simp
    then have "k * 4096 + i < bit_count a" using i by (simp add: bit_count_def)
    moreover from this have "k * 4096 + i < bit_count b" using assms(4) by (simp add: bit_count_def)
    moreover have "(k * 4096 + i) div 4096 = k" "(k * 4096 + i) mod 4096 = i" using i by auto
    ultimately show "state_used (ba_blocks a ! k) i = state_used (ba_blocks b ! k) i"
      using assms(5) [of "k * 4096 + i"] by (simp add: used_def)
  qed
  then have "ba_blocks a = ba_blocks b" using assms(4) by (simp add: nth_equalityI)
  with assms(3) show ?thesis by simp
qed

subsection \<open>Setting and clearing\<close>

definition put_raw :: "bitmap_allocator \<Rightarrow> nat \<Rightarrow> bytes \<Rightarrow> bitmap_allocator" where
  "put_raw ba k b = ba\<lparr>ba_blocks := (ba_blocks ba)[k := collapse_state (Mixed b)]\<rparr>"

lemma bit_count_put [simp]: "bit_count (put_raw ba k b) = bit_count ba"
  and data_start_put [simp]: "ba_data_start (put_raw ba k b) = ba_data_start ba"
  and length_put [simp]: "length (ba_blocks (put_raw ba k b)) = length (ba_blocks ba)"
  by (simp_all add: put_raw_def bit_count_def)

lemma bitmap_ok_put: "bitmap_ok ba \<Longrightarrow> length b = 512 \<Longrightarrow> bitmap_ok (put_raw ba k b)"
  using state_ok_collapse [of b] set_update_subset_insert [of "ba_blocks ba" k "collapse_state (Mixed b)"]
  by (auto simp: bitmap_ok_def put_raw_def bit_count_def list_all_iff)

lemma used_put:
  assumes "length b = 512" and "k < length (ba_blocks ba)" and "i < bit_count ba"
  shows "used (put_raw ba k b) i = (if i div 4096 = k then bit_get b (i mod 4096) else used ba i)"
  using assms block_raw_collapse [of "Mixed b"]
  by (simp add: used_def put_raw_def bit_count_def state_used_def nth_list_update)
     (simp add: block_raw_def)

lemma block_of_less: "block_of i < length (ba_blocks ba) \<longleftrightarrow> unat i < bit_count ba"
  by (simp add: block_of_def BITS_PER_BLOCK_def bit_count_def less_mult_imp_div_less div_less_iff_less_mult)

lemma put_raw_same: "state_ok (ba_blocks ba ! k) \<Longrightarrow> k < length (ba_blocks ba) \<Longrightarrow>
    put_raw ba k (block_raw (ba_blocks ba ! k)) = ba"
  by (simp add: put_raw_def collapse_raw)

lemma bit_set_full: "length b = 512 \<Longrightarrow> i < 4096 \<Longrightarrow> bit_get b i \<Longrightarrow> bit_set b i = b"
  by (rule bytes_eq_bits) (auto simp: bit_get_set)

lemma bit_clear_free: "length b = 512 \<Longrightarrow> i < 4096 \<Longrightarrow> \<not> bit_get b i \<Longrightarrow> bit_clear b i = b"
  by (rule bytes_eq_bits) (auto simp: bit_get_clear)

lemma bit_get_replicate: "i < 4096 \<Longrightarrow> bit_get (replicate 512 0) i = False"
  "i < 4096 \<Longrightarrow> bit_get (replicate 512 0xFF) i = True"
proof -
  assume i: "i < 4096"
  then have "i div 8 < 512" by (simp add: less_mult_imp_div_less)
  moreover have "bit (0xFF :: u8) (i mod 8)"
  proof -
    have "(0xFF :: u8) = mask 8" by (simp add: mask_eq_exp_minus_1)
    then show ?thesis by (simp only: bit_mask_iff) simp
  qed
  ultimately show "bit_get (replicate 512 0) i = False" "bit_get (replicate 512 0xFF) i = True"
    by (simp_all add: bit_get_bit)
qed

lemma bm_set_bit_eq:
  assumes "bitmap_ok ba" and "unat i < bit_count ba"
  shows "bm_set_bit ba i =
    Some (put_raw ba (block_of i) (bit_set (block_raw (ba_blocks ba ! block_of i)) (bit_in i)))"
proof -
  let ?k = "block_of i"
  have k: "?k < length (ba_blocks ba)" using assms by (simp add: block_of_less)
  have so: "state_ok (ba_blocks ba ! ?k)" by (rule bitmap_state_ok [OF assms(1) k])
  have bi: "bit_in i < 4096" by (simp add: bit_in_def BITS_PER_BLOCK_def)
  show ?thesis
  proof (cases "ba_blocks ba ! ?k")
    case Full
    then have "bit_set (block_raw (ba_blocks ba ! ?k)) (bit_in i) = block_raw (ba_blocks ba ! ?k)"
      using bi by (intro bit_set_full) (simp_all add: block_raw_def bit_get_replicate)
    with Full k put_raw_same [OF so k] show ?thesis by (simp add: bm_set_bit_def)
  qed (use k in \<open>simp_all add: bm_set_bit_def bm_materialize_def bm_collapse_def put_raw_def block_raw_def\<close>)
qed

lemma bm_clear_bit_eq:
  assumes "bitmap_ok ba" and "unat i < bit_count ba"
  shows "bm_clear_bit ba i =
    Some (put_raw ba (block_of i) (bit_clear (block_raw (ba_blocks ba ! block_of i)) (bit_in i)))"
proof -
  let ?k = "block_of i"
  have k: "?k < length (ba_blocks ba)" using assms by (simp add: block_of_less)
  have so: "state_ok (ba_blocks ba ! ?k)" by (rule bitmap_state_ok [OF assms(1) k])
  have bi: "bit_in i < 4096" by (simp add: bit_in_def BITS_PER_BLOCK_def)
  show ?thesis
  proof (cases "ba_blocks ba ! ?k")
    case Free
    then have "bit_clear (block_raw (ba_blocks ba ! ?k)) (bit_in i) = block_raw (ba_blocks ba ! ?k)"
      using bi by (intro bit_clear_free) (simp_all add: block_raw_def bit_get_replicate)
    with Free k put_raw_same [OF so k] show ?thesis by (simp add: bm_clear_bit_def)
  qed (use k in \<open>simp_all add: bm_clear_bit_def bm_materialize_def bm_collapse_def put_raw_def block_raw_def\<close>)
qed

definition bm_same :: "bitmap_allocator \<Rightarrow> bitmap_allocator \<Rightarrow> bool" where
  "bm_same a b \<longleftrightarrow> ba_data_start a = ba_data_start b \<and> length (ba_blocks a) = length (ba_blocks b)"

lemma bm_same_count: "bm_same a b \<Longrightarrow> bit_count a = bit_count b"
  by (simp add: bm_same_def bit_count_def)

lemma block_bit_eq: "i div 4096 = j div 4096 \<and> i mod 4096 = j mod 4096 \<longleftrightarrow> i = (j::nat)"
  by (metis mult_div_mod_eq)

lemma bm_set_bit_step:
  assumes "bitmap_ok ba" and "unat i < bit_count ba"
  obtains ba' where "bm_set_bit ba i = Some ba'" and "bitmap_ok ba'" and "bm_same ba' ba"
    and "\<And>j. j < bit_count ba \<Longrightarrow> used ba' j = (j = unat i \<or> used ba j)"
proof -
  let ?k = "block_of i" and ?b = "block_raw (ba_blocks ba ! block_of i)"
  have k: "?k < length (ba_blocks ba)" using assms by (simp add: block_of_less)
  have l: "length ?b = 512" by (rule block_raw_length [OF bitmap_state_ok [OF assms(1) k]])
  have u: "used (put_raw ba ?k (bit_set ?b (bit_in i))) j = (j = unat i \<or> used ba j)"
    if j: "j < bit_count ba" for j
  proof -
    have "used (put_raw ba ?k (bit_set ?b (bit_in i))) j =
        (if j div 4096 = ?k then bit_get (bit_set ?b (bit_in i)) (j mod 4096) else used ba j)"
      by (rule used_put) (use j l k in simp_all)
    then show ?thesis
      using j l block_bit_eq [of j "unat i"]
      by (auto simp: bit_get_set bit_in_def block_of_def BITS_PER_BLOCK_def used_def state_used_def)
  qed
  show ?thesis
  proof (rule that [OF bm_set_bit_eq [OF assms] bitmap_ok_put [OF assms(1)] _ u])
    show "length (bit_set ?b (bit_in i)) = 512" by (simp add: l)
    show "bm_same (put_raw ba ?k (bit_set ?b (bit_in i))) ba" by (simp add: bm_same_def)
  qed
qed

lemma bm_clear_bit_step:
  assumes "bitmap_ok ba" and "unat i < bit_count ba"
  obtains ba' where "bm_clear_bit ba i = Some ba'" and "bitmap_ok ba'" and "bm_same ba' ba"
    and "\<And>j. j < bit_count ba \<Longrightarrow> used ba' j = (j \<noteq> unat i \<and> used ba j)"
proof -
  let ?k = "block_of i" and ?b = "block_raw (ba_blocks ba ! block_of i)"
  have k: "?k < length (ba_blocks ba)" using assms by (simp add: block_of_less)
  have l: "length ?b = 512" by (rule block_raw_length [OF bitmap_state_ok [OF assms(1) k]])
  have u: "used (put_raw ba ?k (bit_clear ?b (bit_in i))) j = (j \<noteq> unat i \<and> used ba j)"
    if j: "j < bit_count ba" for j
  proof -
    have "used (put_raw ba ?k (bit_clear ?b (bit_in i))) j =
        (if j div 4096 = ?k then bit_get (bit_clear ?b (bit_in i)) (j mod 4096) else used ba j)"
      by (rule used_put) (use j l k in simp_all)
    then show ?thesis
      using j l block_bit_eq [of j "unat i"]
      by (auto simp: bit_get_clear bit_in_def block_of_def BITS_PER_BLOCK_def used_def state_used_def)
  qed
  show ?thesis
  proof (rule that [OF bm_clear_bit_eq [OF assms] bitmap_ok_put [OF assms(1)] _ u])
    show "length (bit_clear ?b (bit_in i)) = 512" by (simp add: l)
    show "bm_same (put_raw ba ?k (bit_clear ?b (bit_in i))) ba" by (simp add: bm_same_def)
  qed
qed

lemma bm_set_bits_step:
  assumes "bitmap_ok ba" and "\<And>i. i \<in> set is \<Longrightarrow> unat i < bit_count ba"
  obtains ba' where "bm_set_bits ba is = Some ba'" and "bitmap_ok ba'" and "bm_same ba' ba"
    and "\<And>j. j < bit_count ba \<Longrightarrow> used ba' j = (j \<in> unat ` set is \<or> used ba j)"
  using assms
proof (induction "is" arbitrary: ba thesis)
  case Nil
  then show ?case by (auto simp: bm_same_def)
next
  case (Cons i "is")
  obtain b1 where b1: "bm_set_bit ba i = Some b1" "bitmap_ok b1" "bm_same b1 ba"
    "\<And>j. j < bit_count ba \<Longrightarrow> used b1 j = (j = unat i \<or> used ba j)"
    using bm_set_bit_step [of ba i] Cons.prems by auto
  have c: "bit_count b1 = bit_count ba" by (rule bm_same_count [OF b1(3)])
  obtain b2 where b2: "bm_set_bits b1 is = Some b2" "bitmap_ok b2" "bm_same b2 b1"
    "\<And>j. j < bit_count b1 \<Longrightarrow> used b2 j = (j \<in> unat ` set is \<or> used b1 j)"
    using Cons.IH [of b1] Cons.prems(3) b1(2) c by auto
  show ?case
    by (rule Cons.prems(1) [of b2]) (use b1 b2 c in \<open>auto simp: bm_same_def\<close>)
qed

lemma bm_clear_bits_step:
  assumes "bitmap_ok ba" and "\<And>i. i \<in> set is \<Longrightarrow> unat i < bit_count ba"
  obtains ba' where "bm_clear_bits ba is = Some ba'" and "bitmap_ok ba'" and "bm_same ba' ba"
    and "\<And>j. j < bit_count ba \<Longrightarrow> used ba' j = (j \<notin> unat ` set is \<and> used ba j)"
  using assms
proof (induction "is" arbitrary: ba thesis)
  case Nil
  then show ?case by (auto simp: bm_same_def)
next
  case (Cons i "is")
  obtain b1 where b1: "bm_clear_bit ba i = Some b1" "bitmap_ok b1" "bm_same b1 ba"
    "\<And>j. j < bit_count ba \<Longrightarrow> used b1 j = (j \<noteq> unat i \<and> used ba j)"
    using bm_clear_bit_step [of ba i] Cons.prems by auto
  have c: "bit_count b1 = bit_count ba" by (rule bm_same_count [OF b1(3)])
  obtain b2 where b2: "bm_clear_bits b1 is = Some b2" "bitmap_ok b2" "bm_same b2 b1"
    "\<And>j. j < bit_count b1 \<Longrightarrow> used b2 j = (j \<notin> unat ` set is \<and> used b1 j)"
    using Cons.IH [of b1] Cons.prems(3) b1(2) c by auto
  show ?case
    by (rule Cons.prems(1) [of b2]) (use b1 b2 c in \<open>auto simp: bm_same_def\<close>)
qed

section \<open>The search\<close>

text \<open>\<open>ends_run u p r\<close>: the run of clear bits that ends before bit \<open>p\<close> has length \<open>r\<close>.\<close>

definition ends_run :: "(nat \<Rightarrow> bool) \<Rightarrow> nat \<Rightarrow> nat \<Rightarrow> bool" where
  "ends_run u p r \<longleftrightarrow>
     r \<le> p \<and> (\<forall>i. p - r \<le> i \<and> i < p \<longrightarrow> \<not> u i) \<and> (r < p \<longrightarrow> u (p - r - 1))"

definition fit_state :: "(nat \<Rightarrow> bool) \<Rightarrow> nat \<Rightarrow> nat option \<times> nat \<Rightarrow> bool" where
  "fit_state u p st \<longleftrightarrow>
     ends_run u p (snd st) \<and> fst st = (if snd st = 0 then None else Some (p - snd st))"

lemma ends_run_used: "u p \<Longrightarrow> ends_run u (Suc p) 0"
  by (auto simp: ends_run_def)

lemma ends_run_clear: "\<not> u p \<Longrightarrow> ends_run u p r \<Longrightarrow> ends_run u (Suc p) (Suc r)"
  by (auto simp: ends_run_def less_Suc_eq)

lemma ends_run_add:
  assumes "ends_run u p r" and "\<And>j. j < n \<Longrightarrow> \<not> u (p + j)"
  shows "ends_run u (p + n) (r + n)"
  using assms(2)
proof (induction n)
  case 0
  with assms(1) show ?case by simp
next
  case (Suc n)
  then show ?case using ends_run_clear [of u "p + n" "r + n"] by simp
qed

lemma ends_run_unique: "ends_run u p r \<Longrightarrow> ends_run u p r' \<Longrightarrow> r = r'"
proof (induction r r' rule: linorder_wlog)
  case (le r r')
  show ?case
  proof (rule ccontr)
    assume "r \<noteq> r'"
    with le have "r < r'" "r' \<le> p" by (auto simp: ends_run_def)
    then have "u (p - r - 1)" "p - r' \<le> p - r - 1" "p - r - 1 < p" using le by (auto simp: ends_run_def)
    then show False using le(3) by (auto simp: ends_run_def)
  qed
next
  case (sym r r')
  then show ?case by simp
qed

lemma fit_bits_step:
  assumes "fit_state u p st" and "n \<le> 4096"
    and "\<And>j. j < n \<Longrightarrow> u (p + j) = bit_get b j"
  shows "fit_state u (p + n) (foldl (fit_bit b p) st [0..<n])"
  using assms(2,3)
proof (induction n)
  case 0
  with assms(1) show ?case by simp
next
  case (Suc n)
  define st' where "st' = foldl (fit_bit b p) st [0..<n]"
  have I: "fit_state u (p + n) st'" using Suc by (simp add: st'_def)
  have e: "foldl (fit_bit b p) st [0..<Suc n] = fit_bit b p st' n" by (simp add: st'_def)
  show ?case
  proof (cases "bit_get b n")
    case True
    then show ?thesis
      unfolding e using Suc.prems(2) [of n] ends_run_used [of u "p + n"]
      by (simp add: fit_bit_def fit_state_def)
  next
    case False
    then have "ends_run u (Suc (p + n)) (Suc (snd st'))"
      using Suc.prems(2) [of n] I by (intro ends_run_clear) (auto simp: fit_state_def)
    then show ?thesis unfolding e using False I by (auto simp: fit_bit_def fit_state_def)
  qed
qed

lemma fit_block_step:
  assumes "fit_state u (i * 4096) st" and "state_ok s"
    and "\<And>j. j < 4096 \<Longrightarrow> u (i * 4096 + j) = state_used s j"
  shows "fit_state u (Suc i * 4096) (fit_block s i st)"
proof (cases s)
  case Free
  then have "ends_run u (i * 4096 + 4096) (snd st + 4096)"
    using assms by (intro ends_run_add) (auto simp: fit_state_def state_used_def block_raw_def bit_get_replicate)
  then show ?thesis
    using Free assms(1) by (auto simp: fit_block_def fit_state_def BITS_PER_BLOCK_def ends_run_def)
next
  case Full
  then have "u (i * 4096 + 4095)"
    using assms(3) [of 4095] by (simp add: state_used_def block_raw_def bit_get_replicate)
  then have "ends_run u (Suc (i * 4096 + 4095)) 0" by (rule ends_run_used)
  then show ?thesis using Full by (simp add: fit_block_def fit_state_def)
next
  case (Mixed b)
  then show ?thesis
    using fit_bits_step [OF assms(1), of 4096 b] assms(3)
    by (simp add: fit_block_def BITS_PER_BLOCK_def state_used_def block_raw_def add.commute)
qed

lemma fit_loop_spec:
  assumes "fit_state u (i * 4096) st" and "0 < cnt" and "list_all state_ok ss"
    and "\<And>k j. k < length ss \<Longrightarrow> j < 4096 \<Longrightarrow> u ((i + k) * 4096 + j) = state_used (ss ! k) j"
  shows "case fit_loop cnt ss i st of
      Some s \<Rightarrow> \<exists>k r. k < length ss \<and> ends_run u (Suc (i + k) * 4096) r \<and> cnt \<le> r \<and> s = Suc (i + k) * 4096 - r
    | None \<Rightarrow> \<forall>k r. k < length ss \<longrightarrow> ends_run u (Suc (i + k) * 4096) r \<longrightarrow> r < cnt"
  using assms(1,3,4)
proof (induction ss arbitrary: i st)
  case Nil
  then show ?case by simp
next
  case (Cons s ss)
  have st': "fit_state u (Suc i * 4096) (fit_block s i st)"
    using Cons.prems(1,2) Cons.prems(3) [of 0] by (intro fit_block_step) simp_all
  show ?case
  proof (cases "cnt \<le> snd (fit_block s i st)")
    case True
    then have "fit_loop cnt (s # ss) i st = Some (Suc i * 4096 - snd (fit_block s i st))"
      using st' assms(2) by (simp add: fit_state_def)
    moreover have "ends_run u (Suc (i + 0) * 4096) (snd (fit_block s i st))"
      using st' by (simp add: fit_state_def)
    ultimately show ?thesis
      using True by (simp del: fit_loop.simps)
         (rule exI [of _ "0 :: nat"], auto)
  next
    case False
    have ih: "case fit_loop cnt ss (Suc i) (fit_block s i st) of
        Some s \<Rightarrow> \<exists>k r. k < length ss \<and> ends_run u (Suc (Suc i + k) * 4096) r \<and> cnt \<le> r \<and> s = Suc (Suc i + k) * 4096 - r
      | None \<Rightarrow> \<forall>k r. k < length ss \<longrightarrow> ends_run u (Suc (Suc i + k) * 4096) r \<longrightarrow> r < cnt"
    proof (rule Cons.IH [OF st'])
      show "list_all state_ok ss" using Cons.prems(2) by simp
      show "u ((Suc i + k) * 4096 + j) = state_used (ss ! k) j" if "k < length ss" "j < 4096" for k j
        using Cons.prems(3) [of "Suc k" j] that by simp
    qed
    have loop: "fit_loop cnt (s # ss) i st = fit_loop cnt ss (Suc i) (fit_block s i st)"
      using False by simp
    show ?thesis
    proof (cases "fit_loop cnt ss (Suc i) (fit_block s i st)")
      case None
      have "r < cnt" if "k < length (s # ss)" "ends_run u (Suc (i + k) * 4096) r" for k r
      proof (cases k)
        case 0
        then have "r = snd (fit_block s i st)"
          using that(2) st' ends_run_unique by (auto simp: fit_state_def)
        with False show ?thesis by simp
      next
        case (Suc k')
        then show ?thesis using that ih None by simp
      qed
      then show ?thesis unfolding loop None by simp
    next
      case (Some x)
      then obtain k r where "k < length ss" "ends_run u (Suc (Suc i + k) * 4096) r" "cnt \<le> r"
        "x = Suc (Suc i + k) * 4096 - r" using ih by auto
      then show ?thesis unfolding loop Some by simp (rule exI [of _ "Suc k"], auto)
    qed
  qed
qed

section \<open>Allocation\<close>

lemma find_first_fit_spec:
  assumes "bitmap_ok ba" and "0 < unat cnt"
  shows "case find_first_fit ba cnt of
      Some s \<Rightarrow> \<exists>k r. k < length (ba_blocks ba) \<and> ends_run (used ba) (Suc k * 4096) r \<and> unat cnt \<le> r \<and> s = Suc k * 4096 - r
    | None \<Rightarrow> \<forall>k r. k < length (ba_blocks ba) \<longrightarrow> ends_run (used ba) (Suc k * 4096) r \<longrightarrow> r < unat cnt"
proof -
  have "used ba ((0 + k) * 4096 + j) = state_used (ba_blocks ba ! k) j"
    if "k < length (ba_blocks ba)" "j < 4096" for k j
  proof -
    have "Suc k * 4096 \<le> length (ba_blocks ba) * 4096" using that by (intro mult_le_mono1) simp
    then show ?thesis using that by (simp add: used_def bit_count_def)
  qed
  moreover have "fit_state (used ba) (0 * 4096) (None, 0)" by (simp add: fit_state_def ends_run_def)
  moreover have "cnt \<noteq> 0" using assms(2) by auto
  ultimately show ?thesis
    using fit_loop_spec [of "used ba" 0 "(None, 0)" "unat cnt" "ba_blocks ba", unfolded add_0] assms
    by (simp add: find_first_fit_def bitmap_ok_def)
qed

lemma find_first_fit_clear:
  assumes "bitmap_ok ba" and "find_first_fit ba cnt = Some s"
  shows "0 < unat cnt" and "s + unat cnt \<le> bit_count ba" and "\<And>i. i < unat cnt \<Longrightarrow> \<not> used ba (s + i)"
proof -
  have c: "cnt \<noteq> 0" using assms(2) by (auto simp: find_first_fit_def)
  then show "0 < unat cnt" by (simp add: unat_gt_0)
  then obtain k r where k: "k < length (ba_blocks ba)" "ends_run (used ba) (Suc k * 4096) r"
    "unat cnt \<le> r" "s = Suc k * 4096 - r"
    using find_first_fit_spec [OF assms(1)] assms(2) by force
  have "Suc k * 4096 \<le> length (ba_blocks ba) * 4096" using k(1) by (intro mult_le_mono1) simp
  then show "s + unat cnt \<le> bit_count ba" using k(2-4) by (auto simp: ends_run_def bit_count_def)
  fix i assume "i < unat cnt"
  moreover have "r \<le> Suc k * 4096" using k(2) by (simp add: ends_run_def)
  ultimately have "Suc k * 4096 - r \<le> s + i" "s + i < Suc k * 4096" using k(3,4) by linarith+
  then show "\<not> used ba (s + i)" using k(2) unfolding ends_run_def by blast
qed

lemma shifted_range:
  assumes "s + unat cnt < 2 ^ 64"
  shows "unat ` set (map (\<lambda>x :: u64. x + word_of_nat s) (upto_excl 0 cnt)) = {s..<s + unat cnt}"
proof -
  have "unat (word_of_nat k + word_of_nat s :: u64) = k + s" if "k < unat cnt" for k
    using that assms by (intro unat_addI) (simp_all add: unat_of_nat)
  then have "(\<lambda>k. unat (word_of_nat k + word_of_nat s :: u64)) ` {0..<unat cnt} = (\<lambda>k. k + s) ` {0..<unat cnt}"
    by (intro image_cong) simp_all
  then show ?thesis by (simp add: upto_excl_def image_image image_add_atLeastLessThan' add.commute)
qed

lemma bm_alloc_step:
  assumes ok: "bitmap_ok ba"
  obtains (full) "bm_alloc ba cnt = Some (ba, None)" and "find_first_fit ba cnt = None"
  | (found) ba' s where "bm_alloc ba cnt = Some (ba', Some (word_of_nat s + ba_data_start ba))"
      and "find_first_fit ba cnt = Some s"
      and "bitmap_ok ba'" and "bm_same ba' ba"
      and "\<And>j. j < bit_count ba \<Longrightarrow> used ba' j = (j \<in> {s..<s + unat cnt} \<or> used ba j)"
proof (cases "find_first_fit ba cnt")
  case None
  then show ?thesis by (intro full) (simp_all add: bm_alloc_def)
next
  case (Some s)
  note f = find_first_fit_clear [OF ok Some]
  let ?is = "map (\<lambda>x :: u64. x + word_of_nat s) (upto_excl 0 cnt)"
  have r: "unat ` set ?is = {s..<s + unat cnt}"
    using f(2) ok by (intro shifted_range) (simp add: bitmap_ok_def)
  then have "unat i < bit_count ba" if "i \<in> set ?is" for i
  proof -
    have "unat i \<in> {s..<s + unat cnt}" unfolding r [symmetric] using that by (rule imageI)
    then show ?thesis using f(2) by simp
  qed
  then obtain ba' where b: "bm_set_bits ba ?is = Some ba'" "bitmap_ok ba'" "bm_same ba' ba"
    "\<And>j. j < bit_count ba \<Longrightarrow> used ba' j = (j \<in> {s..<s + unat cnt} \<or> used ba j)"
    using bm_set_bits_step [OF ok, of ?is, unfolded r] by blast
  show ?thesis
    by (rule found [of ba' s]) (use Some b in \<open>simp_all add: bm_alloc_def\<close>)
qed

lemma bm_free_step:
  assumes ok: "bitmap_ok ba"
    and st: "unat (start - ba_data_start ba) = s" and r: "s + unat cnt \<le> bit_count ba"
  obtains ba' where "bm_free ba start cnt = Some ba'" and "bitmap_ok ba'" and "bm_same ba' ba"
    and "\<And>j. j < bit_count ba \<Longrightarrow> used ba' j = (j \<notin> {s..<s + unat cnt} \<and> used ba j)"
proof -
  let ?is = "map (\<lambda>x :: u64. x + word_of_nat s) (upto_excl 0 cnt)"
  have w: "start - ba_data_start ba = word_of_nat s" by (simp flip: st)
  have i: "unat ` set ?is = {s..<s + unat cnt}"
    using r ok by (intro shifted_range) (simp add: bitmap_ok_def)
  have "unat i < bit_count ba" if "i \<in> set ?is" for i
  proof -
    have "unat i \<in> {s..<s + unat cnt}" unfolding i [symmetric] using that by (rule imageI)
    then show ?thesis using r by simp
  qed
  then obtain ba' where "bm_clear_bits ba ?is = Some ba'" "bitmap_ok ba'" "bm_same ba' ba"
    "\<And>j. j < bit_count ba \<Longrightarrow> used ba' j = (j \<notin> {s..<s + unat cnt} \<and> used ba j)"
    using bm_clear_bits_step [OF ok, of ?is, unfolded i] by blast
  then show ?thesis by (intro that [of ba']) (simp_all add: bm_free_def w)
qed

lemma bm_reserve_step:
  assumes ok: "bitmap_ok ba" and le: "ba_data_start ba \<le> lba" and lt: "lba - ba_data_start ba \<noteq> - 1"
  obtains ba' where "bm_reserve_from ba lba = Some ba'" and "bitmap_ok ba'" and "bm_same ba' ba"
    and "\<And>j. j < bit_count ba \<Longrightarrow> used ba' j = (unat (lba - ba_data_start ba) < j \<or> used ba j)"
proof -
  let ?b = "lba - ba_data_start ba"
  have u: "unat (?b + 1) = Suc (unat ?b)"
  proof -
    have "1 + ?b \<noteq> 0" using lt by (metis add_eq_0_iff)
    then show ?thesis by (metis add.commute unatSuc)
  qed
  let ?is = "map (word_of_nat :: nat \<Rightarrow> u64) [Suc (unat ?b)..<bit_count ba]"
  have i: "unat ` set ?is = {Suc (unat ?b)..<bit_count ba}"
  proof -
    have "unat (word_of_nat k :: u64) = k" if "k < bit_count ba" for k
      using that ok by (simp add: bitmap_ok_def unat_of_nat)
    then have "(\<lambda>k. unat (word_of_nat k :: u64)) ` {Suc (unat ?b)..<bit_count ba} = id ` {Suc (unat ?b)..<bit_count ba}"
      by (intro image_cong) simp_all
    then show ?thesis by (simp add: image_image)
  qed
  have "unat i < bit_count ba" if "i \<in> set ?is" for i
  proof -
    have "unat i \<in> {Suc (unat ?b)..<bit_count ba}" unfolding i [symmetric] using that by (rule imageI)
    then show ?thesis by simp
  qed
  then obtain ba' where "bm_set_bits ba ?is = Some ba'" "bitmap_ok ba'" "bm_same ba' ba"
    "\<And>j. j < bit_count ba \<Longrightarrow> used ba' j = (j \<in> {Suc (unat ?b)..<bit_count ba} \<or> used ba j)"
    using bm_set_bits_step [OF ok, of ?is, unfolded i] by blast
  then show ?thesis
    using le by (intro that [of ba'])
      (auto simp: bm_reserve_from_def checked_sub_def u bit_count_def BITS_PER_BLOCK_def)
qed

section \<open>The contract of the allocators\<close>

definition bm_inv :: "bitmap_allocator \<Rightarrow> bool" where
  "bm_inv ba \<longleftrightarrow> bitmap_ok ba \<and> unat (ba_data_start ba) + bit_count ba < 2 ^ 64"

definition free_lbas :: "bitmap_allocator \<Rightarrow> nat set" where
  "free_lbas ba = {unat (ba_data_start ba) + i |i. i < bit_count ba \<and> \<not> used ba i}"

text \<open>No single block can be allocated: the last block of every bitmap block is used.\<close>

definition no_room :: "bitmap_allocator \<Rightarrow> bool" where
  "no_room ba \<longleftrightarrow> (\<forall>k < length (ba_blocks ba). used ba (Suc k * 4096 - 1))"

lemma find_first_fit_no_room:
  assumes "bitmap_ok ba" and "find_first_fit ba 1 = None"
  shows "no_room ba"
  unfolding no_room_def
proof (intro allI impI)
  fix k assume k: "k < length (ba_blocks ba)"
  have "\<exists>r. ends_run (used ba) p r" for p
  proof (induction p)
    case (Suc p)
    then obtain r where r: "ends_run (used ba) p r" ..
    show ?case
    proof (cases "used ba p")
      case True
      then show ?thesis by (intro exI [of _ 0]) (auto simp: ends_run_def)
    next
      case False
      have "\<not> used ba i" if "Suc p - Suc r \<le> i" "i < Suc p" for i
        using that False r by (cases "i = p") (auto simp: ends_run_def)
      then show ?thesis using r by (intro exI [of _ "Suc r"]) (auto simp: ends_run_def)
    qed
  qed (auto simp: ends_run_def)
  then obtain r where r: "ends_run (used ba) (Suc k * 4096) r" ..
  then have "r = 0" using find_first_fit_spec [OF assms(1), of 1] assms(2) k by auto
  with r show "used ba (Suc k * 4096 - 1)" by (simp add: ends_run_def)
qed

definition lba_run :: "u64 \<times> u64 \<Rightarrow> nat set" where
  "lba_run r = {unat (fst r)..<unat (fst r) + unat (snd r)}"

definition lba_granted :: "bitmap_allocator \<Rightarrow> u64 \<times> u64 \<Rightarrow> bool" where
  "lba_granted ba r \<longleftrightarrow> unat (ba_data_start ba) \<le> unat (fst r) \<and>
     unat (fst r) + unat (snd r) \<le> unat (ba_data_start ba) + bit_count ba"

definition take_blocks :: "bitmap_allocator \<Rightarrow> u64 \<Rightarrow> ((u64 \<times> u64) \<times> bitmap_allocator) option" where
  "take_blocks ba cnt =
     (case bm_alloc ba cnt of Some (ba', Some s) \<Rightarrow> Some ((s, cnt), ba') | _ \<Rightarrow> None)"

definition give_blocks :: "bitmap_allocator \<Rightarrow> u64 \<times> u64 \<Rightarrow> bitmap_allocator option" where
  "give_blocks ba r = bm_free ba (fst r) (snd r)"

lemma lba_granted_same: "bm_same ba' ba \<Longrightarrow> lba_granted ba' = lba_granted ba"
  by (simp add: fun_eq_iff lba_granted_def bm_same_def bit_count_def)

lemma bm_inv_same: "bm_same ba' ba \<Longrightarrow> bitmap_ok ba' \<Longrightarrow> bm_inv ba \<Longrightarrow> bm_inv ba'"
  by (simp add: bm_inv_def bm_same_def bit_count_def)

lemma take_blocks_step:
  assumes i: "bm_inv ba" and a: "take_blocks ba cnt = Some (r, ba')"
  shows "bm_inv ba'" and "bm_same ba' ba" and "lba_granted ba' r"
    and "lba_run r \<subseteq> free_lbas ba" and "free_lbas ba' = free_lbas ba - lba_run r"
proof -
  have ok: "bitmap_ok ba" using i by (simp add: bm_inv_def)
  obtain s where s: "bm_alloc ba cnt = Some (ba', Some (word_of_nat s + ba_data_start ba))"
    "find_first_fit ba cnt = Some s" "bitmap_ok ba'" "bm_same ba' ba"
    "\<And>j. j < bit_count ba \<Longrightarrow> used ba' j = (j \<in> {s..<s + unat cnt} \<or> used ba j)"
    and r: "r = (word_of_nat s + ba_data_start ba, cnt)"
    using a by (cases rule: bm_alloc_step [OF ok, of cnt]) (auto simp: take_blocks_def)
  note f = find_first_fit_clear [OF ok s(2)]
  have b: "unat (ba_data_start ba) + bit_count ba < 2 ^ 64" using i by (simp add: bm_inv_def)
  have u: "unat (fst r) = unat (ba_data_start ba) + s"
    unfolding r fst_conv using f(2) b by (subst unat_addI [of _ s]) (simp_all add: unat_of_nat)
  have run: "lba_run r = {unat (ba_data_start ba) + s..<unat (ba_data_start ba) + s + unat cnt}"
    unfolding lba_run_def u by (simp add: r)
  show "bm_same ba' ba" by (rule s(4))
  show "bm_inv ba'" by (rule bm_inv_same [OF s(4,3) i])
  show "lba_granted ba' r" unfolding lba_granted_same [OF s(4)] lba_granted_def u using f(2) r by simp
  show "lba_run r \<subseteq> free_lbas ba"
  proof
    fix x assume "x \<in> lba_run r"
    then have "x = unat (ba_data_start ba) + (s + (x - unat (ba_data_start ba) - s))"
      "x - unat (ba_data_start ba) - s < unat cnt" by (auto simp: run)
    then show "x \<in> free_lbas ba"
      using f(2) f(3) [of "x - unat (ba_data_start ba) - s"] unfolding free_lbas_def by force
  qed
  show "free_lbas ba' = free_lbas ba - lba_run r"
    using s(4,5) by (auto simp: free_lbas_def run bm_same_def bit_count_def)
qed

lemma give_blocks_step:
  assumes i: "bm_inv ba" and g: "lba_granted ba r"
  obtains ba' where "give_blocks ba r = Some ba'" and "bm_inv ba'" and "bm_same ba' ba"
    and "free_lbas ba' = free_lbas ba \<union> lba_run r"
proof -
  let ?s = "unat (fst r) - unat (ba_data_start ba)"
  have ok: "bitmap_ok ba" using i by (simp add: bm_inv_def)
  have u: "unat (fst r - ba_data_start ba) = ?s"
    using g by (intro unat_subI) (simp_all add: lba_granted_def)
  have le: "?s + unat (snd r) \<le> bit_count ba" using g unfolding lba_granted_def by linarith
  obtain ba' where b: "bm_free ba (fst r) (snd r) = Some ba'" "bitmap_ok ba'" "bm_same ba' ba"
    "\<And>j. j < bit_count ba \<Longrightarrow> used ba' j = (j \<notin> {?s..<?s + unat (snd r)} \<and> used ba j)"
    using bm_free_step [OF ok u le] by blast
  have "free_lbas ba' = free_lbas ba \<union> lba_run r"
  proof (intro equalityI subsetI)
    fix x assume "x \<in> free_lbas ba'"
    then show "x \<in> free_lbas ba \<union> lba_run r"
      using b(3,4) g by (auto simp: free_lbas_def lba_run_def bm_same_def bit_count_def lba_granted_def)
  next
    fix x assume "x \<in> free_lbas ba \<union> lba_run r"
    then show "x \<in> free_lbas ba'"
    proof
      assume "x \<in> free_lbas ba"
      then show ?thesis using b(3,4) by (auto simp: free_lbas_def bm_same_def bit_count_def)
    next
      assume x: "x \<in> lba_run r"
      then have "x = unat (ba_data_start ba) + (x - unat (ba_data_start ba))"
        "x - unat (ba_data_start ba) < bit_count ba"
        "x - unat (ba_data_start ba) \<in> {?s..<?s + unat (snd r)}"
        using g by (auto simp: lba_run_def lba_granted_def)
      then show ?thesis
        using b(3) b(4) [of "x - unat (ba_data_start ba)"]
        unfolding free_lbas_def bm_same_def bit_count_def by force
    qed
  qed
  with b show ?thesis by (intro that [of ba']) (auto simp: give_blocks_def intro: bm_inv_same [OF _ _ i])
qed

interpretation bm: region_allocator bm_inv free_lbas take_blocks give_blocks "(=)" "\<lambda>_ _. True"
  lba_run lba_granted
proof (unfold_locales, goal_cases)
  case (1 ba q r ba')
  then show ?case using take_blocks_step by simp
next
  case (2 ba q r ba' r')
  then show ?case using take_blocks_step(2) [OF 2(1,3)] lba_granted_same by simp
next
  case (3 ba r)
  then show ?case using give_blocks_step [OF 3(1,2)] by blast
next
  case (4 ba r ba' r')
  then show ?case using give_blocks_step [OF 4(1,2)] lba_granted_same by (metis option.inject)
qed auto

text \<open>A table of a free and a full bitmap block, for the witnesses.\<close>

definition two_blocks :: bitmap_allocator where
  "two_blocks = \<lparr>ba_blocks = [Free, Full], ba_data_start = 3\<rparr>"

lemma two_blocks_inv: "bm_inv two_blocks"
  by (simp add: bm_inv_def bitmap_ok_def two_blocks_def state_ok_def block_raw_def
      collapse_state_def bit_count_def)

lemma two_blocks_alloc:
  obtains ba' where "bm_alloc two_blocks 5 = Some (ba', Some 3)"
proof -
  have ok: "bitmap_ok two_blocks" using two_blocks_inv by (simp add: bm_inv_def)
  have f: "find_first_fit two_blocks 5 = Some 0"
    by (simp add: find_first_fit_def two_blocks_def fit_block_def BITS_PER_BLOCK_def)
  show ?thesis
    by (cases rule: bm_alloc_step [OF ok, of 5]) (use f that in \<open>auto simp: two_blocks_def\<close>)
qed

section \<open>Properties\<close>

text \<open>C13. An allocation of disk blocks returns blocks the bitmap has as free and marks exactly them as used;
  when it fails it changes nothing. It succeeds exactly when some bitmap block ends with a run of at
  least \<open>cnt\<close> free blocks: the search tests the length of a run only at the end of each bitmap
  block, so a long enough run that is followed by a used block in the same bitmap block is missed.\<close>

theorem bm_alloc_correct:
  assumes "bm_inv ba" and "cnt \<noteq> 0"
  shows "\<exists>ba' res. bm_alloc ba cnt = Some (ba', res) \<and> bm_inv ba' \<and>
    (case res of
       None \<Rightarrow> ba' = ba
     | Some l \<Rightarrow> lba_run (l, cnt) \<subseteq> free_lbas ba \<and> free_lbas ba' = free_lbas ba - lba_run (l, cnt)) \<and>
    (res \<noteq> None \<longleftrightarrow>
      (\<exists>k < length (ba_blocks ba). \<exists>r. ends_run (used ba) (Suc k * 4096) r \<and> unat cnt \<le> r))"
proof -
  have ok: "bitmap_ok ba" using assms by (simp add: bm_inv_def)
  have c: "0 < unat cnt" using assms(2) by (simp add: unat_gt_0)
  note spec = find_first_fit_spec [OF ok c]
  from ok show ?thesis
  proof (cases rule: bm_alloc_step [where cnt = cnt])
    case full
    then show ?thesis using spec assms(1) by (auto simp: not_le)
  next
    case (found ba' s)
    then have t: "take_blocks ba cnt = Some ((word_of_nat s + ba_data_start ba, cnt), ba')"
      by (simp add: take_blocks_def)
    have "\<exists>k < length (ba_blocks ba). \<exists>r. ends_run (used ba) (Suc k * 4096) r \<and> unat cnt \<le> r"
      using spec found(2) by auto
    then show ?thesis using take_blocks_step [OF assms(1) t] found(1) by auto
  qed
qed

theorem bm_alloc_correct_witness:
  "\<exists>ba' l. bm_alloc two_blocks 5 = Some (ba', Some l) \<and>
     lba_run (l, 5) \<subseteq> free_lbas two_blocks \<and> free_lbas ba' = free_lbas two_blocks - lba_run (l, 5)"
proof -
  obtain b where "bm_alloc two_blocks 5 = Some (b, Some 3)" by (rule two_blocks_alloc)
  then show ?thesis using bm_alloc_correct [OF two_blocks_inv, of 5] by auto
qed

text \<open>C14. In every history of block allocations and releases, the runs of disk blocks in use never
  overlap each other or the free ones, no block is lost, and every run in use can be released.\<close>

theorem bitmap_histories:
  assumes "alloc_run take_blocks give_blocks (=) (\<lambda>_ _. True) ba0 ba live" and "bm_inv ba0"
  shows "bm_inv ba \<and> sorted_wrt (\<lambda>r r'. lba_run r \<inter> lba_run r' = {}) live
    \<and> (\<Union>r \<in> set live. lba_run r) \<inter> free_lbas ba = {}
    \<and> free_lbas ba \<union> (\<Union>r \<in> set live. lba_run r) = free_lbas ba0
    \<and> (\<forall>r \<in> set live. \<exists>ba'. give_blocks ba r = Some ba' \<and> free_lbas ba' = free_lbas ba \<union> lba_run r)"
proof -
  have "\<forall>r \<in> set live. \<exists>ba'. give_blocks ba r = Some ba' \<and> free_lbas ba' = free_lbas ba \<union> lba_run r"
    using bm.held_release [OF assms] by blast
  then show ?thesis using bm.run_conserves [OF assms] by (simp add: bm.disjoint_regions_def)
qed

theorem bitmap_histories_witness:
  "\<exists>ba. alloc_run take_blocks give_blocks (=) (\<lambda>_ _. True) two_blocks ba [(3, 5)]
     \<and> lba_run (3, 5) \<inter> free_lbas ba = {}"
proof -
  obtain b where "bm_alloc two_blocks 5 = Some (b, Some 3)" by (rule two_blocks_alloc)
  then have "take_blocks two_blocks 5 = Some ((3, 5), b)" by (simp add: take_blocks_def)
  then have "alloc_run take_blocks give_blocks (=) (\<lambda>_ _. True) two_blocks b [(3, 5)]"
    by (intro run_single) simp_all
  then show ?thesis using bitmap_histories [OF _ two_blocks_inv, of b "[(3, 5)]"] by auto
qed

text \<open>C15. Releasing what was just allocated gives back the very same table of bitmap blocks: the
  representation (\<open>Free\<close>, \<open>Full\<close>, \<open>Mixed\<close>) is canonical after every operation.\<close>

theorem bm_alloc_free_roundtrip:
  assumes "bm_inv ba" and "bm_alloc ba cnt = Some (ba', Some l)"
  shows "bm_free ba' l cnt = Some ba"
proof -
  have t: "take_blocks ba cnt = Some ((l, cnt), ba')" using assms(2) by (simp add: take_blocks_def)
  note s = take_blocks_step [OF assms(1) t]
  obtain b where b: "give_blocks ba' (l, cnt) = Some b" "bm_inv b" "bm_same b ba'"
    "free_lbas b = free_lbas ba' \<union> lba_run (l, cnt)"
    by (rule give_blocks_step [OF s(1,3)])
  have fl: "free_lbas b = free_lbas ba" using b(4) s(4,5) by blast
  have sm: "bm_same b ba" using b(3) s(2) by (simp add: bm_same_def)
  have "b = ba"
  proof (rule bitmap_eqI)
    fix i assume "i < bit_count b"
    then have "(unat (ba_data_start ba) + i \<in> free_lbas b) = (\<not> used b i)"
      "(unat (ba_data_start ba) + i \<in> free_lbas ba) = (\<not> used ba i)"
      using sm by (auto simp: free_lbas_def bm_same_def bit_count_def)
    then show "used b i = used ba i" using fl by simp
  qed (use b(2) assms(1) sm in \<open>auto simp: bm_inv_def bm_same_def\<close>)
  then show ?thesis using b(1) by (simp add: give_blocks_def)
qed

theorem bm_alloc_free_roundtrip_witness:
  "\<exists>ba'. bm_alloc two_blocks 5 = Some (ba', Some 3) \<and> bm_free ba' 3 5 = Some two_blocks"
proof -
  obtain b where "bm_alloc two_blocks 5 = Some (b, Some 3)" by (rule two_blocks_alloc)
  then show ?thesis using bm_alloc_free_roundtrip [OF two_blocks_inv] by blast
qed

text \<open>C16. The free space of the last bitmap block is never handed out once its last bit is reserved,
  as it is for every formatted partition; with a single bitmap block every allocation fails.\<close>

theorem last_bitmap_block_unused:
  assumes "bm_inv ba" and "ba_blocks ba \<noteq> []" and "used ba (bit_count ba - 1)"
    and "bm_alloc ba cnt = Some (ba', Some l)"
  shows "unat l + unat cnt \<le> unat (ba_data_start ba) + (bit_count ba - 4096)"
proof -
  have ok: "bitmap_ok ba" using assms by (simp add: bm_inv_def)
  obtain s where s: "find_first_fit ba cnt = Some s" "l = word_of_nat s + ba_data_start ba"
    using assms(4) by (cases rule: bm_alloc_step [OF ok, of cnt]) auto
  note f = find_first_fit_clear [OF ok s(1)]
  obtain k r where k: "k < length (ba_blocks ba)" "ends_run (used ba) (Suc k * 4096) r"
    "unat cnt \<le> r" "s = Suc k * 4096 - r"
    using find_first_fit_spec [OF ok f(1)] s(1) by auto
  have "Suc k \<noteq> length (ba_blocks ba)"
  proof
    assume "Suc k = length (ba_blocks ba)"
    then have "Suc k * 4096 = Suc (bit_count ba - 1)" by (simp add: bit_count_def)
    then have "ends_run (used ba) (Suc k * 4096) 0"
      using assms(3) by (simp only: ends_run_used [of "used ba" "bit_count ba - 1"])
    then have "r = 0" using k(2) by (rule ends_run_unique [symmetric])
    with k(3) f(1) show False by simp
  qed
  then have "Suc (Suc k) * 4096 \<le> length (ba_blocks ba) * 4096" using k(1) by (intro mult_le_mono1) simp
  then have "Suc k * 4096 \<le> bit_count ba - 4096" by (simp add: bit_count_def)
  moreover have "s + unat cnt \<le> Suc k * 4096" using k(2-4) by (auto simp: ends_run_def)
  moreover have "unat l = unat (ba_data_start ba) + s"
    unfolding s(2) using f(2) assms(1) by (subst unat_addI [of _ s]) (simp_all add: unat_of_nat bm_inv_def)
  ultimately show ?thesis by simp
qed

theorem last_bitmap_block_unused_witness:
  "\<exists>ba'. bm_alloc two_blocks 5 = Some (ba', Some 3) \<and>
     unat (3 :: u64) + unat (5 :: u64) \<le> unat (ba_data_start two_blocks) + (bit_count two_blocks - 4096)"
proof -
  obtain b where a: "bm_alloc two_blocks 5 = Some (b, Some 3)" by (rule two_blocks_alloc)
  have "used two_blocks (bit_count two_blocks - 1)"
    by (simp add: used_def two_blocks_def bit_count_def state_used_def block_raw_def bit_get_replicate)
  moreover have "ba_blocks two_blocks \<noteq> []" by (simp add: two_blocks_def)
  ultimately show ?thesis using last_bitmap_block_unused [OF two_blocks_inv _ _ a] a by blast
qed

end
