(* ===== verification/Crc.thy ===== *)
theory Crc
  imports Bytes
begin

text \<open>
  The checksums of \<^verbatim>\<open>helpers/crc.rs\<close>: CRC-32 (IEEE 802.3) and CRC-64 (XZ), computed a byte at a
  time with a table that a constant evaluates. The lemmas show that the table-driven routines
  compute the bit-serial definition of the checksum, and that they detect every corruption confined
  to as many consecutive bytes as the checksum is wide.
\<close>

section \<open>The routines\<close>

definition CRC32_POLYNOMIAL :: u32 where
  "CRC32_POLYNOMIAL = 0xEDB88320"

definition CRC64_POLYNOMIAL :: u64 where
  "CRC64_POLYNOMIAL = 0xC96C5795D7870F42"

text \<open>One turn of the inner loop of the table constants, and that loop.\<close>

definition crc_turn :: "'a::len word \<Rightarrow> 'a word \<Rightarrow> 'a word" where
  "crc_turn poly crc = (if crc AND 1 \<noteq> 0 then drop_bit 1 crc XOR poly else drop_bit 1 crc)"

definition crc_entry :: "'a::len word \<Rightarrow> 'a word \<Rightarrow> 'a word" where
  "crc_entry poly i = (crc_turn poly ^^ 8) i"

definition CRC32_TABLE :: "u32 list" where
  "CRC32_TABLE = map (\<lambda>i. crc_entry CRC32_POLYNOMIAL (word_of_nat i)) [0..<256]"

definition CRC64_TABLE :: "u64 list" where
  "CRC64_TABLE = map (\<lambda>i. crc_entry CRC64_POLYNOMIAL (word_of_nat i)) [0..<256]"

definition crc32_byte :: "u32 \<Rightarrow> u8 \<Rightarrow> u32" where
  "crc32_byte crc byte =
     (let idx = (crc XOR ucast byte) AND 0xFF
      in drop_bit 8 crc XOR CRC32_TABLE ! unat idx)"

definition crc32 :: "bytes \<Rightarrow> u32" where
  "crc32 data = foldl crc32_byte (-1) data XOR (-1)"

definition crc64_byte :: "u64 \<Rightarrow> u8 \<Rightarrow> u64" where
  "crc64_byte crc byte =
     (let idx = (crc XOR ucast byte) AND 0xFF
      in drop_bit 8 crc XOR CRC64_TABLE ! unat idx)"

definition crc64 :: "bytes \<Rightarrow> u64" where
  "crc64 data = foldl crc64_byte (-1) data XOR (-1)"

section \<open>The bit-serial definition\<close>

text \<open>
  The checksum as the standards define it: the register takes in the message one bit at a time,
  least significant bit of each byte first, and is divided by the polynomial.
\<close>

definition crc_bit :: "'a::len word \<Rightarrow> 'a word \<Rightarrow> bool \<Rightarrow> 'a word" where
  "crc_bit poly crc b =
     (if bit crc 0 \<noteq> b then drop_bit 1 crc XOR poly else drop_bit 1 crc)"

definition byte_bits :: "u8 \<Rightarrow> bool list" where
  "byte_bits b = map (bit b) [0..<8]"

definition crc_serial :: "'a::len word \<Rightarrow> bytes \<Rightarrow> 'a word" where
  "crc_serial poly data = foldl (crc_bit poly) (-1) (concat (map byte_bits data)) XOR (-1)"

section \<open>The turn of the register is linear and invertible\<close>

lemma crc_turn_bit: "crc_turn poly crc = crc_bit poly crc False"
  by (simp add: crc_turn_def crc_bit_def and_one_eq bit_0 odd_iff_mod_2_eq_one)

lemma crc_turn_xor:
  "crc_turn poly (a XOR b) = crc_turn poly a XOR crc_turn poly b"
proof -
  have "drop_bit 1 (a XOR b) = drop_bit 1 a XOR drop_bit 1 b" by (simp add: drop_bit_xor)
  then show ?thesis
    by (auto simp: crc_turn_bit crc_bit_def bit_xor_iff xor.assoc xor.left_commute)
       (simp_all add: xor.commute xor.left_commute)
qed

lemma crc_turns_xor:
  "(crc_turn poly ^^ n) (a XOR b) = (crc_turn poly ^^ n) a XOR (crc_turn poly ^^ n) b"
  by (induction n) (simp_all add: crc_turn_xor)

lemma crc_turn_even: "\<not> bit a 0 \<Longrightarrow> crc_turn poly a = drop_bit 1 a"
  by (simp add: crc_turn_bit crc_bit_def)

lemma crc_turns_shift:
  "(\<And>i. i < n \<Longrightarrow> \<not> bit a i) \<Longrightarrow> (crc_turn poly ^^ n) a = drop_bit n a"
proof (induction n)
  case 0
  show ?case by simp
next
  case (Suc n)
  then have "(crc_turn poly ^^ n) a = drop_bit n a" by simp
  moreover have "\<not> bit (drop_bit n a) 0" using Suc.prems [of n] by (simp add: bit_drop_bit_eq)
  ultimately show ?case by (simp add: crc_turn_even drop_bit_drop_bit add.commute)
qed

lemma crc_turn_inject:
  assumes top: "bit poly (LENGTH('a) - 1)"
  shows "crc_turn poly a = crc_turn poly (b :: 'a::len word) \<Longrightarrow> a = b"
proof -
  assume eq: "crc_turn poly a = crc_turn poly b"
  define c where "c = a XOR b"
  have z: "crc_turn poly c = 0" using eq by (simp add: c_def crc_turn_xor)
  have "\<not> bit c 0"
  proof
    assume "bit c 0"
    then have "bit (crc_turn poly c) (LENGTH('a) - 1)"
      using top by (simp add: crc_turn_bit crc_bit_def bit_xor_iff bit_drop_bit_eq impossible_bit)
    with z show False by simp
  qed
  then have "drop_bit 1 c = 0" using z by (simp add: crc_turn_even)
  then have s: "\<not> bit c (Suc i)" for i
    using bit_drop_bit_eq [of 1 c] by (simp add: fun_eq_iff)
  have "a = b"
  proof (rule bit_word_eqI)
    fix i
    have "\<not> bit c i" using s \<open>\<not> bit c 0\<close> by (cases i) simp_all
    then show "bit a i = bit b i" by (simp add: c_def bit_xor_iff)
  qed
  then show "a = b" .
qed

lemma crc_turns_inject:
  assumes "bit poly (LENGTH('a) - 1)"
  shows "(crc_turn poly ^^ n) a = (crc_turn poly ^^ n) (b :: 'a::len word) \<Longrightarrow> a = b"
  by (induction n) (auto dest: crc_turn_inject [OF assms])

section \<open>A byte is eight turns\<close>

definition crc_byte :: "'a::len word \<Rightarrow> 'a word \<Rightarrow> u8 \<Rightarrow> 'a word" where
  "crc_byte poly crc byte = (crc_turn poly ^^ 8) (crc XOR ucast byte)"

lemma crc_byte_lookup:
  fixes crc :: "'a::len word"
  assumes "8 \<le> LENGTH('a)"
  shows "crc_byte poly crc byte
       = drop_bit 8 crc XOR crc_entry poly ((crc XOR ucast byte) AND mask 8)"
proof -
  define x where "x = crc XOR ucast byte"
  define hi lo where "hi = x AND NOT (mask 8)" and "lo = x AND mask 8"
  have x: "x = hi XOR lo"
    by (rule bit_word_eqI)
      (auto simp: hi_def lo_def bit_xor_iff bit_and_iff bit_not_iff bit_mask_iff)
  have "(crc_turn poly ^^ 8) hi = drop_bit 8 hi"
    by (rule crc_turns_shift) (simp add: hi_def bit_and_iff bit_not_iff bit_mask_iff)
  also have "drop_bit 8 hi = drop_bit 8 crc"
    by (rule bit_word_eqI)
      (auto simp: hi_def x_def bit_drop_bit_eq bit_and_iff bit_not_iff bit_mask_iff bit_xor_iff
        bit_ucast_iff dest: bit_imp_le_length)
  finally show ?thesis
    unfolding crc_byte_def x_def [symmetric] lo_def [symmetric]
    by (simp add: x crc_turns_xor crc_entry_def)
qed

lemma low_byte_less: "unat (x AND mask 8 :: 'a::len word) < 256"
proof -
  have "unat (x AND mask 8) = unat x mod 2 ^ 8"
    unfolding take_bit_eq_mask [symmetric] unsigned_take_bit_eq by (simp add: take_bit_eq_mod)
  then show ?thesis by simp
qed

lemma crc32_byte_turns: "crc32_byte = crc_byte CRC32_POLYNOMIAL"
proof (intro ext)
  fix crc byte
  have "(0xFF :: u32) = mask 8" by (simp add: mask_eq_exp_minus_1)
  then show "crc32_byte crc byte = crc_byte CRC32_POLYNOMIAL crc byte"
    using low_byte_less [of "crc XOR ucast byte"]
    by (simp add: crc32_byte_def crc_byte_lookup CRC32_TABLE_def Let_def)
qed

lemma crc64_byte_turns: "crc64_byte = crc_byte CRC64_POLYNOMIAL"
proof (intro ext)
  fix crc byte
  have "(0xFF :: u64) = mask 8" by (simp add: mask_eq_exp_minus_1)
  then show "crc64_byte crc byte = crc_byte CRC64_POLYNOMIAL crc byte"
    using low_byte_less [of "crc XOR ucast byte"]
    by (simp add: crc64_byte_def crc_byte_lookup CRC64_TABLE_def Let_def)
qed

lemma crc_bits_turns:
  fixes crc :: "'a::len word"
  shows "length bs \<le> LENGTH('a) \<Longrightarrow>
    foldl (crc_bit poly) crc bs =
      (crc_turn poly ^^ length bs) (crc XOR horner_sum of_bool 2 bs)"
proof (induction bs arbitrary: crc)
  case Nil
  show ?case by simp
next
  case (Cons b bs)
  define r where "r = (horner_sum of_bool 2 bs :: 'a word)"
  define s where "s = push_bit 1 r"
  have bit_s: "bit s i \<longleftrightarrow> 0 < i \<and> i < LENGTH('a) \<and> bit r (i - 1)" for i
    unfolding s_def by (auto simp: bit_push_bit_iff simp del: push_bit_of_1 simp flip: One_nat_def)
  have h: "(horner_sum of_bool 2 (b # bs) :: 'a word) = of_bool b XOR s"
    by (rule bit_word_eqI)
      (auto simp: r_def bit_horner_sum_bit_iff bit_xor_iff bit_s bit_of_bool_iff
        nth_Cons' simp del: horner_sum_simps)
  have "crc_turn poly s = drop_bit 1 s"
    by (rule crc_turn_even) (simp add: bit_s)
  also have "\<dots> = r"
  proof (rule bit_word_eqI)
    fix i assume "i < LENGTH('a)"
    then show "bit (drop_bit 1 s) i = bit r i"
      using Cons.prems
      by (auto simp: bit_drop_bit_eq bit_s r_def bit_horner_sum_bit_iff)
  qed
  finally have p: "crc_turn poly s = r" .
  have q: "crc_turn poly (crc XOR of_bool b) = crc_bit poly crc b"
    by (cases b) (auto simp: crc_turn_bit crc_bit_def bit_xor_iff drop_bit_xor bit_1_iff)
  have "crc_turn poly (crc XOR horner_sum of_bool 2 (b # bs)) = crc_bit poly crc b XOR r"
    by (simp only: h xor.assoc [symmetric] crc_turn_xor p) (simp add: crc_turn_xor [symmetric] q)
  then show ?case using Cons
    by (simp add: r_def funpow_Suc_right del: funpow.simps horner_sum_simps)
qed

lemma byte_bits_sum: "horner_sum of_bool 2 (byte_bits b) = (ucast b :: 'a::len word)"
proof (rule bit_word_eqI)
  fix i assume "i < LENGTH('a)"
  moreover have "i < 8" if "bit b i" using that bit_imp_le_length [of b i] by simp
  moreover have "byte_bits b ! i = bit b i" if "i < 8" using that by (simp add: byte_bits_def)
  moreover have "length (byte_bits b) = 8" by (simp add: byte_bits_def)
  ultimately show "bit (horner_sum of_bool 2 (byte_bits b) :: 'a word) i = bit (ucast b :: 'a word) i"
    by (auto simp: bit_horner_sum_bit_iff bit_ucast_iff)
qed

lemma crc_byte_bits:
  fixes crc :: "'a::len word"
  assumes "8 \<le> LENGTH('a)"
  shows "foldl (crc_bit poly) crc (byte_bits b) = crc_byte poly crc b"
proof -
  have "length (byte_bits b) = 8" by (simp add: byte_bits_def)
  then show ?thesis
    using assms crc_bits_turns [of "byte_bits b" poly crc]
    by (simp add: crc_byte_def byte_bits_sum)
qed

lemma crc_serial_bytes:
  assumes "8 \<le> LENGTH('a)"
  shows "crc_serial (poly :: 'a::len word) data = foldl (crc_byte poly) (-1) data XOR (-1)"
proof -
  have "foldl (crc_bit poly) crc (concat (map byte_bits data)) = foldl (crc_byte poly) crc data"
    for crc
    by (induction data arbitrary: crc) (simp_all add: crc_byte_bits [OF assms])
  then show ?thesis by (simp add: crc_serial_def)
qed

section \<open>Corruption of a burst\<close>

lemma crc_bytes_word:
  fixes crc :: "'a::len word"
  shows "8 * length bs \<le> LENGTH('a) \<Longrightarrow>
    foldl (crc_byte poly) crc bs = (crc_turn poly ^^ (8 * length bs)) (crc XOR le_word bs)"
proof (induction bs arbitrary: crc)
  case Nil
  show ?case by simp
next
  case (Cons b bs)
  define s where "s = push_bit 8 (le_word bs :: 'a word)"
  have bit_s: "bit s i \<longleftrightarrow> 8 \<le> i \<and> i < LENGTH('a) \<and> bit (le_word bs :: 'a word) (i - 8)" for i
    unfolding s_def by (auto simp: bit_push_bit_iff simp del: le_word.simps)
  have l: "(le_word (b # bs) :: 'a word) = ucast b XOR s"
    by (rule bit_word_eqI)
      (auto simp: s_def [symmetric] bit_or_iff bit_xor_iff bit_s bit_ucast_iff
        dest: bit_imp_le_length)
  have "(crc_turn poly ^^ 8) s = drop_bit 8 s"
    by (rule crc_turns_shift) (simp add: bit_s)
  also have "\<dots> = le_word bs"
  proof (rule bit_word_eqI)
    fix i assume i: "i < LENGTH('a)"
    have "8 + i < LENGTH('a)" if "bit (le_word bs :: 'a word) i"
    proof -
      have "i div 8 < length bs" using that by (simp add: bit_le_word)
      then have "i < 8 * length bs" by (simp add: div_less_iff_less_mult mult.commute)
      then show ?thesis using Cons.prems by simp
    qed
    then show "bit (drop_bit 8 s) i = bit (le_word bs :: 'a word) i"
      using i by (auto simp: bit_drop_bit_eq bit_s)
  qed
  finally have p: "(crc_turn poly ^^ 8) s = le_word bs" .
  have "(crc_turn poly ^^ 8) (crc XOR le_word (b # bs)) = crc_byte poly crc b XOR le_word bs"
    by (simp only: l xor.assoc [symmetric] crc_turns_xor p)
      (simp add: crc_turns_xor [symmetric] crc_byte_def)
  moreover have "8 * length (b # bs) = 8 * length bs + 8" by simp
  ultimately show ?case
    using Cons by (simp only: funpow_add o_apply) simp
qed

lemma crc_bytes_inject:
  fixes c c' poly :: "'a::len word"
  assumes "bit poly (LENGTH('a) - 1)"
  shows "foldl (crc_byte poly) c ys = foldl (crc_byte poly) c' ys \<Longrightarrow> c = c'"
proof (induction ys arbitrary: c c')
  case Nil
  then show ?case by simp
next
  case (Cons y ys)
  then have "crc_byte poly c y = crc_byte poly c' y" by simp
  then have "c XOR ucast y = c' XOR ucast y"
    unfolding crc_byte_def by (rule crc_turns_inject [OF assms])
  then have "(c XOR ucast y) XOR ucast y = (c' XOR ucast y) XOR ucast y" by simp
  then show ?case by (simp only: xor.assoc xor_self_eq xor.right_neutral)
qed

lemma crc_burst:
  fixes poly :: "'a::len word"
  assumes "bit poly (LENGTH('a) - 1)" and "length as = length bs" and "8 * length bs \<le> LENGTH('a)"
    and eq: "foldl (crc_byte poly) c (xs @ as @ ys) = foldl (crc_byte poly) c (xs @ bs @ ys)"
  shows "as = bs"
proof -
  define s where "s = foldl (crc_byte poly) c xs"
  have "foldl (crc_byte poly) s as = foldl (crc_byte poly) s bs"
    using eq crc_bytes_inject [OF assms(1)] by (simp add: s_def)
  then have "s XOR le_word as = s XOR le_word bs"
    using assms crc_turns_inject [OF assms(1)] by (simp add: crc_bytes_word)
  then have "s XOR (s XOR le_word as) = s XOR (s XOR le_word bs)" by simp
  then have "(le_word as :: 'a word) = le_word bs"
    by (simp only: xor.assoc [symmetric] xor_self_eq xor.left_neutral)
  then show ?thesis using assms le_word_inject by blast
qed

lemma crc_poly_top: "bit CRC32_POLYNOMIAL 31" "bit CRC64_POLYNOMIAL 63"
  by (simp_all add: CRC32_POLYNOMIAL_def CRC64_POLYNOMIAL_def bit_numeral_rec)

section \<open>Properties\<close>

lemma xor_minus_1_cancel: "(x XOR - 1 = y XOR - 1) = (x = (y :: 'a::len word))"
proof
  assume "x XOR - 1 = y XOR - 1"
  then have "(x XOR - 1) XOR - 1 = (y XOR - 1) XOR - 1" by (rule arg_cong)
  then show "x = y" by (simp only: xor.assoc xor_self_eq xor.right_neutral)
qed simp

text \<open>C5. The table-driven checksums are the bit-serial ones of the standards for every message: one
  table lookup does the work of eight divisions by the polynomial.\<close>

theorem crc_table_driven:
  "crc32 data = crc_serial CRC32_POLYNOMIAL data \<and> crc64 data = crc_serial CRC64_POLYNOMIAL data"
  by (simp add: crc32_def crc64_def crc_serial_bytes crc32_byte_turns crc64_byte_turns)

text \<open>C6. A corruption confined to four consecutive bytes always changes the CRC-32 of a message, and
  one confined to eight consecutive bytes always changes its CRC-64.\<close>

theorem crc_detects_burst:
  assumes "length as = length bs" and "as \<noteq> bs"
  shows "(length bs \<le> 4 \<longrightarrow> crc32 (xs @ as @ ys) \<noteq> crc32 (xs @ bs @ ys)) \<and>
         (length bs \<le> 8 \<longrightarrow> crc64 (xs @ as @ ys) \<noteq> crc64 (xs @ bs @ ys))"
  using crc_burst [of CRC32_POLYNOMIAL as bs] crc_burst [of CRC64_POLYNOMIAL as bs] assms crc_poly_top
  by (auto simp: crc32_def crc32_byte_turns crc64_def crc64_byte_turns xor_minus_1_cancel
      simp del: foldl_append)

theorem crc_detects_burst_witness:
  "crc32 ([1, 2] @ [3, 4, 5, 6] @ [7]) \<noteq> crc32 ([1, 2] @ [3, 4, 5, 7] @ [7])"
  using crc_detects_burst [of "[3, 4, 5, 6]" "[3, 4, 5, 7]" "[1, 2]" "[7]"] by simp

end
