(* ===== verification/Lemon_Disk.thy ===== *)
theory Lemon_Disk
  imports Effects Bytes Crc
begin

text \<open>
  The on-disk structures of LemonFS (\<^verbatim>\<open>fs/lemonfs/disk.rs\<close>), with their packed encodings, and
  its paths (\<^verbatim>\<open>fs/lemonfs/path.rs\<close>). Strings are the lists of their bytes; the structures are
  read back from exactly the bytes they are written as.
\<close>

section \<open>Strings\<close>

type_synonym str = bytes

text \<open>
  \<^verbatim>\<open>String::from_utf8_lossy_owned\<close>: bytes that are not part of a well-formed UTF-8 sequence are
  replaced by U+FFFD, one replacement for each maximal prefix of a sequence.
\<close>

definition cont :: "u8 \<Rightarrow> bool" where
  "cont b \<longleftrightarrow> 0x80 \<le> b \<and> b \<le> 0xBF"

definition second_ok :: "u8 \<Rightarrow> u8 \<Rightarrow> bool" where
  "second_ok a b \<longleftrightarrow>
     (if a = 0xE0 then 0xA0 \<le> b \<and> b \<le> 0xBF
      else if a = 0xED then 0x80 \<le> b \<and> b \<le> 0x9F
      else if a = 0xF0 then 0x90 \<le> b \<and> b \<le> 0xBF
      else if a = 0xF4 then 0x80 \<le> b \<and> b \<le> 0x8F
      else cont b)"

text \<open>The number of bytes of the first sequence and whether it is well-formed.\<close>

definition utf8_head :: "bytes \<Rightarrow> nat \<times> bool" where
  "utf8_head bs =
     (let a = bs ! 0; n = length bs in
      if a < 0x80 then (1, True)
      else if 0xC2 \<le> a \<and> a \<le> 0xDF then
        (if 1 < n \<and> cont (bs ! 1) then (2, True) else (1, False))
      else if 0xE0 \<le> a \<and> a \<le> 0xEF then
        (if 1 < n \<and> second_ok a (bs ! 1)
         then (if 2 < n \<and> cont (bs ! 2) then (3, True) else (2, False))
         else (1, False))
      else if 0xF0 \<le> a \<and> a \<le> 0xF4 then
        (if 1 < n \<and> second_ok a (bs ! 1)
         then (if 2 < n \<and> cont (bs ! 2)
               then (if 3 < n \<and> cont (bs ! 3) then (4, True) else (3, False))
               else (2, False))
         else (1, False))
      else (1, False))"

lemma utf8_head_pos: "(n, v) = utf8_head bs \<Longrightarrow> 0 < n"
  by (auto simp: utf8_head_def Let_def split: if_splits)

function from_utf8_lossy :: "bytes \<Rightarrow> str" where
  "from_utf8_lossy bs =
     (if bs = [] then []
      else case utf8_head bs of (n, valid) \<Rightarrow>
        (if valid then take n bs else [0xEF, 0xBF, 0xBD]) @ from_utf8_lossy (drop n bs))"
  by auto
termination
  by (relation "measure length") (auto dest: utf8_head_pos)

declare from_utf8_lossy.simps [simp del]

lemma from_utf8_lossy_ascii:
  "list_all (\<lambda>b. b < 0x80) bs \<Longrightarrow> from_utf8_lossy bs = bs"
proof (induction bs)
  case Nil
  show ?case by (subst from_utf8_lossy.simps) simp
next
  case (Cons b bs)
  then have "utf8_head (b # bs) = (1, True)" by (simp add: utf8_head_def)
  with Cons show ?case by (subst from_utf8_lossy.simps) simp
qed

section \<open>Structures\<close>

definition LEMONFS_MAGIC :: bytes where
  "LEMONFS_MAGIC = [0x4C, 0x45, 0x4D, 0x4F, 0x4E, 0x46, 0x53, 0x00]"

definition ENTRIES_PER_DIRENTRY :: nat where
  "ENTRIES_PER_DIRENTRY = 8"

definition FILENAME_LEN :: nat where
  "FILENAME_LEN = 36"

text \<open>The flags of the superblock and of a directory entry.\<close>

definition SB_DIRTY :: u64 where
  "SB_DIRTY = 2"

definition SB_BACKUP_SYNC :: u64 where
  "SB_BACKUP_SYNC = 16"

definition IS_DIR :: u8 where
  "IS_DIR = 1"

definition IS_SYMLINK :: u8 where
  "IS_SYMLINK = 2"

definition flags_contain :: "u8 \<Rightarrow> u8 \<Rightarrow> bool" where
  "flags_contain fl x \<longleftrightarrow> fl AND x = x"

record super_block =
  sb_magic :: bytes
  sb_version :: u32
  sb_reserved :: bytes
  sb_flags :: u64
  sb_checksum :: u64
  sb_bitmap_start :: u64
  sb_data_start :: u64
  sb_data_end :: u64
  sb_padding :: bytes

definition super_block_new :: "u64 \<Rightarrow> super_block option" where
  "super_block_new part_block =
     (if part_block < 0x1000 then None
      else Some \<lparr>sb_magic = LEMONFS_MAGIC, sb_version = 1, sb_reserved = replicate 4 0xBA,
                 sb_flags = 0, sb_checksum = 0, sb_bitmap_start = 1,
                 sb_data_start = 1 + div_ceil part_block 0x1000,
                 sb_data_end = part_block - 2, sb_padding = replicate 456 0xBA\<rparr>)"

definition sb_encode :: "super_block \<Rightarrow> bytes" where
  "sb_encode sb =
     sb_magic sb @ le_bytes 4 (sb_version sb) @ sb_reserved sb @ le_bytes 8 (sb_flags sb) @
     le_bytes 8 (sb_checksum sb) @ le_bytes 8 (sb_bitmap_start sb) @ le_bytes 8 (sb_data_start sb) @
     le_bytes 8 (sb_data_end sb) @ sb_padding sb"

definition slice :: "nat \<Rightarrow> nat \<Rightarrow> bytes \<Rightarrow> bytes" where
  "slice off n bs = take n (drop off bs)"

definition sb_decode :: "bytes \<Rightarrow> super_block" where
  "sb_decode bs =
     \<lparr>sb_magic = slice 0 8 bs, sb_version = le_word (slice 8 4 bs), sb_reserved = slice 12 4 bs,
      sb_flags = le_word (slice 16 8 bs), sb_checksum = le_word (slice 24 8 bs),
      sb_bitmap_start = le_word (slice 32 8 bs), sb_data_start = le_word (slice 40 8 bs),
      sb_data_end = le_word (slice 48 8 bs), sb_padding = slice 56 456 bs\<rparr>"

record link_pointer =
  lp_start :: u64
  lp_size :: u64

definition link_pointer_new :: "u64 \<Rightarrow> u64 \<Rightarrow> link_pointer" where
  "link_pointer_new start sz = \<lparr>lp_start = start, lp_size = sz\<rparr>"

definition is_valid :: "link_pointer \<Rightarrow> bool" where
  "is_valid l \<longleftrightarrow> lp_start l \<noteq> 0"

definition is_direct :: "link_pointer \<Rightarrow> bool" where
  "is_direct l \<longleftrightarrow> lp_size l \<noteq> 0"

definition lp_encode :: "link_pointer \<Rightarrow> bytes" where
  "lp_encode l = le_bytes 8 (lp_start l) @ le_bytes 8 (lp_size l)"

definition lp_decode :: "bytes \<Rightarrow> link_pointer" where
  "lp_decode bs = \<lparr>lp_start = le_word (slice 0 8 bs), lp_size = le_word (slice 8 8 bs)\<rparr>"

text \<open>A link block is an array of 32 link pointers.\<close>

definition lb_encode :: "link_pointer list \<Rightarrow> bytes" where
  "lb_encode ls = concat (map lp_encode ls)"

definition lb_decode :: "bytes \<Rightarrow> link_pointer list" where
  "lb_decode bs = map lp_decode (chunks 16 bs)"

text \<open>File names: 36 bytes, padded with zeros.\<close>

definition filename_from_str :: "str \<Rightarrow> bytes" where
  "filename_from_str s =
     (let n = min (length s) FILENAME_LEN in take n s @ replicate (FILENAME_LEN - n) 0)"

definition filename_to_str :: "bytes \<Rightarrow> str" where
  "filename_to_str name = from_utf8_lossy (filter (\<lambda>v. v \<noteq> 0) name)"

definition filename_is_empty :: "bytes \<Rightarrow> bool" where
  "filename_is_empty name = list_all (\<lambda>v. v = 0) name"

record dir_entry =
  de_name :: bytes
  de_flags :: u8
  de_link :: link_pointer

definition dir_entry_new :: "bytes \<Rightarrow> u8 \<Rightarrow> link_pointer \<Rightarrow> dir_entry" where
  "dir_entry_new name fl link = \<lparr>de_name = name, de_flags = fl, de_link = link\<rparr>"

definition dir_entry_zero :: dir_entry where
  "dir_entry_zero =
     \<lparr>de_name = filename_from_str [], de_flags = 0, de_link = link_pointer_new 0 0\<rparr>"

definition de_encode :: "dir_entry \<Rightarrow> bytes" where
  "de_encode e = de_name e @ [de_flags e] @ lp_encode (de_link e)"

definition de_decode :: "bytes \<Rightarrow> dir_entry" where
  "de_decode bs =
     \<lparr>de_name = slice 0 36 bs, de_flags = bs ! 36, de_link = lp_decode (slice 37 16 bs)\<rparr>"

record dir_block =
  db_parent :: u64
  db_entries :: "dir_entry list"
  db_next :: link_pointer
  db_padding :: bytes

definition dir_block_new :: "u64 \<Rightarrow> dir_entry list \<Rightarrow> link_pointer \<Rightarrow> dir_block" where
  "dir_block_new parent entries nxt =
     \<lparr>db_parent = parent, db_entries = entries, db_next = nxt, db_padding = replicate 64 0xBA\<rparr>"

definition db_encode :: "dir_block \<Rightarrow> bytes" where
  "db_encode d =
     le_bytes 8 (db_parent d) @ concat (map de_encode (db_entries d)) @ lp_encode (db_next d) @
     db_padding d"

definition db_decode :: "bytes \<Rightarrow> dir_block" where
  "db_decode bs =
     \<lparr>db_parent = le_word (slice 0 8 bs), db_entries = map de_decode (chunks 53 (slice 8 424 bs)),
      db_next = lp_decode (slice 432 16 bs), db_padding = slice 448 64 bs\<rparr>"

section \<open>Encodings are read back\<close>

definition sb_ok :: "super_block \<Rightarrow> bool" where
  "sb_ok sb \<longleftrightarrow> length (sb_magic sb) = 8 \<and> length (sb_reserved sb) = 4 \<and> length (sb_padding sb) = 456"

definition de_ok :: "dir_entry \<Rightarrow> bool" where
  "de_ok e \<longleftrightarrow> length (de_name e) = 36"

definition db_ok :: "dir_block \<Rightarrow> bool" where
  "db_ok d \<longleftrightarrow> length (db_entries d) = 8 \<and> list_all de_ok (db_entries d) \<and> length (db_padding d) = 64"

lemma slice_here [simp]: "length a = n \<Longrightarrow> slice 0 n (a @ b) = a"
  by (simp add: slice_def)

lemma slice_skip: "length a \<le> off \<Longrightarrow> slice off n (a @ b) = slice (off - length a) n b"
  by (simp add: slice_def)

lemma slice_all: "length a = n \<Longrightarrow> slice 0 n a = a"
  by (simp add: slice_def)

lemma length_slice: "length (slice off n bs) = min n (length bs - off)"
  by (simp add: slice_def)

lemma slice_split:
  "slice off n bs @ slice (off + n) m bs = slice off (n + m) bs"
  unfolding slice_def take_add by (simp add: add.commute)

lemma length_sb_encode [simp]: "sb_ok sb \<Longrightarrow> length (sb_encode sb) = 512"
  by (simp add: sb_encode_def sb_ok_def)

lemma length_lp_encode [simp]: "length (lp_encode l) = 16"
  by (simp add: lp_encode_def)

lemma length_de_encode [simp]: "de_ok e \<Longrightarrow> length (de_encode e) = 53"
  by (simp add: de_encode_def de_ok_def)

lemma concat_length: "list_all (\<lambda>x. length x = n) xss \<Longrightarrow> length (concat xss) = length xss * n"
  by (induction xss) simp_all

lemma length_lb_encode [simp]: "length (lb_encode ls) = length ls * 16"
  by (simp add: lb_encode_def concat_length [where n = 16] list_all_iff)

lemma length_db_encode [simp]:
  assumes "db_ok d"
  shows "length (db_encode d) = 512"
proof -
  have "length (concat (map de_encode (db_entries d))) = 8 * 53"
    using assms by (subst concat_length [where n = 53]) (auto simp: db_ok_def list_all_iff)
  with assms show ?thesis by (simp add: db_encode_def db_ok_def)
qed

lemma sb_decode_encode: "sb_ok sb \<Longrightarrow> sb_decode (sb_encode sb) = sb"
  by (simp add: sb_decode_def sb_encode_def sb_ok_def slice_skip slice_all le_word_le_bytes)

lemma lp_decode_encode [simp]: "lp_decode (lp_encode l) = l"
  by (simp add: lp_decode_def lp_encode_def slice_skip slice_all le_word_le_bytes)

lemma lb_decode_encode [simp]: "lb_decode (lb_encode ls) = ls"
  by (simp add: lb_decode_def lb_encode_def chunks_concat comp_def)

lemma de_decode_encode: "de_ok e \<Longrightarrow> de_decode (de_encode e) = e"
  by (simp add: de_decode_def de_encode_def de_ok_def slice_skip nth_append) (simp add: slice_def)

lemma db_decode_encode:
  assumes "db_ok d"
  shows "db_decode (db_encode d) = d"
proof -
  let ?es = "map de_encode (db_entries d)"
  have l: "length (concat ?es) = 424"
    using assms by (subst concat_length [where n = 53]) (auto simp: db_ok_def list_all_iff)
  have c: "chunks 53 (concat ?es) = ?es"
    using assms by (intro chunks_concat) (auto simp: db_ok_def list_all_iff)
  have "map de_decode ?es = db_entries d"
    using assms by (auto simp: db_ok_def list_all_iff de_decode_encode intro: map_idI)
  then show ?thesis
    using assms l c by (simp add: db_decode_def db_encode_def db_ok_def slice_skip slice_all le_word_le_bytes)
qed

lemma sb_decode_ok: "length bs = 512 \<Longrightarrow> sb_ok (sb_decode bs)"
  by (simp add: sb_ok_def sb_decode_def length_slice)

lemma le_bytes_slice:
  "off + n \<le> length bs \<Longrightarrow> 8 * n \<le> LENGTH('a) \<Longrightarrow>
     le_bytes n (le_word (slice off n bs) :: 'a::len word) = slice off n bs"
  using le_bytes_le_word [of "slice off n bs", where 'a = 'a] by (simp add: length_slice)

lemma sb_encode_decode:
  assumes "length bs = 512"
  shows "sb_encode (sb_decode bs) = bs"
proof -
  have "sb_encode (sb_decode bs) =
      slice 0 8 bs @ slice 8 4 bs @ slice 12 4 bs @ slice 16 8 bs @ slice 24 8 bs @ slice 32 8 bs @
      slice 40 8 bs @ slice 48 8 bs @ slice 56 456 bs"
    using assms by (simp add: sb_encode_def sb_decode_def le_bytes_slice)
  also have "\<dots> = slice 0 512 bs"
    using slice_split [of 48 8 bs 456] slice_split [of 40 8 bs 464] slice_split [of 32 8 bs 472]
      slice_split [of 24 8 bs 480] slice_split [of 16 8 bs 488] slice_split [of 12 4 bs 496]
      slice_split [of 8 4 bs 500] slice_split [of 0 8 bs 504]
    by simp
  also have "\<dots> = bs" using assms by (simp add: slice_def)
  finally show ?thesis .
qed

section \<open>The checksum of the superblock\<close>

definition get_sb_checksum :: "super_block \<Rightarrow> u64" where
  "get_sb_checksum sb = crc64 (sb_encode sb)"

definition check_sb :: "super_block \<Rightarrow> bool" where
  "check_sb sb \<longleftrightarrow> sb_checksum sb = get_sb_checksum (sb\<lparr>sb_checksum := 0\<rparr>)"

text \<open>The superblock that \<^verbatim>\<open>write_sb\<close> puts on disk.\<close>

definition sealed_sb :: "super_block \<Rightarrow> super_block" where
  "sealed_sb sb =
     (let superblock = sb\<lparr>sb_flags := (sb_flags sb AND NOT SB_DIRTY) OR SB_BACKUP_SYNC,
                          sb_checksum := 0\<rparr>
      in superblock\<lparr>sb_checksum := get_sb_checksum superblock\<rparr>)"

lemma sealed_sb_ok [simp]: "sb_ok sb \<Longrightarrow> sb_ok (sealed_sb sb)"
  by (simp add: sb_ok_def sealed_sb_def Let_def)

lemma check_sealed [simp]: "check_sb (sealed_sb sb)"
  by (simp add: check_sb_def sealed_sb_def Let_def)

lemma super_block_new_ok: "super_block_new n = Some sb \<Longrightarrow> sb_ok sb"
  by (auto simp: super_block_new_def sb_ok_def LEMONFS_MAGIC_def split: if_splits)

text \<open>
  A sealed superblock that is damaged within eight consecutive bytes, outside the checksum field
  or wholly inside it, no longer passes the check.
\<close>

lemma sb_checksum_bytes:
  "sb_ok sb \<Longrightarrow> sb_encode sb = slice 0 24 (sb_encode sb) @ le_bytes 8 (sb_checksum sb) @ slice 32 480 (sb_encode sb)"
proof -
  assume ok: "sb_ok sb"
  have "sb_encode sb = slice 0 512 (sb_encode sb)" using ok by (simp add: slice_def)
  also have "\<dots> = slice 0 24 (sb_encode sb) @ slice 24 8 (sb_encode sb) @ slice 32 480 (sb_encode sb)"
    using slice_split [of 24 8 "sb_encode sb" 480] slice_split [of 0 24 "sb_encode sb" 488] by simp
  also have "slice 24 8 (sb_encode sb) = le_bytes 8 (sb_checksum sb)"
    using ok by (simp add: sb_encode_def sb_ok_def slice_skip)
  finally show ?thesis .
qed

section \<open>File names\<close>

lemma length_filename [simp]: "length (filename_from_str s) = 36"
  by (simp add: filename_from_str_def FILENAME_LEN_def Let_def)

definition name_ok :: "str \<Rightarrow> bool" where
  "name_ok s \<longleftrightarrow> s \<noteq> [] \<and> length s \<le> 36 \<and> list_all (\<lambda>b. b \<noteq> 0 \<and> b < 0x80) s"

lemma filename_roundtrip: "name_ok s \<Longrightarrow> filename_to_str (filename_from_str s) = s"
proof -
  assume ok: "name_ok s"
  then have "filter (\<lambda>v. v \<noteq> 0) (filename_from_str s) = s"
    by (auto simp: filename_from_str_def FILENAME_LEN_def Let_def name_ok_def list_all_iff min_def
        intro: filter_True)
  with ok show ?thesis
    by (simp add: filename_to_str_def from_utf8_lossy_ascii name_ok_def list_all_iff)
qed

lemma filename_not_empty: "name_ok s \<Longrightarrow> \<not> filename_is_empty (filename_from_str s)"
  by (cases s) (auto simp: filename_is_empty_def filename_from_str_def name_ok_def FILENAME_LEN_def Let_def
      take_Cons')

section \<open>Paths\<close>

fun split_on :: "u8 \<Rightarrow> bytes \<Rightarrow> bytes list" where
  "split_on sep [] = [[]]"
| "split_on sep (b # bs) =
     (if b = sep then [] # split_on sep bs
      else case split_on sep bs of [] \<Rightarrow> [[b]] | c # cs \<Rightarrow> (b # c) # cs)"

definition path_is_root :: "str \<Rightarrow> bool" where
  "path_is_root p \<longleftrightarrow> p = [0x2F]"

definition path_components :: "str \<Rightarrow> str list" where
  "path_components p = filter (\<lambda>c. c \<noteq> [] \<and> c \<noteq> [0x2E]) (split_on 0x2F p)"

definition path_from_vec :: "str list \<Rightarrow> str" where
  "path_from_vec cs = 0x2F # concat (map (\<lambda>c. c @ [0x2F]) cs)"

definition path_parent :: "str \<Rightarrow> str" where
  "path_parent p = path_from_vec (butlast (path_components p))"

definition path_name :: "str \<Rightarrow> str" where
  "path_name p =
     (case path_components p of [] \<Rightarrow> [0x2F] | c # cs \<Rightarrow> last (c # cs))"

definition component_ok :: "str \<Rightarrow> bool" where
  "component_ok c \<longleftrightarrow> c \<noteq> [] \<and> c \<noteq> [0x2E] \<and> 0x2F \<notin> set c"

lemma split_on_ne: "split_on sep bs \<noteq> []"
  by (induction bs) (auto split: list.splits)

lemma split_on_append: "sep \<notin> set a \<Longrightarrow> split_on sep (a @ sep # b) = a # split_on sep b"
  by (induction a) auto

lemma split_on_no_sep: "c \<in> set (split_on sep bs) \<Longrightarrow> sep \<notin> set c"
  by (induction bs arbitrary: c) (auto split: if_splits list.splits)

lemma components_ok: "c \<in> set (path_components p) \<Longrightarrow> component_ok c"
  using split_on_no_sep by (auto simp: path_components_def component_ok_def)

lemma components_from_vec: "\<forall>c \<in> set cs. component_ok c \<Longrightarrow> path_components (path_from_vec cs) = cs"
proof -
  assume ok: "\<forall>c \<in> set cs. component_ok c"
  then have "filter (\<lambda>c. c \<noteq> [] \<and> c \<noteq> [0x2E]) (split_on 0x2F (concat (map (\<lambda>c. c @ [0x2F]) cs))) = cs"
    by (induction cs) (auto simp: component_ok_def split_on_append)
  then show ?thesis by (simp add: path_components_def path_from_vec_def)
qed

text \<open>C17. Paths: the components of a path rebuilt from components are those components, the parent of
  a path has all its components but the last, and the name is that last one; whatever dots and
  doubled slashes a path has, its components never contain a slash and are never empty.\<close>

theorem path_roundtrip:
  "((\<forall>c \<in> set cs. component_ok c) \<longrightarrow> path_components (path_from_vec cs) = cs) \<and>
   path_components (path_parent p) = butlast (path_components p) \<and>
   (path_components p \<noteq> [] \<longrightarrow> path_components p = path_components (path_parent p) @ [path_name p]) \<and>
   list_all component_ok (path_components p)"
proof (intro conjI)
  show "(\<forall>c \<in> set cs. component_ok c) \<longrightarrow> path_components (path_from_vec cs) = cs"
    using components_from_vec by blast
  show pp: "path_components (path_parent p) = butlast (path_components p)"
    unfolding path_parent_def by (rule components_from_vec) (auto intro: components_ok dest: in_set_butlastD)
  show "path_components p \<noteq> [] \<longrightarrow> path_components p = path_components (path_parent p) @ [path_name p]"
    unfolding pp path_name_def by (cases "path_components p") simp_all
  show "list_all component_ok (path_components p)" using components_ok by (simp add: list_all_iff)
qed

text \<open>The path \<^verbatim>\<open>/bin/./init\<close> and its parent \<^verbatim>\<open>/bin/\<close>.\<close>

theorem path_roundtrip_witness:
  "path_components [0x2F, 0x62, 0x69, 0x6E, 0x2F, 0x2E, 0x2F, 0x69] = [[0x62, 0x69, 0x6E], [0x69]] \<and>
   path_components (path_parent [0x2F, 0x62, 0x69, 0x6E, 0x2F, 0x2E, 0x2F, 0x69]) = [[0x62, 0x69, 0x6E]] \<and>
   path_components (path_from_vec [[0x62, 0x69, 0x6E]]) = [[0x62, 0x69, 0x6E]]"
proof -
  let ?p = "[0x2F, 0x62, 0x69, 0x6E, 0x2F, 0x2E, 0x2F, 0x69] :: str"
  have c: "path_components ?p = [[0x62, 0x69, 0x6E], [0x69]]" by (simp add: path_components_def)
  have ok: "\<forall>c \<in> set [[0x62, 0x69, 0x6E]]. component_ok c" by (simp add: component_ok_def)
  note r = path_roundtrip [of "[[0x62, 0x69, 0x6E]]" ?p]
  have "path_components (path_parent ?p) = butlast (path_components ?p)" using r by (elim conjE)
  then have "path_components (path_parent ?p) = [[0x62, 0x69, 0x6E]]" unfolding c by simp
  moreover have "path_components (path_from_vec [[0x62, 0x69, 0x6E]]) = [[0x62, 0x69, 0x6E]]"
    using r ok by (elim conjE) (erule mp)
  ultimately show ?thesis using c by (intro conjI)
qed

end
