(* ===== verification/Lemon.thy ===== *)
theory Lemon
  imports Storage Bitmap Lemon_Disk
begin

text \<open>
  LemonFS (\<^verbatim>\<open>fs/lemonfs\<close>): input and output of its structures, the superblock and its backup,
  chains of link blocks, files, directories, and the operations of the \<^verbatim>\<open>FileSystem\<close> trait; and
  the search for file systems on the partitions of a drive (\<^verbatim>\<open>fs/mod.rs\<close>). The state of an
  operation is the machine \<open>'w\<close> with the disk in it, paired with the bitmap or with the caches of
  the file system. Walks along pointers read from disk need not end: they are partial functions.
\<close>

section \<open>Input and output (\<^verbatim>\<open>io.rs\<close>)\<close>

definition read_data :: "'w partition_drive \<Rightarrow> u64 \<Rightarrow> 'w \<Rightarrow> ('w, fs_error, bytes) res" where
  "read_data disk block w =
     ques (map_err (\<lambda>_. IOError) (read_sectors disk block 1 w)) (\<lambda>page w.
     ok_or (phys_page_read 512 1 page 0) IOError w)"

definition write_data :: "'w partition_drive \<Rightarrow> u64 \<Rightarrow> bytes \<Rightarrow> 'w \<Rightarrow> ('w, fs_error, unit) res" where
  "write_data disk block val w =
     ques (map_err (\<lambda>_. IOError) (phys_page_new (d_inner (pd_drive disk)) 1 w)) (\<lambda>page w.
     ques (map_err (\<lambda>_. IOError) (of_result (phys_page_write 1 page 0 val) w)) (\<lambda>page w.
     map_err (\<lambda>_. IOError) (write_sectors disk block 1 page w)))"

definition zero_blocks_of :: "'w partition_drive \<Rightarrow> u64 \<Rightarrow> u64 \<Rightarrow> 'w \<Rightarrow> ('w, fs_error, unit) res" where
  "zero_blocks_of disk start cnt w = map_err (\<lambda>_. IOError) (zero_sectors disk start cnt w)"

section \<open>The superblock (\<^verbatim>\<open>superblock.rs\<close>)\<close>

definition get_superblock :: "'w partition_drive \<Rightarrow> 'w \<Rightarrow> ('w, fs_error, super_block \<times> bool) res" where
  "get_superblock disk w =
     ques (read_data disk 0 w) (\<lambda>bs w.
     let sb = sb_decode bs in
     if \<not> check_sb sb then
       ques (read_data disk (sector_count disk - 1) w) (\<lambda>bs w.
       let backup = sb_decode bs in
       if \<not> check_sb backup then err BadSuperblock w else ok (backup, True) w)
     else ok (sb, False) w)"

definition write_sb :: "'w partition_drive \<Rightarrow> super_block \<Rightarrow> 'w \<Rightarrow> ('w, fs_error, unit) res" where
  "write_sb disk sb w =
     (let superblock = sealed_sb sb
      in ques (write_data disk 0 (sb_encode superblock) w) (\<lambda>_ w.
         write_data disk (sector_count disk - 1) (sb_encode superblock) w))"

section \<open>Chains of link blocks (\<^verbatim>\<open>links.rs\<close>)\<close>

definition read_links :: "'w partition_drive \<Rightarrow> link_pointer \<Rightarrow> 'w \<Rightarrow> ('w, fs_error, link_pointer list) res" where
  "read_links disk link w = ques (read_data disk (lp_start link) w) (\<lambda>bs w. ok (lb_decode bs) w)"

definition direct_links :: "link_pointer list \<Rightarrow> link_pointer list" where
  "direct_links block = filter (\<lambda>l. is_valid l \<and> is_direct l) (take 31 block)"

definition resolve_link ::
  "'w partition_drive \<Rightarrow> link_pointer \<Rightarrow> 'w \<Rightarrow> ('w, fs_error, link_pointer list) res" where
  "resolve_link disk link w =
     (if \<not> is_valid link then ok [] w
      else if is_direct link then ok [link] w
      else ques (read_links disk link w) (\<lambda>block w.
           let l = block ! 31
           in ok (direct_links block @ (if is_valid l then [l] else [])) w))"

partial_function (option) resolve_links_loop ::
  "'w partition_drive \<Rightarrow> link_pointer list \<Rightarrow> 'w \<Rightarrow> ('w, fs_error, link_pointer list) res" where
  "resolve_links_loop disk stack w =
     (if stack = [] then ok [] w
      else if \<not> is_valid (last stack) then ok (butlast stack) w
      else if is_direct (last stack) then ok (butlast stack @ [last stack]) w
      else ques (resolve_link disk (last stack) w) (\<lambda>ls w.
           resolve_links_loop disk (butlast stack @ ls) w))"

definition resolve_links ::
  "'w partition_drive \<Rightarrow> link_pointer \<Rightarrow> 'w \<Rightarrow> ('w, fs_error, link_pointer list) res" where
  "resolve_links disk start w = resolve_links_loop disk [start] w"

partial_function (option) trace_loop ::
  "'w partition_drive \<Rightarrow> link_pointer list \<Rightarrow> link_pointer list \<Rightarrow> link_pointer \<Rightarrow> 'w
     \<Rightarrow> ('w, fs_error, link_pointer list \<times> link_pointer list) res" where
  "trace_loop disk direct indirect ptr w =
     (if \<not> is_valid ptr then ok (direct, indirect) w
      else if is_direct ptr then ok (direct @ [ptr], indirect) w
      else ques (read_links disk ptr w) (\<lambda>block w.
           trace_loop disk (direct @ direct_links block) (indirect @ [ptr]) (block ! 31) w))"

definition trace ::
  "'w partition_drive \<Rightarrow> link_pointer \<Rightarrow> 'w
     \<Rightarrow> ('w, fs_error, link_pointer list \<times> link_pointer list) res" where
  "trace disk start w = trace_loop disk [] [] start w"

section \<open>The disk and the bitmap together\<close>

definition on_disk :: "('w \<Rightarrow> ('w, 'e, 'a) res) \<Rightarrow> 'w \<times> 'b \<Rightarrow> ('w \<times> 'b, 'e, 'a) res" where
  "on_disk f s =
     (case f (fst s) of None \<Rightarrow> None | Some (w, r) \<Rightarrow> Some ((w, snd s), r))"

definition fs_alloc :: "u64 \<Rightarrow> 'w \<times> bitmap_allocator \<Rightarrow> ('w \<times> bitmap_allocator, fs_error, u64) res" where
  "fs_alloc cnt s =
     (case bm_alloc (snd s) cnt of
        None \<Rightarrow> None
      | Some (b, None) \<Rightarrow> err NoSpace (fst s, b)
      | Some (b, Some l) \<Rightarrow> ok l (fst s, b))"

definition fs_free :: "u64 \<Rightarrow> u64 \<Rightarrow> 'w \<times> bitmap_allocator \<Rightarrow> ('w \<times> bitmap_allocator, fs_error, unit) res" where
  "fs_free start cnt s =
     (case bm_free (snd s) start cnt of None \<Rightarrow> None | Some b \<Rightarrow> ok () (fst s, b))"

lemma for_each_mono [partial_function_mono]:
  fixes C :: "'i \<Rightarrow> 's \<Rightarrow> 'w \<Rightarrow> _ \<Rightarrow> ('w, 'e, 's) res"
  assumes "\<And>x s w. mono_option (\<lambda>f. C x s w f)"
  shows "mono_option (\<lambda>f. for_each (\<lambda>x s w. C x s w f) xs s w)"
proof (induction xs arbitrary: s w)
  case Nil
  show ?case by (simp add: option.const_mono)
next
  case (Cons x xs)
  show ?case by (simp) (intro ques_mono assms Cons)
qed

section \<open>Files (\<^verbatim>\<open>file.rs\<close>)\<close>

record lfile =
  f_name :: bytes
  f_size :: u64
  f_head :: link_pointer
  f_links :: "link_pointer list"

definition file_new :: "str \<Rightarrow> u64 \<Rightarrow> lfile" where
  "file_new name start =
     \<lparr>f_name = filename_from_str name, f_size = 0, f_head = link_pointer_new start 1, f_links = []\<rparr>"

definition links_size :: "link_pointer list \<Rightarrow> u64" where
  "links_size links = sum_list (map lp_size links)"

definition file_from_dir_entry ::
  "'w partition_drive \<Rightarrow> dir_entry \<Rightarrow> 'w \<Rightarrow> ('w, fs_error, lfile) res" where
  "file_from_dir_entry disk dentry w =
     (if flags_contain (de_flags dentry) IS_DIR \<or> flags_contain (de_flags dentry) IS_SYMLINK
      then err BadFileType w
      else ques (resolve_links disk (de_link dentry) w) (\<lambda>links w.
           ok \<lparr>f_name = de_name dentry, f_size = links_size links, f_head = de_link dentry,
               f_links = links\<rparr> w))"

definition file_delete ::
  "'w partition_drive \<Rightarrow> lfile \<Rightarrow> 'w \<times> bitmap_allocator \<Rightarrow> ('w \<times> bitmap_allocator, fs_error, unit) res" where
  "file_delete disk f s =
     ques (on_disk (trace disk (f_head f)) s) (\<lambda>(direct, indirect) s.
     ques (for_each (\<lambda>link _ s.
             let blocks = div_ceil (lp_size link) 512
             in ques (fs_free (lp_start link) blocks s) (\<lambda>_ s.
                on_disk (zero_blocks_of disk (lp_start link) blocks) s)) direct () s) (\<lambda>_ s.
     for_each (\<lambda>link _ s.
         ques (fs_free (lp_start link) 1 s) (\<lambda>_ s.
         on_disk (zero_blocks_of disk (lp_start link) 1) s)) indirect () s))"

section \<open>Directories (\<^verbatim>\<open>directory.rs\<close>)\<close>

datatype file_type = FT_File | FT_Directory | FT_Symlink

definition file_type_from_dirflags :: "u8 \<Rightarrow> file_type" where
  "file_type_from_dirflags fl =
     (if flags_contain fl IS_DIR then FT_Directory
      else if flags_contain fl IS_SYMLINK then FT_Symlink
      else FT_File)"

datatype directory_entry =
    DFile lfile
  | DDirectory bytes link_pointer
  | DSymLink bytes link_pointer

definition directory_entry_new :: "bytes \<Rightarrow> u64 \<Rightarrow> file_type \<Rightarrow> directory_entry" where
  "directory_entry_new name start filetype =
     (case filetype of
        FT_Directory \<Rightarrow> DDirectory name (link_pointer_new start 512)
      | FT_File \<Rightarrow> DFile (file_new (filename_to_str name) start)
      | FT_Symlink \<Rightarrow> DSymLink name (link_pointer_new 0 0))"

definition entry_name :: "directory_entry \<Rightarrow> str" where
  "entry_name e =
     (case e of
        DDirectory name _ \<Rightarrow> filename_to_str name
      | DSymLink name _ \<Rightarrow> filename_to_str name
      | DFile f \<Rightarrow> filename_to_str (f_name f))"

definition to_dentry :: "directory_entry \<Rightarrow> dir_entry" where
  "to_dentry e =
     (case e of
        DFile f \<Rightarrow> dir_entry_new (f_name f) 0 (f_head f)
      | DDirectory name link \<Rightarrow> dir_entry_new name IS_DIR link
      | DSymLink name dest \<Rightarrow> dir_entry_new name IS_SYMLINK dest)"

definition entry_from_dir_entry ::
  "'w partition_drive \<Rightarrow> dir_entry \<Rightarrow> 'w \<Rightarrow> ('w, fs_error, directory_entry) res" where
  "entry_from_dir_entry disk dentry w =
     (if flags_contain (de_flags dentry) IS_SYMLINK then ok (DSymLink (de_name dentry) (de_link dentry)) w
      else if flags_contain (de_flags dentry) IS_DIR then ok (DDirectory (de_name dentry) (de_link dentry)) w
      else ques (file_from_dir_entry disk dentry w) (\<lambda>f w. ok (DFile f) w))"

record directory =
  dir_name :: bytes
  dir_parent :: u64
  dir_children :: "directory_entry list"
  dir_head :: link_pointer

definition find_child_idx :: "directory \<Rightarrow> str \<Rightarrow> nat option" where
  "find_child_idx d name = find (\<lambda>i. entry_name (dir_children d ! i) = name) [0..<length (dir_children d)]"

definition get_child :: "directory \<Rightarrow> str \<Rightarrow> directory_entry option" where
  "get_child d name = find (\<lambda>e. entry_name e = name) (dir_children d)"

text \<open>The entries of a block: empty names are skipped, and so are entries that fail to load.\<close>

primrec block_children ::
  "'w partition_drive \<Rightarrow> dir_entry list \<Rightarrow> 'w \<Rightarrow> ('w, fs_error, directory_entry list) res" where
  "block_children disk [] w = ok [] w"
| "block_children disk (e # es) w =
     (if filename_is_empty (de_name e) then block_children disk es w
      else case entry_from_dir_entry disk e w of
             None \<Rightarrow> None
           | Some (w, Inl _) \<Rightarrow> block_children disk es w
           | Some (w, Inr c) \<Rightarrow> ques (block_children disk es w) (\<lambda>cs w. ok (c # cs) w))"

definition read_dir_block :: "'w partition_drive \<Rightarrow> link_pointer \<Rightarrow> 'w \<Rightarrow> ('w, fs_error, dir_block) res" where
  "read_dir_block disk link w = ques (read_data disk (lp_start link) w) (\<lambda>bs w. ok (db_decode bs) w)"

partial_function (option) add_children_from_link ::
  "'w partition_drive \<Rightarrow> directory_entry list \<Rightarrow> link_pointer \<Rightarrow> 'w
     \<Rightarrow> ('w, fs_error, directory_entry list) res" where
  "add_children_from_link disk children ptr w =
     (if \<not> is_direct ptr then ok children w
      else ques (read_dir_block disk ptr w) (\<lambda>block w.
           ques (block_children disk (db_entries block) w) (\<lambda>cs w.
           add_children_from_link disk (children @ cs) (db_next block) w)))"

definition directory_from_dir_entry ::
  "'w partition_drive \<Rightarrow> dir_entry \<Rightarrow> u64 \<Rightarrow> 'w \<Rightarrow> ('w, fs_error, directory) res" where
  "directory_from_dir_entry disk dentry parent w =
     (if \<not> flags_contain (de_flags dentry) IS_DIR \<or> flags_contain (de_flags dentry) IS_SYMLINK
      then err BadFileType w
      else ques (add_children_from_link disk [] (de_link dentry) w) (\<lambda>children w.
           ok \<lparr>dir_name = de_name dentry, dir_parent = parent, dir_children = children,
               dir_head = de_link dentry\<rparr> w))"

definition directory_from_dir_block ::
  "'w partition_drive \<Rightarrow> dir_block \<Rightarrow> bytes \<Rightarrow> link_pointer \<Rightarrow> 'w \<Rightarrow> ('w, fs_error, directory) res" where
  "directory_from_dir_block disk block name head w =
     ques (add_children_from_link disk [] head w) (\<lambda>children w.
     ok \<lparr>dir_name = name, dir_parent = db_parent block, dir_children = children, dir_head = head\<rparr> w)"

definition directory_from_directory_entry ::
  "'w partition_drive \<Rightarrow> directory_entry \<Rightarrow> 'w \<Rightarrow> ('w, fs_error, directory) res" where
  "directory_from_directory_entry disk dentry w =
     (case dentry of
        DDirectory name link \<Rightarrow>
          ques (read_dir_block disk link w) (\<lambda>block w.
          directory_from_dir_block disk block name link w)
      | _ \<Rightarrow> err BadFileType w)"

partial_function (option) collect_chain ::
  "'w partition_drive \<Rightarrow> u64 list \<Rightarrow> link_pointer \<Rightarrow> 'w \<Rightarrow> ('w, fs_error, u64 list) res" where
  "collect_chain disk collected ptr w =
     (if is_direct ptr \<and> is_valid ptr
      then ques (read_dir_block disk ptr w) (\<lambda>block w.
           collect_chain disk (collected @ [lp_start ptr]) (db_next block) w)
      else ok collected w)"

text \<open>The body of the loop that writes the blocks of a directory.\<close>

definition write_chunk ::
  "'w partition_drive \<Rightarrow> u64 \<Rightarrow> u64 list \<Rightarrow> nat \<times> directory_entry list \<Rightarrow> 'w \<Rightarrow> ('w, fs_error, unit) res" where
  "write_chunk disk parent chain ic w =
     (let entries = map to_dentry (snd ic);
          buf = entries @ replicate (ENTRIES_PER_DIRENTRY - length entries) dir_entry_zero;
          nxt = (if fst ic + 1 < length chain then link_pointer_new (chain ! (fst ic + 1)) 512
                 else link_pointer_new 0 0)
      in if fst ic < length chain
         then write_data disk (chain ! fst ic) (db_encode (dir_block_new parent buf nxt)) w
         else None)"

definition directory_sync ::
  "'w partition_drive \<Rightarrow> directory \<Rightarrow> 'w \<times> bitmap_allocator
     \<Rightarrow> ('w \<times> bitmap_allocator, fs_error, unit) res" where
  "directory_sync disk dir s =
     (let blocks_needed =
            max ((length (dir_children dir) + ENTRIES_PER_DIRENTRY - 1) div ENTRIES_PER_DIRENTRY) 1
      in ques (on_disk (collect_chain disk [] (dir_head dir)) s) (\<lambda>collected s.
         ques (for_each (\<lambda>lba _ s. fs_free lba 1 s) (drop blocks_needed collected) () s) (\<lambda>_ s.
         ques (for_each (\<lambda>i chain s.
                 if i < length collected then ok (chain @ [collected ! i]) s
                 else ques (fs_alloc 1 s) (\<lambda>l s. ok (chain @ [l]) s))
               [1..<blocks_needed] [lp_start (dir_head dir)] s) (\<lambda>chain s.
         ques (for_each (\<lambda>ic _ s. on_disk (write_chunk disk (dir_parent dir) chain ic) s)
               (enumerate 0 (chunks ENTRIES_PER_DIRENTRY (dir_children dir))) () s) (\<lambda>_ s.
         if dir_children dir = []
         then on_disk (write_data disk (chain ! 0)
                (db_encode (dir_block_new (dir_parent dir)
                   (replicate ENTRIES_PER_DIRENTRY dir_entry_zero) (link_pointer_new 0 0)))) s
         else ok () s)))))"

definition give_child ::
  "'w partition_drive \<Rightarrow> directory \<Rightarrow> directory_entry \<Rightarrow> 'w \<times> bitmap_allocator
     \<Rightarrow> ('w \<times> bitmap_allocator, fs_error, unit) res" where
  "give_child disk dir child s =
     directory_sync disk (dir\<lparr>dir_children := dir_children dir @ [child]\<rparr>) s"

partial_function (option) delete_chain ::
  "'w partition_drive \<Rightarrow> link_pointer \<Rightarrow> 'w \<times> bitmap_allocator
     \<Rightarrow> ('w \<times> bitmap_allocator, fs_error, unit) res" where
  "delete_chain disk ptr s =
     (if is_valid ptr \<and> is_direct ptr
      then ques (on_disk (read_dir_block disk ptr) s) (\<lambda>block s.
           ques (fs_free (lp_start ptr) 1 s) (\<lambda>_ s.
           ques (on_disk (zero_blocks_of disk (lp_start ptr) 1) s) (\<lambda>_ s.
           delete_chain disk (db_next block) s)))
      else ok () s)"

lemma entry_mono [partial_function_mono]:
  assumes "\<And>f. mono_option (A f)" and "\<And>n l. mono_option (B n l)" and "\<And>n l. mono_option (C n l)"
  shows "mono_option (\<lambda>g. case e of DFile f \<Rightarrow> A f g | DDirectory n l \<Rightarrow> B n l g | DSymLink n l \<Rightarrow> C n l g)"
  using assms by (cases e) simp_all

partial_function (option) directory_delete ::
  "'w partition_drive \<Rightarrow> directory \<Rightarrow> 'w \<times> bitmap_allocator
     \<Rightarrow> ('w \<times> bitmap_allocator, fs_error, unit) res" where
  "directory_delete disk dir s =
     ques (for_each (\<lambda>child _ s.
             case child of
               DFile f \<Rightarrow> file_delete disk f s
             | DDirectory name link \<Rightarrow>
                 ques (on_disk (read_dir_block disk link) s) (\<lambda>block s.
                 ques (on_disk (directory_from_dir_block disk block (filename_from_str []) link) s) (\<lambda>d s.
                 directory_delete disk d s))
             | DSymLink name dest \<Rightarrow> ok () s)
           (dir_children dir) () s) (\<lambda>_ s.
     delete_chain disk (dir_head dir) s)"

section \<open>The file system (\<^verbatim>\<open>mod.rs\<close>)\<close>

record lemon_fs =
  fs_superblock :: super_block
  fs_bitmap :: bitmap_allocator
  fs_root :: "directory_entry list"

definition with_bitmap ::
  "('w \<times> bitmap_allocator \<Rightarrow> ('w \<times> bitmap_allocator, 'e, 'a) res) \<Rightarrow> 'w \<times> lemon_fs
     \<Rightarrow> ('w \<times> lemon_fs, 'e, 'a) res" where
  "with_bitmap f s =
     (case f (fst s, fs_bitmap (snd s)) of
        None \<Rightarrow> None
      | Some ((w, b), r) \<Rightarrow> Some ((w, (snd s)\<lparr>fs_bitmap := b\<rparr>), r))"

definition root_ptr :: "lemon_fs \<Rightarrow> link_pointer" where
  "root_ptr fs = \<lparr>lp_start = sb_data_end (fs_superblock fs), lp_size = 512\<rparr>"

definition root_dir :: "lemon_fs \<Rightarrow> directory" where
  "root_dir fs =
     \<lparr>dir_name = filename_from_str [0x2F], dir_parent = 0, dir_children = fs_root fs,
      dir_head = root_ptr fs\<rparr>"

text \<open>The directory a child entry stands for, as \<^verbatim>\<open>get_parent\<close> and \<^verbatim>\<open>list\<close> open it.\<close>

definition open_entry ::
  "'w partition_drive \<Rightarrow> directory_entry \<Rightarrow> bytes \<Rightarrow> 'w \<Rightarrow> ('w, fs_error, directory) res" where
  "open_entry disk dentry link_name w =
     (case dentry of
        DFile _ \<Rightarrow> err BadFileType w
      | DSymLink name dest \<Rightarrow>
          ques (read_dir_block disk dest w) (\<lambda>block w.
          directory_from_dir_block disk block link_name dest w)
      | DDirectory name link \<Rightarrow> directory_from_directory_entry disk dentry w)"

definition get_parent ::
  "'w partition_drive \<Rightarrow> lemon_fs \<Rightarrow> str \<Rightarrow> 'w \<Rightarrow> ('w, fs_error, directory) res" where
  "get_parent disk fs path w =
     for_each (\<lambda>component curr_parent w.
         ques (ok_or (get_child curr_parent component) FileNotFound w) (\<lambda>dentry w.
         open_entry disk dentry (filename_from_str component) w))
       (path_components (path_parent path)) (root_dir fs) w"

text \<open>The extents of \<^verbatim>\<open>build_file_chain\<close>: adjacent blocks are coalesced.\<close>

definition add_extent :: "link_pointer list \<Rightarrow> u64 \<Rightarrow> link_pointer list" where
  "add_extent extents block =
     (if extents \<noteq> [] \<and> lp_start (last extents) + lp_size (last extents) div 512 = block
      then butlast extents @ [(last extents)\<lparr>lp_size := lp_size (last extents) + 512\<rparr>]
      else extents @ [link_pointer_new block 512])"

definition build_extents :: "u64 list \<Rightarrow> link_pointer list" where
  "build_extents blocks = foldl add_extent [] blocks"

definition link_array :: "link_pointer list \<Rightarrow> u64 list \<Rightarrow> nat \<Rightarrow> link_pointer list" where
  "link_array extents lbas i =
     (let base = i * 31;
          part = take 31 (drop base extents)
      in part @ replicate (31 - length part) (link_pointer_new 0 0) @
         [if i + 1 < length lbas then link_pointer_new (lbas ! (i + 1)) 0 else link_pointer_new 0 0])"

definition build_file_chain ::
  "'w partition_drive \<Rightarrow> u64 list \<Rightarrow> 'w \<times> bitmap_allocator
     \<Rightarrow> ('w \<times> bitmap_allocator, fs_error, link_pointer) res" where
  "build_file_chain disk blocks s =
     (let extents = build_extents blocks in
      if length extents = 1 then ok (extents ! 0) s
      else
        let needed_blocks = (length extents + 31 - 1) div 31
        in ques (for_each (\<lambda>_ lbas s. ques (fs_alloc 1 s) (\<lambda>l s. ok (lbas @ [l]) s))
                   [0..<needed_blocks] [] s) (\<lambda>lbas s.
           ques (for_each (\<lambda>i _ s. on_disk (write_data disk (lbas ! i) (lb_encode (link_array extents lbas i))) s)
                   [0..<needed_blocks] () s) (\<lambda>_ s.
           if lbas = [] then None else ok (link_pointer_new (lbas ! 0) 0) s)))"

definition fs_create ::
  "'w partition_drive \<Rightarrow> str \<Rightarrow> u64 \<Rightarrow> 'w \<times> lemon_fs \<Rightarrow> ('w \<times> lemon_fs, fs_error, unit) res" where
  "fs_create disk path fl s =
     (if path_is_root path then err IsRoot s
      else
        ques (on_disk (get_parent disk (snd s) path) s) (\<lambda>parent s.
        if find_child_idx parent (path_name path) \<noteq> None then err FileExists s
        else if (ucast fl :: u8) AND NOT 3 \<noteq> 0 then err BadFlags s
        else
          let filetype = file_type_from_dirflags (ucast fl)
          in ques (case filetype of
                     FT_Symlink \<Rightarrow> ok 0 s
                   | _ \<Rightarrow> with_bitmap (fs_alloc 1) s) (\<lambda>start s.
             let dir_entry = directory_entry_new (filename_from_str (path_name path)) start filetype
             in ques (with_bitmap (give_child disk parent dir_entry) s) (\<lambda>_ s.
                if path_is_root (path_parent path)
                then ok () (fst s, (snd s)\<lparr>fs_root := fs_root (snd s) @ [dir_entry]\<rparr>)
                else ok () s))))"

text \<open>\<^verbatim>\<open>Vec::swap_remove\<close>.\<close>

definition swap_remove :: "'a list \<Rightarrow> nat \<Rightarrow> 'a list" where
  "swap_remove xs i = butlast (xs[i := last xs])"

definition index_of :: "('a \<Rightarrow> bool) \<Rightarrow> 'a list \<Rightarrow> nat option" where
  "index_of f xs = find (\<lambda>i. f (xs ! i)) [0..<length xs]"

definition fs_delete ::
  "'w partition_drive \<Rightarrow> str \<Rightarrow> 'w \<times> lemon_fs \<Rightarrow> ('w \<times> lemon_fs, fs_error, unit) res" where
  "fs_delete disk path s =
     (if path_is_root path then err IsRoot s
      else
        ques (on_disk (get_parent disk (snd s) path) s) (\<lambda>parent s.
        ques (ok_or (find_child_idx parent (path_name path)) FileNotFound s) (\<lambda>file_idx s.
        let entry = dir_children parent ! file_idx;
            parent = parent\<lparr>dir_children := swap_remove (dir_children parent) file_idx\<rparr>
        in ques (case entry of
                   DFile f \<Rightarrow> with_bitmap (file_delete disk f) s
                 | DDirectory name link \<Rightarrow>
                     ques (on_disk (directory_from_directory_entry disk entry) s) (\<lambda>dir s.
                     with_bitmap (directory_delete disk dir) s)
                 | DSymLink name dest \<Rightarrow> ok () s) (\<lambda>_ s.
           ques (with_bitmap (directory_sync disk parent) s) (\<lambda>_ s.
           if path_is_root (path_parent path)
           then ques (ok_or (index_of (\<lambda>e. entry_name e = path_name path) (fs_root (snd s))) FileNotFound s)
                  (\<lambda>idx s. ok () (fst s, (snd s)\<lparr>fs_root := swap_remove (fs_root (snd s)) idx\<rparr>))
           else ok () s)))))"

definition fs_file_size ::
  "'w partition_drive \<Rightarrow> str \<Rightarrow> 'w \<times> lemon_fs \<Rightarrow> ('w \<times> lemon_fs, fs_error, u64) res" where
  "fs_file_size disk path s =
     (if path_is_root path then err IsRoot s
      else
        ques (on_disk (get_parent disk (snd s) path) s) (\<lambda>parent s.
        ques (ok_or (get_child parent (path_name path)) FileNotFound s) (\<lambda>dentry s.
        case dentry of DFile f \<Rightarrow> ok (f_size f) s | _ \<Rightarrow> err BadFileType s)))"

definition fs_list ::
  "'w partition_drive \<Rightarrow> str \<Rightarrow> 'w \<times> lemon_fs \<Rightarrow> ('w \<times> lemon_fs, fs_error, str list) res" where
  "fs_list disk path s =
     (if path_is_root path then ok (map entry_name (fs_root (snd s))) s
      else
        ques (on_disk (get_parent disk (snd s) path) s) (\<lambda>parent s.
        ques (ok_or (find_child_idx parent (path_name path)) FileNotFound s) (\<lambda>dentry_pos s.
        let dentry = dir_children parent ! dentry_pos;
            name = (case dentry of DSymLink name _ \<Rightarrow> name | _ \<Rightarrow> [])
        in ques (on_disk (open_entry disk dentry name) s) (\<lambda>dir s.
           ok (map entry_name (dir_children dir)) s))))"

text \<open>The loop of \<^verbatim>\<open>read\<close>: copy one extent after the other into the caller's page.\<close>

primrec read_extents ::
  "'w partition_drive \<Rightarrow> u64 \<Rightarrow> link_pointer list \<Rightarrow> u64 \<Rightarrow> phys_page \<Rightarrow> 'w \<Rightarrow> ('w, fs_error, phys_page) res" where
  "read_extents disk read_size [] offset dest w = ok dest w"
| "read_extents disk read_size (link # links) offset dest w =
     (if read_size \<le> offset then ok dest w
      else
        ques (map_err (\<lambda>_. IOError) (read_sectors disk (lp_start link) (div_ceil (lp_size link) 512) w)) (\<lambda>page w.
        let n = min (read_size - offset) (lp_size link)
        in read_extents disk read_size links (offset + n)
             (dest\<lparr>pp_data := splice (unat offset) (take (unat n) (pp_data page)) (pp_data dest)\<rparr>) w))"

definition read_links_data ::
  "'w partition_drive \<Rightarrow> link_pointer list \<Rightarrow> phys_page \<Rightarrow> 'w \<Rightarrow> ('w, fs_error, phys_page \<times> u64) res" where
  "read_links_data disk links dest_page w =
     (let read_size = min (links_size links) (pp_count dest_page * PAGE_SIZE)
      in ques (read_extents disk read_size links 0 dest_page w) (\<lambda>page w. ok (page, read_size) w))"

definition fs_read ::
  "'w partition_drive \<Rightarrow> str \<Rightarrow> phys_page \<Rightarrow> 'w \<times> lemon_fs
     \<Rightarrow> ('w \<times> lemon_fs, fs_error, phys_page \<times> u64) res" where
  "fs_read disk path dest_page s =
     (if path_is_root path then err IsRoot s
      else
        ques (on_disk (get_parent disk (snd s) path) s) (\<lambda>parent s.
        ques (ok_or (get_child parent (path_name path)) FileNotFound s) (\<lambda>dentry s.
        ques (case dentry of
                DDirectory _ _ \<Rightarrow> err BadFileType s
              | DFile f \<Rightarrow> ok (f_links f) s
              | DSymLink _ dest \<Rightarrow> on_disk (resolve_links disk dest) s) (\<lambda>links s.
        on_disk (read_links_data disk links dest_page) s))))"

text \<open>The loop of \<^verbatim>\<open>write\<close> that copies the caller's page to the extents.\<close>

primrec write_extents ::
  "'w partition_drive \<Rightarrow> bytes \<Rightarrow> link_pointer list \<Rightarrow> u64 \<Rightarrow> phys_page \<Rightarrow> 'w \<Rightarrow> ('w, fs_error, unit) res" where
  "write_extents disk src [] offset page w = ok () w"
| "write_extents disk src (link # links) offset page w =
     (let n = unat (lp_size link);
          page' = page\<lparr>pp_data := splice 0 (take n (drop (unat offset) src)) (pp_data page)\<rparr>
      in ques (map_err (\<lambda>_. IOError) (write_sectors disk (lp_start link) (div_ceil (lp_size link) 512) page' w)) (\<lambda>_ w.
         write_extents disk src links (offset + lp_size link)
           (page'\<lparr>pp_data := splice 0 (replicate n 0) (pp_data page')\<rparr>) w))"

definition link_blocks :: "link_pointer list \<Rightarrow> u64 list" where
  "link_blocks direct =
     concat (map (\<lambda>link. map (\<lambda>block. lp_start link + block)
                        (upto_excl 0 (div_ceil (lp_size link) 512))) direct)"

text \<open>The part of \<^verbatim>\<open>write\<close> that gives the file its new chain of blocks, and returns its head.\<close>

definition reblock ::
  "'w partition_drive \<Rightarrow> link_pointer \<Rightarrow> nat \<Rightarrow> 'w \<times> bitmap_allocator
     \<Rightarrow> ('w \<times> bitmap_allocator, fs_error, link_pointer) res" where
  "reblock disk head sectors s =
     ques (on_disk (trace disk head) s) (\<lambda>(direct, indirect) s.
     ques (for_each (\<lambda>link _ s.
             ques (fs_free (lp_start link) 1 s) (\<lambda>_ s.
             on_disk (zero_blocks_of disk (lp_start link) 1) s)) indirect () s) (\<lambda>_ s.
     let blocks = link_blocks direct in
     ques (for_each (\<lambda>i chain s.
             if i < length blocks then ok (chain @ [blocks ! i]) s
             else ques (fs_alloc 1 s) (\<lambda>l s. ok (chain @ [l]) s)) [0..<sectors] [] s) (\<lambda>chain s.
     ques (for_each (\<lambda>block _ s.
             ques (fs_free block 1 s) (\<lambda>_ s.
             on_disk (zero_blocks_of disk block 1) s)) (drop sectors blocks) () s) (\<lambda>_ s.
     build_file_chain disk chain s))))"

definition max_size :: "link_pointer list \<Rightarrow> u64 option" where
  "max_size links = (if links = [] then None else Some (fold max (map lp_size links) 0))"

text \<open>What \<^verbatim>\<open>write\<close> does to the file itself: new blocks, new head and size, and the bytes on disk.\<close>

definition store_file ::
  "'w partition_drive \<Rightarrow> lfile \<Rightarrow> phys_page \<Rightarrow> 'w \<times> bitmap_allocator
     \<Rightarrow> ('w \<times> bitmap_allocator, fs_error, lfile) res" where
  "store_file disk f src s =
     (let sectors = unat (div_ceil (pp_count src * PAGE_SIZE) 512) in
      ques (reblock disk (f_head f) sectors s) (\<lambda>head s.
      ques (on_disk (resolve_links disk head) s) (\<lambda>links s.
      ques (unwrap (max_size links) s) (\<lambda>max_size s.
      ques (map_err (\<lambda>_. IOError)
              (on_disk (phys_page_new (d_inner (pd_drive disk)) (div_ceil max_size PAGE_SIZE)) s)) (\<lambda>page s.
      ques (on_disk (write_extents disk (pp_data src) links 0 page) s) (\<lambda>_ s.
      ok (f\<lparr>f_head := head, f_size := links_size links\<rparr>) s))))))"

definition fs_write ::
  "'w partition_drive \<Rightarrow> str \<Rightarrow> phys_page \<Rightarrow> 'w \<times> lemon_fs \<Rightarrow> ('w \<times> lemon_fs, fs_error, unit) res" where
  "fs_write disk path src s =
     (if path_is_root path then err IsRoot s
      else
        ques (on_disk (get_parent disk (snd s) path) s) (\<lambda>parent s.
        ques (ok_or (find_child_idx parent (path_name path)) FileNotFound s) (\<lambda>dentry_index s.
        case dir_children parent ! dentry_index of
          DFile f \<Rightarrow>
            ques (with_bitmap (store_file disk f src) s) (\<lambda>f s.
            let parent = parent\<lparr>dir_children := (dir_children parent)[dentry_index := DFile f]\<rparr>
            in ques (with_bitmap (directory_sync disk parent) s) (\<lambda>_ s.
               if path_is_root (path_parent path)
               then case index_of (\<lambda>e. entry_name e = path_name path) (fs_root (snd s)) of
                      Some i \<Rightarrow>
                        ok () (fst s, (snd s)\<lparr>fs_root := (fs_root (snd s))[i := dir_children parent ! dentry_index]\<rparr>)
                    | None \<Rightarrow> ok () s
               else ok () s))
        | _ \<Rightarrow> err BadFileType s)))"

definition entry_target :: "directory_entry \<Rightarrow> link_pointer" where
  "entry_target e =
     (case e of DFile f \<Rightarrow> f_head f | DDirectory _ link \<Rightarrow> link | DSymLink _ dest \<Rightarrow> dest)"

definition fs_route_symlink ::
  "'w partition_drive \<Rightarrow> str \<Rightarrow> str \<Rightarrow> 'w \<times> lemon_fs \<Rightarrow> ('w \<times> lemon_fs, fs_error, unit) res" where
  "fs_route_symlink disk sym_path dest_path s =
     (if path_is_root sym_path then err IsRoot s
      else
        ques (on_disk (get_parent disk (snd s) (path_parent sym_path)) s) (\<lambda>parent s.
        ques (ok_or (find_child_idx parent (path_name sym_path)) FileNotFound s) (\<lambda>dentry_idx s.
        case dir_children parent ! dentry_idx of
          DSymLink name dest \<Rightarrow>
            ques (on_disk (get_parent disk (snd s) dest_path) s) (\<lambda>dest_parent s.
            ques (ok_or (find_child_idx dest_parent (path_name dest_path)) FileNotFound s) (\<lambda>dest_index s.
            let target = entry_target (dir_children dest_parent ! dest_index);
                parent = parent\<lparr>dir_children := (dir_children parent)[dentry_idx := DSymLink name target]\<rparr>
            in ques (with_bitmap (directory_sync disk parent) s) (\<lambda>_ s.
               if path_is_root (path_parent sym_path)
               then case index_of (\<lambda>e. entry_name e = path_name sym_path) (fs_root (snd s)) of
                      Some i \<Rightarrow>
                        ok () (fst s, (snd s)\<lparr>fs_root := (fs_root (snd s))[i := dir_children parent ! dentry_idx]\<rparr>)
                    | None \<Rightarrow> ok () s
               else ok () s)))
        | _ \<Rightarrow> err BadFileType s)))"

definition bm_sync :: "'w partition_drive \<Rightarrow> u64 \<Rightarrow> bitmap_allocator \<Rightarrow> 'w \<Rightarrow> ('w, fs_error, unit) res" where
  "bm_sync disk bitmap_start ba w =
     for_each (\<lambda>(i, block) _ w.
         write_data disk (word_of_nat i + bitmap_start) (block_raw block) w)
       (enumerate 0 (ba_blocks ba)) () w"

definition fs_sync :: "'w partition_drive \<Rightarrow> 'w \<times> lemon_fs \<Rightarrow> ('w \<times> lemon_fs, fs_error, unit) res" where
  "fs_sync disk s =
     ques (on_disk (write_sb disk (fs_superblock (snd s))) s) (\<lambda>_ s.
     on_disk (bm_sync disk (sb_bitmap_start (fs_superblock (snd s))) (fs_bitmap (snd s))) s)"

definition fs_format :: "'w partition_drive \<Rightarrow> 'w \<Rightarrow> ('w, fs_error, super_block) res" where
  "fs_format disk w =
     ques (ok_or (super_block_new (sector_count disk)) NoSpace w) (\<lambda>sb w.
     ques (write_sb disk sb w) (\<lambda>_ w.
     ques (zero_blocks_of disk (sb_bitmap_start sb) (sb_data_start sb - sb_bitmap_start sb) w) (\<lambda>_ w.
     ques (zero_blocks_of disk (sb_data_end sb) 1 w) (\<lambda>_ w.
     ok sb w))))"

text \<open>The superblock in use after the \<^verbatim>\<open>match\<close> of \<^verbatim>\<open>init\<close>.\<close>

definition mount_superblock :: "'w partition_drive \<Rightarrow> 'w \<Rightarrow> ('w, fs_error, super_block) res" where
  "mount_superblock disk w =
     (case get_superblock disk w of
        None \<Rightarrow> None
      | Some (w, Inr sb) \<Rightarrow> ok (fst sb) w
      | Some (w, Inl e) \<Rightarrow> if e = BadSuperblock then fs_format disk w else err e w)"

definition load_bitmap ::
  "'w partition_drive \<Rightarrow> super_block \<Rightarrow> 'w \<Rightarrow> ('w, fs_error, bitmap_allocator) res" where
  "load_bitmap disk sb w =
     for_each (\<lambda>block bitmap w.
         ques (read_data disk block w) (\<lambda>bs w.
         unwrap (bm_add_block bitmap bs) w))
       (upto_excl (sb_bitmap_start sb) (sb_data_start sb)) (bitmap_new (sb_data_start sb)) w"

definition lemon_init :: "'w partition_drive \<Rightarrow> 'w \<Rightarrow> ('w, fs_error, lemon_fs) res" where
  "lemon_init disk w =
     ques (mount_superblock disk w) (\<lambda>superblock w.
     ques (load_bitmap disk superblock w) (\<lambda>bitmap w.
     ques (unwrap (bm_reserve_from bitmap (sb_data_end superblock - 1)) w) (\<lambda>bitmap w.
     let root_ptr = link_pointer_new (sb_data_end superblock) 512
     in ques (read_dir_block disk root_ptr w) (\<lambda>root_block w.
        ques (directory_from_dir_block disk root_block (filename_from_str [0x2F]) root_ptr w) (\<lambda>root_dir w.
        ok \<lparr>fs_superblock = superblock, fs_bitmap = bitmap, fs_root = dir_children root_dir\<rparr> w)))))"

section \<open>File systems of a drive (\<^verbatim>\<open>fs/mod.rs\<close>)\<close>

definition fs_init ::
  "'w drive \<Rightarrow> 'w \<Rightarrow> ('w, fs_error, ('w partition_drive \<times> lemon_fs) list) res" where
  "fs_init drive w =
     for_each (\<lambda>partition filesystems w.
         let partition_drive = \<lparr>pd_drive = drive, pd_partition = partition\<rparr> in
         case p_type partition of
           LemonFS \<Rightarrow>
             ques (lemon_init partition_drive w) (\<lambda>fs w. ok (filesystems @ [(partition_drive, fs)]) w)
         | Efi \<Rightarrow> ok filesystems w
         | Unknown _ \<Rightarrow>
             ques (map_err (\<lambda>_. IOError) (read_sectors partition_drive 0 1 w)) (\<lambda>superblock w.
             ques (ok_or (phys_page_read 8 1 superblock 0) IOError w) (\<lambda>magic w.
             if magic = LEMONFS_MAGIC
             then ques (lemon_init partition_drive w) (\<lambda>fs w. ok (filesystems @ [(partition_drive, fs)]) w)
             else ok filesystems w)))
       (d_partitions drive) [] w"

end
