(* ===== verification/Lemon_Laws.thy ===== *)
theory Lemon_Laws
  imports Sectors Lemon
begin

text \<open>
  LemonFS on a disk that keeps the contract of a sector device: what reading and writing its
  structures does to the sectors, the superblock with its backup, and the chains of link blocks.
\<close>

section \<open>Sectors\<close>

context sector_disk
begin

lemma page_of_sector:
  assumes "page_ok p" and "unat (pp_count p) = 1" and "pp_data p = bs @ replicate (4096 - 512) 0"
    and "length bs = 512"
  shows "phys_page_read 512 1 p 0 = Some bs"
  using assms by (subst phys_page_read_ok) (simp_all add: page_ok_def)

lemma read_data_law:
  assumes g: "good w" and b: "unat b < n_secs"
  shows "sat (read_data pd b w) (\<lambda>bs w'. bs = secs w (unat b) \<and> good w' \<and> secs w' = secs w)
    (\<lambda>e w'. e = IOError \<and> fails 1 \<and> good w' \<and> secs w' = secs w)"
proof -
  have "sat (read_sectors pd b 1 w)
      (\<lambda>p w'. good w' \<and> secs w' = secs w \<and> page_ok p \<and> unat (pp_count p) = 1 \<and>
         pp_data p = secs w (unat b) @ replicate (4096 - 512) 0)
      (\<lambda>e w'. fails 1 \<and> good w' \<and> secs w' = secs w)"
    by (rule sat_mono [OF sec_read [OF g, of 1 b]]) (use b in auto)
  then show ?thesis
    by (auto simp: read_data_def page_of_sector sec_length elim!: sat_mono)
qed

lemma write_data_law:
  assumes g: "good w" and b: "unat b < n_secs" and v: "length val = 512"
  shows "sat (write_data pd b val w) (\<lambda>_ w'. good w' \<and> secs w' = (secs w)(unat b := val))
    (\<lambda>e w'. e = IOError \<and> fails 1 \<and> good w')"
proof -
  have "sat (write_sectors pd b 1 (p\<lparr>pp_data := splice 0 val (pp_data p)\<rparr>) w1)
      (\<lambda>_ w'. good w' \<and> secs w' = (secs w)(unat b := val)) (\<lambda>e w'. fails 1 \<and> good w')"
    if p: "good w1" "secs w1 = secs w" "page_ok p" "pp_count p = 1" "pp_data p = replicate 4096 0" for p w1
  proof -
    have l: "length (splice 0 val (pp_data p)) = 4096" using v p(5) by simp
    have ok: "page_ok (p\<lparr>pp_data := splice 0 val (pp_data p)\<rparr>)" using p l by (simp add: page_ok_def)
    have t: "take 512 (splice 0 val (pp_data p)) = val" using v by (simp add: splice_def)
    show ?thesis
      by (rule sat_mono [OF sec_write [OF p(1) _ ok, of b 1]])
         (use b l t p(2) in \<open>auto simp: fun_eq_iff\<close>)
  qed
  moreover have "phys_page_write 1 p 0 val = Inr (p\<lparr>pp_data := splice 0 val (pp_data p)\<rparr>)"
    if "page_ok p" "pp_data p = replicate 4096 0" for p :: phys_page
    using v that by (subst phys_page_write_ok) simp_all
  ultimately show ?thesis
    unfolding write_data_def sat_ques sat_map_err sat_of_result
    by - (rule sat_mono [OF sec_page [OF g, of 1]]; simp)
qed

lemma zero_blocks_law:
  assumes "good w" and "unat s + unat c \<le> n_secs"
  shows "sat (zero_blocks_of pd s c w)
    (\<lambda>_ w'. good w' \<and> secs w' = (\<lambda>i. if unat s \<le> i \<and> i < unat s + unat c then replicate 512 0 else secs w i))
    (\<lambda>e w'. e = IOError \<and> fails (unat c) \<and> good w')"
  using sec_zero [OF assms] by (auto simp: zero_blocks_of_def elim!: sat_mono)

end

section \<open>The superblock\<close>

text \<open>Damage within eight consecutive bytes that lie outside the checksum field.\<close>

definition damaged :: "bytes \<Rightarrow> bytes \<Rightarrow> bool" where
  "damaged s s' \<longleftrightarrow> (\<exists>xs as bs ys. s = xs @ as @ ys \<and> s' = xs @ bs @ ys \<and> as \<noteq> bs \<and>
     length as = length bs \<and> length as \<le> 8 \<and> (length xs + length as \<le> 24 \<or> 32 \<le> length xs))"

definition clear_checksum :: "bytes \<Rightarrow> bytes" where
  "clear_checksum s = take 24 s @ replicate 8 0 @ drop 32 s"

lemma check_decoded:
  assumes "length s = 512"
  shows "check_sb (sb_decode s) \<longleftrightarrow> le_word (slice 24 8 s) = crc64 (clear_checksum s)"
proof -
  let ?d = "sb_decode s"
  have ok: "sb_ok (?d\<lparr>sb_checksum := 0\<rparr>)" using sb_decode_ok [OF assms] by (simp add: sb_ok_def)
  have e: "sb_encode ?d = s" by (rule sb_encode_decode [OF assms])
  have f: "sb_encode (?d\<lparr>sb_checksum := c\<rparr>) = slice 0 24 (sb_encode ?d) @ le_bytes 8 c @ slice 32 480 (sb_encode ?d)" for c
    using sb_decode_ok [OF assms]
    by (simp add: sb_encode_def sb_ok_def slice_def)
  have "sb_encode (?d\<lparr>sb_checksum := 0\<rparr>) = clear_checksum s"
    unfolding f e using assms by (simp add: clear_checksum_def slice_def numeral_eq_Suc)
  moreover have "sb_checksum ?d = le_word (slice 24 8 s)" by (simp add: sb_decode_def)
  ultimately show ?thesis by (simp add: check_sb_def get_sb_checksum_def)
qed

lemma damage_detected:
  assumes s: "length s = 512" "check_sb (sb_decode s)" and d: "damaged s s'"
  shows "\<not> check_sb (sb_decode s')"
proof
  assume c: "check_sb (sb_decode s')"
  obtain xs as bs ys where d: "s = xs @ as @ ys" "s' = xs @ bs @ ys" "as \<noteq> bs" "length as = length bs"
    "length as \<le> 8" and out: "length xs + length as \<le> 24 \<or> 32 \<le> length xs"
    using d by (auto simp: damaged_def)
  have len: "length s' = 512" using s(1) d(1,2,4) by simp
  have sl: "slice 24 8 s = slice 24 8 s'" using out
  proof
    assume le: "length xs + length as \<le> 24"
    then show ?thesis using d by (simp add: slice_skip)
  next
    assume "32 \<le> length xs"
    then show ?thesis using d by (simp add: slice_def)
  qed
  obtain us vs where "clear_checksum s = us @ as @ vs" "clear_checksum s' = us @ bs @ vs"
    using out
  proof
    assume le: "length xs + length as \<le> 24"
    show ?thesis
      by (rule that [of xs "take (24 - length xs - length as) ys @ replicate 8 0 @ drop (32 - length xs - length as) ys"])
         (use le d in \<open>simp_all add: clear_checksum_def\<close>)
  next
    assume le: "32 \<le> length xs"
    show ?thesis
      by (rule that [of "take 24 xs @ replicate 8 0 @ drop 32 xs" ys])
         (use le d in \<open>simp_all add: clear_checksum_def\<close>)
  qed
  then have "crc64 (us @ as @ vs) = crc64 (us @ bs @ vs)"
    using s c sl by (simp add: check_decoded len)
  then show False
    using crc_burst [of CRC64_POLYNOMIAL as bs] d crc_poly_top
    by (simp add: crc64_def crc64_byte_turns xor_minus_1_cancel)
qed

context sector_disk
begin

lemma get_superblock_law:
  assumes g: "good w" and n: "0 < n_secs"
  shows "sat (get_superblock pd w)
    (\<lambda>r w'. good w' \<and> secs w' = secs w \<and>
       r = (if check_sb (sb_decode (secs w 0)) then (sb_decode (secs w 0), False)
            else (sb_decode (secs w (n_secs - 1)), True)) \<and> check_sb (fst r))
    (\<lambda>e w'. good w' \<and> secs w' = secs w \<and>
       (e = BadSuperblock \<and> \<not> check_sb (sb_decode (secs w 0)) \<and> \<not> check_sb (sb_decode (secs w (n_secs - 1))) \<or>
        e = IOError \<and> fails 1))"
proof -
  have l: "unat (sector_count pd - 1) = n_secs - 1"
    using sec_count [OF g] n by (simp add: unat_subI)
  note r0 = read_data_law [where b = 0]
  note r1 = read_data_law [where b = "sector_count pd - 1", unfolded l]
  show ?thesis
    unfolding get_superblock_def Let_def sat_ques
    by (rule sat_mono [OF r0 [OF g]]) (use n in \<open>auto intro!: sat_mono [OF r1]\<close>)
qed

lemma write_sb_law:
  assumes g: "good w" and n: "0 < n_secs" and sb: "sb_ok sb"
  shows "sat (write_sb pd sb w)
    (\<lambda>_ w'. good w' \<and> secs w' = (secs w)(0 := sb_encode (sealed_sb sb), n_secs - 1 := sb_encode (sealed_sb sb)))
    (\<lambda>e w'. e = IOError \<and> fails 1 \<and> good w')"
proof -
  have l: "unat (sector_count pd - 1) = n_secs - 1"
    using sec_count [OF g] n by (simp add: unat_subI)
  note w0 = write_data_law [where b = 0]
  note w1 = write_data_law [where b = "sector_count pd - 1", unfolded l]
  show ?thesis
    unfolding write_sb_def Let_def sat_ques
    by (rule sat_mono [OF w0 [OF g]]) (use n sb in \<open>auto intro!: sat_mono [OF w1]\<close>)
qed

lemma superblock_law:
  assumes g: "good w" and n: "0 < n_secs" and sb: "sb_ok sb" and f: "\<not> fails 1"
  obtains w1 w2 where "write_sb pd sb w = Some (w1, Inr ())" and "good w1"
    and "secs w1 = (secs w)(0 := sb_encode (sealed_sb sb), n_secs - 1 := sb_encode (sealed_sb sb))"
    and "get_superblock pd w1 = Some (w2, Inr (sealed_sb sb, False))"
proof -
  obtain w1 where w1: "write_sb pd sb w = Some (w1, Inr ())" "good w1"
    "secs w1 = (secs w)(0 := sb_encode (sealed_sb sb), n_secs - 1 := sb_encode (sealed_sb sb))"
    using write_sb_law [OF g n sb] f by (elim sat_cases) auto
  moreover have "secs w1 0 = sb_encode (sealed_sb sb)" using w1(3) by simp
  ultimately show ?thesis
    using get_superblock_law [OF w1(2) n] f sb that
    by (elim sat_cases) (auto simp: sb_decode_encode)
qed

lemma backup_law:
  assumes g: "good v" and n: "1 < n_secs" and sb: "sb_ok sb" and f: "\<not> fails 1"
    and s: "secs v (n_secs - 1) = sb_encode (sealed_sb sb)"
    and d: "damaged (sb_encode (sealed_sb sb)) (secs v 0)"
  obtains v' where "get_superblock pd v = Some (v', Inr (sealed_sb sb, True))"
proof -
  have "\<not> check_sb (sb_decode (secs v 0))"
    using damage_detected [OF _ _ d] sb by (simp add: sb_decode_encode)
  then show ?thesis
    using get_superblock_law [OF g order.strict_trans [OF zero_less_one n]] f sb s that
    by (elim sat_cases) (auto simp: sb_decode_encode)
qed

end

section \<open>Chains of link blocks\<close>

definition map_ok :: "('a \<Rightarrow> 'b) \<Rightarrow> ('w, 'e, 'a) res \<Rightarrow> ('w, 'e, 'b) res" where
  "map_ok f m = ques m (\<lambda>x w. ok (f x) w)"

lemma map_ok_simps [simp]:
  "map_ok f None = None" "map_ok f (ok x w) = ok (f x) w" "map_ok f (err e w) = err e w"
  by (simp_all add: map_ok_def)

lemma map_ok_ques: "map_ok f (ques m g) = ques m (\<lambda>x w. map_ok f (g x w))"
  by (auto simp: map_ok_def ques_def ok_def split: option.splits sum.splits)

text \<open>
  Direct pointers below the top of the stack stay there, so the stack of \<^const>\<open>resolve_links\<close>
  holds what \<^const>\<open>trace\<close> has collected, under the pointer it follows.
\<close>

lemma resolve_step:
  assumes "\<forall>l\<in>set st. is_valid l \<and> is_direct l" and "is_valid p" and "\<not> is_direct p"
  shows "resolve_links_loop disk (st @ [p]) w =
    ques (read_links disk p w) (\<lambda>block w. resolve_links_loop disk ((st @ direct_links block) @ [block ! 31]) w)"
proof -
  have drop_invalid: "resolve_links_loop disk ss w = resolve_links_loop disk (ss @ [l]) w"
    if "\<not> is_valid l" "\<forall>l\<in>set ss. is_valid l \<and> is_direct l" for ss l w
    using that
    by (subst resolve_links_loop.simps) (subst resolve_links_loop.simps, auto simp flip: snoc_eq_iff_butlast)
  have "resolve_links_loop disk (st @ direct_links block @ (if is_valid (block ! 31) then [block ! 31] else [])) w =
      resolve_links_loop disk ((st @ direct_links block) @ [block ! 31]) w" for block w
  proof (cases "is_valid (block ! 31)")
    case False
    have "\<forall>l\<in>set (st @ direct_links block). is_valid l \<and> is_direct l"
      using assms(1) by (auto simp: direct_links_def)
    from drop_invalid [OF False this] False show ?thesis by simp
  qed simp
  then show ?thesis
    using assms by (subst resolve_links_loop.simps) (simp add: resolve_link_def Let_def ques_assoc)
qed

lemma resolve_end:
  assumes "\<not> is_valid p \<or> is_direct p"
  shows "resolve_links_loop disk (st @ [p]) w = ok (if is_valid p then st @ [p] else st) w"
  using assms by (subst resolve_links_loop.simps) auto

lemma trace_resolve:
  assumes "trace_loop disk st ind p w = Some r"
  shows "(\<forall>l\<in>set st. is_valid l \<and> is_direct l) \<longrightarrow>
     resolve_links_loop disk (st @ [p]) w = map_ok fst (Some r)"
proof (rule trace_loop.raw_induct [where P = "\<lambda>disk st ind p w r.
    (\<forall>l\<in>set st. is_valid l \<and> is_direct l) \<longrightarrow>
    resolve_links_loop disk (st @ [p]) w = map_ok fst (Some r)", OF _ assms])
  fix loop disk st ind p w r
  assume 1: "\<And>disk st ind p w r. loop disk st ind p w = Some r \<Longrightarrow>
      (\<forall>l\<in>set st. is_valid l \<and> is_direct l) \<longrightarrow> resolve_links_loop disk (st @ [p]) w = map_ok fst (Some r)"
    "(if \<not> is_valid p then ok (st, ind) w
      else if is_direct p then ok (st @ [p], ind) w
      else ques (read_links disk p w) (\<lambda>block. loop disk (st @ direct_links block) (ind @ [p]) (block ! 31))) = Some r"
  show "(\<forall>l\<in>set st. is_valid l \<and> is_direct l) \<longrightarrow> resolve_links_loop disk (st @ [p]) w = map_ok fst (Some r)"
  proof (intro impI)
    assume d: "\<forall>l\<in>set st. is_valid l \<and> is_direct l"
    then have dl: "\<forall>l\<in>set (st @ direct_links b). is_valid l \<and> is_direct l" for b
      by (auto simp: direct_links_def)
    show "resolve_links_loop disk (st @ [p]) w = map_ok fst (Some r)"
    proof (cases "is_valid p \<and> \<not> is_direct p")
      case True
      with 1(2) obtain w' b where b: "read_links disk p w = Some (w', b)"
        by (auto simp: ques_def split: option.splits)
      show ?thesis
      proof (cases b)
        case (Inl e)
        with True 1(2) b d show ?thesis by (auto simp: resolve_step map_ok_def)
      next
        case (Inr bl)
        with True 1(2) b have "loop disk (st @ direct_links bl) (ind @ [p]) (bl ! 31) w' = Some r" by simp
        from 1(1) [OF this] dl True b Inr d show ?thesis by (simp add: resolve_step)
      qed
    qed (use 1(2) in \<open>auto simp: resolve_end map_ok_def ok_def split: if_splits\<close>)
  qed
qed

lemma resolve_trace:
  assumes "resolve_links_loop disk ss w = Some r"
  shows "\<forall>st p ind. ss = st @ [p] \<longrightarrow> (\<forall>l\<in>set st. is_valid l \<and> is_direct l) \<longrightarrow>
        (\<exists>r'. trace_loop disk st ind p w = Some r')"
proof (rule resolve_links_loop.raw_induct [where P = "\<lambda>disk ss w r.
    \<forall>st p ind. ss = st @ [p] \<longrightarrow> (\<forall>l\<in>set st. is_valid l \<and> is_direct l) \<longrightarrow>
        (\<exists>r'. trace_loop disk st ind p w = Some r')", OF _ assms])
  fix loop disk ss w r
  assume 1: "\<And>disk ss w r. loop disk ss w = Some r \<Longrightarrow>
      \<forall>st p ind. ss = st @ [p] \<longrightarrow> (\<forall>l\<in>set st. is_valid l \<and> is_direct l) \<longrightarrow>
        (\<exists>r'. trace_loop disk st ind p w = Some r')"
    "(if ss = [] then ok [] w
      else if \<not> is_valid (last ss) then ok (butlast ss) w
      else if is_direct (last ss) then ok (butlast ss @ [last ss]) w
      else ques (resolve_link disk (last ss) w) (\<lambda>ls. loop disk (butlast ss @ ls))) = Some r"
  show "\<forall>st p ind. ss = st @ [p] \<longrightarrow> (\<forall>l\<in>set st. is_valid l \<and> is_direct l) \<longrightarrow>
        (\<exists>r'. trace_loop disk st ind p w = Some r')"
  proof (intro allI impI)
    fix st p ind assume ss: "ss = st @ [p]" and d: "\<forall>l\<in>set st. is_valid l \<and> is_direct l"
    have dl: "\<forall>l\<in>set (st @ direct_links b). is_valid l \<and> is_direct l" for b
      using d by (auto simp: direct_links_def)
    show "\<exists>r'. trace_loop disk st ind p w = Some r'"
    proof (cases "is_valid p \<and> \<not> is_direct p")
      case True
      with 1(2) ss have step: "ques (read_links disk p w) (\<lambda>block w.
          loop disk (st @ direct_links block @ (if is_valid (block ! 31) then [block ! 31] else [])) w) = Some r"
        by (simp add: resolve_link_def Let_def ques_assoc)
      then obtain w' b where b: "read_links disk p w = Some (w', b)"
        by (auto simp: ques_def split: option.splits)
      show ?thesis
      proof (cases b)
        case (Inl e)
        with True b show ?thesis by (subst trace_loop.simps) simp
      next
        case (Inr bl)
        have "\<exists>r'. trace_loop disk (st @ direct_links bl) (ind @ [p]) (bl ! 31) w' = Some r'"
        proof (cases "is_valid (bl ! 31)")
          case v: True
          with step b Inr have "loop disk ((st @ direct_links bl) @ [bl ! 31]) w' = Some r" by simp
          from 1(1) [OF this] dl show ?thesis by blast
        qed (subst trace_loop.simps, simp add: ok_def)
        with True b Inr show ?thesis by (subst trace_loop.simps) simp
      qed
    qed (subst trace_loop.simps, simp add: ok_def)
  qed
qed

lemma resolve_is_trace:
  "resolve_links disk start w = ques (trace disk start w) (\<lambda>(direct, indirect) w. ok direct w)"
proof (cases "trace disk start w")
  case None
  have "resolve_links disk start w \<noteq> Some r" for r
  proof
    assume "resolve_links disk start w = Some r"
    then have "resolve_links_loop disk [start] w = Some r" by (simp add: resolve_links_def)
    from resolve_trace [OF this, rule_format, of "[]" start "[]"] None show False by (simp add: trace_def)
  qed
  then have "resolve_links disk start w = None" by (cases "resolve_links disk start w") auto
  with None show ?thesis by simp
next
  case (Some r)
  then show ?thesis
    using trace_resolve [of disk "[]" "[]" start w r]
    by (simp add: resolve_links_def trace_def map_ok_def case_prod_unfold)
qed

text \<open>C37. \<^const>\<open>resolve_links\<close>, which walks a chain of link blocks with a stack, returns exactly the
  direct pointers that \<^const>\<open>trace\<close> collects, in the same order, on every disk, well formed or not:
  it reads the same blocks, fails with the same error, and follows a cyclic chain forever if and only
  if \<^const>\<open>trace\<close> does.\<close>

theorem resolve_links_trace:
  "resolve_links disk start w = ques (trace disk start w) (\<lambda>(direct, indirect) w. ok direct w)"
  by (rule resolve_is_trace)

end
