(* ===== verification/Lemon_Chain.thy ===== *)
theory Lemon_Chain
  imports Lemon_Laws
begin

text \<open>
  The blocks of a file: coalescing them into extents, storing the extents in a chain of link blocks,
  and finding them again.
\<close>

section \<open>Extents\<close>

text \<open>An extent of whole blocks inside a partition of \<open>N\<close> sectors, without sector 0.\<close>

definition extent_ok :: "nat \<Rightarrow> link_pointer \<Rightarrow> bool" where
  "extent_ok N e \<longleftrightarrow> (\<exists>k. unat (lp_size e) = k * 512 \<and> 0 < k \<and> 0 < unat (lp_start e) \<and> unat (lp_start e) + k \<le> N)"

definition extent_blocks :: "link_pointer \<Rightarrow> u64 list" where
  "extent_blocks e = map (\<lambda>block. lp_start e + block) (upto_excl 0 (div_ceil (lp_size e) 512))"

lemma link_blocks_extents: "link_blocks es = concat (map extent_blocks es)"
  by (simp add: link_blocks_def extent_blocks_def [abs_def])

lemma extent_valid: "extent_ok N e \<Longrightarrow> is_valid e \<and> is_direct e"
  by (auto simp: extent_ok_def is_valid_def is_direct_def)

lemma extent_blocks_size:
  assumes "unat (lp_size e) = k * 512"
  shows "extent_blocks e = map (\<lambda>i. lp_start e + word_of_nat i) [0..<k]"
proof -
  have "unat (div_ceil (lp_size e) 512) = k"
    using assms by (subst unat_div_ceil) (simp_all add: ceil_div_exact)
  then show ?thesis by (simp add: extent_blocks_def upto_excl_def)
qed

lemma add_extent_law:
  assumes N: "N * 512 < 2 ^ 64" and es: "list_all (extent_ok N) es" and b: "0 < unat b" "unat b < N"
  shows "list_all (extent_ok N) (add_extent es b) \<and> link_blocks (add_extent es b) = link_blocks es @ [b]"
proof (cases "es \<noteq> [] \<and> lp_start (last es) + lp_size (last es) div 512 = b")
  case False
  have n: "unat (512 :: u64) = 1 * 512" by simp
  have "extent_ok N (link_pointer_new b 512)"
    using b by (auto simp: extent_ok_def link_pointer_new_def intro!: exI [of _ 1])
  moreover have "extent_blocks (link_pointer_new b 512) = [b]"
    by (subst extent_blocks_size [of _ 1]) (simp_all add: link_pointer_new_def)
  ultimately show ?thesis using False es by (auto simp: add_extent_def link_blocks_extents)
next
  case True
  then obtain fs e where f: "es = fs @ [e]" by (cases es rule: rev_cases) auto
  obtain k where k: "unat (lp_size e) = k * 512" "0 < k" "0 < unat (lp_start e)" "unat (lp_start e) + k \<le> N"
    using es f by (auto simp: extent_ok_def)
  have d: "lp_size e div 512 = word_of_nat k"
    by (rule word_unat_eq_iff [THEN iffD2]) (use k N in \<open>simp add: unat_div unat_of_nat\<close>)
  have bk: "b = lp_start e + word_of_nat k" using True f d by simp
  have ub: "unat b = unat (lp_start e) + k"
    unfolding bk using k N by (intro unat_addI) (simp_all add: unat_of_nat)
  let ?e = "e\<lparr>lp_size := lp_size e + 512\<rparr>"
  have sz: "unat (lp_size ?e) = Suc k * 512"
  proof -
    have "k * 512 + 512 < 2 ^ 64" using ub b(2) N by simp
    then show ?thesis using k(1) by (simp add: unat_addI)
  qed
  have "extent_ok N ?e" using k ub b sz unfolding extent_ok_def by (intro exI [of _ "Suc k"]) simp
  moreover have "extent_blocks ?e = extent_blocks e @ [b]"
    by (simp add: extent_blocks_size [OF sz] extent_blocks_size [OF k(1)] bk)
  ultimately show ?thesis using True es f by (simp add: add_extent_def link_blocks_extents)
qed

lemma build_extents_law:
  assumes "N * 512 < 2 ^ 64" and "\<forall>b\<in>set blocks. 0 < unat b \<and> unat b < N"
  shows "list_all (extent_ok N) (build_extents blocks) \<and> link_blocks (build_extents blocks) = blocks"
proof -
  have "list_all (extent_ok N) es \<Longrightarrow>
      list_all (extent_ok N) (foldl add_extent es blocks) \<and>
      link_blocks (foldl add_extent es blocks) = link_blocks es @ blocks" for es
    using assms(2)
  proof (induction blocks arbitrary: es)
    case (Cons b bs)
    then show ?case using add_extent_law [OF assms(1), of es b] by simp
  qed simp
  from this [of "[]"] show ?thesis by (simp add: build_extents_def link_blocks_def)
qed

lemma add_extent_nonempty: "add_extent es b \<noteq> []"
  by (simp add: add_extent_def)

lemma build_extents_nonempty:
  assumes "blocks \<noteq> []"
  shows "build_extents blocks \<noteq> []"
  using assms by (cases blocks rule: rev_cases) (simp_all add: build_extents_def add_extent_nonempty)

section \<open>Link blocks\<close>

lemma length_link_array [simp]: "length (link_array es lbas i) = 32"
  by (simp add: link_array_def Let_def)

lemma link_array_direct:
  assumes "\<forall>e\<in>set es. is_valid e \<and> is_direct e"
  shows "direct_links (link_array es lbas i) = take 31 (drop (i * 31) es)"
proof -
  let ?part = "take 31 (drop (i * 31) es)"
  have "\<forall>e\<in>set ?part. is_valid e \<and> is_direct e"
    using assms by (meson in_set_dropD in_set_takeD)
  then have "filter (\<lambda>l. is_valid l \<and> is_direct l) ?part = ?part" by (simp add: filter_id_conv)
  moreover have "filter (\<lambda>l. is_valid l \<and> is_direct l) (replicate n (link_pointer_new 0 0)) = []" for n
    by (simp add: filter_empty_conv is_valid_def link_pointer_new_def)
  ultimately show ?thesis by (simp add: direct_links_def link_array_def Let_def)
qed

lemma link_array_last:
  "link_array es lbas i ! 31 =
     (if i + 1 < length lbas then link_pointer_new (lbas ! (i + 1)) 0 else link_pointer_new 0 0)"
  by (simp add: link_array_def Let_def nth_append)

text \<open>
  \<open>link_chain N S p direct indirect\<close>: on the sectors \<open>S\<close> of a partition of \<open>N\<close> sectors, the chain from
  \<open>p\<close> has the direct pointers and the link blocks given.
\<close>

inductive link_chain ::
  "nat \<Rightarrow> (nat \<Rightarrow> bytes) \<Rightarrow> link_pointer \<Rightarrow> link_pointer list \<Rightarrow> link_pointer list \<Rightarrow> bool" for N S where
  chain_end: "\<not> is_valid p \<Longrightarrow> link_chain N S p [] []"
| chain_direct: "is_valid p \<Longrightarrow> is_direct p \<Longrightarrow> link_chain N S p [p] []"
| chain_block: "is_valid p \<Longrightarrow> \<not> is_direct p \<Longrightarrow> unat (lp_start p) < N \<Longrightarrow>
    ls = lb_decode (S (unat (lp_start p))) \<Longrightarrow> link_chain N S (ls ! 31) d i \<Longrightarrow>
    link_chain N S p (direct_links ls @ d) (p # i)"

lemma link_chain_cong:
  assumes "link_chain N S p d i" and "\<forall>q\<in>set i. S' (unat (lp_start q)) = S (unat (lp_start q))"
  shows "link_chain N S' p d i"
  using assms
proof induction
  case (chain_block p ls d i)
  then show ?case by (intro link_chain.chain_block) auto
qed (auto intro: link_chain.intros)

lemma link_chain_links:
  assumes "link_chain N S p d i"
  shows "\<forall>q\<in>set i. is_valid q \<and> \<not> is_direct q \<and> unat (lp_start q) < N"
  using assms by induction auto

lemma link_array_chain:
  assumes es: "\<forall>e\<in>set es. is_valid e \<and> is_direct e"
    and lbas: "\<forall>l\<in>set lbas. 0 < unat l \<and> unat l < N" and len: "length lbas = (length es + 30) div 31"
    and s: "\<forall>i < length lbas. S (unat (lbas ! i)) = lb_encode (link_array es lbas i)"
    and k: "k < length lbas"
  shows "link_chain N S (link_pointer_new (lbas ! k) 0) (drop (k * 31) es)
    (map (\<lambda>l. link_pointer_new l 0) (drop k lbas))"
  using k
proof (induction "length lbas - k" arbitrary: k)
  case 0
  then show ?case by simp
next
  case (Suc m)
  let ?p = "link_pointer_new (lbas ! k) 0" and ?ls = "link_array es lbas k"
  let ?rest = "drop (Suc k * 31) es" and ?more = "map (\<lambda>l. link_pointer_new l 0) (drop (Suc k) lbas)"
  have lk: "0 < unat (lbas ! k)" "unat (lbas ! k) < N" using lbas Suc.prems by auto
  then have p: "is_valid ?p" "\<not> is_direct ?p" "lp_start ?p = lbas ! k"
    by (auto simp: is_valid_def is_direct_def link_pointer_new_def)
  have more: "link_chain N S (?ls ! 31) ?rest ?more"
  proof (cases "Suc k < length lbas")
    case True
    then show ?thesis using Suc.hyps(1) [of "Suc k"] Suc.hyps(2) by (simp add: link_array_last)
  next
    case False
    then have "length es \<le> k * 31 + 31" using len Suc.prems by linarith
    moreover have "link_chain N S (link_pointer_new 0 0) [] []"
      by (rule chain_end) (simp add: is_valid_def link_pointer_new_def)
    ultimately show ?thesis using False by (simp add: link_array_last)
  qed
  have "link_chain N S ?p (direct_links ?ls @ ?rest) (?p # ?more)"
    by (rule chain_block [OF p(1,2) _ _ more]) (use p(3) lk s Suc.prems in auto)
  moreover have "direct_links ?ls @ ?rest = drop (k * 31) es"
    using append_take_drop_id [of 31 "drop (k * 31) es"] by (simp add: link_array_direct [OF es] add.commute)
  moreover have "?p # ?more = map (\<lambda>l. link_pointer_new l 0) (drop k lbas)"
    using Cons_nth_drop_Suc [OF Suc.prems] by (metis list.simps(9))
  ultimately show ?case by simp
qed

section \<open>Allocation of single blocks\<close>

lemma sat_on_disk [simp]:
  "sat (on_disk f s) Q E = sat (f (fst s)) (\<lambda>x w. Q x (w, snd s)) (\<lambda>e w. E e (w, snd s))"
  by (auto simp: on_disk_def sat_def split: option.splits sum.splits)

lemma lba_run_1 [simp]: "lba_run (l, 1) = {unat l}"
  by (auto simp: lba_run_def)

lemma fs_alloc_law:
  assumes i: "bm_inv (snd s)"
  shows "sat (fs_alloc 1 s)
    (\<lambda>l s'. fst s' = fst s \<and> bm_inv (snd s') \<and> bm_same (snd s') (snd s) \<and> unat l \<in> free_lbas (snd s) \<and>
       free_lbas (snd s') = free_lbas (snd s) - {unat l})
    (\<lambda>e s'. e = NoSpace \<and> s' = s \<and> no_room (snd s))"
proof -
  have ok: "bitmap_ok (snd s)" using i by (simp add: bm_inv_def)
  then show ?thesis
  proof (cases rule: bm_alloc_step [where cnt = 1])
    case full
    then show ?thesis using find_first_fit_no_room [OF ok] by (simp add: fs_alloc_def)
  next
    case (found b n)
    then have "take_blocks (snd s) 1 = Some ((word_of_nat n + ba_data_start (snd s), 1), b)"
      by (simp add: take_blocks_def)
    from take_blocks_step [OF i this] found(1) show ?thesis by (simp add: fs_alloc_def)
  qed
qed

text \<open>The loops that take the first blocks from \<open>old\<close> and allocate the others.\<close>

lemma grow_law:
  assumes i: "bm_inv (snd s)" and m: "m \<le> n"
  shows "sat (for_each (\<lambda>i chain s.
              if i < length old then ok (chain @ [old ! i]) s
              else ques (fs_alloc 1 s) (\<lambda>l s. ok (chain @ [l]) s)) [m..<n] c0 s)
    (\<lambda>chain s'. fst s' = fst s \<and> bm_inv (snd s') \<and> bm_same (snd s') (snd s) \<and>
       (\<exists>new. chain = c0 @ take (n - m) (drop m old) @ new \<and> length chain = length c0 + (n - m) \<and>
          distinct (map unat new) \<and> unat ` set new \<subseteq> free_lbas (snd s) \<and>
          free_lbas (snd s') = free_lbas (snd s) - unat ` set new))
    (\<lambda>e s'. e = NoSpace \<and> fst s' = fst s)"
proof (rule sat_for_each [where I = "\<lambda>k chain s'. fst s' = fst s \<and> bm_inv (snd s') \<and> bm_same (snd s') (snd s) \<and>
       (\<exists>new. chain = c0 @ take k (drop m old) @ new \<and> length chain = length c0 + k \<and>
          distinct (map unat new) \<and> unat ` set new \<subseteq> free_lbas (snd s) \<and>
          free_lbas (snd s') = free_lbas (snd s) - unat ` set new)"])
  show "fst s = fst s \<and> bm_inv (snd s) \<and> bm_same (snd s) (snd s) \<and> (\<exists>new. c0 = c0 @ take 0 (drop m old) @ new \<and>
      length c0 = length c0 + 0 \<and> distinct (map unat new) \<and> unat ` set new \<subseteq> free_lbas (snd s) \<and>
          free_lbas (snd s) = free_lbas (snd s) - unat ` set new)"
    using i by (auto simp: bm_same_def intro: exI [of _ "[]"])
next
  fix k chain s1
  assume k: "k < length [m..<n]" and I: "fst s1 = fst s \<and> bm_inv (snd s1) \<and> bm_same (snd s1) (snd s) \<and>
       (\<exists>new. chain = c0 @ take k (drop m old) @ new \<and> length chain = length c0 + k \<and>
          distinct (map unat new) \<and> unat ` set new \<subseteq> free_lbas (snd s) \<and>
          free_lbas (snd s1) = free_lbas (snd s) - unat ` set new)"
  then obtain new where new: "chain = c0 @ take k (drop m old) @ new" "length chain = length c0 + k"
      "distinct (map unat new)" "unat ` set new \<subseteq> free_lbas (snd s)"
      "free_lbas (snd s1) = free_lbas (snd s) - unat ` set new" by blast
  have i1: "bm_inv (snd s1)" and f1: "fst s1 = fst s" "bm_same (snd s1) (snd s)" using I by auto
  show "sat (if [m..<n] ! k < length old then ok (chain @ [old ! ([m..<n] ! k)]) s1
              else ques (fs_alloc 1 s1) (\<lambda>l s. ok (chain @ [l]) s))
    (\<lambda>chain s'. fst s' = fst s \<and> bm_inv (snd s') \<and> bm_same (snd s') (snd s) \<and>
       (\<exists>new. chain = c0 @ take (Suc k) (drop m old) @ new \<and> length chain = length c0 + Suc k \<and>
          distinct (map unat new) \<and> unat ` set new \<subseteq> free_lbas (snd s) \<and>
          free_lbas (snd s') = free_lbas (snd s) - unat ` set new))
    (\<lambda>e s'. e = NoSpace \<and> fst s' = fst s)"
  proof (cases "m + k < length old")
    case True
    have "new = []" using new(1,2) True by simp
    with True k new i1 f1 show ?thesis by (auto simp: take_Suc_conv_app_nth)
  next
    case False
    then have "take (Suc k) (drop m old) = take k (drop m old)" by simp
    with False k new i1 f1 show ?thesis
      by (auto simp: bm_same_def intro!: sat_mono [OF fs_alloc_law [OF i1]] exI [of _ "new @ [_]"])
  qed
qed (use m in auto)

section \<open>Writing a chain\<close>

context sector_disk
begin

lemma write_list_law:
  assumes g: "good (fst s)" and d: "distinct (map unat lbas)" and r: "\<forall>l\<in>set lbas. unat l < n_secs"
    and v: "\<And>i. i < length lbas \<Longrightarrow> length (val i) = 512"
  shows "sat (for_each (\<lambda>i _ s. on_disk (write_data pd (lbas ! i) (val i)) s) [0..<length lbas] () s)
    (\<lambda>_ s'. good (fst s') \<and> snd s' = snd s \<and>
       (\<forall>i < length lbas. secs (fst s') (unat (lbas ! i)) = val i) \<and>
       (\<forall>x. x \<notin> unat ` set lbas \<longrightarrow> secs (fst s') x = secs (fst s) x))
    (\<lambda>e s'. e = IOError \<and> fails 1)"
proof (rule sat_for_each [where I = "\<lambda>k _ s'. good (fst s') \<and> snd s' = snd s \<and>
       (\<forall>i < k. secs (fst s') (unat (lbas ! i)) = val i) \<and>
       (\<forall>x. x \<notin> unat ` set lbas \<longrightarrow> secs (fst s') x = secs (fst s) x)"])
  fix k :: nat and u s1
  assume k: "k < length [0..<length lbas]" and I: "good (fst s1) \<and> snd s1 = snd s \<and>
       (\<forall>i < k. secs (fst s1) (unat (lbas ! i)) = val i) \<and>
       (\<forall>x. x \<notin> unat ` set lbas \<longrightarrow> secs (fst s1) x = secs (fst s) x)"
  have other: "unat (lbas ! i) \<noteq> unat (lbas ! k)" if "i < k" for i
    using nth_eq_iff_index_eq [OF d, of i k] that k by simp
  have "sat (write_data pd (lbas ! k) (val k) (fst s1))
      (\<lambda>_ w'. good w' \<and> secs w' = (secs (fst s1))(unat (lbas ! k) := val k)) (\<lambda>e w'. e = IOError \<and> fails 1 \<and> good w')"
    using I k r v by (intro write_data_law) auto
  then show "sat (on_disk (write_data pd (lbas ! ([0..<length lbas] ! k)) (val ([0..<length lbas] ! k))) s1)
    (\<lambda>_ s'. good (fst s') \<and> snd s' = snd s \<and>
       (\<forall>i < Suc k. secs (fst s') (unat (lbas ! i)) = val i) \<and>
       (\<forall>x. x \<notin> unat ` set lbas \<longrightarrow> secs (fst s') x = secs (fst s) x))
    (\<lambda>e s'. e = IOError \<and> fails 1)"
    using k I other by (auto simp: less_Suc_eq elim!: sat_mono)
qed (use g in auto)

lemma read_links_law:
  assumes "good w" and "unat (lp_start p) < n_secs"
  shows "sat (read_links pd p w) (\<lambda>ls w'. ls = lb_decode (secs w (unat (lp_start p))) \<and> good w' \<and> secs w' = secs w)
    (\<lambda>e w'. e = IOError \<and> fails 1)"
  unfolding read_links_def sat_ques by (rule sat_mono [OF read_data_law [OF assms]]) auto

lemma trace_loop_law:
  assumes "link_chain n_secs S p d i" and "good w" and "secs w = S"
  shows "sat (trace_loop pd st ind p w)
    (\<lambda>r w'. r = (st @ d, ind @ i) \<and> good w' \<and> secs w' = S) (\<lambda>e w'. e = IOError \<and> fails 1)"
  using assms
proof (induction arbitrary: st ind w)
  case (chain_end p)
  then show ?case by (subst trace_loop.simps) simp
next
  case (chain_direct p)
  then show ?case by (subst trace_loop.simps) simp
next
  case (chain_block p ls d i)
  have "sat (read_links pd p w) (\<lambda>l w'. l = ls \<and> good w' \<and> secs w' = S) (\<lambda>e w'. e = IOError \<and> fails 1)"
    using chain_block by (intro sat_mono [OF read_links_law]) auto
  then have "sat (read_links pd p w)
      (\<lambda>l w'. sat (trace_loop pd (st @ direct_links l) (ind @ [p]) (l ! 31) w')
         (\<lambda>r w'. r = ((st @ direct_links ls) @ d, (ind @ [p]) @ i) \<and> good w' \<and> secs w' = S)
         (\<lambda>e w'. e = IOError \<and> fails 1))
      (\<lambda>e w'. e = IOError \<and> fails 1)"
    by (rule sat_mono) (use chain_block.IH in blast)+
  then show ?case using chain_block.hyps by (subst trace_loop.simps) simp
qed

lemma trace_law:
  assumes "link_chain n_secs (secs w) p d i" and "good w"
  shows "sat (trace pd p w) (\<lambda>r w'. r = (d, i) \<and> good w' \<and> secs w' = secs w) (\<lambda>e w'. e = IOError \<and> fails 1)"
  using trace_loop_law [OF assms refl, of "[]" "[]"] by (simp add: trace_def)

lemma resolve_links_law:
  assumes "link_chain n_secs (secs w) p d i" and "good w"
  shows "sat (resolve_links pd p w) (\<lambda>r w'. r = d \<and> good w' \<and> secs w' = secs w) (\<lambda>e w'. e = IOError \<and> fails 1)"
  using trace_law [OF assms] by (auto simp: resolve_is_trace elim!: sat_mono)

text \<open>
  \<open>build_file_chain\<close> leaves a head pointer with the blocks of the file, and as link blocks exactly the
  blocks it allocated.
\<close>

lemma build_file_chain_law:
  assumes g: "good (fst s)" and i: "bm_inv (snd s)" and fr: "free_lbas (snd s) \<subseteq> {0<..<n_secs}"
    and ne: "blocks \<noteq> []" and bl: "\<forall>b\<in>set blocks. 0 < unat b \<and> unat b < n_secs"
  shows "sat (build_file_chain pd blocks s)
    (\<lambda>head s'. good (fst s') \<and> bm_inv (snd s') \<and> bm_same (snd s') (snd s) \<and> free_lbas (snd s') \<subseteq> free_lbas (snd s) \<and>
       (\<forall>x. x \<notin> free_lbas (snd s) - free_lbas (snd s') \<longrightarrow> secs (fst s') x = secs (fst s) x) \<and>
       (\<exists>d i. link_chain n_secs (secs (fst s')) head d i \<and> list_all (extent_ok n_secs) d \<and> d \<noteq> [] \<and>
          link_blocks d = blocks \<and> distinct (map (unat \<circ> lp_start) i) \<and>
          (unat \<circ> lp_start) ` set i = free_lbas (snd s) - free_lbas (snd s')))
    (\<lambda>e s'. e = NoSpace \<or> e = IOError \<and> fails 1)"
proof -
  let ?es = "build_extents blocks" and ?n = "(length (build_extents blocks) + 30) div 31"
  have N: "n_secs * 512 < 2 ^ 64" using sec_count [OF g] by simp
  note es = build_extents_law [OF N bl] build_extents_nonempty [OF ne]
  have val: "\<forall>e\<in>set ?es. is_valid e \<and> is_direct e"
    using es(1) extent_valid by (auto simp: list_all_iff)
  show ?thesis
  proof (cases "length ?es = 1")
    case True
    then obtain e where e: "?es = [e]" by (cases ?es) auto
    then have "link_chain n_secs (secs (fst s)) e [e] []" using val by (intro chain_direct) auto
    with True g i es e show ?thesis
      by (simp add: build_file_chain_def bm_same_def) (rule exI [of _ "[e]"], simp)
  next
    case False
    have n0: "0 < ?n" using es(2) by (cases ?es) auto
    have A: "sat (for_each (\<lambda>j lbas s. ques (fs_alloc 1 s) (\<lambda>l s. ok (lbas @ [l]) s)) [0..<?n] [] s)
      (\<lambda>lbas s'. fst s' = fst s \<and> bm_inv (snd s') \<and> bm_same (snd s') (snd s) \<and> length lbas = ?n \<and> distinct (map unat lbas) \<and>
         unat ` set lbas \<subseteq> free_lbas (snd s) \<and> free_lbas (snd s') = free_lbas (snd s) - unat ` set lbas)
      (\<lambda>e s'. e = NoSpace \<and> fst s' = fst s)"
      using grow_law [OF i, of 0 ?n "[]" "[]"] by (auto elim!: sat_mono)
    have B: "sat (for_each (\<lambda>j _ s. on_disk (write_data pd (lbas ! j) (lb_encode (link_array ?es lbas j))) s) [0..<?n] () s1)
        (\<lambda>_ s'. sat (if lbas = [] then None else ok (link_pointer_new (lbas ! 0) 0) s')
          (\<lambda>head s'. good (fst s') \<and> bm_inv (snd s') \<and> bm_same (snd s') (snd s) \<and> free_lbas (snd s') \<subseteq> free_lbas (snd s) \<and>
             (\<forall>x. x \<notin> free_lbas (snd s) - free_lbas (snd s') \<longrightarrow> secs (fst s') x = secs (fst s) x) \<and>
             (\<exists>d i. link_chain n_secs (secs (fst s')) head d i \<and> list_all (extent_ok n_secs) d \<and> d \<noteq> [] \<and>
                link_blocks d = blocks \<and> distinct (map (unat \<circ> lp_start) i) \<and>
                (unat \<circ> lp_start) ` set i = free_lbas (snd s) - free_lbas (snd s')))
          (\<lambda>e s'. e = NoSpace \<or> e = IOError \<and> fails 1))
        (\<lambda>e s'. e = NoSpace \<or> e = IOError \<and> fails 1)"
      if l: "fst s1 = fst s" "bm_inv (snd s1)" "length lbas = ?n" "distinct (map unat lbas)"
        "unat ` set lbas \<subseteq> free_lbas (snd s)" "free_lbas (snd s1) = free_lbas (snd s) - unat ` set lbas" "bm_same (snd s1) (snd s)"
      for lbas and s1 :: "'w \<times> bitmap_allocator"
    proof -
      have r: "\<forall>l\<in>set lbas. 0 < unat l \<and> unat l < n_secs" 
      proof
        fix l assume "l \<in> set lbas"
        then have "unat l \<in> {0<..<n_secs}" using l(5) fr by blast
        then show "0 < unat l \<and> unat l < n_secs" by simp
      qed
      have links: "free_lbas (snd s) - free_lbas (snd s1) = unat ` set lbas" using l(5,6) by blast
      let ?i = "map (\<lambda>l. link_pointer_new l 0) lbas"
      have li: "map (unat \<circ> lp_start) ?i = map unat lbas" "(unat \<circ> lp_start) ` set ?i = unat ` set lbas"
        by (auto simp: link_pointer_new_def image_image)
      have chain: "link_chain n_secs (secs w) (link_pointer_new (lbas ! 0) 0) ?es ?i"
        if "\<forall>j < length lbas. secs w (unat (lbas ! j)) = lb_encode (link_array ?es lbas j)" for w
        using link_array_chain [OF val r l(3) that, of 0] n0 l(3) by simp
      have fin: "\<exists>d i. link_chain n_secs (secs w) (link_pointer_new (lbas ! 0) 0) d i \<and> list_all (extent_ok n_secs) d \<and> d \<noteq> [] \<and>
                link_blocks d = blocks \<and> distinct (map (unat \<circ> lp_start) i) \<and>
                (unat \<circ> lp_start) ` set i = free_lbas (snd s) - free_lbas (snd s1)"
        if "\<forall>j < length lbas. secs w (unat (lbas ! j)) = lb_encode (link_array ?es lbas j)" for w
        by (rule exI [of _ ?es], rule exI [of _ ?i], unfold li links) (use chain [OF that] es l(4) in simp)
      have "sat (for_each (\<lambda>j _ s. on_disk (write_data pd (lbas ! j) (lb_encode (link_array ?es lbas j))) s) [0..<length lbas] () s1)
        (\<lambda>_ s'. good (fst s') \<and> snd s' = snd s1 \<and>
           (\<forall>j < length lbas. secs (fst s') (unat (lbas ! j)) = lb_encode (link_array ?es lbas j)) \<and>
           (\<forall>x. x \<notin> unat ` set lbas \<longrightarrow> secs (fst s') x = secs (fst s1) x))
        (\<lambda>e s'. e = IOError \<and> fails 1)"
        using g l(1,4) r by (intro write_list_law) auto
      then show ?thesis
        unfolding l(3) [symmetric] by (rule sat_mono) (use n0 l fin links in auto)
    qed
    have n31: "length ?es + 31 - 1 = length ?es + 30" by simp
    show ?thesis
      unfolding build_file_chain_def Let_def n31 if_not_P [OF False] sat_ques
      by (rule sat_mono [OF A]) (elim conjE, rule B, assumption+, simp)
  qed
qed

end

end
