(* ===== verification/Lemon_File.thy ===== *)
theory Lemon_File
  imports Lemon_Chain
begin

text \<open>
  The contents of a file: the blocks \<open>write\<close> gives it, the bytes it stores in them, and what
  \<open>read\<close> finds there.
\<close>

section \<open>Giving blocks back\<close>

lemma fs_free_law:
  assumes "bm_inv (snd s)" and "lba_granted (snd s) (l, 1)"
  shows "sat (fs_free l 1 s)
    (\<lambda>_ s'. fst s' = fst s \<and> bm_inv (snd s') \<and> bm_same (snd s') (snd s) \<and>
       free_lbas (snd s') = insert (unat l) (free_lbas (snd s)))
    (\<lambda>e s'. False)"
proof -
  obtain b where "bm_free (snd s) l 1 = Some b" "bm_inv b" "bm_same b (snd s)"
    "free_lbas b = free_lbas (snd s) \<union> {unat l}"
    by (rule give_blocks_step [OF assms]) (auto simp: give_blocks_def)
  then show ?thesis by (simp add: fs_free_def)
qed

lemma free_granted:
  assumes "bm_inv b" and "unat l \<in> free_lbas b"
  shows "lba_granted b (l, 1)"
  using assms(2) by (auto simp: free_lbas_def lba_granted_def)

lemma bm_same_trans: "bm_same a b \<Longrightarrow> bm_same b c \<Longrightarrow> bm_same a c"
  by (simp add: bm_same_def)

context sector_disk
begin

lemma free_zero_law:
  assumes g: "good (fst s)" and i: "bm_inv (snd s)"
    and xs: "\<forall>x\<in>set xs. lba_granted (snd s) (start x, 1) \<and> unat (start x) < n_secs"
  shows "sat (for_each (\<lambda>x _ s. ques (fs_free (start x) 1 s) (\<lambda>_ s. on_disk (zero_blocks_of pd (start x) 1) s)) xs () s)
    (\<lambda>_ s'. good (fst s') \<and> bm_inv (snd s') \<and> bm_same (snd s') (snd s) \<and>
       free_lbas (snd s') = free_lbas (snd s) \<union> (unat \<circ> start) ` set xs \<and>
       (\<forall>x. x \<notin> (unat \<circ> start) ` set xs \<longrightarrow> secs (fst s') x = secs (fst s) x))
    (\<lambda>e s'. e = IOError \<and> fails 1)"
  using assms
proof (induction xs arbitrary: s)
  case Nil
  then show ?case by (simp add: bm_same_def)
next
  case (Cons x xs)
  have gr: "lba_granted (snd s) (start x, 1)" and ux: "unat (start x) + unat (1 :: u64) \<le> n_secs"
    using Cons.prems(3) by auto
  have step: "sat (zero_blocks_of pd (start x) 1 (fst s1))
      (\<lambda>_ w'. sat (for_each (\<lambda>x _ s. ques (fs_free (start x) 1 s) (\<lambda>_ s. on_disk (zero_blocks_of pd (start x) 1) s)) xs () (w', snd s1))
         (\<lambda>_ s'. good (fst s') \<and> bm_inv (snd s') \<and> bm_same (snd s') (snd s) \<and>
            free_lbas (snd s') = free_lbas (snd s) \<union> (unat \<circ> start) ` set (x # xs) \<and>
            (\<forall>y. y \<notin> (unat \<circ> start) ` set (x # xs) \<longrightarrow> secs (fst s') y = secs (fst s) y))
         (\<lambda>e s'. e = IOError \<and> fails 1))
      (\<lambda>e w'. e = IOError \<and> fails 1)"
    if s1: "fst s1 = fst s" "bm_inv (snd s1)" "bm_same (snd s1) (snd s)"
      "free_lbas (snd s1) = insert (unat (start x)) (free_lbas (snd s))" for s1 :: "'w \<times> bitmap_allocator"
  proof (rule sat_mono [OF zero_blocks_law])
    fix u w' assume w': "good w' \<and> secs w' = (\<lambda>i. if unat (start x) \<le> i \<and> i < unat (start x) + unat (1 :: u64)
        then replicate 512 0 else secs (fst s1) i)"
    have "sat (for_each (\<lambda>x _ s. ques (fs_free (start x) 1 s) (\<lambda>_ s. on_disk (zero_blocks_of pd (start x) 1) s)) xs () (w', snd s1))
        (\<lambda>_ s'. good (fst s') \<and> bm_inv (snd s') \<and> bm_same (snd s') (snd s1) \<and>
          free_lbas (snd s') = free_lbas (snd s1) \<union> (unat \<circ> start) ` set xs \<and>
          (\<forall>x. x \<notin> (unat \<circ> start) ` set xs \<longrightarrow> secs (fst s') x = secs w' x))
        (\<lambda>e s'. e = IOError \<and> fails 1)"
      using Cons.IH [of "(w', snd s1)"] w' s1 Cons.prems(3) by (simp add: lba_granted_same)
    then show "sat (for_each (\<lambda>x _ s. ques (fs_free (start x) 1 s) (\<lambda>_ s. on_disk (zero_blocks_of pd (start x) 1) s)) xs () (w', snd s1))
         (\<lambda>_ s'. good (fst s') \<and> bm_inv (snd s') \<and> bm_same (snd s') (snd s) \<and>
            free_lbas (snd s') = free_lbas (snd s) \<union> (unat \<circ> start) ` set (x # xs) \<and>
            (\<forall>y. y \<notin> (unat \<circ> start) ` set (x # xs) \<longrightarrow> secs (fst s') y = secs (fst s) y))
         (\<lambda>e s'. e = IOError \<and> fails 1)"
      by (rule sat_mono) (use s1 w' bm_same_trans in auto)
  qed (use s1 Cons.prems(1) ux in auto)
  show ?case
    unfolding for_each.simps sat_ques sat_on_disk ques_assoc
    by (rule sat_mono [OF fs_free_law [OF Cons.prems(2) gr]]) (use step in auto)
qed

end

section \<open>The blocks of a file\<close>

text \<open>
  A file with head pointer \<open>head\<close> owns \<open>blocks\<close>: the chain on the sectors \<open>S\<close> has these blocks, and they
  and its link blocks are different blocks, inside the table and not free in the bitmap \<open>b\<close>.
\<close>

definition owns_blocks :: "nat \<Rightarrow> (nat \<Rightarrow> bytes) \<Rightarrow> bitmap_allocator \<Rightarrow> link_pointer \<Rightarrow> u64 list \<Rightarrow> bool" where
  "owns_blocks N S b head blocks \<longleftrightarrow>
     (\<exists>direct indirect. link_chain N S head direct indirect \<and> link_blocks direct = blocks \<and>
        distinct (map unat (blocks @ map lp_start indirect)) \<and>
        (\<forall>x\<in>set (blocks @ map lp_start indirect).
           0 < unat x \<and> unat x < N \<and> lba_granted b (x, 1) \<and> unat x \<notin> free_lbas b))"

text \<open>The same with extents of whole blocks: the head pointer of a new file has size 1, not 512.\<close>

definition owns_extents :: "nat \<Rightarrow> (nat \<Rightarrow> bytes) \<Rightarrow> bitmap_allocator \<Rightarrow> link_pointer \<Rightarrow> u64 list \<Rightarrow> bool" where
  "owns_extents N S b head blocks \<longleftrightarrow>
     (\<exists>direct indirect. link_chain N S head direct indirect \<and> link_blocks direct = blocks \<and>
        list_all (extent_ok N) direct \<and>
        distinct (map unat (blocks @ map lp_start indirect)) \<and>
        (\<forall>x\<in>set (blocks @ map lp_start indirect).
           0 < unat x \<and> unat x < N \<and> lba_granted b (x, 1) \<and> unat x \<notin> free_lbas b))"

lemma owns_extents_blocks: "owns_extents N S b head blocks \<Longrightarrow> owns_blocks N S b head blocks"
  unfolding owns_extents_def owns_blocks_def by blast

lemma owns_extentsI:
  assumes "link_chain N S head d i" and "list_all (extent_ok N) d" and "link_blocks d = blocks"
    and "distinct (map unat blocks)" and "distinct (map (unat \<circ> lp_start) i)"
    and "unat ` set blocks \<inter> (unat \<circ> lp_start) ` set i = {}"
    and "\<And>x. x \<in> unat ` set blocks \<union> (unat \<circ> lp_start) ` set i \<Longrightarrow>
      0 < x \<and> x < N \<and> lba_granted b (word_of_nat x, 1) \<and> x \<notin> free_lbas b"
  shows "owns_extents N S b head blocks"
  unfolding owns_extents_def
proof (intro exI conjI ballI)
  show "distinct (map unat (blocks @ map lp_start i))"
    using assms(4-6) by (auto simp: image_comp)
  fix x assume "x \<in> set (blocks @ map lp_start i)"
  then have "unat x \<in> unat ` set blocks \<union> (unat \<circ> lp_start) ` set i" by auto
  from assms(7) [OF this] show "0 < unat x" "unat x < N" "lba_granted b (x, 1)" "unat x \<notin> free_lbas b"
    by simp_all
qed (use assms in auto)

lemma free_lba_granted:
  assumes "bm_inv b" and "x \<in> free_lbas b"
  shows "lba_granted b (word_of_nat x, 1)" and "unat (word_of_nat x :: u64) = x"
proof -
  have "x < 2 ^ 64" using assms by (auto simp: free_lbas_def bm_inv_def)
  then show u: "unat (word_of_nat x :: u64) = x" by (simp add: unat_of_nat)
  show "lba_granted b (word_of_nat x, 1)" using assms by (intro free_granted) (simp_all add: u)
qed

context sector_disk
begin

lemma reblock_tail:
  assumes g: "good (fst s)" and i: "bm_inv (snd s)" and fr: "free_lbas (snd s) \<subseteq> {0<..<n_secs}"
    and ne: "chain \<noteq> []" and dc: "distinct (map unat chain)"
    and c: "\<forall>x\<in>set chain. 0 < unat x \<and> unat x < n_secs \<and> lba_granted (snd s) (x, 1) \<and> unat x \<notin> free_lbas (snd s)"
    and u: "\<forall>x\<in>set sur. 0 < unat x \<and> unat x < n_secs \<and> lba_granted (snd s) (x, 1)"
    and cu: "unat ` set chain \<inter> unat ` set sur = {}"
  shows "sat (ques (for_each (\<lambda>block _ s. ques (fs_free block 1 s) (\<lambda>_ s. on_disk (zero_blocks_of pd block 1) s)) sur () s)
      (\<lambda>_ s. build_file_chain pd chain s))
    (\<lambda>head s'. good (fst s') \<and> bm_inv (snd s') \<and> bm_same (snd s') (snd s) \<and> free_lbas (snd s') \<subseteq> {0<..<n_secs} \<and>
       owns_extents n_secs (secs (fst s')) (snd s') head chain)
    (\<lambda>e s'. e = NoSpace \<or> e = IOError \<and> fails 1)"
proof -
  have fz: "sat (for_each (\<lambda>block _ s. ques (fs_free block 1 s) (\<lambda>_ s. on_disk (zero_blocks_of pd block 1) s)) sur () s)
      (\<lambda>_ s'. good (fst s') \<and> bm_inv (snd s') \<and> bm_same (snd s') (snd s) \<and>
         free_lbas (snd s') = free_lbas (snd s) \<union> unat ` set sur)
      (\<lambda>e s'. e = IOError \<and> fails 1)"
    by (rule sat_mono [OF free_zero_law [OF g i, of sur "\<lambda>x. x"]]) (use u in auto)
  have "sat (build_file_chain pd chain s1)
      (\<lambda>head s'. good (fst s') \<and> bm_inv (snd s') \<and> bm_same (snd s') (snd s) \<and> free_lbas (snd s') \<subseteq> {0<..<n_secs} \<and>
         owns_extents n_secs (secs (fst s')) (snd s') head chain)
      (\<lambda>e s'. e = NoSpace \<or> e = IOError \<and> fails 1)"
    if s1: "good (fst s1)" "bm_inv (snd s1)" "bm_same (snd s1) (snd s)"
      "free_lbas (snd s1) = free_lbas (snd s) \<union> unat ` set sur" for s1 :: "'w \<times> bitmap_allocator"
  proof -
    have fr1: "free_lbas (snd s1) \<subseteq> {0<..<n_secs}" using fr u s1(4) by auto
    have c1: "unat ` set chain \<inter> free_lbas (snd s1) = {}" using c cu s1(4) by auto
    show ?thesis
    proof (rule sat_mono [OF build_file_chain_law [OF s1(1,2) fr1 ne]])
      fix head s'
      assume "good (fst s') \<and> bm_inv (snd s') \<and> bm_same (snd s') (snd s1) \<and> free_lbas (snd s') \<subseteq> free_lbas (snd s1) \<and>
        (\<forall>x. x \<notin> free_lbas (snd s1) - free_lbas (snd s') \<longrightarrow> secs (fst s') x = secs (fst s1) x) \<and>
        (\<exists>d i. link_chain n_secs (secs (fst s')) head d i \<and> list_all (extent_ok n_secs) d \<and> d \<noteq> [] \<and>
          link_blocks d = chain \<and> distinct (map (unat \<circ> lp_start) i) \<and>
          (unat \<circ> lp_start) ` set i = free_lbas (snd s1) - free_lbas (snd s'))"
      then obtain d i where s': "good (fst s')" "bm_inv (snd s')" "bm_same (snd s') (snd s1)"
        "free_lbas (snd s') \<subseteq> free_lbas (snd s1)" and
        d: "link_chain n_secs (secs (fst s')) head d i" "list_all (extent_ok n_secs) d"
          "link_blocks d = chain" "distinct (map (unat \<circ> lp_start) i)"
          "(unat \<circ> lp_start) ` set i = free_lbas (snd s1) - free_lbas (snd s')" by blast
      have gr: "lba_granted (snd s') = lba_granted (snd s1)" "lba_granted (snd s') = lba_granted (snd s)"
        using lba_granted_same [OF s'(3)] lba_granted_same [OF s1(3)] by simp_all
      have "owns_extents n_secs (secs (fst s')) (snd s') head chain"
      proof (rule owns_extentsI [OF d(1-3) dc d(4)])
        show "unat ` set chain \<inter> (unat \<circ> lp_start) ` set i = {}" using c1 d(5) by auto
        fix x assume x: "x \<in> unat ` set chain \<union> (unat \<circ> lp_start) ` set i"
        show "0 < x \<and> x < n_secs \<and> lba_granted (snd s') (word_of_nat x, 1) \<and> x \<notin> free_lbas (snd s')"
        proof (cases "x \<in> unat ` set chain")
          case True
          then show ?thesis using c c1 s'(4) gr by auto
        next
          case False
          then have x: "x \<in> free_lbas (snd s1) - free_lbas (snd s')" using x d(5) by blast
          then have "lba_granted (snd s') (word_of_nat x, 1)"
            using free_lba_granted(1) [OF s1(2)] gr by simp
          then show ?thesis using x fr1 by auto
        qed
      qed
      then show "good (fst s') \<and> bm_inv (snd s') \<and> bm_same (snd s') (snd s) \<and> free_lbas (snd s') \<subseteq> {0<..<n_secs} \<and>
         owns_extents n_secs (secs (fst s')) (snd s') head chain"
        using s' bm_same_trans [OF s'(3) s1(3)] fr1 by simp
    qed (use c in auto)
  qed
  then show ?thesis unfolding sat_ques by - (rule sat_mono [OF fz]; blast)
qed

lemma reblock_law:
  assumes g: "good (fst s)" and i: "bm_inv (snd s)" and fr: "free_lbas (snd s) \<subseteq> {0<..<n_secs}"
    and o: "owns_blocks n_secs (secs (fst s)) (snd s) head blocks" and n: "0 < sectors"
  shows "sat (reblock pd head sectors s)
    (\<lambda>head' s'. good (fst s') \<and> bm_inv (snd s') \<and> bm_same (snd s') (snd s) \<and> free_lbas (snd s') \<subseteq> {0<..<n_secs} \<and>
       (\<exists>chain. length chain = sectors \<and> owns_extents n_secs (secs (fst s')) (snd s') head' chain))
    (\<lambda>e s'. e = NoSpace \<or> e = IOError \<and> fails 1)"
proof -
  obtain d ind where c: "link_chain n_secs (secs (fst s)) head d ind" "link_blocks d = blocks"
    and dist: "distinct (map unat (blocks @ map lp_start ind))"
    and own: "\<forall>x\<in>set (blocks @ map lp_start ind).
           0 < unat x \<and> unat x < n_secs \<and> lba_granted (snd s) (x, 1) \<and> unat x \<notin> free_lbas (snd s)"
    using o unfolding owns_blocks_def by blast
  let ?I = "(unat \<circ> lp_start) ` set ind"
  let ?Q = "\<lambda>head' s'. good (fst s') \<and> bm_inv (snd s') \<and> bm_same (snd s') (snd s) \<and> free_lbas (snd s') \<subseteq> {0<..<n_secs} \<and>
       (\<exists>chain. length chain = sectors \<and> owns_extents n_secs (secs (fst s')) (snd s') head' chain)"
  let ?E = "\<lambda>e s'. e = NoSpace \<or> e = IOError \<and> fails 1"
  have "distinct (map unat (take sectors blocks @ drop sectors blocks))" using dist by simp
  then have db: "distinct (map unat (take sectors blocks))"
    "unat ` set (take sectors blocks) \<inter> unat ` set (drop sectors blocks) = {}"
    by (simp_all only: map_append distinct_append set_map)
  have sub: "set (take sectors blocks) \<subseteq> set blocks" "set (drop sectors blocks) \<subseteq> set blocks"
    by (simp_all add: set_take_subset set_drop_subset)
  have BI: "unat ` set blocks \<inter> ?I = {}" using dist by (auto simp: image_comp)
  have tail: "sat (ques (for_each (\<lambda>block _ s. ques (fs_free block 1 s) (\<lambda>_ s. on_disk (zero_blocks_of pd block 1) s))
          (drop sectors blocks) () s2) (\<lambda>_ s. build_file_chain pd chain s)) ?Q ?E"
    if s1: "bm_inv (snd s1)" "bm_same (snd s1) (snd s)" "free_lbas (snd s1) = free_lbas (snd s) \<union> ?I"
      and s2: "good (fst s2)" "bm_inv (snd s2)" "bm_same (snd s2) (snd s1)" "length chain = sectors"
        "chain = take sectors blocks @ new" "distinct (map unat new)" "unat ` set new \<subseteq> free_lbas (snd s1)"
        "free_lbas (snd s2) = free_lbas (snd s1) - unat ` set new"
    for chain new and s1 s2 :: "'w \<times> bitmap_allocator"
  proof -
    have gr: "lba_granted (snd s2) = lba_granted (snd s1)" "lba_granted (snd s1) = lba_granted (snd s)"
      using lba_granted_same [OF s2(3)] lba_granted_same [OF s1(2)] by simp_all
    have F1: "free_lbas (snd s1) \<subseteq> {0<..<n_secs}" using fr s1(3) own by auto
    have B1: "unat ` set blocks \<inter> free_lbas (snd s1) = {}" using own BI s1(3) by auto
    have NB: "unat ` set new \<inter> unat ` set blocks = {}" using B1 s2(7) by blast
    have ND: "unat ` set (take sectors blocks) \<inter> unat ` set new = {}" "unat ` set new \<inter> unat ` set (drop sectors blocks) = {}"
      using NB image_mono [OF sub(1), of unat] image_mono [OF sub(2), of unat] by blast+
    have "sat (ques (for_each (\<lambda>block _ s. ques (fs_free block 1 s) (\<lambda>_ s. on_disk (zero_blocks_of pd block 1) s))
          (drop sectors blocks) () s2) (\<lambda>_ s. build_file_chain pd chain s))
      (\<lambda>head s'. good (fst s') \<and> bm_inv (snd s') \<and> bm_same (snd s') (snd s2) \<and> free_lbas (snd s') \<subseteq> {0<..<n_secs} \<and>
         owns_extents n_secs (secs (fst s')) (snd s') head chain) ?E"
    proof (rule reblock_tail [OF s2(1,2)])
      show "free_lbas (snd s2) \<subseteq> {0<..<n_secs}" using F1 s2(8) by blast
      show "chain \<noteq> []" using s2(4) n by auto
      show "distinct (map unat chain)" unfolding s2(5) using db(1) s2(6) ND(1) by (simp only: map_append distinct_append set_map)
      show "unat ` set chain \<inter> unat ` set (drop sectors blocks) = {}" unfolding s2(5) set_append image_Un using db(2) ND(2) by blast
      show "\<forall>x\<in>set (drop sectors blocks). 0 < unat x \<and> unat x < n_secs \<and> lba_granted (snd s2) (x, 1)"
        using own sub(2) gr by auto
      show "\<forall>x\<in>set chain. 0 < unat x \<and> unat x < n_secs \<and> lba_granted (snd s2) (x, 1) \<and> unat x \<notin> free_lbas (snd s2)"
      proof
        fix x assume "x \<in> set chain"
        then consider "x \<in> set blocks" | "x \<in> set new" using s2(5) sub(1) by auto
        then show "0 < unat x \<and> unat x < n_secs \<and> lba_granted (snd s2) (x, 1) \<and> unat x \<notin> free_lbas (snd s2)"
        proof cases
          case 1
          then show ?thesis using own gr B1 s2(8) by auto
        next
          case 2
          then have "unat x \<in> free_lbas (snd s1)" using s2(7) by blast
          then show ?thesis using 2 F1 gr s2(8) free_granted [OF s1(1)] by auto
        qed
      qed
    qed
    then show ?thesis
      by (rule sat_mono) (use s2(4) bm_same_trans [OF _ bm_same_trans [OF s2(3) s1(2)]] in blast)+
  qed
  have grow: "sat (for_each (\<lambda>i chain s. if i < length blocks then ok (chain @ [blocks ! i]) s
            else ques (fs_alloc 1 s) (\<lambda>l s. ok (chain @ [l]) s)) [0..<sectors] [] s1)
      (\<lambda>chain s2. sat (ques (for_each (\<lambda>block _ s. ques (fs_free block 1 s) (\<lambda>_ s. on_disk (zero_blocks_of pd block 1) s))
          (drop sectors blocks) () s2) (\<lambda>_ s. build_file_chain pd chain s)) ?Q ?E) ?E"
    if "good (fst s1)" "bm_inv (snd s1)" "bm_same (snd s1) (snd s)" "free_lbas (snd s1) = free_lbas (snd s) \<union> ?I"
    for s1 :: "'w \<times> bitmap_allocator"
    by (rule sat_mono [OF grow_law [OF that(2), of 0 sectors blocks "[]"]]) (use tail [OF that(2-4)] that(1) in auto)
  have fz: "sat (for_each (\<lambda>link _ s. ques (fs_free (lp_start link) 1 s) (\<lambda>_ s. on_disk (zero_blocks_of pd (lp_start link) 1) s)) ind () s1)
      (\<lambda>_ s1. good (fst s1) \<and> bm_inv (snd s1) \<and> bm_same (snd s1) (snd s) \<and> free_lbas (snd s1) = free_lbas (snd s) \<union> ?I) ?E"
    if "good (fst s1)" "snd s1 = snd s" for s1 :: "'w \<times> bitmap_allocator"
    by (rule sat_mono [OF free_zero_law [OF that(1), of ind lp_start]]) (use own i that(2) in auto)
  have all: "sat (for_each (\<lambda>link _ s. ques (fs_free (lp_start link) 1 s) (\<lambda>_ s. on_disk (zero_blocks_of pd (lp_start link) 1) s)) ind () s1)
      (\<lambda>_ s1. sat (for_each (\<lambda>i chain s. if i < length blocks then ok (chain @ [blocks ! i]) s
            else ques (fs_alloc 1 s) (\<lambda>l s. ok (chain @ [l]) s)) [0..<sectors] [] s1)
      (\<lambda>chain s2. sat (ques (for_each (\<lambda>block _ s. ques (fs_free block 1 s) (\<lambda>_ s. on_disk (zero_blocks_of pd block 1) s))
          (drop sectors blocks) () s2) (\<lambda>_ s. build_file_chain pd chain s)) ?Q ?E) ?E) ?E"
    if "good (fst s1)" "snd s1 = snd s" for s1 :: "'w \<times> bitmap_allocator"
    by (rule sat_mono [OF fz [OF that]]) (use grow in blast)+
  show ?thesis
    unfolding reblock_def sat_ques sat_on_disk Let_def
  proof (rule sat_mono [OF trace_law [OF c(1) g]], goal_cases)
    case (1 r w)
    then show ?case using all [of "(w, snd s)", folded c(2)] by simp
  qed simp
qed

end

section \<open>The contents of a file\<close>

definition lba_list :: "link_pointer list \<Rightarrow> nat list" where
  "lba_list links = map unat (link_blocks links)"

definition contents :: "(nat \<Rightarrow> bytes) \<Rightarrow> link_pointer list \<Rightarrow> bytes" where
  "contents S links = concat (map S (lba_list links))"

lemma extent_lbas:
  assumes "extent_ok N e" and "N * 512 < 2 ^ 64"
  obtains k where "unat (lp_size e) = k * 512" and "0 < k" and "unat (lp_start e) + k \<le> N"
    and "unat (div_ceil (lp_size e) 512) = k"
    and "map unat (extent_blocks e) = [unat (lp_start e)..<unat (lp_start e) + k]"
proof -
  obtain k where k: "unat (lp_size e) = k * 512" "0 < k" "unat (lp_start e) + k \<le> N"
    using assms(1) by (auto simp: extent_ok_def)
  have "map unat (extent_blocks e) = [unat (lp_start e)..<unat (lp_start e) + k]"
  proof (rule nth_equalityI)
    fix j assume "j < length (map unat (extent_blocks e))"
    then have j: "j < k" by (simp add: extent_blocks_size [OF k(1)])
    then have "unat (lp_start e + word_of_nat j) = unat (lp_start e) + j"
      using k(3) assms(2) by (intro unat_addI) (simp_all add: unat_of_nat)
    with j show "map unat (extent_blocks e) ! j = [unat (lp_start e)..<unat (lp_start e) + k] ! j"
      by (simp add: extent_blocks_size [OF k(1)])
  qed (simp add: extent_blocks_size [OF k(1)])
  moreover have "unat (div_ceil (lp_size e) 512) = k"
    using k(1) by (subst unat_div_ceil) (simp_all add: ceil_div_exact)
  ultimately show ?thesis using k that by blast
qed

lemma lba_list_Cons: "lba_list (l # ls) = map unat (extent_blocks l) @ lba_list ls"
  by (simp add: lba_list_def link_blocks_extents)

lemma contents_cong: "(\<And>x. x \<in> set (lba_list links) \<Longrightarrow> S x = S' x) \<Longrightarrow> contents S links = contents S' links"
  by (simp add: contents_def cong: map_cong)

lemma contents_Cons: "contents S (l # ls) = concat (map S (map unat (extent_blocks l))) @ contents S ls"
  by (simp add: contents_def lba_list_Cons)

context sector_disk
begin

lemma length_contents: "length (contents (secs w) links) = length (lba_list links) * 512"
  unfolding contents_def by (subst concat_length [where n = 512]) (simp_all add: list_all_iff sec_length)

lemma length_sectors: "length (concat (map (secs w) xs)) = length xs * 512"
  by (subst concat_length [where n = 512]) (simp_all add: list_all_iff sec_length)

lemma concat_slices:
  assumes "\<And>j. j < k \<Longrightarrow> S (a + j) = take 512 (drop (j * 512) ds)" and "k * 512 \<le> length ds"
  shows "concat (map S [a..<a + k]) = take (k * 512) ds"
  using assms
proof (induction k)
  case (Suc k)
  then have "concat (map S [a..<a + k]) = take (k * 512) ds" by simp
  then show ?case using Suc.prems(1) [of k] by (simp add: take_add [of "k * 512" 512, symmetric] add.commute)
qed simp

lemma write_extents_law:
  assumes "good w" and "list_all (extent_ok n_secs) links" and "distinct (lba_list links)"
    and "page_ok page" and "\<forall>l\<in>set links. unat (lp_size l) \<le> length (pp_data page)"
    and "unat off + length (lba_list links) * 512 \<le> length src" and "length src < 2 ^ 64"
    and "length (lba_list links) \<le> K"
  shows "sat (write_extents pd src links off page w)
    (\<lambda>_ w'. good w' \<and> contents (secs w') links = take (length (lba_list links) * 512) (drop (unat off) src) \<and>
       (\<forall>x. x \<notin> set (lba_list links) \<longrightarrow> secs w' x = secs w x))
    (\<lambda>e w'. e = IOError \<and> fails K)"
  using assms
proof (induction links arbitrary: off page w)
  case Nil
  then show ?case by (simp add: contents_def lba_list_def link_blocks_def)
next
  case (Cons l ls)
  have N: "n_secs * 512 < 2 ^ 64" using sec_count [OF Cons.prems(1)] by simp
  have "extent_ok n_secs l" using Cons.prems(2) by simp
  then obtain k where k: "unat (lp_size l) = k * 512" "0 < k" "unat (lp_start l) + k \<le> n_secs"
    "unat (div_ceil (lp_size l) 512) = k"
    and el: "map unat (extent_blocks l) = [unat (lp_start l)..<unat (lp_start l) + k]"
    by (rule extent_lbas [OF _ N])
  have len: "length (lba_list (l # ls)) = k + length (lba_list ls)" by (simp add: lba_list_Cons el)
  define chunk where "chunk = take (k * 512) (drop (unat off) src)"
  define page' where "page' = page\<lparr>pp_data := splice 0 chunk (pp_data page)\<rparr>"
  define page'' where "page'' = page'\<lparr>pp_data := splice 0 (replicate (k * 512) 0) (pp_data page')\<rparr>"
  have lc: "length chunk = k * 512" using Cons.prems(6) len by (simp add: chunk_def)
  have lp: "k * 512 \<le> length (pp_data page)" using Cons.prems(5) k(1) by simp
  have l': "length (pp_data page') = length (pp_data page)" using lc lp by (simp add: page'_def)
  have l'': "length (pp_data page'') = length (pp_data page)" using lp l' by (simp add: page''_def)
  have ok': "page_ok page'" "page_ok page''"
    using Cons.prems(4) l' l'' by (simp_all add: page_ok_def page'_def page''_def)
  have off: "unat (off + lp_size l) = unat off + k * 512"
    using Cons.prems(6,7) len k(1) by (intro unat_addI) simp_all
  have page_take: "take (k * 512) (pp_data page') = chunk" using lc by (simp add: page'_def splice_def)
  have rest: "sat (write_extents pd src ls (off + lp_size l) page'' w1)
      (\<lambda>_ w'. good w' \<and> contents (secs w') (l # ls) = take (length (lba_list (l # ls)) * 512) (drop (unat off) src) \<and>
         (\<forall>x. x \<notin> set (lba_list (l # ls)) \<longrightarrow> secs w' x = secs w x))
      (\<lambda>e w'. e = IOError \<and> fails K)"
    if w1: "good w1" "secs w1 = (\<lambda>i. if unat (lp_start l) \<le> i \<and> i < unat (lp_start l) + k
        then take 512 (drop ((i - unat (lp_start l)) * 512) (pp_data page')) else secs w i)" for w1
  proof (rule sat_mono [OF Cons.IH [OF w1(1)]])
    fix u w' assume "good w' \<and> contents (secs w') ls = take (length (lba_list ls) * 512) (drop (unat (off + lp_size l)) src) \<and>
       (\<forall>x. x \<notin> set (lba_list ls) \<longrightarrow> secs w' x = secs w1 x)"
    then have w': "good w'" "contents (secs w') ls = take (length (lba_list ls) * 512) (drop (unat off + k * 512) src)"
      "\<And>x. x \<notin> set (lba_list ls) \<Longrightarrow> secs w' x = secs w1 x" by (auto simp: off)
    have out: "unat (lp_start l) + j \<notin> set (lba_list ls)" if "j < k" for j
    proof -
      have "unat (lp_start l) + j \<in> {unat (lp_start l)..<unat (lp_start l) + k}" using that by simp
      moreover have "{unat (lp_start l)..<unat (lp_start l) + k} \<inter> set (lba_list ls) = {}"
        using Cons.prems(3) by (simp add: lba_list_Cons el)
      ultimately show ?thesis by blast
    qed
    have "concat (map (secs w') [unat (lp_start l)..<unat (lp_start l) + k]) = take (k * 512) (pp_data page')"
      using out w'(3) w1(2) lp l' by (intro concat_slices) auto
    then have "contents (secs w') (l # ls) = chunk @ take (length (lba_list ls) * 512) (drop (k * 512) (drop (unat off) src))"
      using w'(2) by (simp add: contents_Cons el page_take add.commute)
    also have "\<dots> = take (length (lba_list (l # ls)) * 512) (drop (unat off) src)"
      unfolding chunk_def len by (simp add: take_add add_mult_distrib)
    finally show "good w' \<and> contents (secs w') (l # ls) = take (length (lba_list (l # ls)) * 512) (drop (unat off) src) \<and>
         (\<forall>x. x \<notin> set (lba_list (l # ls)) \<longrightarrow> secs w' x = secs w x)"
      using w' w1(2) by (auto simp: lba_list_Cons el)
  qed (use Cons.prems len ok'(2) l'' off in \<open>auto simp: lba_list_Cons\<close>)
  have K: "fails k \<Longrightarrow> fails K"
    using sec_fails_mono [OF Cons.prems(1)] Cons.prems(8) len by simp
  have "sat (write_sectors pd (lp_start l) (div_ceil (lp_size l) 512) page' w)
      (\<lambda>_ w'. good w' \<and> secs w' = (\<lambda>i. if unat (lp_start l) \<le> i \<and> i < unat (lp_start l) + k
        then take 512 (drop ((i - unat (lp_start l)) * 512) (pp_data page')) else secs w i))
      (\<lambda>e w'. fails k \<and> good w')"
    using sec_write [OF Cons.prems(1) _ ok'(1), of "lp_start l" "div_ceil (lp_size l) 512"] k lp l' by simp
  then show ?case
    unfolding write_extents.simps Let_def k(1) sat_ques sat_map_err
      chunk_def [symmetric] page'_def [symmetric] page''_def [symmetric]
    by (rule sat_mono) (use rest K in blast)+
qed

lemma read_extents_law:
  assumes "good w" and "list_all (extent_ok n_secs) links" and "page_ok dest"
    and "unat off \<le> unat rs" and "unat rs \<le> length (pp_data dest)" and "length (lba_list links) \<le> K"
  shows "sat (read_extents pd rs links off dest w)
    (\<lambda>p w'. good w' \<and> secs w' = secs w \<and> pp_count p = pp_count dest \<and>
       pp_data p = splice (unat off) (take (unat rs - unat off) (contents (secs w) links)) (pp_data dest))
    (\<lambda>e w'. e = IOError \<and> fails K)"
  using assms
proof (induction links arbitrary: off dest w)
  case Nil
  then show ?case by (simp add: contents_def lba_list_def link_blocks_def splice_nothing)
next
  case (Cons l ls)
  show ?case
  proof (cases "rs \<le> off")
    case True
    then show ?thesis using Cons.prems by (simp add: splice_nothing word_le_nat_alt)
  next
    case False
    have N: "n_secs * 512 < 2 ^ 64" using sec_count [OF Cons.prems(1)] by simp
    have "extent_ok n_secs l" using Cons.prems(2) by simp
    then obtain k where k: "unat (lp_size l) = k * 512" "0 < k" "unat (lp_start l) + k \<le> n_secs"
      "unat (div_ceil (lp_size l) 512) = k"
      and el: "map unat (extent_blocks l) = [unat (lp_start l)..<unat (lp_start l) + k]"
      by (rule extent_lbas [OF _ N])
    have len: "length (lba_list (l # ls)) = k + length (lba_list ls)" by (simp add: lba_list_Cons el)
    define c where "c = concat (map (secs w) [unat (lp_start l)..<unat (lp_start l) + k])"
    have lc: "length c = k * 512" by (simp add: c_def length_sectors)
    define n where "n = min (rs - off) (lp_size l)"
    have un: "unat n = min (unat rs - unat off) (k * 512)"
      unfolding n_def using Cons.prems(4) k(1) by (intro unat_minI unat_subI) simp_all
    have off: "unat (off + n) = unat off + unat n"
      using un Cons.prems(4) unat_bound [of rs] by (intro unat_addI) simp_all
    have cc: "contents (secs w) (l # ls) = c @ contents (secs w) ls" by (simp add: contents_Cons el c_def)
    let ?d = "dest\<lparr>pp_data := splice (unat off) (take (unat n) c) (pp_data dest)\<rparr>"
    have ld: "length (pp_data ?d) = length (pp_data dest)" using un Cons.prems(4,5) lc by simp
    have okd: "page_ok ?d" using Cons.prems(3) ld by (simp add: page_ok_def)
    have fin: "splice (unat (off + n)) (take (unat rs - unat (off + n)) (contents (secs w) ls)) (pp_data ?d) =
        splice (unat off) (take (unat rs - unat off) (contents (secs w) (l # ls))) (pp_data dest)"
    proof -
      have l1: "length (take (unat n) c) = unat n" using un lc by simp
      have le: "unat off + unat n + length (take (unat rs - unat (off + n)) (contents (secs w) ls)) \<le> length (pp_data dest)"
      proof -
        have "unat n \<le> unat rs - unat off" using un by simp
        with Cons.prems(4,5) off show ?thesis unfolding length_take by linarith
      qed
      have "splice (unat off + unat n) (take (unat rs - unat (off + n)) (contents (secs w) ls)) (pp_data ?d) =
          splice (unat off) (take (unat n) c @ take (unat rs - unat (off + n)) (contents (secs w) ls)) (pp_data dest)"
        using splice_splice [OF l1 le] by simp
      moreover have "take (unat n) c @ take (unat rs - unat (off + n)) (contents (secs w) ls) =
          take (unat rs - unat off) (contents (secs w) (l # ls))"
        using un lc off by (simp add: cc min_def)
      ultimately show ?thesis by (simp only: off)
    qed
    have rest: "sat (read_extents pd rs ls (off + n) ?d w1)
      (\<lambda>p w'. good w' \<and> secs w' = secs w \<and> pp_count p = pp_count dest \<and>
         pp_data p = splice (unat off) (take (unat rs - unat off) (contents (secs w) (l # ls))) (pp_data dest))
      (\<lambda>e w'. e = IOError \<and> fails K)" if w1: "good w1" "secs w1 = secs w" for w1
    proof (rule sat_mono [OF Cons.IH [OF w1(1) _ okd]])
      fix p w' assume "good w' \<and> secs w' = secs w1 \<and> pp_count p = pp_count ?d \<and>
        pp_data p = splice (unat (off + n)) (take (unat rs - unat (off + n)) (contents (secs w1) ls)) (pp_data ?d)"
      then show "good w' \<and> secs w' = secs w \<and> pp_count p = pp_count dest \<and>
         pp_data p = splice (unat off) (take (unat rs - unat off) (contents (secs w) (l # ls))) (pp_data dest)"
        using w1(2) fin by simp
    qed (use Cons.prems ld off un len in \<open>simp_all\<close>)
    have K: "fails k \<Longrightarrow> fails K"
      using sec_fails_mono [OF Cons.prems(1)] Cons.prems(6) len by simp
    have rd: "sat (read_sectors pd (lp_start l) (div_ceil (lp_size l) 512) w)
      (\<lambda>p w'. good w' \<and> secs w' = secs w \<and> take (unat n) (pp_data p) = take (unat n) c)
      (\<lambda>e w'. fails k)"
      using k sec_read [OF Cons.prems(1), of "div_ceil (lp_size l) 512" "lp_start l"] un lc
      by (auto simp: c_def elim!: sat_mono)
    have eq: "read_extents pd rs (l # ls) off dest w =
        ques (map_err (\<lambda>_. IOError) (read_sectors pd (lp_start l) (div_ceil (lp_size l) 512) w)) (\<lambda>page w.
          read_extents pd rs ls (off + n) (dest\<lparr>pp_data := splice (unat off) (take (unat n) (pp_data page)) (pp_data dest)\<rparr>) w)"
      using False by (simp add: n_def Let_def)
    show ?thesis
      unfolding eq sat_ques sat_map_err by (rule sat_mono [OF rd]) (use rest K in auto)
  qed
qed

end

lemma owned_chain:
  assumes "owns_extents N S b head blocks"
  obtains d i where "link_chain N S head d i" and "list_all (extent_ok N) d" and "lba_list d = map unat blocks"
    and "distinct (lba_list d)" and "set (lba_list d) \<inter> (unat \<circ> lp_start) ` set i = {}"
  using assms unfolding owns_extents_def lba_list_def
  by (fastforce simp: image_comp)

lemma owns_extents_write:
  assumes o: "owns_extents N S b head blocks" and l: "\<And>x. x \<notin> unat ` set blocks \<Longrightarrow> S' x = S x"
  shows "owns_extents N S' b head blocks"
proof -
  obtain d i where d: "link_chain N S head d i" "link_blocks d = blocks" "list_all (extent_ok N) d"
    "distinct (map unat (blocks @ map lp_start i))"
    "\<forall>x\<in>set (blocks @ map lp_start i). 0 < unat x \<and> unat x < N \<and> lba_granted b (x, 1) \<and> unat x \<notin> free_lbas b"
    using o unfolding owns_extents_def by blast
  have "link_chain N S' head d i"
    by (rule link_chain_cong [OF d(1)]) (use d(4) l in \<open>auto simp: image_comp\<close>)
  with d show ?thesis unfolding owns_extents_def by blast
qed

lemma max_size_law:
  assumes "links \<noteq> []"
  obtains m where "max_size links = Some m" and "\<forall>l\<in>set links. lp_size l \<le> m" and "m = 0 \<or> (\<exists>l\<in>set links. m = lp_size l)"
proof -
  have "(\<forall>l\<in>set links. lp_size l \<le> fold max (map lp_size links) a) \<and> a \<le> fold max (map lp_size links) a \<and>
      (fold max (map lp_size links) a = a \<or> (\<exists>l\<in>set links. fold max (map lp_size links) a = lp_size l))" for a
  proof (induction links arbitrary: a)
    case (Cons l ls)
    show ?case using Cons [of "max (lp_size l) a"] by (auto simp: max_def split: if_splits)
  qed simp
  from this [of 0] show ?thesis using that assms by (auto simp: max_size_def)
qed

lemma links_size_law:
  assumes "list_all (extent_ok N) links" and "N * 512 < 2 ^ 64" and "length (lba_list links) * 512 < 2 ^ 64"
  shows "unat (links_size links) = length (lba_list links) * 512"
  using assms
proof (induction links)
  case Nil
  then show ?case by (simp add: links_size_def lba_list_def link_blocks_def)
next
  case (Cons l ls)
  then have "extent_ok N l" by simp
  then obtain k where k: "unat (lp_size l) = k * 512" "map unat (extent_blocks l) = [unat (lp_start l)..<unat (lp_start l) + k]"
    by (rule extent_lbas [OF _ Cons.prems(2)])
  have len: "length (lba_list (l # ls)) = k + length (lba_list ls)" by (simp add: lba_list_Cons k(2))
  then have "unat (links_size ls) = length (lba_list ls) * 512" using Cons by simp
  then show ?case
    unfolding len using Cons.prems(3) len k(1) by (simp add: links_size_def unat_addI)
qed

lemma extent_size_le:
  assumes "list_all (extent_ok N) links" and "N * 512 < 2 ^ 64" and "l \<in> set links"
  shows "unat (lp_size l) \<le> length (lba_list links) * 512"
  using assms
proof (induction links)
  case (Cons e es)
  then have "extent_ok N e" by simp
  then obtain k where k: "unat (lp_size e) = k * 512" "map unat (extent_blocks e) = [unat (lp_start e)..<unat (lp_start e) + k]"
    by (rule extent_lbas [OF _ Cons.prems(2)])
  show ?case using Cons k(1) by (auto simp: lba_list_Cons k(2))
qed simp

context sector_disk
begin

lemma store_file_law:
  assumes g: "good (fst s)" and i: "bm_inv (snd s)" and fr: "free_lbas (snd s) \<subseteq> {0<..<n_secs}"
    and o: "owns_blocks n_secs (secs (fst s)) (snd s) (f_head f) blocks"
    and p: "page_ok src" and n: "0 < unat (pp_count src)"
  shows "sat (store_file pd f src s)
    (\<lambda>f' s'. good (fst s') \<and> bm_inv (snd s') \<and> bm_same (snd s') (snd s) \<and> free_lbas (snd s') \<subseteq> {0<..<n_secs} \<and>
       unat (f_size f') = length (pp_data src) \<and> f_name f' = f_name f \<and> f_links f' = f_links f \<and>
       (\<exists>blocks'. owns_extents n_secs (secs (fst s')) (snd s') (f_head f') blocks' \<and>
          concat (map (secs (fst s')) (map unat blocks')) = pp_data src))
    (\<lambda>e s'. e = NoSpace \<or> e = IOError \<and> fails (unat (pp_count src) * 8))"
proof -
  let ?n = "unat (pp_count src) * 8"
  let ?E = "\<lambda>e s'. e = NoSpace \<or> e = IOError \<and> fails ?n"
  let ?R = "\<lambda>head s'. good (fst s') \<and> bm_inv (snd s') \<and> bm_same (snd s') (snd s) \<and> free_lbas (snd s') \<subseteq> {0<..<n_secs} \<and>
       (\<exists>blocks'. length blocks' = ?n \<and> owns_extents n_secs (secs (fst s')) (snd s') head blocks')"
  have N: "n_secs * 512 < 2 ^ 64" using sec_count [OF g] by simp
  have lsrc: "length (pp_data src) = ?n * 512" using page_bytes [OF p] p by (simp add: page_ok_def)
  have lsrc64: "length (pp_data src) < 2 ^ 64" using page_bytes [OF p] lsrc unat_bound [of "pp_count src * PAGE_SIZE"] by simp
  have e: "unat (pp_count src * PAGE_SIZE) = ?n * 512" using page_bytes [OF p] by simp
  have sec: "unat (div_ceil (pp_count src * PAGE_SIZE) 512) = ?n"
    by (subst unat_div_ceil) (simp_all only: e, simp_all add: ceil_div_exact)
  have F1: "fails 1 \<Longrightarrow> fails ?n" using sec_fails_mono [OF g] n by simp
  have rb: "sat (reblock pd (f_head f) ?n s) ?R ?E"
    using reblock_law [OF g i fr o, of ?n] n F1 by (auto elim!: sat_mono)
  have tail: "sat (ques (on_disk (resolve_links pd head) s1) (\<lambda>links s.
      ques (unwrap (max_size links) s) (\<lambda>max_size s.
      ques (map_err (\<lambda>_. IOError)
              (on_disk (phys_page_new (d_inner (pd_drive pd)) (div_ceil max_size PAGE_SIZE)) s)) (\<lambda>page s.
      ques (on_disk (write_extents pd (pp_data src) links 0 page) s) (\<lambda>_ s.
      ok (f\<lparr>f_head := head, f_size := links_size links\<rparr>) s)))))
    (\<lambda>f' s'. good (fst s') \<and> bm_inv (snd s') \<and> bm_same (snd s') (snd s) \<and> free_lbas (snd s') \<subseteq> {0<..<n_secs} \<and>
       unat (f_size f') = length (pp_data src) \<and> f_name f' = f_name f \<and> f_links f' = f_links f \<and>
       (\<exists>blocks'. owns_extents n_secs (secs (fst s')) (snd s') (f_head f') blocks' \<and>
          concat (map (secs (fst s')) (map unat blocks')) = pp_data src)) ?E"
    if R: "?R head s1" for head s1
  proof -
    obtain bl where s1: "good (fst s1)" "bm_inv (snd s1)" "bm_same (snd s1) (snd s)" "free_lbas (snd s1) \<subseteq> {0<..<n_secs}"
      "length bl = ?n" and ob: "owns_extents n_secs (secs (fst s1)) (snd s1) head bl" using R by blast
    obtain d i where d: "link_chain n_secs (secs (fst s1)) head d i" "list_all (extent_ok n_secs) d"
      "lba_list d = map unat bl" "distinct (lba_list d)" by (rule owned_chain [OF ob])
    have ld: "length (lba_list d) = ?n" using d(3) s1(5) by simp
    have "d \<noteq> []" using ld n by (auto simp: lba_list_def link_blocks_def)
    then obtain m where m: "max_size d = Some m" "\<forall>l\<in>set d. lp_size l \<le> m" "m = 0 \<or> (\<exists>l\<in>set d. m = lp_size l)"
      by (rule max_size_law)
    have sz: "unat (links_size d) = ?n * 512" using links_size_law [OF d(2) N] ld lsrc lsrc64 by simp
    define pc where "pc = div_ceil m PAGE_SIZE"
    have pc: "unat pc = (unat m + 4095) div 4096" unfolding pc_def by (subst unat_div_ceil) (simp_all add: PAGE_SIZE_def)
    have mle: "unat m \<le> ?n * 512" using m(3) extent_size_le [OF d(2) N] ld by auto
    then have pn: "unat pc \<le> ?n" unfolding pc by simp
    have mp: "unat m \<le> unat pc * 4096" unfolding pc using ceil_div_covers [of 4096 "unat m"] by simp
    have wr: "sat (write_extents pd (pp_data src) d 0 page w)
        (\<lambda>_ w'. good w' \<and> contents (secs w') d = pp_data src \<and> (\<forall>x. x \<notin> unat ` set bl \<longrightarrow> secs w' x = secs (fst s1) x))
        (\<lambda>e w'. e = IOError \<and> fails ?n)"
      if w: "good w" "secs w = secs (fst s1)" "page_ok page" "pp_count page = pc" for w page
    proof -
      have "\<forall>l\<in>set d. unat (lp_size l) \<le> length (pp_data page)"
        using m(2) mp w(3,4) page_bytes [OF w(3)] by (auto simp: word_le_nat_alt page_ok_def)
      then show ?thesis
        using write_extents_law [OF w(1) d(2,4) w(3), of 0 "pp_data src" ?n] lsrc lsrc64 ld d(3) w(2)
        by (auto elim!: sat_mono)
    qed
    have own: "owns_extents n_secs (secs w) (snd s1) head bl" if "\<forall>x. x \<notin> unat ` set bl \<longrightarrow> secs w x = secs (fst s1) x" for w
      by (rule owns_extents_write [OF ob]) (use that in blast)
    have pg: "sat (phys_page_new (d_inner (pd_drive pd)) pc w)
        (\<lambda>page w'. good w' \<and> secs w' = secs (fst s1) \<and> page_ok page \<and> pp_count page = pc) (\<lambda>e w'. fails ?n)"
      if "good w" "secs w = secs (fst s1)" for w
      using sec_page [OF that(1), of pc] that sec_fails_mono [OF g _ pn] by (auto elim!: sat_mono)
    have rl: "sat (resolve_links pd head (fst s1)) (\<lambda>r w'. r = d \<and> good w' \<and> secs w' = secs (fst s1)) (\<lambda>e w'. e = IOError \<and> fails 1)"
      by (rule resolve_links_law [OF d(1) s1(1)])
    have done_: "\<exists>blocks'. owns_extents n_secs (secs w) (snd s1) head blocks' \<and> concat (map (secs w) (map unat blocks')) = pp_data src"
      if "contents (secs w) d = pp_data src" "\<forall>x. x \<notin> unat ` set bl \<longrightarrow> secs w x = secs (fst s1) x" for w
      using own [OF that(2)] that(1) unfolding contents_def d(3) by blast
    have "sat (write_extents pd (pp_data src) d 0 page w)
        (\<lambda>_ w'. good w' \<and> (\<exists>blocks'. owns_extents n_secs (secs w') (snd s1) head blocks' \<and>
           concat (map (secs w') (map unat blocks')) = pp_data src)) (\<lambda>e w'. e = NoSpace \<or> e = IOError \<and> fails ?n)"
      if "good w" "secs w = secs (fst s1)" "page_ok page" "pp_count page = pc" for w page
      by (rule sat_mono [OF wr [OF that]]) (use done_ in blast)+
    then have "sat (phys_page_new (d_inner (pd_drive pd)) pc w)
        (\<lambda>page w'. sat (write_extents pd (pp_data src) d 0 page w')
          (\<lambda>_ w'. good w' \<and> (\<exists>blocks'. owns_extents n_secs (secs w') (snd s1) head blocks' \<and>
             concat (map (secs w') (map unat blocks')) = pp_data src)) (\<lambda>e w'. e = NoSpace \<or> e = IOError \<and> fails ?n))
        (\<lambda>e w'. fails ?n)" if "good w" "secs w = secs (fst s1)" for w
      by - (rule sat_mono [OF pg [OF that]]; blast)
    then show ?thesis
      using rl m(1) sz lsrc s1 F1 by (auto simp: pc_def elim!: sat_mono)
  qed
  show ?thesis
    unfolding store_file_def Let_def sec by (subst sat_ques, rule sat_mono [OF rb]) (use tail in blast)+
qed

end

end
