(* ===== verification/Lemon_Dir.thy ===== *)
theory Lemon_Dir
  imports Lemon_File
begin

text \<open>
  Directories on disk: the chain of a directory's blocks, what \<open>sync\<close> writes there, and what
  loading the directory finds.
\<close>

section \<open>Chains of directory blocks\<close>

inductive dir_chain :: "nat \<Rightarrow> (nat \<Rightarrow> bytes) \<Rightarrow> link_pointer \<Rightarrow> u64 list \<Rightarrow> bool" for N S where
  dir_end: "\<not> is_direct p \<Longrightarrow> dir_chain N S p []"
| dir_block: "is_direct p \<Longrightarrow> is_valid p \<Longrightarrow> unat (lp_start p) < N \<Longrightarrow>
    d = db_decode (S (unat (lp_start p))) \<Longrightarrow> dir_chain N S (db_next d) ls \<Longrightarrow>
    dir_chain N S p (lp_start p # ls)"

text \<open>The entries in use in a chain of blocks.\<close>

definition dir_dentries :: "(nat \<Rightarrow> bytes) \<Rightarrow> u64 list \<Rightarrow> dir_entry list" where
  "dir_dentries S ls =
     concat (map (\<lambda>l. filter (\<lambda>e. \<not> filename_is_empty (de_name e)) (db_entries (db_decode (S (unat l))))) ls)"

text \<open>What an entry becomes when it is written and loaded again: files get the extents on disk.\<close>

definition reloaded :: "nat \<Rightarrow> (nat \<Rightarrow> bytes) \<Rightarrow> directory_entry \<Rightarrow> directory_entry \<Rightarrow> bool" where
  "reloaded N S e e' =
     (case e of
        DFile f \<Rightarrow> (\<exists>d i. link_chain N S (f_head f) d i \<and>
          e' = DFile \<lparr>f_name = f_name f, f_size = links_size d, f_head = f_head f, f_links = d\<rparr>)
      | _ \<Rightarrow> e' = e)"

definition raw_name :: "directory_entry \<Rightarrow> bytes" where
  "raw_name e = (case e of DFile f \<Rightarrow> f_name f | DDirectory n _ \<Rightarrow> n | DSymLink n _ \<Rightarrow> n)"

definition entry_ok :: "directory_entry \<Rightarrow> bool" where
  "entry_ok e \<longleftrightarrow> length (raw_name e) = 36 \<and> \<not> filename_is_empty (raw_name e)"

definition file_chains :: "nat \<Rightarrow> (nat \<Rightarrow> bytes) \<Rightarrow> directory_entry list \<Rightarrow> bool" where
  "file_chains N S es \<longleftrightarrow> (\<forall>f. DFile f \<in> set es \<longrightarrow> (\<exists>d i. link_chain N S (f_head f) d i))"

lemma zero_entry_empty: "filename_is_empty (de_name dir_entry_zero)"
  by (simp add: filename_is_empty_def dir_entry_zero_def filename_from_str_def list_all_iff)

lemma zero_entry_ok: "de_ok dir_entry_zero"
  by (simp add: de_ok_def dir_entry_zero_def)

lemma to_dentry_name: "de_name (to_dentry e) = raw_name e"
  by (cases e) (simp_all add: to_dentry_def dir_entry_new_def raw_name_def)

lemma entry_flags [simp]:
  "flags_contain 0 IS_DIR = False" "flags_contain 0 IS_SYMLINK = False"
  "flags_contain IS_DIR IS_SYMLINK = False" "flags_contain IS_DIR IS_DIR" "flags_contain IS_SYMLINK IS_SYMLINK"
  by (simp_all add: flags_contain_def IS_DIR_def IS_SYMLINK_def)

text \<open>The block that \<open>sync\<close> writes for the chunk \<open>k\<close> of the children.\<close>

definition nth_chunk :: "directory_entry list \<Rightarrow> nat \<Rightarrow> directory_entry list" where
  "nth_chunk es k = take 8 (drop (k * 8) es)"

definition chunk_block :: "u64 \<Rightarrow> u64 list \<Rightarrow> directory_entry list \<Rightarrow> nat \<Rightarrow> dir_block" where
  "chunk_block parent chain es k =
     dir_block_new parent
       (map to_dentry (nth_chunk es k) @ replicate (8 - length (nth_chunk es k)) dir_entry_zero)
       (if k + 1 < length chain then link_pointer_new (chain ! (k + 1)) 512 else link_pointer_new 0 0)"

lemma chunk_block_ok:
  assumes "list_all entry_ok es"
  shows "db_ok (chunk_block parent chain es k)"
proof -
  have "set (nth_chunk es k) \<subseteq> set es" unfolding nth_chunk_def by (meson in_set_dropD in_set_takeD subsetI)
  then have "\<forall>e\<in>set (nth_chunk es k). de_ok (to_dentry e)"
    using assms by (auto simp: list_all_iff de_ok_def to_dentry_name entry_ok_def)
  moreover have "length (nth_chunk es k) \<le> 8" by (simp add: nth_chunk_def)
  ultimately show ?thesis
    by (auto simp: db_ok_def chunk_block_def dir_block_new_def list_all_iff zero_entry_ok)
qed

text \<open>The blocks of a directory are those \<open>sync\<close> writes.\<close>

definition dir_written :: "(nat \<Rightarrow> bytes) \<Rightarrow> u64 \<Rightarrow> u64 list \<Rightarrow> directory_entry list \<Rightarrow> bool" where
  "dir_written S parent chain es \<longleftrightarrow> (\<forall>k < length chain. S (unat (chain ! k)) = db_encode (chunk_block parent chain es k))"

context sector_disk
begin

lemma read_dir_block_law:
  assumes "good w" and "unat (lp_start p) < n_secs" and "\<not> fails 1"
  shows "sat (read_dir_block pd p w) (\<lambda>d w'. d = db_decode (secs w (unat (lp_start p))) \<and> good w' \<and> secs w' = secs w)
    (\<lambda>e w'. False)"
  unfolding read_dir_block_def sat_ques by (rule sat_mono [OF read_data_law [OF assms(1,2)]]) (use assms(3) in auto)

lemma collect_chain_law:
  assumes "dir_chain n_secs S p ls" and "good w" and "secs w = S" and "\<not> fails 1"
  shows "sat (collect_chain pd acc p w) (\<lambda>r w'. r = acc @ ls \<and> good w' \<and> secs w' = S) (\<lambda>e w'. False)"
  using assms(1-3)
proof (induction arbitrary: acc w)
  case (dir_end p)
  then show ?case by (subst collect_chain.simps) auto
next
  case (dir_block p d ls)
  have "sat (read_dir_block pd p w) (\<lambda>d' w'. sat (collect_chain pd (acc @ [lp_start p]) (db_next d') w')
      (\<lambda>r w'. r = (acc @ [lp_start p]) @ ls \<and> good w' \<and> secs w' = S) (\<lambda>e w'. False)) (\<lambda>e w'. False)"
  proof (rule sat_mono [OF read_dir_block_law [OF dir_block.prems(1) dir_block.hyps(3) assms(4)]])
    fix d' w' assume "d' = db_decode (secs w (unat (lp_start p))) \<and> good w' \<and> secs w' = secs w"
    then have "d' = d" "good w'" "secs w' = S" using dir_block.hyps(4) dir_block.prems(2) by simp_all
    then show "sat (collect_chain pd (acc @ [lp_start p]) (db_next d') w')
      (\<lambda>r w'. r = (acc @ [lp_start p]) @ ls \<and> good w' \<and> secs w' = S) (\<lambda>e w'. False)"
      using dir_block.IH by blast
  qed simp
  then show ?case using dir_block.hyps by (subst collect_chain.simps) simp
qed

lemma load_entry_law:
  assumes g: "good w" and f: "\<not> fails 1" and c: "file_chains n_secs (secs w) [e]"
  shows "sat (entry_from_dir_entry pd (to_dentry e) w)
    (\<lambda>e' w'. reloaded n_secs (secs w) e e' \<and> good w' \<and> secs w' = secs w) (\<lambda>_ _. False)"
proof (cases e)
  case (DFile x)
  then obtain d i where d: "link_chain n_secs (secs w) (f_head x) d i" using c by (auto simp: file_chains_def)
  have "sat (resolve_links pd (f_head x) w) (\<lambda>r w'. r = d \<and> good w' \<and> secs w' = secs w) (\<lambda>e w'. False)"
    by (rule sat_mono [OF resolve_links_law [OF d g]]) (use f in auto)
  then show ?thesis
    using d DFile by (auto simp: entry_from_dir_entry_def to_dentry_def dir_entry_new_def file_from_dir_entry_def
      reloaded_def elim!: sat_mono)
qed (use g in \<open>simp_all add: entry_from_dir_entry_def to_dentry_def dir_entry_new_def reloaded_def\<close>)

lemma block_children_law:
  assumes "filter (\<lambda>e. \<not> filename_is_empty (de_name e)) xs = map to_dentry es" and "file_chains n_secs S es"
    and "good w" and "secs w = S" and f: "\<not> fails 1"
  shows "sat (block_children pd xs w)
    (\<lambda>cs w'. list_all2 (reloaded n_secs S) es cs \<and> good w' \<and> secs w' = S) (\<lambda>_ _. False)"
  using assms(1-4)
proof (induction xs arbitrary: es w)
  case Nil
  then show ?case by simp
next
  case (Cons x xs)
  show ?case
  proof (cases "filename_is_empty (de_name x)")
    case True
    then show ?thesis using Cons by simp
  next
    case False
    then obtain e es' where es: "es = e # es'" "x = to_dentry e"
      "filter (\<lambda>e. \<not> filename_is_empty (de_name e)) xs = map to_dentry es'"
      using Cons.prems(1) by (cases es) auto
    have fc: "file_chains n_secs S [e]" "file_chains n_secs S es'" using Cons.prems(2) es(1) by (auto simp: file_chains_def)
    have "sat (entry_from_dir_entry pd x w)
        (\<lambda>e' w'. reloaded n_secs S e e' \<and> good w' \<and> secs w' = S) (\<lambda>_ _. False)"
      using load_entry_law [OF Cons.prems(3) f, of e] fc(1) Cons.prems(4) es(2) by simp
    then obtain w1 e1 where e1: "entry_from_dir_entry pd x w = Some (w1, Inr e1)"
      "reloaded n_secs S e e1" "good w1" "secs w1 = S" by (elim sat_Some) auto
    have "sat (block_children pd xs w1)
        (\<lambda>cs w'. list_all2 (reloaded n_secs S) es' cs \<and> good w' \<and> secs w' = S) (\<lambda>_ _. False)"
      by (rule Cons.IH [OF es(3) fc(2) e1(3,4)])
    then show ?thesis using False e1 es(1) by (auto elim!: sat_mono)
  qed
qed

lemma load_children_law:
  assumes "dir_chain n_secs S p ls" and "dir_dentries S ls = map to_dentry es" and "file_chains n_secs S es"
    and "good v" and "secs v = S" and f: "\<not> fails 1"
  shows "sat (add_children_from_link pd acc p v)
    (\<lambda>cs v'. \<exists>cs'. cs = acc @ cs' \<and> list_all2 (reloaded n_secs S) es cs' \<and> good v' \<and> secs v' = S) (\<lambda>_ _. False)"
  using assms(1-5)
proof (induction arbitrary: es acc v)
  case (dir_end p)
  then show ?case by (subst add_children_from_link.simps) (simp add: dir_dentries_def)
next
  case (dir_block p d ls)
  let ?ne = "\<lambda>e. \<not> filename_is_empty (de_name e)"
  have "filter ?ne (db_entries d) @ dir_dentries S ls = map to_dentry es"
    using dir_block.prems(1) dir_block.hyps(4) by (simp add: dir_dentries_def)
  then obtain es1 es2 where es: "es = es1 @ es2" "filter ?ne (db_entries d) = map to_dentry es1"
    "dir_dentries S ls = map to_dentry es2" unfolding append_eq_map_conv by auto
  have fc: "file_chains n_secs S es1" "file_chains n_secs S es2" using dir_block.prems(2) es(1) by (auto simp: file_chains_def)
  let ?Q = "\<lambda>cs v'. \<exists>cs'. cs = acc @ cs' \<and> list_all2 (reloaded n_secs S) es cs' \<and> good v' \<and> secs v' = S"
  have "sat (add_children_from_link pd (acc @ cs) (db_next d) v1) ?Q (\<lambda>_ _. False)"
    if "list_all2 (reloaded n_secs S) es1 cs" "good v1" "secs v1 = S" for cs v1
    by (rule sat_mono [OF dir_block.IH [OF es(3) fc(2) that(2,3), of "acc @ cs"]])
       (use that(1) es(1) in \<open>auto intro: list_all2_appendI\<close>)
  then have "sat (block_children pd (db_entries d) v1)
      (\<lambda>cs v1. sat (add_children_from_link pd (acc @ cs) (db_next d) v1) ?Q (\<lambda>_ _. False)) (\<lambda>_ _. False)"
    if "good v1" "secs v1 = S" for v1
    by - (rule sat_mono [OF block_children_law [OF es(2) fc(1) that f]]; blast)
  moreover have "sat (read_dir_block pd p v) (\<lambda>d' v1. d' = d \<and> good v1 \<and> secs v1 = S) (\<lambda>_ _. False)"
    by (rule sat_mono [OF read_dir_block_law [OF dir_block.prems(3) dir_block.hyps(3) f]])
       (use dir_block.hyps(4) dir_block.prems(4) in auto)
  ultimately have "sat (read_dir_block pd p v) (\<lambda>d' v1. sat (block_children pd (db_entries d') v1)
      (\<lambda>cs v1. sat (add_children_from_link pd (acc @ cs) (db_next d') v1) ?Q (\<lambda>_ _. False)) (\<lambda>_ _. False)) (\<lambda>_ _. False)"
    by (auto elim!: sat_mono)
  then show ?case using dir_block.hyps(1) by (subst add_children_from_link.simps) simp
qed

end

section \<open>Writing a directory\<close>

text \<open>
  The directory \<open>dir\<close> owns the blocks \<open>ls\<close>: they are the chain from its head, different blocks that the
  bitmap does not count as free; those after the first can be given back.
\<close>

definition dir_owns :: "nat \<Rightarrow> (nat \<Rightarrow> bytes) \<Rightarrow> bitmap_allocator \<Rightarrow> link_pointer \<Rightarrow> u64 list \<Rightarrow> bool" where
  "dir_owns N S b head ls \<longleftrightarrow> is_direct head \<and> is_valid head \<and> dir_chain N S head ls \<and> distinct (map unat ls) \<and>
     (\<forall>x\<in>set ls. 0 < unat x \<and> unat x < N \<and> unat x \<notin> free_lbas b) \<and>
     (\<forall>x\<in>set (tl ls). lba_granted b (x, 1))"

lemma dir_written_chain:
  assumes w: "dir_written S parent chain es" and ok: "list_all entry_ok es"
    and ch: "\<forall>l\<in>set chain. 0 < unat l \<and> unat l < N"
    and k: "k < length chain" and p: "lp_start p = chain ! k" "is_direct p"
  shows "dir_chain N S p (drop k chain)"
  using k p
proof (induction "length chain - k" arbitrary: k p)
  case (Suc m)
  let ?d = "chunk_block parent chain es k"
  have "0 < unat (chain ! k) \<and> unat (chain ! k) < N" using ch Suc.prems(1) by simp
  then have v: "is_valid p" "unat (lp_start p) < N" using Suc.prems(2) by (auto simp: is_valid_def)
  have dec: "?d = db_decode (S (unat (lp_start p)))"
    using w Suc.prems chunk_block_ok [OF ok] by (simp add: dir_written_def db_decode_encode)
  have nxt: "dir_chain N S (db_next ?d) (drop (Suc k) chain)"
  proof (cases "k + 1 < length chain")
    case True
    then show ?thesis using Suc.hyps
      by (auto simp: chunk_block_def dir_block_new_def link_pointer_new_def is_direct_def)
  next
    case False
    then show ?thesis
      by (auto simp: chunk_block_def dir_block_new_def link_pointer_new_def is_direct_def intro: dir_end)
  qed
  have "dir_chain N S p (lp_start p # drop (Suc k) chain)"
    by (rule dir_block [OF Suc.prems(3) v dec nxt])
  then show ?case using Suc.prems(1,2) by (simp add: Cons_nth_drop_Suc)
qed simp

lemma chunk_entries:
  assumes "list_all entry_ok es"
  shows "filter (\<lambda>e. \<not> filename_is_empty (de_name e)) (db_entries (chunk_block parent chain es k)) =
    map to_dentry (nth_chunk es k)"
proof -
  have "set (nth_chunk es k) \<subseteq> set es" unfolding nth_chunk_def by (meson in_set_dropD in_set_takeD subsetI)
  then have "filter (\<lambda>e. \<not> filename_is_empty (de_name e)) (map to_dentry (nth_chunk es k)) = map to_dentry (nth_chunk es k)"
    using assms by (auto simp: filter_id_conv list_all_iff entry_ok_def to_dentry_name)
  then show ?thesis by (simp add: chunk_block_def dir_block_new_def zero_entry_empty)
qed

lemma concat_nth_chunks:
  "length es \<le> n * 8 \<Longrightarrow> concat (map (\<lambda>k. map to_dentry (nth_chunk es k)) [0..<n]) = map to_dentry es"
proof (induction n arbitrary: es)
  case (Suc n)
  have "[0..<Suc n] = 0 # map Suc [0..<n]" by (simp add: upt_conv_Cons map_Suc_upt del: upt_Suc)
  moreover have "nth_chunk es (Suc k) = nth_chunk (drop 8 es) k" for k
    by (simp add: nth_chunk_def add.commute)
  moreover have "concat (map (\<lambda>k. map to_dentry (nth_chunk (drop 8 es) k)) [0..<n]) = map to_dentry (drop 8 es)"
    using Suc by simp
  moreover have "map to_dentry es = map to_dentry (nth_chunk es 0) @ map to_dentry (drop 8 es)"
    unfolding map_append [symmetric] by (simp add: nth_chunk_def)
  ultimately show ?case by (simp add: comp_def del: upt_Suc)
qed simp

lemma dir_written_dentries:
  assumes w: "dir_written S parent chain es" and ok: "list_all entry_ok es" and len: "length es \<le> length chain * 8"
  shows "dir_dentries S chain = map to_dentry es"
proof -
  have "map (\<lambda>l. filter (\<lambda>e. \<not> filename_is_empty (de_name e)) (db_entries (db_decode (S (unat l))))) chain =
      map (\<lambda>k. map to_dentry (nth_chunk es k)) [0..<length chain]"
    by (rule nth_equalityI)
       (use w chunk_block_ok [OF ok] in \<open>simp_all add: dir_written_def db_decode_encode chunk_entries [OF ok]\<close>)
  then show ?thesis using concat_nth_chunks [OF len] by (simp add: dir_dentries_def)
qed

lemma write_chunk_block:
  assumes "i < length chain"
  shows "write_chunk pd parent chain (i, nth_chunk es i) w =
    write_data pd (chain ! i) (db_encode (chunk_block parent chain es i)) w"
  using assms by (simp add: write_chunk_def chunk_block_def ENTRIES_PER_DIRENTRY_def Let_def)

lemma free_list_law:
  assumes "bm_inv (snd s)" and "\<forall>x\<in>set xs. lba_granted (snd s) (x, 1)"
  shows "sat (for_each (\<lambda>lba _ s. fs_free lba 1 s) xs () s)
    (\<lambda>_ s'. fst s' = fst s \<and> bm_inv (snd s') \<and> bm_same (snd s') (snd s) \<and>
       free_lbas (snd s') = free_lbas (snd s) \<union> unat ` set xs) (\<lambda>_ _. False)"
  using assms
proof (induction xs arbitrary: s)
  case Nil
  then show ?case by (simp add: bm_same_def)
next
  case (Cons x xs)
  have gr: "lba_granted (snd s) (x, 1)" using Cons.prems(2) by simp
  show ?case
    unfolding for_each.simps sat_ques
  proof (rule sat_mono [OF fs_free_law [OF Cons.prems(1) gr]])
    fix u s1
    assume s1: "fst s1 = fst s \<and> bm_inv (snd s1) \<and> bm_same (snd s1) (snd s) \<and>
       free_lbas (snd s1) = insert (unat x) (free_lbas (snd s))"
    have "lba_granted (snd s1) = lba_granted (snd s)" using s1 lba_granted_same by blast
    then have "sat (for_each (\<lambda>lba _ s. fs_free lba 1 s) xs u s1)
      (\<lambda>_ s'. fst s' = fst s1 \<and> bm_inv (snd s') \<and> bm_same (snd s') (snd s1) \<and>
         free_lbas (snd s') = free_lbas (snd s1) \<union> unat ` set xs) (\<lambda>_ _. False)"
      using Cons.IH [of s1] Cons.prems(2) s1 by simp
    then show "sat (for_each (\<lambda>lba _ s. fs_free lba 1 s) xs u s1)
      (\<lambda>_ s'. fst s' = fst s \<and> bm_inv (snd s') \<and> bm_same (snd s') (snd s) \<and>
         free_lbas (snd s') = free_lbas (snd s) \<union> unat ` set (x # xs)) (\<lambda>_ _. False)"
      by (rule sat_mono) (use s1 in \<open>auto simp: bm_same_def\<close>)
  qed simp
qed

context sector_disk
begin

lemma write_dir_law:
  assumes g: "good (fst s)" and ok: "list_all entry_ok es" and f: "\<not> fails 1"
    and d: "distinct (map unat chain)" and r: "\<forall>l\<in>set chain. unat l < n_secs"
    and len: "length chain = max ((length es + 8 - 1) div 8) 1"
  shows "sat (ques (for_each (\<lambda>ic _ s. on_disk (write_chunk pd parent chain ic) s)
               (enumerate 0 (chunks 8 es)) () s) (\<lambda>_ s.
         if es = []
         then on_disk (write_data pd (chain ! 0)
                (db_encode (dir_block_new parent (replicate 8 dir_entry_zero) (link_pointer_new 0 0)))) s
         else ok () s))
    (\<lambda>_ s'. good (fst s') \<and> snd s' = snd s \<and> dir_written (secs (fst s')) parent chain es \<and>
       (\<forall>x. x \<notin> unat ` set chain \<longrightarrow> secs (fst s') x = secs (fst s) x)) (\<lambda>_ _. False)"
proof (cases "es = []")
  case True
  then have l1: "length chain = 1" using len by simp
  then obtain c where c: "chain = [c]" by (cases chain) auto
  have b: "dir_block_new parent (replicate 8 dir_entry_zero) (link_pointer_new 0 0) = chunk_block parent [c] [] 0"
    by (simp add: chunk_block_def nth_chunk_def)
  have "sat (write_data pd c (db_encode (chunk_block parent [c] [] 0)) (fst s))
      (\<lambda>_ w'. good w' \<and> secs w' = (secs (fst s))(unat c := db_encode (chunk_block parent [c] [] 0))) (\<lambda>_ _. False)"
    by (rule sat_mono [OF write_data_law [OF g]]) (use r c f chunk_block_ok [of "[]"] in auto)
  then show ?thesis
    using True c by (auto simp: b chunks.simps dir_written_def elim!: sat_mono)
next
  case False
  let ?n = "length (chunks 8 es)"
  have "1 \<le> (length es + 8 - 1) div 8" using False by (cases es) auto
  then have n: "length chain = ?n" using len by (simp add: length_chunks)
  have "enumerate 0 (chunks 8 es) = map (\<lambda>i. (i, nth_chunk es i)) [0..<?n]"
    by (rule nth_equalityI) (simp_all add: nth_enumerate_eq nth_chunks nth_chunk_def)
  then have eq: "for_each (\<lambda>ic _ s. on_disk (write_chunk pd parent chain ic) s) (enumerate 0 (chunks 8 es)) () s =
      for_each (\<lambda>i _ s. on_disk (write_data pd (chain ! i) (db_encode (chunk_block parent chain es i))) s) [0..<length chain] () s"
    unfolding n by (simp add: for_each_map)
       (intro for_each_cong, simp add: write_chunk_block [unfolded n] on_disk_def n)
  have "sat (for_each (\<lambda>i _ s. on_disk (write_data pd (chain ! i) (db_encode (chunk_block parent chain es i))) s) [0..<length chain] () s)
      (\<lambda>_ s'. good (fst s') \<and> snd s' = snd s \<and>
         (\<forall>i < length chain. secs (fst s') (unat (chain ! i)) = db_encode (chunk_block parent chain es i)) \<and>
         (\<forall>x. x \<notin> unat ` set chain \<longrightarrow> secs (fst s') x = secs (fst s) x))
      (\<lambda>e s'. e = IOError \<and> fails 1)"
    by (rule write_list_law [OF g d r]) (simp add: chunk_block_ok [OF ok])
  then show ?thesis
    unfolding sat_ques eq by (rule sat_mono) (use False f in \<open>auto simp: dir_written_def\<close>)
qed

text \<open>
  What \<open>sync\<close> guarantees: the directory owns a chain of blocks that hold its children, and only
  blocks of the old chain and free blocks are written.
\<close>

lemma sync_law:
  assumes g: "good (fst s)" and i: "bm_inv (snd s)" and f: "\<not> fails 1" and fr: "free_lbas (snd s) \<subseteq> {0<..<n_secs}"
    and o: "dir_owns n_secs (secs (fst s)) (snd s) (dir_head dir) ls"
    and ok: "list_all entry_ok (dir_children dir)"
  shows "sat (directory_sync pd dir s)
    (\<lambda>_ s'. good (fst s') \<and> bm_inv (snd s') \<and> bm_same (snd s') (snd s) \<and> free_lbas (snd s') \<subseteq> {0<..<n_secs} \<and>
       free_lbas (snd s') \<subseteq> unat ` set (tl ls) \<union> free_lbas (snd s) \<and>
       (\<exists>chain. dir_owns n_secs (secs (fst s')) (snd s') (dir_head dir) chain \<and> chain \<noteq> [] \<and>
          hd chain = lp_start (dir_head dir) \<and>
          dir_dentries (secs (fst s')) chain = map to_dentry (dir_children dir) \<and>
          unat ` set chain \<subseteq> unat ` set ls \<union> free_lbas (snd s)) \<and>
       (\<forall>x. x \<notin> unat ` set ls \<union> free_lbas (snd s) \<longrightarrow> secs (fst s') x = secs (fst s) x))
    (\<lambda>e s'. e = NoSpace \<and> 8 < length (dir_children dir))"
proof -
  let ?E = "\<lambda>e s' :: 'w \<times> bitmap_allocator. e = NoSpace \<and> 8 < length (dir_children dir)"
  let ?es = "dir_children dir" and ?h = "lp_start (dir_head dir)"
  define n where "n = max ((length ?es + 8 - 1) div 8) 1"
  have n1: "1 \<le> n" by (simp add: n_def)
  let ?Q = "\<lambda>_ s'. good (fst s') \<and> bm_inv (snd s') \<and> bm_same (snd s') (snd s) \<and> free_lbas (snd s') \<subseteq> {0<..<n_secs} \<and>
       free_lbas (snd s') \<subseteq> unat ` set (tl ls) \<union> free_lbas (snd s) \<and>
       (\<exists>chain. dir_owns n_secs (secs (fst s')) (snd s') (dir_head dir) chain \<and> chain \<noteq> [] \<and> hd chain = ?h \<and>
          dir_dentries (secs (fst s')) chain = map to_dentry ?es \<and>
          unat ` set chain \<subseteq> unat ` set ls \<union> free_lbas (snd s)) \<and>
       (\<forall>x. x \<notin> unat ` set ls \<union> free_lbas (snd s) \<longrightarrow> secs (fst s') x = secs (fst s) x)"
  have hv: "is_direct (dir_head dir)" "is_valid (dir_head dir)" and c: "dir_chain n_secs (secs (fst s)) (dir_head dir) ls"
    and d: "distinct (map unat ls)" and own: "\<forall>x\<in>set ls. 0 < unat x \<and> unat x < n_secs \<and> unat x \<notin> free_lbas (snd s)"
    and gr: "\<forall>x\<in>set (tl ls). lba_granted (snd s) (x, 1)" using o by (auto simp: dir_owns_def)
  obtain tls where ls: "ls = ?h # tls" using c hv by (cases rule: dir_chain.cases) auto
  have split: "ls = ?h # take (n - 1) tls @ drop (n - 1) tls" using ls by simp
  have dn: "drop n ls = drop (n - 1) tls" using n1 ls by (cases n) auto
  define W where "W chain s2 = ques (for_each (\<lambda>ic _ s. on_disk (write_chunk pd (dir_parent dir) chain ic) s) (enumerate 0 (chunks 8 ?es)) () s2) (\<lambda>_ s.
         if ?es = []
         then on_disk (write_data pd (chain ! 0)
                (db_encode (dir_block_new (dir_parent dir) (replicate 8 dir_entry_zero) (link_pointer_new 0 0)))) s
         else ok () s)" for chain and s2 :: "'w \<times> bitmap_allocator"
  define G where "G s1 = for_each (\<lambda>i chain s. if i < length ls then ok (chain @ [ls ! i]) s
            else ques (fs_alloc 1 s) (\<lambda>l s. ok (chain @ [l]) s)) [1..<n] [?h] s1" for s1 :: "'w \<times> bitmap_allocator"
  have tail: "sat (W chain s2) ?Q ?E"
    if s1: "bm_inv (snd s1)" "bm_same (snd s1) (snd s)"
        "free_lbas (snd s1) = free_lbas (snd s) \<union> unat ` set (drop (n - 1) tls)"
      and s2: "good (fst s2)" "secs (fst s2) = secs (fst s)" "bm_inv (snd s2)" "bm_same (snd s2) (snd s1)" "length chain = n"
        "chain = ?h # take (n - 1) tls @ new" "distinct (map unat new)" "unat ` set new \<subseteq> free_lbas (snd s1)"
        "free_lbas (snd s2) = free_lbas (snd s1) - unat ` set new" for s1 s2 :: "'w \<times> bitmap_allocator" and chain new
  proof -
    let ?K = "unat ` set (take (n - 1) tls)" and ?D = "unat ` set (drop (n - 1) tls)"
    have "distinct (map unat (?h # take (n - 1) tls @ drop (n - 1) tls))" using d unfolding ls by simp
    then have dk: "distinct (map unat (?h # take (n - 1) tls))" and KD: "insert (unat ?h) ?K \<inter> ?D = {}"
      by (simp_all only: map_append distinct_append set_map append_Cons [symmetric]) auto
    have sl: "set (?h # take (n - 1) tls) \<subseteq> set ls" "set (drop (n - 1) tls) \<subseteq> set (tl ls)" "set (take (n - 1) tls) \<subseteq> set (tl ls)"
      using ls by (auto dest: in_set_takeD in_set_dropD)
    have sd: "set (drop (n - 1) tls) \<subseteq> set ls" using sl(2) ls by auto
    have st: "set ls = insert ?h (set (take (n - 1) tls) \<union> set (drop (n - 1) tls))"
      using set_append [of "take (n - 1) tls" "drop (n - 1) tls"] unfolding append_take_drop_id ls by simp
    have own': "\<forall>x \<in> insert (unat ?h) ?K \<union> ?D. 0 < x \<and> x < n_secs \<and> x \<notin> free_lbas (snd s)"
      using own unfolding st by blast
    have kf: "insert (unat ?h) ?K \<inter> free_lbas (snd s1) = {}" 
    proof -
      have "insert (unat ?h) ?K \<inter> free_lbas (snd s) = {}" unfolding disjoint_iff using own' by simp
      then show ?thesis unfolding s1(3) Int_Un_distrib using KD by simp
    qed
    have F1: "free_lbas (snd s1) \<subseteq> {0<..<n_secs}"
    proof -
      have "?D \<subseteq> {0<..<n_secs}" using own' by (intro subsetI) simp
      then show ?thesis unfolding s1(3) using fr by (rule Un_least [rotated])
    qed
    have cs: "unat ` set chain = insert (unat ?h) ?K \<union> unat ` set new" unfolding s2(6) by auto
    have dc: "distinct (map unat chain)"
    proof -
      have "insert (unat ?h) ?K \<inter> unat ` set new = {}" using kf s2(8) by blast
      then show ?thesis
        using dk s2(7) unfolding s2(6) append_Cons [symmetric] map_append distinct_append by simp
    qed
    have cr: "\<forall>x\<in>unat ` set chain. 0 < x \<and> x < n_secs \<and> x \<notin> free_lbas (snd s2)"
    proof
      fix x assume "x \<in> unat ` set chain"
      then consider "x \<in> insert (unat ?h) ?K" | "x \<in> unat ` set new" unfolding cs by blast
      then show "0 < x \<and> x < n_secs \<and> x \<notin> free_lbas (snd s2)"
      proof cases
        case 1
        then show ?thesis using own' kf s2(9) by blast
      next
        case 2
        then have "x \<in> {0<..<n_secs}" using F1 s2(8) by blast
        then show ?thesis using 2 s2(9) by simp
      qed
    qed
    have sm: "bm_same (snd s2) (snd s)" using s2(4) s1(2) by (simp add: bm_same_def)
    have grc: "\<forall>x\<in>set (tl chain). lba_granted (snd s2) (x, 1)"
    proof
      fix x assume "x \<in> set (tl chain)"
      then consider "x \<in> set (take (n - 1) tls)" | "x \<in> set new" unfolding s2(6) by auto
      then show "lba_granted (snd s2) (x, 1)"
      proof cases
        case 1
        then show ?thesis using gr sl(3) lba_granted_same [OF sm] by auto
      next
        case 2
        then have "unat x \<in> free_lbas (snd s1)" using s2(8) by blast
        then show ?thesis using free_granted [OF s1(1)] lba_granted_same [OF s2(4)] by simp
      qed
    qed
    have r: "\<forall>l\<in>set chain. 0 < unat l \<and> unat l < n_secs" using cr by blast
    have r': "\<forall>l\<in>set chain. unat l < n_secs" using r by blast
    have ne: "chain \<noteq> []" "hd chain = ?h" "chain ! 0 = ?h" using s2(6) by simp_all
    have lc: "length ?es \<le> length chain * 8"
      unfolding s2(5) n_def using ceil_div_covers [of 8 "length ?es"] by (simp add: max_def)
    show ?thesis
      unfolding W_def
    proof (rule sat_mono [OF write_dir_law [OF s2(1) ok f dc r' s2(5) [unfolded n_def]]])
      fix u s'
      assume s': "good (fst s') \<and> snd s' = snd s2 \<and> dir_written (secs (fst s')) (dir_parent dir) chain ?es \<and>
        (\<forall>x. x \<notin> unat ` set chain \<longrightarrow> secs (fst s') x = secs (fst s2) x)"
      then have dw: "dir_written (secs (fst s')) (dir_parent dir) chain ?es" by blast
      have "dir_chain n_secs (secs (fst s')) (dir_head dir) (drop 0 chain)"
        by (rule dir_written_chain [OF dw ok r]) (use ne hv in simp_all)
      then have "dir_owns n_secs (secs (fst s')) (snd s') (dir_head dir) chain"
        unfolding dir_owns_def using hv dc cr grc s' by auto
      moreover have "free_lbas (snd s') \<subseteq> {0<..<n_secs}" using F1 s' s2(9) by auto
      moreover have sub: "unat ` set chain \<subseteq> unat ` set ls \<union> free_lbas (snd s)"
        unfolding cs st using s1(3) s2(8) by blast
      moreover have "secs (fst s') x = secs (fst s) x" if "x \<notin> unat ` set ls \<union> free_lbas (snd s)" for x
      proof -
        have "x \<notin> unat ` set chain" using that sub by blast
        then show ?thesis using s' s2(2) by simp
      qed
      moreover note dir_written_dentries [OF dw ok lc]
      moreover have "free_lbas (snd s') \<subseteq> unat ` set (tl ls) \<union> free_lbas (snd s)"
        using s' s1(3) s2(9) image_mono [OF sl(2), of unat] by auto
      ultimately show "?Q u s'" using s' s2(3) sm ne by auto
    qed simp
  qed
  have grow: "sat (G s1)
      (\<lambda>chain s2. sat (W chain s2) ?Q ?E) ?E"
    if s1: "good (fst s1)" "secs (fst s1) = secs (fst s)" "bm_inv (snd s1)" "bm_same (snd s1) (snd s)"
      "free_lbas (snd s1) = free_lbas (snd s) \<union> unat ` set (drop (n - 1) tls)" for s1 :: "'w \<times> bitmap_allocator"
  proof (cases "n = 1")
    case True
    have "sat (W [?h] s1) ?Q ?E"
      using s1 True by (intro tail [of s1 s1 "[?h]" "[]"]) (simp_all add: bm_same_def)
    then show ?thesis by (simp add: G_def True)
  next
    case False
    then have big: "8 < length ?es" by (auto simp: n_def max_def split: if_splits)
    show ?thesis
      unfolding G_def
    proof (rule sat_mono [OF grow_law [OF s1(3) n1, of ls "[?h]"]])
      fix chain and s2 :: "'w \<times> bitmap_allocator"
      assume "fst s2 = fst s1 \<and> bm_inv (snd s2) \<and> bm_same (snd s2) (snd s1) \<and>
         (\<exists>new. chain = [?h] @ take (n - 1) (drop 1 ls) @ new \<and> length chain = length [?h] + (n - 1) \<and>
            distinct (map unat new) \<and> unat ` set new \<subseteq> free_lbas (snd s1) \<and>
            free_lbas (snd s2) = free_lbas (snd s1) - unat ` set new)"
      then obtain new where "fst s2 = fst s1" "bm_inv (snd s2)" "bm_same (snd s2) (snd s1)"
        "chain = ?h # take (n - 1) tls @ new" "length chain = n" "distinct (map unat new)"
        "unat ` set new \<subseteq> free_lbas (snd s1)" "free_lbas (snd s2) = free_lbas (snd s1) - unat ` set new"
        using n1 ls by auto
      then show "sat (W chain s2) ?Q ?E"
        using s1 by (intro tail [of s1 s2 chain new]) simp_all
    qed (use big in simp)
  qed
  have fl: "sat (for_each (\<lambda>lba _ s. fs_free lba 1 s) (drop n ls) () s1)
      (\<lambda>_ s1. sat (G s1)
      (\<lambda>chain s2. sat (W chain s2) ?Q ?E) ?E) ?E"
    if s1: "good (fst s1)" "secs (fst s1) = secs (fst s)" "snd s1 = snd s" for s1 :: "'w \<times> bitmap_allocator"
  proof (rule sat_mono [OF free_list_law])
    show "\<forall>x\<in>set (drop n ls). lba_granted (snd s1) (x, 1)"
      unfolding dn s1(3) using gr ls by (auto dest: in_set_dropD)
    fix u s2 assume "fst s2 = fst s1 \<and> bm_inv (snd s2) \<and> bm_same (snd s2) (snd s1) \<and>
       free_lbas (snd s2) = free_lbas (snd s1) \<union> unat ` set (drop n ls)"
    then show "sat (G s2) (\<lambda>chain s2. sat (W chain s2) ?Q ?E) ?E"
      using s1 dn by (intro grow) simp_all
  qed (use i s1 in simp_all)
  have eq: "directory_sync pd dir s =
      ques (on_disk (collect_chain pd [] (dir_head dir)) s) (\<lambda>ls s.
      ques (for_each (\<lambda>lba _ s. fs_free lba 1 s) (drop n ls) () s) (\<lambda>_ s.
      ques (for_each (\<lambda>i chain s. if i < length ls then ok (chain @ [ls ! i]) s
            else ques (fs_alloc 1 s) (\<lambda>l s. ok (chain @ [l]) s)) [1..<n] [?h] s) (\<lambda>chain s. W chain s)))"
    unfolding directory_sync_def Let_def ENTRIES_PER_DIRENTRY_def n_def W_def by (rule refl)
  show ?thesis
    unfolding eq sat_ques sat_on_disk
  proof (rule sat_mono [OF collect_chain_law [OF c g refl f]], goal_cases)
    case (1 r w)
    then have "r = ls" by simp
    then show ?case
      unfolding \<open>r = ls\<close> G_def [symmetric] by (intro fl) (use 1 in simp_all)
  qed simp
qed

end

end
