(* ===== verification/Lemon_Fs.thy ===== *)
theory Lemon_Fs
  imports Lemon_Dir
begin

text \<open>
  The invariant of a mounted file system, between the caches of \<open>LemonFS\<close> and the disk, and the
  operations that establish and keep it.
\<close>

section \<open>The invariant\<close>

text \<open>
  The layout of a partition of \<open>N\<close> sectors: superblock, bitmap, data, the first block of the root
  directory in sector \<open>N - 2\<close>, and the backup of the superblock in sector \<open>N - 1\<close>.
\<close>

definition bitmap_blocks :: "nat \<Rightarrow> nat" where
  "bitmap_blocks N = (N + 4095) div 4096"

definition layout :: "nat \<Rightarrow> super_block \<Rightarrow> bool" where
  "layout N sb \<longleftrightarrow> 4096 \<le> N \<and> sb_ok sb \<and> unat (sb_bitmap_start sb) = 1 \<and>
     unat (sb_data_start sb) = 1 + bitmap_blocks N \<and> unat (sb_data_end sb) = N - 2"

abbreviation data_area :: "nat \<Rightarrow> nat set" where
  "data_area N \<equiv> {1 + bitmap_blocks N..<N - 1}"

text \<open>The link blocks of a file are data blocks, neither free nor blocks \<open>ls\<close> of the root directory.\<close>

definition file_safe :: "nat \<Rightarrow> (nat \<Rightarrow> bytes) \<Rightarrow> bitmap_allocator \<Rightarrow> u64 list \<Rightarrow> link_pointer \<Rightarrow> bool" where
  "file_safe N S b ls head \<longleftrightarrow>
     (\<exists>d i. link_chain N S head d i \<and>
        (\<forall>q\<in>set i. unat (lp_start q) \<in> data_area N - (unat ` set ls \<union> free_lbas b)))"

definition root_ok :: "nat \<Rightarrow> (nat \<Rightarrow> bytes) \<Rightarrow> lemon_fs \<Rightarrow> u64 list \<Rightarrow> bool" where
  "root_ok N S fs ls \<longleftrightarrow>
     dir_owns N S (fs_bitmap fs) (root_ptr fs) ls \<and> unat ` set ls \<subseteq> data_area N \<and>
     list_all entry_ok (fs_root fs) \<and> dir_dentries S ls = map to_dentry (fs_root fs) \<and>
     (\<forall>f. DFile f \<in> set (fs_root fs) \<longrightarrow> file_safe N S (fs_bitmap fs) ls (f_head f))"

definition table_ok :: "nat \<Rightarrow> super_block \<Rightarrow> bitmap_allocator \<Rightarrow> bool" where
  "table_ok N sb b \<longleftrightarrow> bm_inv b \<and> ba_data_start b = sb_data_start sb \<and>
     length (ba_blocks b) = bitmap_blocks N \<and> free_lbas b \<subseteq> {1 + bitmap_blocks N..<N - 2}"

definition fs_ok :: "nat \<Rightarrow> (nat \<Rightarrow> bytes) \<Rightarrow> lemon_fs \<Rightarrow> bool" where
  "fs_ok N S fs \<longleftrightarrow> layout N (fs_superblock fs) \<and> table_ok N (fs_superblock fs) (fs_bitmap fs) \<and>
     (\<exists>ls. root_ok N S fs ls)"

lemma dir_owns_tail:
  assumes "dir_owns N S b head ls" and "unat (lp_start head) = N - 2" and "unat ` set ls \<subseteq> data_area N"
  shows "unat ` set (tl ls) \<subseteq> {1 + bitmap_blocks N..<N - 2}"
proof -
  have "dir_chain N S head ls" "is_direct head" "is_valid head" "distinct (map unat ls)"
    using assms(1) by (auto simp: dir_owns_def)
  then obtain tls where ls: "ls = lp_start head # tls" by (cases rule: dir_chain.cases) auto
  then have "N - 2 \<notin> unat ` set tls" "unat ` set tls \<subseteq> data_area N"
    using assms(2,3) \<open>distinct (map unat ls)\<close> by auto
  then have "unat ` set tls \<subseteq> data_area N - {N - 2}" by (simp add: subset_Diff_insert)
  also have "\<dots> \<subseteq> {1 + bitmap_blocks N..<N - 2}" by auto
  finally show ?thesis unfolding ls list.sel .
qed

lemma sat_with_bitmap [simp]:
  "sat (with_bitmap f s) Q E =
     sat (f (fst s, fs_bitmap (snd s)))
       (\<lambda>x s'. Q x (fst s', (snd s)\<lparr>fs_bitmap := snd s'\<rparr>)) (\<lambda>e s'. E e (fst s', (snd s)\<lparr>fs_bitmap := snd s'\<rparr>))"
  by (auto simp: with_bitmap_def sat_def split: option.splits sum.splits)

lemma root_ptr_simps [simp]:
  "root_ptr (fs\<lparr>fs_bitmap := b\<rparr>) = root_ptr fs" "root_ptr (fs\<lparr>fs_root := r\<rparr>) = root_ptr fs"
  by (simp_all add: root_ptr_def)

section \<open>Paths in the root directory\<close>

lemma parent_components: "path_components (path_parent p) = butlast (path_components p)"
  unfolding path_parent_def by (rule components_from_vec) (auto intro: components_ok dest: in_set_butlastD)

lemma root_path:
  assumes "path_components path = [name]"
  shows "path_parent path = [0x2F]" and "path_name path = name" and "\<not> path_is_root path" and "path_components [0x2F] = []"
proof -
  show "path_parent path = [0x2F]" using assms by (simp add: path_parent_def path_from_vec_def)
  show "path_name path = name" using assms by (simp add: path_name_def)
  show c: "path_components [0x2F] = []" by (simp add: path_components_def)
  then show "\<not> path_is_root path" using assms by (auto simp: path_is_root_def)
qed

lemma get_parent_root:
  "path_components path = [name] \<Longrightarrow> get_parent disk fs path w = ok (root_dir fs) w"
  by (simp add: get_parent_def root_path)

lemma find_child_none:
  "find_child_idx d name = None \<longleftrightarrow> name \<notin> entry_name ` set (dir_children d)"
proof -
  have "find_child_idx d name = None \<longleftrightarrow> (\<forall>e\<in>set (dir_children d). entry_name e \<noteq> name)"
    by (simp add: find_child_idx_def find_None_iff all_set_conv_all_nth)
  then show ?thesis by auto
qed

section \<open>Creating an entry in the root directory\<close>

lemma directory_entry_new_props:
  assumes "name_ok name"
  shows "entry_ok (directory_entry_new (filename_from_str name) start ft)"
    and "entry_name (directory_entry_new (filename_from_str name) start ft) = name"
  using assms filename_not_empty [OF assms]
  by (cases ft; simp add: entry_ok_def raw_name_def directory_entry_new_def file_new_def entry_name_def filename_roundtrip)+

lemma dir_owns_less_free:
  "dir_owns N S b head ls \<Longrightarrow> free_lbas b' \<subseteq> free_lbas b \<Longrightarrow> bm_same b' b \<Longrightarrow> dir_owns N S b' head ls"
  by (auto simp: dir_owns_def lba_granted_same)

context sector_disk
begin

lemma create_law:
  assumes g: "good w" and f: "\<not> fails 1" and ok: "fs_ok n_secs (secs w) fs"
    and p: "path_components path = [name]" and nm: "name_ok name" "name \<notin> entry_name ` set (fs_root fs)"
    and fl: "(ucast fl :: u8) AND NOT 3 = 0"
  shows "sat (fs_create pd path fl (w, fs))
    (\<lambda>_ s'. good (fst s') \<and> fs_ok n_secs (secs (fst s')) (snd s') \<and> fs_superblock (snd s') = fs_superblock fs \<and>
       (\<exists>e. fs_root (snd s') = fs_root fs @ [e] \<and> entry_name e = name \<and>
          (case file_type_from_dirflags (ucast fl) of
             FT_File \<Rightarrow> \<exists>x. e = DFile x | FT_Directory \<Rightarrow> \<exists>n l. e = DDirectory n l | FT_Symlink \<Rightarrow> \<exists>n l. e = DSymLink n l)))
    (\<lambda>e s'. e = NoSpace \<and> (8 \<le> length (fs_root fs) \<or>
       file_type_from_dirflags (ucast fl) \<noteq> FT_Symlink \<and> no_room (fs_bitmap fs)))"
proof -
  let ?ft = "file_type_from_dirflags (ucast fl)"
  let ?Q = "\<lambda>_ s'. good (fst s') \<and> fs_ok n_secs (secs (fst s')) (snd s') \<and> fs_superblock (snd s') = fs_superblock fs \<and>
       (\<exists>e. fs_root (snd s') = fs_root fs @ [e] \<and> entry_name e = name \<and>
          (case ?ft of
             FT_File \<Rightarrow> \<exists>x. e = DFile x | FT_Directory \<Rightarrow> \<exists>n l. e = DDirectory n l | FT_Symlink \<Rightarrow> \<exists>n l. e = DSymLink n l))"
  let ?E = "\<lambda>e s' :: 'w \<times> lemon_fs. e = NoSpace \<and> (8 \<le> length (fs_root fs) \<or> ?ft \<noteq> FT_Symlink \<and> no_room (fs_bitmap fs))"
  obtain ls where lay: "layout n_secs (fs_superblock fs)" and tab: "table_ok n_secs (fs_superblock fs) (fs_bitmap fs)"
    and r: "root_ok n_secs (secs w) fs ls" using ok by (auto simp: fs_ok_def)
  have i: "bm_inv (fs_bitmap fs)" and frd: "free_lbas (fs_bitmap fs) \<subseteq> {1 + bitmap_blocks n_secs..<n_secs - 2}"
    using tab by (auto simp: table_ok_def)
  have fr: "free_lbas (fs_bitmap fs) \<subseteq> {0<..<n_secs}" by (rule order_trans [OF frd]) auto
  have tl: "unat ` set (tl ls) \<subseteq> {1 + bitmap_blocks n_secs..<n_secs - 2}"
    using r lay by (intro dir_owns_tail) (auto simp: root_ok_def layout_def root_ptr_def)
  define T where "T start s = ques (with_bitmap (give_child pd (root_dir fs) (directory_entry_new (filename_from_str name) start ?ft)) s)
      (\<lambda>_ s. if path_is_root (path_parent path)
                then ok () (fst s, (snd s)\<lparr>fs_root := fs_root (snd s) @ [directory_entry_new (filename_from_str name) start ?ft]\<rparr>)
                else ok () s)" for start s
  have tail: "sat (T start (w, fs1)) ?Q ?E"
    if s1: "fs1 = fs\<lparr>fs_bitmap := b1\<rparr>" "bm_inv b1" "bm_same b1 (fs_bitmap fs)" "free_lbas b1 \<subseteq> free_lbas (fs_bitmap fs)"
      "?ft = FT_File \<Longrightarrow> start \<noteq> 0" for fs1 b1 start
  proof -
    let ?e = "directory_entry_new (filename_from_str name) start ?ft"
    let ?d = "(root_dir fs)\<lparr>dir_children := fs_root fs @ [?e]\<rparr>"
    have own: "dir_owns n_secs (secs (fst (w, b1))) (snd (w, b1)) (dir_head ?d) ls"
      using r s1(3,4) dir_owns_less_free by (auto simp: root_ok_def root_dir_def)
    have eok: "list_all entry_ok (dir_children ?d)"
      using r directory_entry_new_props(1) [OF nm(1)] by (simp add: root_ok_def)
    have "sat (directory_sync pd ?d (w, b1))
      (\<lambda>_ s'. good (fst s') \<and> fs_ok n_secs (secs (fst s')) (fs\<lparr>fs_bitmap := snd s', fs_root := fs_root fs @ [?e]\<rparr>))
      (\<lambda>e s'. e = NoSpace \<and> 8 \<le> length (fs_root fs))"
    proof (rule sat_mono [OF sync_law [OF _ _ f _ own eok]], goal_cases)
      case (4 u s')
      then obtain chain where c: "dir_owns n_secs (secs (fst s')) (snd s') (dir_head ?d) chain"
        "dir_dentries (secs (fst s')) chain = map to_dentry (dir_children ?d)"
        "unat ` set chain \<subseteq> unat ` set ls \<union> free_lbas b1" by auto
      have fr': "free_lbas (snd s') \<subseteq> unat ` set (tl ls) \<union> free_lbas b1" using 4 by simp
      have tls: "set (tl ls) \<subseteq> set ls" by (cases ls) auto
      have cd: "unat ` set chain \<subseteq> data_area n_secs"
      proof -
        have "free_lbas b1 \<subseteq> data_area n_secs" by (rule order_trans [OF order_trans [OF s1(4) frd]]) auto
        then show ?thesis using c(3) r unfolding root_ok_def by blast
      qed
      have tab': "table_ok n_secs (fs_superblock fs) (snd s')"
      proof -
        have "free_lbas (snd s') \<subseteq> {1 + bitmap_blocks n_secs..<n_secs - 2}" using fr' tl s1(4) frd by blast
        moreover have "bm_same (snd s') (fs_bitmap fs)" using 4 s1(3) by (auto simp: bm_same_def)
        ultimately show ?thesis using tab 4 by (auto simp: table_ok_def bm_same_def)
      qed
      have same: "\<forall>x. x \<notin> unat ` set ls \<union> free_lbas b1 \<longrightarrow> secs (fst s') x = secs w x" using 4 by simp
      have old: "file_safe n_secs (secs (fst s')) (snd s') chain (f_head x)" if x: "DFile x \<in> set (fs_root fs)" for x
      proof -
        obtain d i where d: "link_chain n_secs (secs w) (f_head x) d i"
          "\<forall>q\<in>set i. unat (lp_start q) \<in> data_area n_secs - (unat ` set ls \<union> free_lbas (fs_bitmap fs))"
          using r x by (auto simp: root_ok_def file_safe_def)
        then have q: "\<forall>q\<in>set i. unat (lp_start q) \<in> data_area n_secs - (unat ` set ls \<union> free_lbas b1)" using s1(4) by blast
        have "link_chain n_secs (secs (fst s')) (f_head x) d i"
          by (rule link_chain_cong [OF d(1)]) (use q same in auto)
        moreover have "\<forall>q\<in>set i. unat (lp_start q) \<in> data_area n_secs - (unat ` set chain \<union> free_lbas (snd s'))"
          using q c(3) fr' tls by blast
        ultimately show ?thesis unfolding file_safe_def by blast
      qed
      have new: "file_safe n_secs (secs (fst s')) (snd s') chain (f_head x)" if "DFile x = ?e" for x
      proof -
        have x: "f_head x = link_pointer_new start 1" "?ft = FT_File"
          using that by (cases ?ft; simp add: directory_entry_new_def file_new_def)+
        have "link_chain n_secs (secs (fst s')) (f_head x) [f_head x] []"
          unfolding x(1) by (rule chain_direct) (use s1(5) x(2) in \<open>simp_all add: is_valid_def is_direct_def link_pointer_new_def\<close>)
        then show ?thesis unfolding file_safe_def by fastforce
      qed
      show ?case
        using 4 c cd tab' lay old new eok by (auto simp: fs_ok_def root_ok_def root_dir_def)
    qed (use g s1 i fr in auto)
    then show ?thesis
      using s1(1) directory_entry_new_props(2) [OF nm(1)]
      by (auto simp: T_def give_child_def root_dir_def root_path [OF p] path_is_root_def directory_entry_new_def
        split: file_type.splits elim!: sat_mono)
  qed
  have al: "?ft \<noteq> FT_Symlink \<Longrightarrow> sat (with_bitmap (fs_alloc 1) (w, fs))
      (\<lambda>l s. l \<noteq> 0 \<and> (\<exists>b1. s = (w, fs\<lparr>fs_bitmap := b1\<rparr>) \<and> bm_inv b1 \<and> bm_same b1 (fs_bitmap fs) \<and>
         free_lbas b1 \<subseteq> free_lbas (fs_bitmap fs))) ?E"
    unfolding sat_with_bitmap
    by (rule sat_mono [OF fs_alloc_law]) (use i fr in \<open>auto simp: unat_eq_0\<close>)
  have fin: "find_child_idx (root_dir fs) name = None"
    using nm(2) by (simp add: find_child_none root_dir_def)
  have eq: "fs_create pd path fl (w, fs) =
      ques (case ?ft of FT_Symlink \<Rightarrow> ok 0 (w, fs) | _ \<Rightarrow> with_bitmap (fs_alloc 1) (w, fs)) T"
    using root_path [OF p] fl fin
    by (simp add: fs_create_def get_parent_root [OF p] on_disk_def ok_def Let_def T_def [abs_def])
  show ?thesis
  proof (cases "?ft = FT_Symlink")
    case True
    then have eq': "fs_create pd path fl (w, fs) = T 0 (w, fs)" using eq by simp
    show ?thesis unfolding eq' by (rule tail [OF _ i]) (use True in \<open>simp_all add: bm_same_def\<close>)
  next
    case False
    then have eq': "fs_create pd path fl (w, fs) = ques (with_bitmap (fs_alloc 1) (w, fs)) T"
      using eq by (cases ?ft) simp_all
    show ?thesis unfolding eq' sat_ques by (rule sat_mono [OF al [OF False]]) (use tail in blast)+
  qed
qed

end

section \<open>Bitmaps on disk\<close>

lemma bm_add_block_eq:
  "bm_add_block ba bs = Some (ba\<lparr>ba_blocks := ba_blocks ba @ [collapse_state (Mixed bs)]\<rparr>)"
  by (simp add: bm_add_block_def bm_collapse_def Let_def)

text \<open>The table that the bitmap blocks \<open>1, 2, \<dots>\<close> of the disk stand for.\<close>

definition disk_table :: "nat \<Rightarrow> (nat \<Rightarrow> bytes) \<Rightarrow> u64 \<Rightarrow> bitmap_allocator" where
  "disk_table n S ds = \<lparr>ba_blocks = map (\<lambda>i. collapse_state (Mixed (S (1 + i)))) [0..<n], ba_data_start = ds\<rparr>"

lemma bitmap_blocks_bounds:
  assumes "4096 \<le> N"
  shows "0 < bitmap_blocks N" and "1 + bitmap_blocks N < N - 3" and "N \<le> bitmap_blocks N * 4096"
    and "bitmap_blocks N * 4096 < N + 4096"
  using assms unfolding bitmap_blocks_def by linarith+

lemma layout_bits:
  assumes "table_ok N sb b" and "layout N sb" and "N * 512 < 2 ^ 64"
    and "\<not> used b j" and "j < bit_count b"
  shows "1 + bitmap_blocks N + j < N - 2"
proof -
  have "unat (ba_data_start b) + j \<in> free_lbas b" using assms(4,5) by (auto simp: free_lbas_def)
  moreover have "unat (ba_data_start b) = 1 + bitmap_blocks N" using assms(1,2) by (simp add: table_ok_def layout_def)
  ultimately have "1 + bitmap_blocks N + j \<in> {1 + bitmap_blocks N..<N - 2}" using assms(1) unfolding table_ok_def by auto
  then show ?thesis by simp
qed

lemma reserve_facts:
  assumes l: "layout N sb" and N: "N * 512 < 2 ^ 64" and d: "ba_data_start b = sb_data_start sb"
  shows "unat (sb_data_end sb - 1 - ba_data_start b) = N - 3 - (1 + bitmap_blocks N)"
    and "ba_data_start b \<le> sb_data_end sb - 1" and "sb_data_end sb - 1 - ba_data_start b \<noteq> - 1"
proof -
  have n: "4096 \<le> N" using l by (simp add: layout_def)
  note bb = bitmap_blocks_bounds [OF n]
  have ds: "unat (ba_data_start b) = 1 + bitmap_blocks N" using d l by (simp add: layout_def)
  have de: "unat (sb_data_end sb - 1) = N - 3" using l n by (subst unat_subI [of _ "N - 2" 1 1]) (auto simp: layout_def)
  show df: "unat (sb_data_end sb - 1 - ba_data_start b) = N - 3 - (1 + bitmap_blocks N)"
    by (rule unat_subI [OF de ds]) (use bb in simp)
  show "ba_data_start b \<le> sb_data_end sb - 1" unfolding word_le_nat_alt de ds using bb by simp
  show "sb_data_end sb - 1 - ba_data_start b \<noteq> - 1"
  proof
    assume m: "sb_data_end sb - 1 - ba_data_start b = - 1"
    have "unat (sb_data_end sb - 1 - ba_data_start b + 1) = N - 3 - (1 + bitmap_blocks N) + 1"
      by (rule unat_addI [OF df]) (use N in simp_all)
    then show False unfolding m by simp
  qed
qed

lemma reserve_noop:
  assumes t: "table_ok N sb b" and l: "layout N sb" and N: "N * 512 < 2 ^ 64"
  shows "bm_reserve_from b (sb_data_end sb - 1) = Some b"
proof -
  have n: "4096 \<le> N" using l by (simp add: layout_def)
  note bb = bitmap_blocks_bounds [OF n]
  have ok: "bitmap_ok b" using t by (simp add: table_ok_def bm_inv_def)
  have "ba_data_start b = sb_data_start sb" using t by (simp add: table_ok_def)
  note df = reserve_facts [OF l N this]
  obtain b' where b': "bm_reserve_from b (sb_data_end sb - 1) = Some b'" "bitmap_ok b'" "bm_same b' b"
    "\<And>j. j < bit_count b \<Longrightarrow> used b' j = (unat (sb_data_end sb - 1 - ba_data_start b) < j \<or> used b j)"
    using bm_reserve_step [OF ok df(2,3)] by blast
  have "b' = b"
  proof (rule bitmap_eqI)
    fix j assume "j < bit_count b'"
    then have j: "j < bit_count b" using bm_same_count [OF b'(3)] by simp
    have "used b j" if "N - 3 - (1 + bitmap_blocks N) < j" using layout_bits [OF t l N _ j] that by fastforce
    then show "used b' j = used b j" using b'(4) [OF j] df(1) by auto
  qed (use b' ok in \<open>auto simp: bm_same_def\<close>)
  with b'(1) show ?thesis by simp
qed

lemma empty_table:
  assumes l: "layout N sb" and N: "N * 512 < 2 ^ 64" and z: "\<And>i. i < bitmap_blocks N \<Longrightarrow> S (1 + i) = replicate 512 0"
  obtains b where "bm_reserve_from (disk_table (bitmap_blocks N) S (sb_data_start sb)) (sb_data_end sb - 1) = Some b"
    and "table_ok N sb b" and "free_lbas b = {1 + bitmap_blocks N..<N - 2}"
proof -
  let ?b = "disk_table (bitmap_blocks N) S (sb_data_start sb)"
  have n: "4096 \<le> N" using l by (simp add: layout_def)
  note bb = bitmap_blocks_bounds [OF n]
  have blocks: "ba_blocks ?b = replicate (bitmap_blocks N) Free"
    using z by (auto simp: disk_table_def collapse_state_def list_all_iff intro: nth_equalityI)
  have cnt: "bit_count ?b = bitmap_blocks N * 4096" by (simp add: bit_count_def blocks)
  have ok: "bitmap_ok ?b"
    using bb N by (simp add: bitmap_ok_def blocks cnt list_all_iff state_ok_def block_raw_def collapse_state_def)
  have un: "\<not> used ?b j" if "j < bit_count ?b" for j
    using that by (simp add: used_def cnt blocks state_used_def block_raw_def bit_get_replicate less_mult_imp_div_less)
  have ds: "unat (ba_data_start ?b) = 1 + bitmap_blocks N" using l by (simp add: disk_table_def layout_def)
  have "ba_data_start ?b = sb_data_start sb" by (simp add: disk_table_def)
  note df = reserve_facts [OF l N this]
  obtain b where b: "bm_reserve_from ?b (sb_data_end sb - 1) = Some b" "bitmap_ok b" "bm_same b ?b"
    "\<And>j. j < bit_count ?b \<Longrightarrow> used b j = (unat (sb_data_end sb - 1 - ba_data_start ?b) < j \<or> used ?b j)"
    using bm_reserve_step [OF ok df(2,3)] by blast
  have cb: "bit_count b = bitmap_blocks N * 4096" using bm_same_count [OF b(3)] cnt by simp
  have dsb: "unat (ba_data_start b) = 1 + bitmap_blocks N" "ba_data_start b = sb_data_start sb"
    using b(3) ds by (simp_all add: bm_same_def disk_table_def)
  have free: "free_lbas b = {1 + bitmap_blocks N..<N - 2}"
  proof (intro equalityI subsetI)
    fix x assume "x \<in> free_lbas b"
    then obtain j where j: "x = 1 + bitmap_blocks N + j" "j < bit_count b" "\<not> used b j"
      by (auto simp: free_lbas_def dsb(1))
    then have "\<not> N - 3 - (1 + bitmap_blocks N) < j" using b(4) [of j] df(1) cb cnt by simp
    then show "x \<in> {1 + bitmap_blocks N..<N - 2}" using j(1) bb by simp
  next
    fix x assume x: "x \<in> {1 + bitmap_blocks N..<N - 2}"
    define j where "j = x - (1 + bitmap_blocks N)"
    have j: "x = 1 + bitmap_blocks N + j" "j < bit_count ?b" "\<not> N - 3 - (1 + bitmap_blocks N) < j"
      using x bb cnt by (auto simp: j_def)
    then have "\<not> used b j" using b(4) [OF j(2)] un j(2) df(1) by simp
    then show "x \<in> free_lbas b" unfolding free_lbas_def using j(1,2) dsb(1) cb cnt by auto
  qed
  have "bm_inv b" using b(2) bb N by (simp add: bm_inv_def cb dsb(1))
  then have "table_ok N sb b"
    using free dsb(2) b(3) blocks by (simp add: table_ok_def bm_same_def)
  with b(1) free that show ?thesis by blast
qed

section \<open>Mounting\<close>

lemma new_layout:
  assumes "unat n = N" and "4096 \<le> N" and "N * 512 < 2 ^ 64"
  obtains sb where "super_block_new n = Some sb" and "layout N sb"
proof -
  have "\<not> n < 0x1000" using assms by (simp add: word_less_nat_alt)
  then obtain sb where sb: "super_block_new n = Some sb"
    and f: "sb_bitmap_start sb = 1" "sb_data_start sb = 1 + div_ceil n 0x1000" "sb_data_end sb = n - 2"
    by (simp add: super_block_new_def)
  have "unat (div_ceil n 0x1000) = bitmap_blocks N"
    using assms(1) by (subst unat_div_ceil) (simp_all add: bitmap_blocks_def)
  then have "unat (1 + div_ceil n 0x1000) = 1 + bitmap_blocks N"
    using bitmap_blocks_bounds [OF assms(2)] assms(3) by (intro unat_addI) simp_all
  moreover have "unat (n - 2) = N - 2" using assms by (intro unat_subI) simp_all
  ultimately have "layout N sb"
    using assms(2) super_block_new_ok [OF sb] f by (simp add: layout_def)
  with sb that show ?thesis by blast
qed

lemma reloaded_dentry:
  "reloaded N S e e' \<Longrightarrow> to_dentry e' = to_dentry e \<and> raw_name e' = raw_name e"
  by (cases e) (auto simp: reloaded_def to_dentry_def raw_name_def)

lemma reloaded_dentries:
  "list_all2 (reloaded N S) es es' \<Longrightarrow>
     map to_dentry es' = map to_dentry es \<and> (list_all entry_ok es \<longrightarrow> list_all entry_ok es')"
  by (induction rule: list_all2_induct) (auto dest: reloaded_dentry simp: entry_ok_def)

lemma reloaded_safe:
  assumes "list_all2 (reloaded N S) es es'" and "\<forall>f. DFile f \<in> set es \<longrightarrow> P (f_head f)"
  shows "\<forall>f. DFile f \<in> set es' \<longrightarrow> P (f_head f)"
  using assms
proof (induction rule: list_all2_induct)
  case (Cons e es e' es')
  have "P (f_head f)" if "e' = DFile f" for f
    using Cons that by (cases e) (auto simp: reloaded_def)
  with Cons show ?case by auto
qed simp

lemma safe_chains: "\<forall>f. DFile f \<in> set es \<longrightarrow> file_safe N S b ls (f_head f) \<Longrightarrow> file_chains N S es"
  unfolding file_chains_def file_safe_def by blast

lemma zero_block_dentries: "db_decode (replicate 512 0) = d \<Longrightarrow>
    filter (\<lambda>e. \<not> filename_is_empty (de_name e)) (db_entries d) = [] \<and> \<not> is_direct (db_next d)"
proof -
  have z: "x \<in> set (chunks 53 (replicate 424 (0 :: u8))) \<Longrightarrow> x = replicate 53 0" for x
  proof -
    assume x: "x \<in> set (chunks 53 (replicate 424 (0 :: u8)))"
    have "length x = 53" using chunks_in_length [of "replicate 424 (0 :: u8)" 8 53, OF _ _ x] by simp
    moreover have "set x \<subseteq> {0}"
    proof -
      have "set x \<subseteq> set (concat (chunks 53 (replicate 424 (0 :: u8))))" using x by auto
      then show ?thesis by (simp add: concat_chunks)
    qed
    ultimately show ?thesis by (metis replicate_eqI singletonD subset_eq)
  qed
  assume d: "db_decode (replicate 512 0) = d"
  have "filename_is_empty (de_name e)" if "e \<in> set (db_entries d)" for e
  proof -
    have "e = de_decode (replicate 53 0)" using that z d by (auto simp: db_decode_def slice_def)
    then show ?thesis by (simp add: de_decode_def slice_def filename_is_empty_def list_all_iff)
  qed
  moreover have "\<not> is_direct (db_next d)"
  proof -
    have "le_word (replicate n 0) = (0 :: u64)" for n by (induction n) simp_all
    then show ?thesis using d by (auto simp: db_decode_def slice_def lp_decode_def is_direct_def)
  qed
  ultimately show ?thesis by (simp add: filter_empty_conv)
qed

context sector_disk
begin

lemma load_bitmap_law:
  assumes g: "good w" and l: "layout n_secs sb" and f: "\<not> fails 1"
  shows "sat (load_bitmap pd sb w)
    (\<lambda>b w'. b = disk_table (bitmap_blocks n_secs) (secs w) (sb_data_start sb) \<and> good w' \<and> secs w' = secs w) (\<lambda>_ _. False)"
proof -
  have n: "4096 \<le> n_secs" using l by (simp add: layout_def)
  note bb = bitmap_blocks_bounds [OF n]
  have bs: "unat (sb_bitmap_start sb) = 1" and ds: "unat (sb_data_start sb) = 1 + bitmap_blocks n_secs"
    using l by (simp_all add: layout_def)
  let ?xs = "upto_excl (sb_bitmap_start sb) (sb_data_start sb)"
  have len: "length ?xs = bitmap_blocks n_secs" by (simp add: bs ds)
  have nth: "unat (?xs ! k) = 1 + k" if "k < length ?xs" for k
  proof -
    have "unat (sb_bitmap_start sb + word_of_nat k) = 1 + k"
      using that bb sec_count [OF g] len by (intro unat_addI [OF bs]) (simp_all add: unat_of_nat)
    with that show ?thesis by simp
  qed
  show ?thesis
    unfolding load_bitmap_def
  proof (rule sat_for_each [where I = "\<lambda>k b w'. b = disk_table k (secs w) (sb_data_start sb) \<and> good w' \<and> secs w' = secs w"])
    fix k b w1 assume k: "k < length ?xs" and I: "b = disk_table k (secs w) (sb_data_start sb) \<and> good w1 \<and> secs w1 = secs w"
    have "sat (read_data pd (?xs ! k) w1) (\<lambda>bs w'. bs = secs w (1 + k) \<and> good w' \<and> secs w' = secs w) (\<lambda>_ _. False)"
      by (rule sat_mono [OF read_data_law]) (use I k nth [OF k] len bb f in auto)
    then show "sat (ques (read_data pd (?xs ! k) w1) (\<lambda>bs w. unwrap (bm_add_block b bs) w))
      (\<lambda>b w'. b = disk_table (Suc k) (secs w) (sb_data_start sb) \<and> good w' \<and> secs w' = secs w) (\<lambda>_ _. False)"
      using I by (auto simp: bm_add_block_eq disk_table_def elim!: sat_mono)
  qed (use g len in \<open>auto simp: disk_table_def bitmap_new_def\<close>)
qed

lemma bm_sync_law:
  assumes g: "good w" and l: "layout n_secs sb" and f: "\<not> fails 1" and t: "table_ok n_secs sb b"
  shows "sat (bm_sync pd (sb_bitmap_start sb) b w)
    (\<lambda>_ w'. good w' \<and> (\<forall>i < bitmap_blocks n_secs. secs w' (1 + i) = block_raw (ba_blocks b ! i)) \<and>
       (\<forall>x. x \<notin> {1..<1 + bitmap_blocks n_secs} \<longrightarrow> secs w' x = secs w x)) (\<lambda>_ _. False)"
proof -
  have n: "4096 \<le> n_secs" using l by (simp add: layout_def)
  note bb = bitmap_blocks_bounds [OF n]
  have bs: "unat (sb_bitmap_start sb) = 1" using l by (simp add: layout_def)
  have len: "length (ba_blocks b) = bitmap_blocks n_secs" using t by (simp add: table_ok_def)
  let ?xs = "enumerate 0 (ba_blocks b)"
  have raw: "length (block_raw (ba_blocks b ! k)) = 512" if "k < length (ba_blocks b)" for k
    using t that by (auto simp: table_ok_def bm_inv_def bitmap_ok_def list_all_length block_raw_length)
  have nth: "unat (word_of_nat k + sb_bitmap_start sb :: u64) = k + 1" if "k < bitmap_blocks n_secs" for k
    using that bb sec_count [OF g] bs by (intro unat_addI) (simp_all add: unat_of_nat)
  show ?thesis
    unfolding bm_sync_def
  proof (rule sat_for_each [where I = "\<lambda>k _ w'. good w' \<and> (\<forall>i < k. secs w' (1 + i) = block_raw (ba_blocks b ! i)) \<and>
       (\<forall>x. x \<notin> {1..<1 + k} \<longrightarrow> secs w' x = secs w x)"])
    fix k u w1 assume k: "k < length ?xs" and I: "good w1 \<and> (\<forall>i < k. secs w1 (1 + i) = block_raw (ba_blocks b ! i)) \<and>
       (\<forall>x. x \<notin> {1..<1 + k} \<longrightarrow> secs w1 x = secs w x)"
    have kb: "k < bitmap_blocks n_secs" using k len by simp
    have "sat (write_data pd (word_of_nat k + sb_bitmap_start sb) (block_raw (ba_blocks b ! k)) w1)
        (\<lambda>_ w'. good w' \<and> secs w' = (secs w1)(1 + k := block_raw (ba_blocks b ! k))) (\<lambda>_ _. False)"
      by (rule sat_mono [OF write_data_law]) (use I nth [OF kb] raw kb len bb f in auto)
    then show "sat ((\<lambda>(i, block) _ w. write_data pd (word_of_nat i + sb_bitmap_start sb) (block_raw block) w) (?xs ! k) u w1)
       (\<lambda>_ w'. good w' \<and> (\<forall>i < Suc k. secs w' (1 + i) = block_raw (ba_blocks b ! i)) \<and>
       (\<forall>x. x \<notin> {1..<1 + Suc k} \<longrightarrow> secs w' x = secs w x)) (\<lambda>_ _. False)"
      using I k by (auto simp: nth_enumerate_eq less_Suc_eq elim!: sat_mono)
  qed (use g len in auto)
qed

text \<open>Mounting a disk whose superblock, bitmap and root directory are in place.\<close>

lemma mount_law:
  assumes sb: "sat (mount_superblock pd w) (\<lambda>r w'. r = sb \<and> good w' \<and> secs w' = S) (\<lambda>_ _. False)"
    and l: "layout n_secs sb" and f: "\<not> fails 1"
    and b: "bm_reserve_from (disk_table (bitmap_blocks n_secs) S (sb_data_start sb)) (sb_data_end sb - 1) = Some b"
    and t: "table_ok n_secs sb b"
    and r: "root_ok n_secs S \<lparr>fs_superblock = sb, fs_bitmap = b, fs_root = es\<rparr> ls"
  shows "sat (lemon_init pd w)
    (\<lambda>fs w'. good w' \<and> secs w' = S \<and> fs_ok n_secs S fs \<and> fs_superblock fs = sb \<and> fs_bitmap fs = b \<and>
       list_all2 (reloaded n_secs S) es (fs_root fs)) (\<lambda>_ _. False)"
proof -
  let ?p = "link_pointer_new (sb_data_end sb) 512"
  have p: "root_ptr \<lparr>fs_superblock = sb, fs_bitmap = b, fs_root = es'\<rparr> = ?p" for es'
    by (simp add: root_ptr_def link_pointer_new_def)
  have c: "dir_chain n_secs S ?p ls" "dir_dentries S ls = map to_dentry es" "file_chains n_secs S es"
    using r safe_chains unfolding root_ok_def p dir_owns_def by auto
  have de: "unat (lp_start ?p) < n_secs" using l by (simp add: layout_def link_pointer_new_def)
  have ok: "fs_ok n_secs S \<lparr>fs_superblock = sb, fs_bitmap = b, fs_root = es'\<rparr>"
    if "list_all2 (reloaded n_secs S) es es'" for es'
    using r l t reloaded_dentries [OF that] reloaded_safe [OF that] unfolding fs_ok_def root_ok_def p by auto
  have load: "sat (directory_from_dir_block pd d (filename_from_str [0x2F]) ?p v)
      (\<lambda>dir w'. good w' \<and> secs w' = S \<and> list_all2 (reloaded n_secs S) es (dir_children dir)) (\<lambda>_ _. False)"
    if "good v" "secs v = S" for d v
    using load_children_law [OF c that f, of "[]"] by (auto simp: directory_from_dir_block_def elim!: sat_mono)
  have root: "sat (read_dir_block pd ?p v) (\<lambda>d v. sat (directory_from_dir_block pd d (filename_from_str [0x2F]) ?p v)
      (\<lambda>dir w'. good w' \<and> secs w' = S \<and> list_all2 (reloaded n_secs S) es (dir_children dir)) (\<lambda>_ _. False)) (\<lambda>_ _. False)"
    if "good v" "secs v = S" for v
    by (rule sat_mono [OF read_dir_block_law [OF that(1) de f]]) (use load that in auto)
  have bits: "sat (load_bitmap pd sb v)
      (\<lambda>t w'. t = disk_table (bitmap_blocks n_secs) S (sb_data_start sb) \<and> good w' \<and> secs w' = S) (\<lambda>_ _. False)"
    if "good v" "secs v = S" for v
    using load_bitmap_law [OF that(1) l f] that(2) by simp
  let ?Q = "\<lambda>fs w'. good w' \<and> secs w' = S \<and> fs_ok n_secs S fs \<and> fs_superblock fs = sb \<and> fs_bitmap fs = b \<and>
       list_all2 (reloaded n_secs S) es (fs_root fs)"
  define R where "R b v = ques (read_dir_block pd ?p v) (\<lambda>d v.
      ques (directory_from_dir_block pd d (filename_from_str [0x2F]) ?p v) (\<lambda>dir v.
      ok \<lparr>fs_superblock = sb, fs_bitmap = b, fs_root = dir_children dir\<rparr> v))" for b v
  have R: "sat (R b v) ?Q (\<lambda>_ _. False)" if "good v" "secs v = S" for v
    unfolding R_def sat_ques
    by (rule sat_mono [OF root [OF that]]) (erule sat_mono, use ok in auto)
  have B: "sat (load_bitmap pd sb v) (\<lambda>t v. sat (ques (unwrap (bm_reserve_from t (sb_data_end sb - 1)) v) R) ?Q (\<lambda>_ _. False)) (\<lambda>_ _. False)"
    if "good v" "secs v = S" for v
    by (rule sat_mono [OF bits [OF that]]) (use R b in \<open>auto simp: unwrap_def\<close>)
  have eq: "lemon_init pd w = ques (mount_superblock pd w) (\<lambda>superblock w.
     ques (load_bitmap pd superblock w) (\<lambda>bitmap w.
     ques (unwrap (bm_reserve_from bitmap (sb_data_end superblock - 1)) w) (\<lambda>bitmap w.
     ques (read_dir_block pd (link_pointer_new (sb_data_end superblock) 512) w) (\<lambda>root_block w.
     ques (directory_from_dir_block pd root_block (filename_from_str [0x2F]) (link_pointer_new (sb_data_end superblock) 512) w) (\<lambda>dir w.
     ok \<lparr>fs_superblock = superblock, fs_bitmap = bitmap, fs_root = dir_children dir\<rparr> w)))))"
    by (simp add: lemon_init_def Let_def)
  show ?thesis
    unfolding eq
  proof (subst sat_ques, rule sat_mono [OF sb], goal_cases)
    case (1 x v)
    then have x: "x = sb" by simp
    show ?case
      unfolding x R_def [symmetric] by (subst sat_ques, rule B) (use 1 in simp_all)
  qed
qed

lemma format_law:
  assumes g: "good w" and n: "4096 \<le> n_secs" and f: "\<not> fails n_secs"
  obtains sb where "layout n_secs sb"
    and "sat (fs_format pd w) (\<lambda>r w'. r = sb \<and> good w' \<and> secs w' (n_secs - 2) = replicate 512 0 \<and>
       (\<forall>i < bitmap_blocks n_secs. secs w' (1 + i) = replicate 512 0) \<and>
       secs w' 0 = sb_encode (sealed_sb sb) \<and> secs w' (n_secs - 1) = sb_encode (sealed_sb sb)) (\<lambda>_ _. False)"
proof -
  have N: "n_secs * 512 < 2 ^ 64" and cnt: "unat (sector_count pd) = n_secs" using sec_count [OF g] by auto
  obtain sb where sb: "super_block_new (sector_count pd) = Some sb" "layout n_secs sb" by (rule new_layout [OF cnt n N])
  note bb = bitmap_blocks_bounds [OF n]
  have l: "sb_ok sb" "unat (sb_bitmap_start sb) = 1" "unat (sb_data_start sb) = 1 + bitmap_blocks n_secs"
    "unat (sb_data_end sb) = n_secs - 2" using sb(2) by (auto simp: layout_def)
  have nf: "\<not> fails k" if "k \<le> n_secs" for k using sec_fails_mono [OF g _ that] f by blast
  have d: "unat (sb_data_start sb - sb_bitmap_start sb) = bitmap_blocks n_secs"
    using l by (simp add: unat_subI)
  have w1: "sat (write_sb pd sb w) (\<lambda>_ w'. good w' \<and> secs w' 0 = sb_encode (sealed_sb sb) \<and>
      secs w' (n_secs - 1) = sb_encode (sealed_sb sb)) (\<lambda>_ _. False)"
    by (rule sat_mono [OF write_sb_law [OF g]]) (use l(1) n nf in auto)
  have w2: "sat (zero_blocks_of pd (sb_bitmap_start sb) (sb_data_start sb - sb_bitmap_start sb) v)
      (\<lambda>_ w'. good w' \<and> (\<forall>i < bitmap_blocks n_secs. secs w' (1 + i) = replicate 512 0) \<and>
        secs w' 0 = secs v 0 \<and> secs w' (n_secs - 1) = secs v (n_secs - 1)) (\<lambda>_ _. False)" if "good v" for v
    by (rule sat_mono [OF zero_blocks_law [OF that]]) (use l d bb nf n in \<open>auto simp: d\<close>)
  have w3: "sat (zero_blocks_of pd (sb_data_end sb) 1 v)
      (\<lambda>_ w'. good w' \<and> secs w' (n_secs - 2) = replicate 512 0 \<and> (\<forall>x. x \<noteq> n_secs - 2 \<longrightarrow> secs w' x = secs v x)) (\<lambda>_ _. False)"
    if "good v" for v
    by (rule sat_mono [OF zero_blocks_law [OF that]]) (use l n nf in auto)
  have w23: "sat (zero_blocks_of pd (sb_bitmap_start sb) (sb_data_start sb - sb_bitmap_start sb) v)
      (\<lambda>_ v'. sat (zero_blocks_of pd (sb_data_end sb) 1 v') (\<lambda>_ w'. good w' \<and> secs w' (n_secs - 2) = replicate 512 0 \<and>
        (\<forall>i < bitmap_blocks n_secs. secs w' (1 + i) = replicate 512 0) \<and>
        secs w' 0 = secs v 0 \<and> secs w' (n_secs - 1) = secs v (n_secs - 1)) (\<lambda>_ _. False)) (\<lambda>_ _. False)" if "good v" for v
    by (rule sat_mono [OF w2 [OF that]]) (use w3 bb n in \<open>auto elim!: sat_mono intro!: sat_mono [OF w3]\<close>)
  have "sat (fs_format pd w) (\<lambda>r w'. r = sb \<and> good w' \<and> secs w' (n_secs - 2) = replicate 512 0 \<and>
       (\<forall>i < bitmap_blocks n_secs. secs w' (1 + i) = replicate 512 0) \<and>
       secs w' 0 = sb_encode (sealed_sb sb) \<and> secs w' (n_secs - 1) = sb_encode (sealed_sb sb)) (\<lambda>_ _. False)"
    unfolding fs_format_def sb(1) ok_or_def option.case ques_simps sat_ques
    by (rule sat_mono [OF w1]) (use w23 in \<open>auto elim!: sat_mono intro!: sat_mono [OF w23]\<close>)
  with sb(2) that show ?thesis by blast
qed

lemma mount_fresh_law:
  assumes g: "good w" and n: "4096 \<le> n_secs" and f: "\<not> fails n_secs"
    and bad: "\<not> check_sb (sb_decode (secs w 0))" "\<not> check_sb (sb_decode (secs w (n_secs - 1)))"
  shows "sat (lemon_init pd w)
    (\<lambda>fs w'. good w' \<and> fs_ok n_secs (secs w') fs \<and> fs_root fs = [] \<and>
       free_lbas (fs_bitmap fs) = {1 + bitmap_blocks n_secs..<n_secs - 2}) (\<lambda>_ _. False)"
proof -
  have N: "n_secs * 512 < 2 ^ 64" using sec_count [OF g] by simp
  note bb = bitmap_blocks_bounds [OF n]
  have f1: "\<not> fails 1" using sec_fails_mono [OF g, of 1 n_secs] f n by auto
  obtain w1 where w1: "get_superblock pd w = Some (w1, Inl BadSuperblock)" "good w1"
    by (rule sat_cases [OF get_superblock_law [OF g]]) (use n bad f1 in \<open>auto split: if_splits\<close>)
  obtain sb where l: "layout n_secs sb"
    and fm: "sat (fs_format pd w1) (\<lambda>r w'. r = sb \<and> good w' \<and> secs w' (n_secs - 2) = replicate 512 0 \<and>
       (\<forall>i < bitmap_blocks n_secs. secs w' (1 + i) = replicate 512 0) \<and>
       secs w' 0 = sb_encode (sealed_sb sb) \<and> secs w' (n_secs - 1) = sb_encode (sealed_sb sb)) (\<lambda>_ _. False)"
    by (rule format_law [OF w1(2) n f])
  then obtain w2 where w2: "fs_format pd w1 = Some (w2, Inr sb)" "good w2" "secs w2 (n_secs - 2) = replicate 512 0"
    "\<And>i. i < bitmap_blocks n_secs \<Longrightarrow> secs w2 (1 + i) = replicate 512 0" by (elim sat_Some) auto
  have de: "unat (sb_data_end sb) = n_secs - 2" using l by (simp add: layout_def)
  obtain b where b: "bm_reserve_from (disk_table (bitmap_blocks n_secs) (secs w2) (sb_data_start sb)) (sb_data_end sb - 1) = Some b"
    "table_ok n_secs sb b" "free_lbas b = {1 + bitmap_blocks n_secs..<n_secs - 2}"
    by (rule empty_table [where S = "secs w2", OF l N w2(4)])
  let ?p = "link_pointer_new (sb_data_end sb) 512" and ?d = "db_decode (replicate 512 0)"
  note z = zero_block_dentries [OF refl]
  have p: "root_ptr \<lparr>fs_superblock = sb, fs_bitmap = b, fs_root = []\<rparr> = ?p" by (simp add: root_ptr_def link_pointer_new_def)
  have v: "is_direct ?p" "is_valid ?p" "lp_start ?p = sb_data_end sb"
    using de n by (auto simp: is_direct_def is_valid_def link_pointer_new_def unat_eq_0 [symmetric])
  have "dir_chain n_secs (secs w2) ?p (lp_start ?p # [])"
    by (rule dir_block [OF v(1,2), of _ ?d]) (use z de n w2(3) in \<open>auto simp: v(3) intro: dir_end\<close>)
  then have own: "dir_owns n_secs (secs w2) b ?p [sb_data_end sb]"
    using v b(3) de n by (auto simp: dir_owns_def)
  have dm: "1 + bitmap_blocks n_secs \<le> n_secs - 2" "n_secs - 2 < n_secs - 1" using bb n by linarith+
  have "root_ok n_secs (secs w2) \<lparr>fs_superblock = sb, fs_bitmap = b, fs_root = []\<rparr> [sb_data_end sb]"
    using own dm de z w2(3) unfolding root_ok_def p by (simp add: dir_dentries_def)
  then have "sat (lemon_init pd w)
      (\<lambda>fs w'. good w' \<and> secs w' = secs w2 \<and> fs_ok n_secs (secs w2) fs \<and> fs_superblock fs = sb \<and> fs_bitmap fs = b \<and>
         list_all2 (reloaded n_secs (secs w2)) [] (fs_root fs)) (\<lambda>_ _. False)"
    by (intro mount_law [OF _ l f1 b(1,2)]) (use w1 w2 in \<open>simp_all add: mount_superblock_def\<close>)
  then show ?thesis using b(3) by (auto elim!: sat_mono)
qed

text \<open>Writing the caches back and mounting again.\<close>

lemma collapse_table:
  assumes "table_ok n_secs sb b" and "\<And>i. i < bitmap_blocks n_secs \<Longrightarrow> S (1 + i) = block_raw (ba_blocks b ! i)"
  shows "disk_table (bitmap_blocks n_secs) S (sb_data_start sb) = b"
proof -
  have len: "length (ba_blocks b) = bitmap_blocks n_secs" using assms(1) by (simp add: table_ok_def)
  have "map (\<lambda>i. collapse_state (Mixed (S (1 + i)))) [0..<bitmap_blocks n_secs] = ba_blocks b"
  proof (rule nth_equalityI)
    fix i assume "i < length (map (\<lambda>i. collapse_state (Mixed (S (1 + i)))) [0..<bitmap_blocks n_secs])"
    then have i: "i < bitmap_blocks n_secs" by simp
    then have "state_ok (ba_blocks b ! i)"
      using assms(1) len by (auto simp: table_ok_def bm_inv_def bitmap_ok_def list_all_length)
    then show "map (\<lambda>i. collapse_state (Mixed (S (1 + i)))) [0..<bitmap_blocks n_secs] ! i = ba_blocks b ! i"
      using i assms(2) collapse_raw by simp
  qed (simp add: len)
  then show ?thesis using assms(1) by (simp add: disk_table_def table_ok_def)
qed

lemma root_ok_outside:
  assumes r: "root_ok N S fs ls" and s: "\<And>x. x \<in> data_area N \<Longrightarrow> S' x = S x"
    and b: "fs_bitmap fs' = fs_bitmap fs" "root_ptr fs' = root_ptr fs" "fs_root fs' = fs_root fs"
  shows "root_ok N S' fs' ls"
proof -
  have c: "dir_chain N S p ls \<Longrightarrow> unat ` set ls \<subseteq> data_area N \<Longrightarrow> dir_chain N S' p ls" for p ls
  proof (induction rule: dir_chain.induct)
    case (dir_block p d ls)
    then show ?case using s by (intro dir_chain.dir_block) auto
  qed (auto intro: dir_end)
  have "dir_dentries S' ls = dir_dentries S ls"
    using r s unfolding dir_dentries_def root_ok_def by (intro arg_cong [of _ _ concat] map_cong) auto
  moreover have "file_safe N S' b ls h" if h: "file_safe N S b ls h" for b h
  proof -
    obtain d i where d: "link_chain N S h d i" "\<forall>q\<in>set i. unat (lp_start q) \<in> data_area N - (unat ` set ls \<union> free_lbas b)"
      using h unfolding file_safe_def by blast
    have "link_chain N S' h d i" by (rule link_chain_cong [OF d(1)]) (use d(2) s in auto)
    with d(2) show ?thesis unfolding file_safe_def by blast
  qed
  ultimately show ?thesis using r c unfolding root_ok_def dir_owns_def b by auto
qed

lemma fs_sync_law:
  assumes g: "good w" and f: "\<not> fails 1" and ok: "fs_ok n_secs (secs w) fs"
  shows "sat (fs_sync pd (w, fs))
    (\<lambda>_ s. snd s = fs \<and> good (fst s) \<and> secs (fst s) 0 = sb_encode (sealed_sb (fs_superblock fs)) \<and>
       (\<forall>i < bitmap_blocks n_secs. secs (fst s) (1 + i) = block_raw (ba_blocks (fs_bitmap fs) ! i)) \<and>
       (\<forall>x \<in> data_area n_secs. secs (fst s) x = secs w x)) (\<lambda>_ _. False)"
proof -
  have l: "layout n_secs (fs_superblock fs)" and t: "table_ok n_secs (fs_superblock fs) (fs_bitmap fs)"
    using ok by (auto simp: fs_ok_def)
  have n: "4096 \<le> n_secs" "sb_ok (fs_superblock fs)" using l by (auto simp: layout_def)
  note bb = bitmap_blocks_bounds [OF n(1)]
  define C where "C = sb_encode (sealed_sb (fs_superblock fs))"
  have 1: "sat (write_sb pd (fs_superblock fs) w)
      (\<lambda>_ w'. good w' \<and> secs w' 0 = C \<and> (\<forall>x \<in> data_area n_secs. secs w' x = secs w x)) (\<lambda>_ _. False)"
    by (rule sat_mono [OF write_sb_law [OF g _ n(2)]]) (use n(1) f in \<open>auto simp: C_def\<close>)
  have "sat (on_disk (write_sb pd (fs_superblock fs)) (w, fs))
      (\<lambda>_ s. snd s = fs \<and> good (fst s) \<and> secs (fst s) 0 = C \<and> (\<forall>x \<in> data_area n_secs. secs (fst s) x = secs w x)) (\<lambda>_ _. False)"
    unfolding sat_on_disk fst_conv snd_conv by (rule sat_mono [OF 1]) auto
  then show ?thesis
    unfolding fs_sync_def C_def [symmetric] sat_ques snd_conv
  proof (rule sat_mono, goal_cases)
    case (1 u s)
    have "sat (bm_sync pd (sb_bitmap_start (fs_superblock fs)) (fs_bitmap fs) (fst s))
      (\<lambda>_ w'. good w' \<and> secs w' 0 = C \<and> (\<forall>i < bitmap_blocks n_secs. secs w' (1 + i) = block_raw (ba_blocks (fs_bitmap fs) ! i)) \<and>
       (\<forall>x \<in> data_area n_secs. secs w' x = secs w x)) (\<lambda>_ _. False)"
      by (rule sat_mono [OF bm_sync_law [OF _ l f t]]) (use 1 in auto)
    with 1 show ?case by (cases s) (simp add: sat_on_disk)
  qed auto
qed

lemma layout_sealed [simp]: "layout N (sealed_sb sb) \<longleftrightarrow> layout N sb"
  by (auto simp: layout_def sealed_sb_def Let_def sb_ok_def)

lemma remount_law:
  assumes g: "good w" and f: "\<not> fails 1" and ok: "fs_ok n_secs S fs"
    and sb: "secs w 0 = sb_encode (sealed_sb (fs_superblock fs))"
    and bm: "\<And>i. i < bitmap_blocks n_secs \<Longrightarrow> secs w (1 + i) = block_raw (ba_blocks (fs_bitmap fs) ! i)"
    and da: "\<And>x. x \<in> data_area n_secs \<Longrightarrow> secs w x = S x"
  shows "sat (lemon_init pd w)
    (\<lambda>fs' w'. good w' \<and> secs w' = secs w \<and> fs_ok n_secs (secs w) fs' \<and> fs_superblock fs' = sealed_sb (fs_superblock fs) \<and>
       fs_bitmap fs' = fs_bitmap fs \<and> list_all2 (reloaded n_secs (secs w)) (fs_root fs) (fs_root fs')) (\<lambda>_ _. False)"
proof -
  let ?sb = "sealed_sb (fs_superblock fs)"
  obtain ls where l: "layout n_secs (fs_superblock fs)" and t: "table_ok n_secs (fs_superblock fs) (fs_bitmap fs)"
    and r: "root_ok n_secs S fs ls" using ok by (auto simp: fs_ok_def)
  have sf: "sb_data_start ?sb = sb_data_start (fs_superblock fs)" "sb_data_end ?sb = sb_data_end (fs_superblock fs)"
    by (simp_all add: sealed_sb_def Let_def)
  have t': "table_ok n_secs ?sb (fs_bitmap fs)" using t by (simp add: table_ok_def sf)
  have sbo: "sb_ok (fs_superblock fs)" and n: "0 < n_secs" using l by (auto simp: layout_def)
  have m: "sat (mount_superblock pd w) (\<lambda>r w'. r = ?sb \<and> good w' \<and> secs w' = secs w) (\<lambda>_ _. False)"
    by (rule sat_cases [OF get_superblock_law [OF g n]])
      (use sbo f in \<open>auto simp: mount_superblock_def sb sb_decode_encode\<close>)
  have "root_ok n_secs (secs w) \<lparr>fs_superblock = ?sb, fs_bitmap = fs_bitmap fs, fs_root = fs_root fs\<rparr> ls"
    by (rule root_ok_outside [OF r]) (use da in \<open>simp_all add: root_ptr_def sf\<close>)
  then show ?thesis
    using mount_law [OF m _ f _ t'] l sec_count [OF g] reserve_noop [OF t' _ ] collapse_table [OF t' bm]
    by (simp add: sf)
qed

end

end
