(* ===== verification/Ram_Disk.thy ===== *)
theory Ram_Disk
  imports Sectors
begin

text \<open>
  A drive in memory: the smallest device that keeps the contract of a block device. The properties
  of the layers above are applied to it at concrete inputs.
\<close>

definition ram_read ::
  "u64 \<Rightarrow> u64 \<Rightarrow> u64 \<Rightarrow> u64 \<Rightarrow> phys_page \<Rightarrow> (nat \<Rightarrow> u8) \<Rightarrow> (nat \<Rightarrow> u8, storage_error, phys_page) res" where
  "ram_read blocks bsize s c dest w =
     (let a = unat s * unat bsize; n = unat c * unat bsize in
      if unat blocks < unat s + unat c then err BlockOutOfBounds w
      else if length (pp_data dest) < n then err CommandFailed w
      else ok (dest\<lparr>pp_data := map w [a..<a + n] @ drop n (pp_data dest)\<rparr>) w)"

definition ram_write ::
  "u64 \<Rightarrow> u64 \<Rightarrow> u64 \<Rightarrow> u64 \<Rightarrow> phys_page \<Rightarrow> (nat \<Rightarrow> u8) \<Rightarrow> (nat \<Rightarrow> u8, storage_error, unit) res" where
  "ram_write blocks bsize s c src w =
     (let a = unat s * unat bsize; n = unat c * unat bsize in
      if unat blocks < unat s + unat c then err BlockOutOfBounds w
      else if length (pp_data src) < n then err CommandFailed w
      else ok () (\<lambda>x. if a \<le> x \<and> x < a + n then pp_data src ! (x - a) else w x))"

definition ram_drive :: "u64 \<Rightarrow> u64 \<Rightarrow> (nat \<Rightarrow> u8) storage_drive" where
  "ram_drive blocks bsize =
     \<lparr>sd_block_count = blocks, sd_block_size = bsize,
      sd_read_blocks = ram_read blocks bsize, sd_write_blocks = ram_write blocks bsize,
      sd_sync = ok (), sd_alloc_pages = (\<lambda>n w. (w, n < 0x8000000000))\<rparr>"

definition ram_fails :: "nat \<Rightarrow> bool" where
  "ram_fails n \<longleftrightarrow> 2 ^ 39 \<le> n"

definition ram_part :: "u64 \<Rightarrow> u64 \<Rightarrow> u64 \<Rightarrow> u64 \<Rightarrow> (nat \<Rightarrow> u8) partition_drive" where
  "ram_part blocks bsize start cnt =
     \<lparr>pd_drive = \<lparr>d_inner = ram_drive blocks bsize, d_partitions = []\<rparr>,
      pd_partition = \<lparr>p_start = start, p_size_blocks = cnt, p_name = [], p_type = LemonFS,
        p_guid = \<lparr>g_time_low = 0, g_time_mid = 0, g_time_high_ver = 0, g_clock_seq = [0, 0],
          g_node = [0, 0, 0, 0, 0, 0]\<rparr>\<rparr>\<rparr>"

lemma ram_block_device:
  assumes "unat blocks * unat bsize < 2 ^ 64" and "bsize \<noteq> 0"
  shows "block_device (ram_drive blocks bsize) (\<lambda>w. w) (\<lambda>_. True) ram_fails"
proof
  fix w w' :: "nat \<Rightarrow> u8" and n :: u64 and found
  assume "sd_alloc_pages (ram_drive blocks bsize) n w = (w', found)"
  then show "True \<and> w' = w \<and> (found \<longrightarrow> unat n < 2 ^ 39) \<and> (\<not> found \<longrightarrow> ram_fails (unat n))"
    by (auto simp: ram_drive_def ram_fails_def word_less_nat_alt)
qed (use assms in \<open>auto simp: ram_drive_def ram_fails_def ram_read_def ram_write_def Let_def
       algebra_simps split: if_splits\<close>)

lemma ram_partition_device:
  assumes "unat blocks * unat bsize < 2 ^ 64" and "unat bsize dvd 4096" and "512 dvd unat bsize"
    and "unat start + unat cnt \<le> unat blocks"
  shows "partition_device (ram_part blocks bsize start cnt) (\<lambda>w. w) (\<lambda>_. True) ram_fails"
proof -
  have "bsize \<noteq> 0" using assms(2) by auto
  then have "block_device (ram_drive blocks bsize) (\<lambda>w. w) (\<lambda>_. True) ram_fails"
    using assms(1) by (rule ram_block_device [rotated])
  with assms show ?thesis
    unfolding partition_device_def partition_device_axioms_def
    by (simp add: ram_part_def block_bytes_def ram_drive_def)
qed

text \<open>A partition of 9216 sectors on a drive with native blocks of 1024 bytes.\<close>

abbreviation ram :: "(nat \<Rightarrow> u8) partition_drive" where
  "ram \<equiv> ram_part 5120 1024 256 4608"

lemma ram_ok: "partition_device ram (\<lambda>w. w) (\<lambda>_. True) ram_fails"
  by (rule ram_partition_device) simp_all

interpretation rd: partition_device ram "\<lambda>w. w" "\<lambda>_. True" ram_fails
  by (rule ram_ok)

lemma ram_sectors: "part_sectors ram = 9216"
  by (simp add: part_sectors_def block_bytes_def ram_part_def ram_drive_def)

lemma ram_fails_small [simp]: "ram_fails 0 = False" "ram_fails 1 = False" "ram_fails (Suc 0) = False"
  by (simp_all add: ram_fails_def)

end
