(* ===== verification/Lemon_Props.thy ===== *)
theory Lemon_Props
  imports Lemon_Fs Ram_Disk
begin

text \<open>
  The properties of LemonFS on a partition of a drive that keeps the contract of a block device.
\<close>

section \<open>The superblock\<close>


lemma new_superblock: "super_block_new 0x2400 \<noteq> None" "sb_ok (the (super_block_new 0x2400))"
proof -
  show n: "super_block_new 0x2400 \<noteq> None" by (simp add: super_block_new_def)
  then show "sb_ok (the (super_block_new 0x2400))" using super_block_new_ok by auto
qed


section \<open>Files\<close>

text \<open>C32. What \<open>write\<close> stores in a file is on the disk: after a successful \<^const>\<open>store_file\<close> the chain
  from the new head pointer resolves to extents whose bytes, copied by the loop of \<open>read\<close>, are exactly those of the
  page written, the file owns its blocks, and the only error on a sound drive is a full partition. The old
  blocks may be those of a new file or of any earlier contents, of any size. The cached \<open>f_links\<close> of the
  file is not part of this: \<^const>\<open>store_file\<close> leaves it as it was, and \<open>read\<close> uses it for the files of the
  root directory until the next mount.\<close>

theorem file_contents_roundtrip:
  assumes "partition_device pd dbyte good fails" and "good w" and "\<not> fails (unat (pp_count src) * 8)"
    and "bm_inv b" and "free_lbas b \<subseteq> {0<..<part_sectors pd}"
    and "owns_blocks (part_sectors pd) (sector_at pd dbyte w) b (f_head f) blocks"
    and "page_ok src" and "0 < unat (pp_count src)" and "page_ok dest" and "pp_count dest = pp_count src"
  shows "sat (store_file pd f src (w, b))
    (\<lambda>f' s'. unat (f_size f') = length (pp_data src) \<and>
       sat (resolve_links pd (f_head f') (fst s'))
         (\<lambda>links w''. sat (read_links_data pd links dest w'')
            (\<lambda>(p, n) _. pp_data p = pp_data src \<and> unat n = length (pp_data src)) (\<lambda>_ _. False))
         (\<lambda>_ _. False) \<and>
       bm_inv (snd s') \<and> free_lbas (snd s') \<subseteq> {0<..<part_sectors pd} \<and>
       (\<exists>blocks'. owns_blocks (part_sectors pd) (sector_at pd dbyte (fst s')) (snd s') (f_head f') blocks'))
    (\<lambda>e _. e = NoSpace)"
proof -
  note S = partition_device.sectors [OF assms(1)]
  have N: "part_sectors pd * 512 < 2 ^ 64" using sector_disk.sec_count [OF S assms(2)] by simp
  have lsrc: "length (pp_data src) = unat (pp_count src) * 8 * 512" and ldest: "length (pp_data dest) = length (pp_data src)"
    using page_bytes [OF assms(7)] assms(7,9,10) by (simp_all add: page_ok_def)
  have l64: "length (pp_data src) < 2 ^ 64"
    using assms(7) unat_bound [of "pp_count src * PAGE_SIZE"] by (simp add: page_ok_def)
  have F1: "\<not> fails 1" using sector_disk.sec_fails_mono [OF S assms(2), of 1 "unat (pp_count src) * 8"] assms(3,8) by auto
  have read: "sat (resolve_links pd head v)
         (\<lambda>links w''. sat (read_links_data pd links dest w'')
            (\<lambda>(p, n) _. pp_data p = pp_data src \<and> unat n = length (pp_data src)) (\<lambda>_ _. False))
         (\<lambda>_ _. False)"
    if v: "good v" "owns_extents (part_sectors pd) (sector_at pd dbyte v) b' head bl"
      "concat (map (sector_at pd dbyte v) (map unat bl)) = pp_data src" for v b' head bl
  proof -
    obtain d i where d: "link_chain (part_sectors pd) (sector_at pd dbyte v) head d i" "list_all (extent_ok (part_sectors pd)) d"
      "lba_list d = map unat bl" "distinct (lba_list d)"
      by (rule owned_chain [OF v(2)])
    have c: "contents (sector_at pd dbyte v) d = pp_data src" unfolding contents_def d(3) by (rule v(3))
    have len: "length (lba_list d) * 512 = length (pp_data src)"
      unfolding c [symmetric] by (rule sector_disk.length_contents [OF S, symmetric])
    then have ls: "unat (links_size d) = length (pp_data src)" using links_size_law [OF d(2) N] l64 by simp
    have rs: "unat (min (links_size d) (pp_count dest * PAGE_SIZE)) = length (pp_data src)"
    proof -
      have "unat (pp_count dest * PAGE_SIZE) = length (pp_data src)"
        using assms(9) ldest page_bytes [OF assms(9)] by (simp add: page_ok_def)
      from unat_minI [OF ls this] show ?thesis by (simp only: min.idem)
    qed
    have ld: "length (lba_list d) = unat (pp_count src) * 8" using len lsrc by simp
    have "sat (read_extents pd (min (links_size d) (pp_count dest * PAGE_SIZE)) d 0 dest v')
        (\<lambda>p w'. pp_data p = pp_data src) (\<lambda>_ _. False)"
      if "good v'" "sector_at pd dbyte v' = sector_at pd dbyte v" for v'
      by (rule sat_mono [OF sector_disk.read_extents_law [OF S that(1) d(2) assms(9), of 0 _ "unat (pp_count src) * 8"]])
         (use rs ldest ld assms(3) that(2) c in \<open>auto simp: splice_def\<close>)
    then show ?thesis
      using rs F1 by (intro sat_mono [OF sector_disk.resolve_links_law [OF S d(1) v(1)]])
        (auto simp: read_links_data_def Let_def elim!: sat_mono)
  qed
  show ?thesis
    by (rule sat_mono [OF sector_disk.store_file_law [OF S]])
       (use assms read in \<open>auto intro: owns_extents_blocks\<close>)
qed

lemma two_blocks_free: "free_lbas two_blocks = {3..<4099}"
proof -
  have m1: "(255 :: u8) = - 1" by simp
  have ff: "bit (255 :: u8) (n mod 8)" for n unfolding m1 by (simp add: bit_minus_1_iff)
  have "used two_blocks i = (4096 \<le> i)" if "i < 8192" for i
    using that ff
    by (cases "i < 4096") (auto simp: used_def two_blocks_def bit_count_def state_used_def block_raw_def
      bit_get_replicate bit_get_bit div_nat_eqI le_mod_geq)
  then have "free_lbas two_blocks = {3 + i |i. i < 4096}"
    by (auto simp: free_lbas_def two_blocks_def bit_count_def)
  also have "\<dots> = {3..<4099}"
  proof (intro equalityI subsetI)
    fix x :: nat assume "x \<in> {3..<4099}"
    then have "x = 3 + (x - 3)" "x - 3 < 4096" by auto
    then show "x \<in> {3 + i |i. i < 4096}" by blast
  qed auto
  finally show ?thesis .
qed

lemma new_file_owns:
  "owns_blocks 9216 S two_blocks (f_head (file_new name 5000)) [5000]"
proof -
  have h: "f_head (file_new name 5000) = link_pointer_new 5000 1" by (simp add: file_new_def)
  have "link_chain 9216 S (link_pointer_new 5000 1) [link_pointer_new 5000 1] []"
    by (rule chain_direct) (simp_all add: is_valid_def is_direct_def link_pointer_new_def)
  moreover have "link_blocks [link_pointer_new 5000 1] = [5000]"
    by (simp add: link_blocks_def link_pointer_new_def div_ceil_def upto_excl_def)
  ultimately show ?thesis
    unfolding owns_blocks_def h two_blocks_free
    by (intro exI conjI) (auto simp: lba_granted_def two_blocks_def bit_count_def)
qed

theorem file_contents_roundtrip_witness:
  "sat (store_file ram (file_new [0x66] 5000) \<lparr>pp_count = 1, pp_data = replicate 4096 7\<rparr> ((\<lambda>_. 0), two_blocks))
    (\<lambda>f' s'. sat (resolve_links ram (f_head f') (fst s'))
       (\<lambda>links w''. sat (read_links_data ram links \<lparr>pp_count = 1, pp_data = replicate 4096 0\<rparr> w'')
          (\<lambda>(p, n) _. pp_data p = replicate 4096 7) (\<lambda>_ _. False)) (\<lambda>_ _. False))
    (\<lambda>e _. e = NoSpace)"
proof -
  let ?src = "\<lparr>pp_count = 1, pp_data = replicate 4096 7\<rparr>" and ?dest = "\<lparr>pp_count = 1, pp_data = replicate 4096 0\<rparr>"
  have ok: "page_ok ?src" "page_ok ?dest" by (simp_all add: page_ok_def)
  have nf: "\<not> ram_fails (unat (pp_count ?src) * 8)" by (simp add: ram_fails_def)
  have fr: "free_lbas two_blocks \<subseteq> {0<..<part_sectors ram}" by (auto simp: two_blocks_free ram_sectors)
  have ow: "owns_blocks (part_sectors ram) S two_blocks (f_head (file_new [0x66] 5000)) [5000]" for S
    using new_file_owns by (simp add: ram_sectors)
  have "sat (store_file ram (file_new [0x66] 5000) ?src ((\<lambda>_. 0), two_blocks))
    (\<lambda>f' s'. unat (f_size f') = length (pp_data ?src) \<and>
       sat (resolve_links ram (f_head f') (fst s'))
         (\<lambda>links w''. sat (read_links_data ram links ?dest w'')
            (\<lambda>(p, n) _. pp_data p = pp_data ?src \<and> unat n = length (pp_data ?src)) (\<lambda>_ _. False))
         (\<lambda>_ _. False) \<and>
       bm_inv (snd s') \<and> free_lbas (snd s') \<subseteq> {0<..<part_sectors ram} \<and>
       (\<exists>blocks'. owns_blocks (part_sectors ram) (sector_at ram (\<lambda>w. w) (fst s')) (snd s') (f_head f') blocks'))
    (\<lambda>e _. e = NoSpace)"
    by (rule file_contents_roundtrip [OF ram_ok TrueI nf two_blocks_inv fr ow ok(1) _ ok(2)]) simp_all
  then show ?thesis
    by (rule sat_mono) (auto elim!: sat_mono)
qed

section \<open>Mounting, formatting and writing back\<close>

text \<open>C35. Mounting a partition that holds no LemonFS formats it: with neither superblock valid, at
  least 4096 sectors and enough memory, \<open>init\<close> returns a well-formed file system with an empty root
  directory, in which exactly the sectors between the bitmap and the root block are free.\<close>

theorem format_mount:
  assumes "partition_device pd dbyte good fails" and "good w" and "4096 \<le> part_sectors pd"
    and "\<not> fails (part_sectors pd)"
    and "\<not> check_sb (sb_decode (sector_at pd dbyte w 0))"
    and "\<not> check_sb (sb_decode (sector_at pd dbyte w (part_sectors pd - 1)))"
  shows "sat (lemon_init pd w)
    (\<lambda>fs w'. good w' \<and> fs_ok (part_sectors pd) (sector_at pd dbyte w') fs \<and> fs_root fs = [] \<and>
       free_lbas (fs_bitmap fs) = {1 + bitmap_blocks (part_sectors pd)..<part_sectors pd - 2}) (\<lambda>_ _. False)"
  by (rule sector_disk.mount_fresh_law [OF partition_device.sectors [OF assms(1)] assms(2-6)])

text \<open>A disk that holds a superblock with its first byte damaged in every sector.\<close>

definition scratched :: bytes where
  "scratched = (let s = sb_encode (sealed_sb (the (super_block_new 0x2400))) in (hd s + 1) # tl s)"

definition blank :: "nat \<Rightarrow> u8" where
  "blank x = scratched ! (x mod 512)"

lemma blank_not_superblock: "\<not> check_sb (sb_decode (sector_at ram (\<lambda>w. w) blank i))"
proof -
  let ?s = "sb_encode (sealed_sb (the (super_block_new 0x2400)))"
  have l: "length ?s = 512" and c: "check_sb (sb_decode ?s)"
    using new_superblock(2) by (simp_all add: sb_decode_encode)
  then obtain x xs where s: "?s = x # xs" by (cases ?s) auto
  have n: "length scratched = 512" using l by (simp add: scratched_def s)
  have "sector_at ram (\<lambda>w. w) blank i = scratched"
  proof (rule nth_equalityI)
    fix k assume k: "k < length (sector_at ram (\<lambda>w. w) blank i)"
    have b: "block_bytes ram = 1024" "unat (p_start (pd_partition ram)) = 256"
      by (simp_all add: block_bytes_def ram_part_def ram_drive_def)
    have k: "k < 512" using k by (simp add: sector_at_def)
    then have "i * 512 + k < i * 512 + 512" by simp
    then have nth: "sector_at ram (\<lambda>w. w) blank i ! k = part_byte ram (\<lambda>w. w) blank (i * 512 + k)"
      using k unfolding sector_at_def by (subst nth_map) (simp_all only: length_upt nth_upt add_diff_cancel_left')
    have "256 * 1024 + (i * 512 + k) = k + (512 + i) * 512" by simp
    then have "(256 * 1024 + (i * 512 + k)) mod 512 = k" using k by (simp only: mod_mult_self1 mod_less)
    then show "sector_at ram (\<lambda>w. w) blank i ! k = scratched ! k"
      unfolding nth part_byte_def b blank_def by (simp only:)
  qed (simp add: n sector_at_def)
  moreover have "damaged ?s scratched"
    unfolding damaged_def scratched_def s Let_def
    by (intro exI [of _ "[]"] exI [of _ "[x]"] exI [of _ "[x + 1]"] exI [of _ xs]) simp
  ultimately show ?thesis using damage_detected [OF l c] by simp
qed

lemma ram_format:
  "4096 \<le> part_sectors ram" "\<not> ram_fails (part_sectors ram)"
  by (simp_all add: ram_sectors ram_fails_def)

lemma ram_mounted:
  obtains fs w where "lemon_init ram blank = Some (w, Inr fs)" and "fs_ok (part_sectors ram) (sector_at ram (\<lambda>w. w) w) fs"
    and "fs_root fs = []" and "\<not> no_room (fs_bitmap fs)"
proof -
  have room: "\<not> no_room (fs_bitmap fs)"
    if "fs_ok (part_sectors ram) S fs" "free_lbas (fs_bitmap fs) = {1 + bitmap_blocks (part_sectors ram)..<part_sectors ram - 2}" for fs S
  proof -
    have b: "bitmap_blocks (part_sectors ram) = 3" by (simp add: ram_sectors bitmap_blocks_def)
    have t: "length (ba_blocks (fs_bitmap fs)) = 3" "unat (ba_data_start (fs_bitmap fs)) = 4"
      using that(1) b by (simp_all add: fs_ok_def table_ok_def layout_def)
    have "4099 \<in> free_lbas (fs_bitmap fs)" by (simp add: that(2) ram_sectors bitmap_blocks_def)
    then obtain i where "4099 = 4 + i" "\<not> used (fs_bitmap fs) i" unfolding free_lbas_def t(2) by blast
    then have "\<not> used (fs_bitmap fs) (Suc 0 * 4096 - 1)" by (simp add: eval_nat_numeral)
    then show ?thesis unfolding no_room_def t(1) by (metis zero_less_numeral)
  qed
  show ?thesis
    by (rule sat_Some [OF sector_disk.mount_fresh_law [where w = blank,
          OF partition_device.sectors [OF ram_ok] TrueI ram_format blank_not_superblock blank_not_superblock]])
      (use that room in blast)
qed

theorem format_mount_witness:
  "sat (lemon_init ram blank)
    (\<lambda>fs w'. fs_root fs = [] \<and> free_lbas (fs_bitmap fs) = {4..<9214}) (\<lambda>_ _. False)"
proof -
  have "1 + bitmap_blocks (part_sectors ram) = 4" by (simp add: ram_sectors bitmap_blocks_def)
  with sat_mono [OF format_mount [OF ram_ok TrueI ram_format blank_not_superblock blank_not_superblock]]
  show ?thesis by (simp add: ram_sectors)
qed




section \<open>Creating an entry\<close>

text \<open>C36. \<open>create\<close> with a path of one component. A name that is taken is refused with \<open>FileExists\<close>, and otherwise
  flags outside the two file type bits with \<open>BadFlags\<close>, and the state is unchanged. In every other case it
  adds one entry of the asked kind to the end of the root directory and keeps the file system
  well-formed, on the disk and in the caches. The only error there is \<open>NoSpace\<close>, and it comes only when the root
  directory needs another block, or when an entry with a block of its own is created and no bitmap block
  has its last block free.\<close>

theorem create_in_root:
  fixes fl :: u64
  assumes "partition_device pd dbyte good fails" and "good w" and "\<not> fails 1"
    and "fs_ok (part_sectors pd) (sector_at pd dbyte w) fs"
    and "path_components path = [name]" and "name_ok name"
  defines "taken \<equiv> name \<in> entry_name ` set (fs_root fs)" and "bad_flags \<equiv> (ucast fl :: u8) AND NOT 3 \<noteq> 0"
    and "kind \<equiv> file_type_from_dirflags (ucast fl)"
  shows "sat (fs_create pd path fl (w, fs))
    (\<lambda>_ s'. \<not> taken \<and> \<not> bad_flags \<and> good (fst s') \<and>
       fs_ok (part_sectors pd) (sector_at pd dbyte (fst s')) (snd s') \<and> fs_superblock (snd s') = fs_superblock fs \<and>
       (\<exists>e. fs_root (snd s') = fs_root fs @ [e] \<and> entry_name e = name \<and>
          (case kind of
             FT_File \<Rightarrow> \<exists>x. e = DFile x | FT_Directory \<Rightarrow> \<exists>n l. e = DDirectory n l | FT_Symlink \<Rightarrow> \<exists>n l. e = DSymLink n l)))
    (\<lambda>e s'. if taken then e = FileExists \<and> s' = (w, fs)
       else if bad_flags then e = BadFlags \<and> s' = (w, fs)
       else e = NoSpace \<and> (8 \<le> length (fs_root fs) \<or> kind \<noteq> FT_Symlink \<and> no_room (fs_bitmap fs)))"
proof -
  have rp: "\<not> path_is_root path" "path_name path = name" using root_path [OF assms(5)] by simp_all
  consider (taken) taken | (flags) "\<not> taken" bad_flags | (free) "\<not> taken" "\<not> bad_flags" by blast
  then show ?thesis
  proof cases
    case taken
    then have "find_child_idx (root_dir fs) name \<noteq> None" by (simp add: find_child_none root_dir_def taken_def)
    with rp taken show ?thesis by (simp add: fs_create_def get_parent_root [OF assms(5)])
  next
    case flags
    then have "find_child_idx (root_dir fs) name = None" by (simp add: find_child_none root_dir_def taken_def)
    with rp flags show ?thesis by (simp add: fs_create_def get_parent_root [OF assms(5)] bad_flags_def)
  next
    case free
    then have "name \<notin> entry_name ` set (fs_root fs)" "(ucast fl :: u8) AND NOT 3 = 0" by (simp_all add: taken_def bad_flags_def)
    from sector_disk.create_law [OF partition_device.sectors [OF assms(1)] assms(2-6) this] free
    show ?thesis by (auto simp: kind_def elim!: sat_mono)
  qed
qed

theorem create_in_root_witness:
  "\<exists>w fs. lemon_init ram blank = Some (w, Inr fs) \<and>
     sat (fs_create ram [0x2F, 0x61] 0 (w, fs))
       (\<lambda>_ s'. \<exists>x. fs_root (snd s') = [DFile x] \<and> entry_name (DFile x) = [0x61]) (\<lambda>_ _. False) \<and>
     sat (fs_create ram [0x2F, 0x61] 4 (w, fs)) (\<lambda>_ _. False) (\<lambda>e s'. e = BadFlags \<and> s' = (w, fs))"
proof (rule ram_mounted)
  fix fs w assume m: "lemon_init ram blank = Some (w, Inr fs)"
    "fs_ok (part_sectors ram) (sector_at ram (\<lambda>w. w) w) fs" "fs_root fs = []" "\<not> no_room (fs_bitmap fs)"
  have p: "path_components [0x2F, 0x61] = [[0x61]]" "name_ok [0x61]" by code_simp+
  have "sat (fs_create ram [0x2F, 0x61] 0 (w, fs))
       (\<lambda>_ s'. \<exists>x. fs_root (snd s') = [DFile x] \<and> entry_name (DFile x) = [0x61]) (\<lambda>_ _. False)"
    by (rule sat_mono [OF create_in_root [OF ram_ok TrueI _ m(2) p]])
      (use m(3,4) in \<open>auto simp: file_type_from_dirflags_def\<close>)
  moreover have "sat (fs_create ram [0x2F, 0x61] 4 (w, fs)) (\<lambda>_ _. False) (\<lambda>e s'. e = BadFlags \<and> s' = (w, fs))"
    by (rule sat_mono [OF create_in_root [OF ram_ok TrueI _ m(2) p]]) (use m(3) in auto)
  ultimately show ?thesis using m(1) by blast
qed

end
