(* ===== verification/Sector_Props.thy ===== *)
theory Sector_Props
  imports Ram_Disk
begin

text \<open>
  The properties of the sector device of a partition: it refines an array of 512-byte sectors, and
  neither a request out of range nor a failure lets it touch another partition.
\<close>

text \<open>C18. A partition is an array of sectors, whatever the native block size: \<^const>\<open>write_sectors\<close>
  replaces exactly the sectors asked for by the bytes of the page, keeping the rest of the native
  blocks it shares, and \<^const>\<open>read_sectors\<close> returns what the array holds and changes nothing. No
  byte outside the partition changes, and an operation fails only where memory or the drive may.\<close>

theorem sectors_refine_array:
  assumes "partition_device pd dbyte good fails" and "good w" and "unat s + unat c \<le> part_sectors pd"
    and "0 < unat c" and "page_ok src" and "unat c * 512 \<le> length (pp_data src)"
  shows "sat (read_sectors pd s c w)
      (\<lambda>p w'. sector_at pd dbyte w' = sector_at pd dbyte w \<and> dbyte w' = dbyte w \<and>
         take (unat c * 512) (pp_data p) = concat (map (sector_at pd dbyte w) [unat s..<unat s + unat c]))
      (\<lambda>_ w'. fails (unat c) \<and> dbyte w' = dbyte w) \<and>
    sat (write_sectors pd s c src w)
      (\<lambda>_ w'. good w' \<and> part_frame pd dbyte w w' \<and>
         sector_at pd dbyte w' = (\<lambda>i. if unat s \<le> i \<and> i < unat s + unat c
           then take 512 (drop ((i - unat s) * 512) (pp_data src)) else sector_at pd dbyte w i))
      (\<lambda>_ w'. fails (unat c) \<and> good w' \<and> part_frame pd dbyte w w')"
proof
  note S = partition_device.sectors [OF assms(1)]
  show "sat (read_sectors pd s c w)
      (\<lambda>p w'. sector_at pd dbyte w' = sector_at pd dbyte w \<and> dbyte w' = dbyte w \<and>
         take (unat c * 512) (pp_data p) = concat (map (sector_at pd dbyte w) [unat s..<unat s + unat c]))
      (\<lambda>_ w'. fails (unat c) \<and> dbyte w' = dbyte w)"
  proof (rule sat_mono [OF partition_device.read_sectors_law [OF assms(1,2,4,3)]], goal_cases)
    case (1 p w')
    define xs where "xs = map (part_byte pd dbyte w) [unat s * 512..<(unat s + unat c) * 512]"
    have "length xs = unat c * 512" by (simp add: xs_def algebra_simps)
    moreover have "sector_at pd dbyte w' = sector_at pd dbyte w"
      using 1 by (simp add: sector_at_def part_byte_def fun_eq_iff)
    moreover have "pp_data p = xs @ replicate (unat (pp_count p) * 4096 - unat c * 512) 0" using 1 unfolding xs_def by blast
    then have "take (length xs) (pp_data p) = xs" by simp
    ultimately show ?case using 1 unfolding concat_sectors xs_def [symmetric] by simp
  qed simp
  obtain r where r: "write_sectors pd s c src w = Some r"
    using sector_disk.sec_write [OF S assms(2,3,5,6)] by (auto simp: sat_def split: option.splits)
  show "sat (write_sectors pd s c src w)
      (\<lambda>_ w'. good w' \<and> part_frame pd dbyte w w' \<and>
         sector_at pd dbyte w' = (\<lambda>i. if unat s \<le> i \<and> i < unat s + unat c
           then take 512 (drop ((i - unat s) * 512) (pp_data src)) else sector_at pd dbyte w i))
      (\<lambda>_ w'. fails (unat c) \<and> good w' \<and> part_frame pd dbyte w w')"
    using sector_disk.sec_write [OF S assms(2,3,5,6)] partition_device.write_sectors_law [OF assms(1-3,5,6)]
    unfolding r by (cases r; cases "snd r") auto
qed

lemma take_drop_replicate: "i + n \<le> m \<Longrightarrow> take n (drop i (replicate m x)) = replicate n x"
  by simp

theorem sectors_refine_array_witness:
  "sat (write_sectors ram 3 2 \<lparr>pp_count = 1, pp_data = replicate 4096 7\<rparr> (\<lambda>_. 0))
     (\<lambda>_ w'. sector_at ram (\<lambda>w. w) w' 4 = replicate 512 7 \<and> sector_at ram (\<lambda>w. w) w' 5 = sector_at ram (\<lambda>w. w) (\<lambda>_. 0) 5)
     (\<lambda>_ _. ram_fails 2)"
proof -
  let ?p = "\<lparr>pp_count = 1, pp_data = replicate 4096 (7 :: u8)\<rparr>"
  have p: "page_ok ?p" by (simp add: page_ok_def)
  have c: "unat (3 :: u64) + unat (2 :: u64) \<le> part_sectors ram" "0 < unat (2 :: u64)" "unat (2 :: u64) * 512 \<le> length (pp_data ?p)"
    by (simp_all add: ram_sectors)
  show ?thesis
    by (rule sat_mono [OF conjunct2 [OF sectors_refine_array [OF ram_ok TrueI c(1,2) p c(3)]]])
      (simp_all add: take_drop_replicate)
qed

text \<open>C19. No request escapes its partition: when the blocks asked for, counted without wrap-around, do
  not all lie inside it, \<open>read\<close>, \<open>write\<close> and \<open>zero\<close> of the drive return \<open>BlockOutOfBounds\<close> and do
  nothing; otherwise no sum wraps and the blocks passed to the driver are those of the partition.\<close>

theorem drive_bounds:
  "if unat (p_size_blocks p) < unat offset + unat cnt
   then drive_read d p offset cnt w = err out_of_bounds w \<and> drive_write d p offset cnt src w = err out_of_bounds w \<and>
     drive_zero d p offset cnt w = err out_of_bounds w
   else unat (p_start p) + unat (p_size_blocks p) < 2 ^ 64 \<longrightarrow>
     (\<exists>b. unat b = unat (p_start p) + unat offset \<and> unat b + unat cnt \<le> unat (p_start p) + unat (p_size_blocks p) \<and>
        drive_read d p offset cnt w = read_smart (d_inner d) b cnt w \<and>
        drive_zero d p offset cnt w = zero_blocks (d_inner d) b cnt w \<and>
        drive_write d p offset cnt src w =
          (if pp_count src * PAGE_SIZE < cnt * sd_block_size (d_inner d) then err command_failed w
           else map_err kernel_error_from_storage (sd_write_blocks (d_inner d) b cnt src w)))"
proof (cases "unat (p_size_blocks p) < unat offset + unat cnt")
  case True
  then have "checked_add offset cnt = None \<or> p_size_blocks p < offset + cnt"
    by (auto simp: checked_add_def word_less_nat_alt unat_add_nowrap)
  with True show ?thesis by (auto simp: drive_read_def drive_write_def drive_zero_def)
next
  case False
  then have s: "unat offset + unat cnt < 2 ^ 64" using unat_bound [of "p_size_blocks p"] by simp
  then have c: "checked_add offset cnt = Some (offset + cnt)" "\<not> p_size_blocks p < offset + cnt"
    using False by (simp_all add: checked_add_def word_less_nat_alt unat_add_nowrap)
  have "\<exists>b. unat b = unat (p_start p) + unat offset \<and> checked_add (p_start p) offset = Some b"
    if "unat (p_start p) + unat (p_size_blocks p) < 2 ^ 64"
    using that False by (intro exI [of _ "p_start p + offset"]) (simp add: checked_add_def unat_add_nowrap)
  then obtain b where "unat (p_start p) + unat (p_size_blocks p) < 2 ^ 64 \<longrightarrow>
      unat b = unat (p_start p) + unat offset \<and> checked_add (p_start p) offset = Some b" by blast
  with False c show ?thesis
    by (auto simp: drive_read_def drive_write_def drive_zero_def ok_or_def intro!: exI [of _ b])
qed

theorem drive_bounds_witness:
  "drive_read \<lparr>d_inner = ram_drive 5120 1024, d_partitions = []\<rparr> (pd_partition ram) 0xFFFFFFFFFFFFFFFF 2 (\<lambda>_. 0) =
     err out_of_bounds (\<lambda>_. 0) \<and>
   drive_read \<lparr>d_inner = ram_drive 5120 1024, d_partitions = []\<rparr> (pd_partition ram) 4607 1 (\<lambda>_. 0) =
     read_smart (ram_drive 5120 1024) 4863 1 (\<lambda>_. 0)"
proof -
  have p: "p_size_blocks (pd_partition ram) = 4608" "p_start (pd_partition ram) = 256" by (simp_all add: ram_part_def)
  let ?d = "\<lparr>d_inner = ram_drive 5120 1024, d_partitions = []\<rparr>"
  note b = drive_bounds [of "pd_partition ram" _ _ ?d "\<lambda>_. 0", unfolded p]
  have "b = 4863" if "unat b = 4863" for b :: u64 using that by (simp add: word_unat_eq_iff)
  then show ?thesis using b [of "0xFFFFFFFFFFFFFFFF" 2] b [of 4607 1] by auto
qed

end
