(* ===== verification/Gpt.thy ===== *)
theory Gpt
  imports Storage Crc
begin

text \<open>
  The GUID partition table (\<^verbatim>\<open>drivers/storage/gpt\<close>): the packed structures on the disk as decoders
  of byte lists, the validation of the primary and the backup header, and the loop over the entries.
  The warning about the type of the protective partition is output only and left out.
\<close>

section \<open>Structures\<close>

definition be_bytes :: "nat \<Rightarrow> 'a::len word \<Rightarrow> bytes" where
  "be_bytes n w = rev (le_bytes n w)"

definition guid_new :: "u32 \<Rightarrow> u16 \<Rightarrow> u16 \<Rightarrow> u16 \<Rightarrow> u64 \<Rightarrow> guid" where
  "guid_new time_low time_mid time_high_ver clock_seq node =
     \<lparr>g_time_low = time_low, g_time_mid = time_mid, g_time_high_ver = time_high_ver,
      g_clock_seq = be_bytes 2 clock_seq, g_node = drop 2 (be_bytes 8 node)\<rparr>"

definition GUID_ZERO :: guid where
  "GUID_ZERO = guid_new 0 0 0 0 0"

definition GPT_SIG :: bytes where
  "GPT_SIG = [0x45, 0x46, 0x49, 0x20, 0x50, 0x41, 0x52, 0x54]"

definition EFI_GUID :: guid where
  "EFI_GUID = guid_new 0xC12A7328 0xF81F 0x11D2 0xBA4B 0xA0C93EC93B"

definition LEMONFS_GUID :: guid where
  "LEMONFS_GUID = guid_new 0x8CBD0D4E 0xFE62 0x49CC 0xA982 0xFBD6F69ED888"

definition partition_type_guid :: "partition_type \<Rightarrow> guid" where
  "partition_type_guid t =
     (case t of Efi \<Rightarrow> EFI_GUID | LemonFS \<Rightarrow> LEMONFS_GUID | Unknown guid \<Rightarrow> guid)"

definition partition_type_from_guid :: "guid \<Rightarrow> partition_type" where
  "partition_type_from_guid guid =
     (if guid = LEMONFS_GUID then LemonFS else if guid = EFI_GUID then Efi else Unknown guid)"

definition field :: "nat \<Rightarrow> nat \<Rightarrow> bytes \<Rightarrow> 'a::len word" where
  "field off n bs = le_word (take n (drop off bs))"

definition guid_decode :: "bytes \<Rightarrow> guid" where
  "guid_decode bs =
     \<lparr>g_time_low = field 0 4 bs, g_time_mid = field 4 2 bs, g_time_high_ver = field 6 2 bs,
      g_clock_seq = take 2 (drop 8 bs), g_node = take 6 (drop 10 bs)\<rparr>"

record mbr_partition =
  mp_boot_indicator :: u8
  mp_start_chs :: bytes
  mp_type :: u8
  mp_end_chs :: bytes
  mp_start_block :: u32
  mp_size :: u32

record protective_mbr =
  mbr_boot_code_area :: bytes
  mbr_disk_sig :: u32
  mbr_reserved :: u16
  mbr_protective_partition :: mbr_partition
  mbr_partitions :: "mbr_partition list"
  mbr_boot_signature :: u16

definition mbr_partition_decode :: "bytes \<Rightarrow> mbr_partition" where
  "mbr_partition_decode bs =
     \<lparr>mp_boot_indicator = field 0 1 bs, mp_start_chs = take 3 (drop 1 bs), mp_type = field 4 1 bs,
      mp_end_chs = take 3 (drop 5 bs), mp_start_block = field 8 4 bs, mp_size = field 12 4 bs\<rparr>"

definition mbr_decode :: "bytes \<Rightarrow> protective_mbr" where
  "mbr_decode bs =
     \<lparr>mbr_boot_code_area = take 440 bs, mbr_disk_sig = field 440 4 bs, mbr_reserved = field 444 2 bs,
      mbr_protective_partition = mbr_partition_decode (take 16 (drop 446 bs)),
      mbr_partitions = map (\<lambda>i. mbr_partition_decode (take 16 (drop (462 + 16 * i) bs))) [0..<3],
      mbr_boot_signature = field 510 2 bs\<rparr>"

record gpt_header =
  h_signature :: bytes
  h_revision :: u32
  h_size :: u32
  h_header_crc :: u32
  h_reserved :: u32
  h_curr_block :: u64
  h_backup_block :: u64
  h_first_usable :: u64
  h_last_usable :: u64
  h_disk_guid :: guid
  h_entry_start :: u64
  h_entry_count :: u32
  h_entry_byte_count :: u32
  h_entry_array_crc :: u32

definition gpt_header_decode :: "bytes \<Rightarrow> gpt_header" where
  "gpt_header_decode bs =
     \<lparr>h_signature = take 8 bs, h_revision = field 8 4 bs, h_size = field 12 4 bs,
      h_header_crc = field 16 4 bs, h_reserved = field 20 4 bs, h_curr_block = field 24 8 bs,
      h_backup_block = field 32 8 bs, h_first_usable = field 40 8 bs, h_last_usable = field 48 8 bs,
      h_disk_guid = guid_decode (take 16 (drop 56 bs)), h_entry_start = field 72 8 bs,
      h_entry_count = field 80 4 bs, h_entry_byte_count = field 84 4 bs,
      h_entry_array_crc = field 88 4 bs\<rparr>"

record partition_entry =
  pe_type_guid :: guid
  pe_partition_guid :: guid
  pe_start_block :: u64
  pe_end_block :: u64
  pe_flags :: u64
  pe_name :: "u16 list"

definition partition_entry_decode :: "bytes \<Rightarrow> partition_entry" where
  "partition_entry_decode bs =
     \<lparr>pe_type_guid = guid_decode (take 16 bs), pe_partition_guid = guid_decode (take 16 (drop 16 bs)),
      pe_start_block = field 32 8 bs, pe_end_block = field 40 8 bs, pe_flags = field 48 8 bs,
      pe_name = map (\<lambda>i. field (56 + 2 * i) 2 bs) [0..<36]\<rparr>"

section \<open>Names\<close>

text \<open>\<^verbatim>\<open>String::from_utf16_lossy\<close>: surrogates without a partner become U+FFFD. Strings are their
  UTF-8 bytes.\<close>

fun decode_utf16_lossy :: "u16 list \<Rightarrow> nat list" where
  "decode_utf16_lossy [] = []"
| "decode_utf16_lossy (u # us) =
     (if u < 0xD800 \<or> 0xDFFF < u then unat u # decode_utf16_lossy us
      else if 0xDC00 \<le> u then 0xFFFD # decode_utf16_lossy us
      else case us of
             [] \<Rightarrow> [0xFFFD]
           | v # vs \<Rightarrow>
               if v < 0xDC00 \<or> 0xDFFF < v then 0xFFFD # decode_utf16_lossy us
               else (0x10000 + (unat u - 0xD800) * 0x400 + (unat v - 0xDC00)) # decode_utf16_lossy vs)"

definition encode_utf8 :: "nat \<Rightarrow> bytes" where
  "encode_utf8 c =
     (if c < 0x80 then [word_of_nat c]
      else if c < 0x800 then [word_of_nat (0xC0 + c div 0x40), word_of_nat (0x80 + c mod 0x40)]
      else if c < 0x10000 then
        [word_of_nat (0xE0 + c div 0x1000), word_of_nat (0x80 + c div 0x40 mod 0x40), word_of_nat (0x80 + c mod 0x40)]
      else [word_of_nat (0xF0 + c div 0x40000), word_of_nat (0x80 + c div 0x1000 mod 0x40),
            word_of_nat (0x80 + c div 0x40 mod 0x40), word_of_nat (0x80 + c mod 0x40)])"

definition from_utf16_lossy :: "u16 list \<Rightarrow> bytes" where
  "from_utf16_lossy us = concat (map encode_utf8 (decode_utf16_lossy us))"

definition entry_label :: "partition_entry \<Rightarrow> bytes" where
  "entry_label entry = from_utf16_lossy (takeWhile (\<lambda>x. x \<noteq> 0) (pe_name entry))"

section \<open>Headers\<close>

definition header_fields_ok :: "'w storage_drive \<Rightarrow> gpt_header \<Rightarrow> bool \<Rightarrow> bool" where
  "header_fields_ok drive h is_backup =
     (if h_entry_count h < 128 then False
      else if h_entry_byte_count h < 128 then False
      else case checked_mul (ucast (h_entry_count h)) (ucast (h_entry_byte_count h) :: u64) of
             None \<Rightarrow> False
           | Some total_bytes \<Rightarrow>
               let alternate = if is_backup then 1 else sd_block_count drive - 1
               in if h_last_usable h < h_first_usable h \<or> sd_block_count drive < h_last_usable h \<or>
                     h_entry_start h \<le> 1 then False
                  else if h_backup_block h \<noteq> alternate then False
                  else
                    let array_sectors = div_ceil total_bytes (sd_block_size drive)
                    in case checked_add (h_entry_start h) array_sectors of
                         None \<Rightarrow> True \<comment> \<open>\<^verbatim>\<open>None\<close> is not above \<^verbatim>\<open>Some\<close> in the order of \<^verbatim>\<open>Option\<close>\<close>
                       | Some x \<Rightarrow> \<not> h_first_usable h < x)"

text \<open>The check clears the checksum in the bytes \<open>data\<close> of the pages the header was read to. It is
  \<^term>\<open>None\<close> where the slice of the header leaves these pages.\<close>

definition check_gpt_header ::
  "'w storage_drive \<Rightarrow> gpt_header \<Rightarrow> bytes \<Rightarrow> bool \<Rightarrow> (bytes \<times> bool) option" where
  "check_gpt_header drive h data is_backup =
     (if h_signature h \<noteq> GPT_SIG \<or> h_size h < 92 \<or> sd_block_size drive < ucast (h_size h)
      then Some (data, False)
      else
        let expected_block = if is_backup then sd_block_count drive - 1 else 1
        in if h_curr_block h \<noteq> expected_block then Some (data, False)
           else if length data < unat (h_size h) then None
           else
             let data = splice 16 (replicate 4 0) data;
                 crc = crc32 (take (unat (h_size h)) data)
             in if crc \<noteq> h_header_crc h then Some (data, False)
                else Some (data, header_fields_ok drive h is_backup))"

definition read_header :: "phys_page \<Rightarrow> 'w \<Rightarrow> ('w, gpt_error, gpt_header) res" where
  "read_header pages w =
     ques (ok_or (phys_page_read 92 1 pages 0) GPT_IOError w) (\<lambda>bs w. ok (gpt_header_decode bs) w)"

text \<open>The header in use and whether it is the backup, up to the computation of \<open>entry_count\<close>.\<close>

definition find_header :: "'w storage_drive \<Rightarrow> 'w \<Rightarrow> ('w, gpt_error, gpt_header \<times> bool) res" where
  "find_header drive w =
     ques (map_err (\<lambda>_. GPT_IOError) (read_smart drive 1 1 w)) (\<lambda>pages w.
     ques (read_header pages w) (\<lambda>gpt_header w.
     ques (unwrap (check_gpt_header drive gpt_header (pp_data pages) False) w) (\<lambda>(data, valid) w.
     if valid then ok (gpt_header, False) w
     else
       let backup_lba = sd_block_count drive - 1
       in ques (map_err (\<lambda>_. GPT_IOError)
                  (sd_read_blocks drive backup_lba 1 (pages\<lparr>pp_data := data\<rparr>) w)) (\<lambda>pages w.
          ques (read_header pages w) (\<lambda>gpt_header w.
          ques (unwrap (check_gpt_header drive gpt_header (pp_data pages) True) w) (\<lambda>(_, valid) w.
          if valid then ok (gpt_header, True) w else err BadHeader w))))))"

section \<open>Entries\<close>

definition entry_total :: "gpt_header \<Rightarrow> u64" where
  "entry_total h = min (ucast (h_entry_count h) * ucast (h_entry_byte_count h)) (1024 * 1024 * 16)"

definition read_entry_array ::
  "'w storage_drive \<Rightarrow> gpt_header \<Rightarrow> 'w \<Rightarrow> ('w, gpt_error, phys_page \<times> bool) res" where
  "read_entry_array drive h w =
     (let total_bytes = entry_total h;
          array_block_count = div_ceil total_bytes (sd_block_size drive)
      in ques (map_err (\<lambda>_. GPT_IOError) (read_smart drive (h_entry_start h) array_block_count w))
           (\<lambda>entry_blocks w.
         if length (pp_data entry_blocks) < unat total_bytes then None
         else ok (entry_blocks, crc32 (take (unat total_bytes) (pp_data entry_blocks)) = h_entry_array_crc h) w))"

text \<open>The header and the entry array in use, after the fallback to the backup array.\<close>

definition find_entries ::
  "'w storage_drive \<Rightarrow> gpt_header \<Rightarrow> bool \<Rightarrow> 'w \<Rightarrow> ('w, gpt_error, gpt_header \<times> phys_page) res" where
  "find_entries drive gpt_header is_backup w =
     ques (read_entry_array drive gpt_header w) (\<lambda>(entry_blocks, intact) w.
     if intact then ok (gpt_header, entry_blocks) w
     else
       ques (map_err (\<lambda>_. GPT_IOError) (read_smart drive (h_backup_block gpt_header) 1 w))
         (\<lambda>backup_header_page w.
       ques (if \<not> is_backup
             then ques (read_header backup_header_page w) (\<lambda>gpt_header w.
                  ques (unwrap (check_gpt_header drive gpt_header (pp_data backup_header_page) True) w)
                    (\<lambda>(_, valid) w. if valid then ok gpt_header w else err BadHeader w))
             else ok gpt_header w) (\<lambda>gpt_header w.
       ques (read_entry_array drive gpt_header w) (\<lambda>(entry_blocks, intact) w.
       if intact then ok (gpt_header, entry_blocks) w else err EntryCRCFailed w))))"

definition entry_skipped :: "gpt_header \<Rightarrow> partition list \<Rightarrow> partition_entry \<Rightarrow> bool" where
  "entry_skipped h res entry \<longleftrightarrow>
     (res \<noteq> [] \<and> pe_start_block entry < p_start (last res) + p_size_blocks (last res)) \<or>
     pe_start_block entry < h_first_usable h \<or> h_last_usable h < pe_end_block entry \<or>
     pe_end_block entry < pe_start_block entry"

definition entry_partition :: "partition_entry \<Rightarrow> partition" where
  "entry_partition entry =
     \<lparr>p_start = pe_start_block entry, p_size_blocks = pe_end_block entry - pe_start_block entry + 1,
      p_name = entry_label entry, p_type = partition_type_from_guid (pe_type_guid entry),
      p_guid = pe_partition_guid entry\<rparr>"

definition entry_at :: "phys_page \<Rightarrow> usize \<Rightarrow> partition_entry option" where
  "entry_at entry_blocks offset = map_option partition_entry_decode (phys_page_read 128 1 entry_blocks offset)"

text \<open>The \<^verbatim>\<open>while let\<close> loop. A skipped entry is a \<^verbatim>\<open>continue\<close> that leaves \<open>offset\<close> as it is.\<close>

partial_function (option) gpt_entries ::
  "gpt_header \<Rightarrow> phys_page \<Rightarrow> usize \<Rightarrow> partition list \<Rightarrow> partition list option" where
  "gpt_entries h entry_blocks offset res =
     (case entry_at entry_blocks offset of
        None \<Rightarrow> Some res
      | Some entry \<Rightarrow>
          if pe_type_guid entry = GUID_ZERO then Some res
          else if entry_skipped h res entry then gpt_entries h entry_blocks offset res
          else gpt_entries h entry_blocks (offset + ucast (h_entry_byte_count h)) (res @ [entry_partition entry]))"

definition gpt_init :: "'w storage_drive \<Rightarrow> 'w \<Rightarrow> ('w, gpt_error, partition list) res" where
  "gpt_init drive w =
     ques (map_err (\<lambda>_. GPT_IOError) (read_smart drive 0 1 w)) (\<lambda>mbr_block w.
     ques (ok_or (phys_page_read 512 1 mbr_block 0) GPT_IOError w) (\<lambda>bs w.
     if mbr_boot_signature (mbr_decode bs) \<noteq> 0xAA55 then err BadMBR w
     else
       ques (find_header drive w) (\<lambda>(gpt_header, is_backup) w.
       ques (find_entries drive gpt_header is_backup w) (\<lambda>(gpt_header, entry_blocks) w.
       unwrap (gpt_entries gpt_header entry_blocks 0 []) w))))"

text \<open>The part of \<^verbatim>\<open>storage::init\<close> that reads the partition tables of the drives found.\<close>

definition storage_init ::
  "'w storage_drive list \<Rightarrow> 'w \<Rightarrow> ('w, kernel_error, 'w drive list) res" where
  "storage_init ahci_devices w =
     for_each (\<lambda>device drives w.
         ques (map_err kernel_error_from_gpt (gpt_init device w)) (\<lambda>partitions w.
         ok (drives @ [\<lparr>d_inner = device, d_partitions = partitions\<rparr>]) w))
       ahci_devices [] w"

end
