(* ===== verification/Gpt_Props.thy ===== *)
theory Gpt_Props
  imports Gpt Ram_Disk
begin

text \<open>
  The properties of the partition table: which partitions the kernel accepts, when the loop over the
  entries returns and what it returns.
\<close>

definition partition_end :: "partition \<Rightarrow> nat" where
  "partition_end p = unat (p_start p) + unat (p_size_blocks p)"

text \<open>Partitions within the blocks from \<open>lo\<close> up to \<open>hi\<close>, in order and disjoint.\<close>

definition partitions_ok :: "nat \<Rightarrow> nat \<Rightarrow> partition list \<Rightarrow> bool" where
  "partitions_ok lo hi ps \<longleftrightarrow>
     (\<forall>p\<in>set ps. lo \<le> unat (p_start p) \<and> p_size_blocks p \<noteq> 0 \<and> partition_end p \<le> hi) \<and>
     sorted_wrt (\<lambda>p q. partition_end p \<le> unat (p_start q)) ps"

lemma partitions_ok_snoc:
  assumes ok: "partitions_ok lo hi res" and hi: "hi < 2 ^ 64"
    and p: "lo \<le> unat (p_start p)" "p_size_blocks p \<noteq> 0" "partition_end p \<le> hi"
    and l: "res \<noteq> [] \<Longrightarrow> p_start (last res) + p_size_blocks (last res) \<le> p_start p"
  shows "partitions_ok lo hi (res @ [p])"
proof -
  have "partition_end q \<le> unat (p_start p)" if q: "q \<in> set res" for q
  proof -
    have ne: "res \<noteq> []" using q by auto
    then have li: "last res \<in> set res" by simp
    have "partition_end (last res) \<le> hi" using ok li by (simp add: partitions_ok_def)
    then have w: "unat (p_start (last res) + p_size_blocks (last res)) = partition_end (last res)"
      using hi unfolding partition_end_def by (subst unat_add_nowrap) auto
    have "q = last res \<or> partition_end q \<le> unat (p_start (last res))"
      using ok q by (cases res rule: rev_cases) (auto simp: partitions_ok_def sorted_wrt_append)
    then have "partition_end q \<le> partition_end (last res)" by (auto simp: partition_end_def)
    then show ?thesis using l [OF ne] w by (simp add: word_le_nat_alt)
  qed
  with ok p show ?thesis by (auto simp: partitions_ok_def sorted_wrt_append)
qed

lemma entry_partition_fits:
  assumes s: "\<not> entry_skipped h res e" and l: "unat (h_last_usable h) < 2 ^ 64 - 1"
  shows "unat (h_first_usable h) \<le> unat (p_start (entry_partition e))" "p_size_blocks (entry_partition e) \<noteq> 0"
    "partition_end (entry_partition e) \<le> unat (h_last_usable h) + 1"
    "res \<noteq> [] \<Longrightarrow> p_start (last res) + p_size_blocks (last res) \<le> p_start (entry_partition e)"
proof -
  have e: "unat (pe_start_block e) \<le> unat (pe_end_block e)" "unat (pe_end_block e) \<le> unat (h_last_usable h)"
    using s by (auto simp: entry_skipped_def word_less_nat_alt)
  have "unat (pe_end_block e - pe_start_block e) = unat (pe_end_block e) - unat (pe_start_block e)"
    using e by (simp add: unat_sub_nowrap)
  then have "unat (p_size_blocks (entry_partition e)) = unat (pe_end_block e) - unat (pe_start_block e) + 1"
    using e l unfolding entry_partition_def partition.simps by (intro unat_addI) auto
  then show "p_size_blocks (entry_partition e) \<noteq> 0" "partition_end (entry_partition e) \<le> unat (h_last_usable h) + 1"
    using e by (auto simp: partition_end_def entry_partition_def)
  show "unat (h_first_usable h) \<le> unat (p_start (entry_partition e))"
    "res \<noteq> [] \<Longrightarrow> p_start (last res) + p_size_blocks (last res) \<le> p_start (entry_partition e)"
    using s by (auto simp: entry_skipped_def entry_partition_def word_less_nat_alt word_le_nat_alt)
qed

lemma gpt_entries_sound:
  assumes "gpt_entries h pg off res = Some ps"
    and "partitions_ok (unat (h_first_usable h)) (unat (h_last_usable h) + 1) res" and "unat (h_last_usable h) < 2 ^ 64 - 1"
  shows "partitions_ok (unat (h_first_usable h)) (unat (h_last_usable h) + 1) ps"
proof -
  have "partitions_ok (unat (h_first_usable h)) (unat (h_last_usable h) + 1) res \<longrightarrow>
      unat (h_last_usable h) < 2 ^ 64 - 1 \<longrightarrow> partitions_ok (unat (h_first_usable h)) (unat (h_last_usable h) + 1) ps"
  proof (rule gpt_entries.raw_induct [where P = "\<lambda>h pg off res ps.
      partitions_ok (unat (h_first_usable h)) (unat (h_last_usable h) + 1) res \<longrightarrow>
      unat (h_last_usable h) < 2 ^ 64 - 1 \<longrightarrow> partitions_ok (unat (h_first_usable h)) (unat (h_last_usable h) + 1) ps",
      OF _ assms(1)])
    fix f h pg off res ps
    assume IH: "\<And>h pg off res ps. f h pg off res = Some ps \<Longrightarrow>
        partitions_ok (unat (h_first_usable h)) (unat (h_last_usable h) + 1) res \<longrightarrow>
        unat (h_last_usable h) < 2 ^ 64 - 1 \<longrightarrow> partitions_ok (unat (h_first_usable h)) (unat (h_last_usable h) + 1) ps"
      and r: "(case entry_at pg off of None \<Rightarrow> Some res
        | Some entry \<Rightarrow> if pe_type_guid entry = GUID_ZERO then Some res
            else if entry_skipped h res entry then f h pg off res
            else f h pg (off + ucast (h_entry_byte_count h)) (res @ [entry_partition entry])) = Some ps"
    show "partitions_ok (unat (h_first_usable h)) (unat (h_last_usable h) + 1) res \<longrightarrow>
        unat (h_last_usable h) < 2 ^ 64 - 1 \<longrightarrow> partitions_ok (unat (h_first_usable h)) (unat (h_last_usable h) + 1) ps"
    proof (intro impI)
      assume ok: "partitions_ok (unat (h_first_usable h)) (unat (h_last_usable h) + 1) res"
        and l: "unat (h_last_usable h) < 2 ^ 64 - 1"
      have "partitions_ok (unat (h_first_usable h)) (unat (h_last_usable h) + 1) (res @ [entry_partition e])"
        if "\<not> entry_skipped h res e" for e
        by (rule partitions_ok_snoc [OF ok]) (use l entry_partition_fits [OF that l] in auto)
      then show "partitions_ok (unat (h_first_usable h)) (unat (h_last_usable h) + 1) ps"
        using r ok l IH by (auto split: option.splits if_splits)
    qed
  qed
  with assms(2,3) show ?thesis by blast
qed

lemma checked_header:
  "check_gpt_header d h data b = Some (data', True) \<Longrightarrow> unat (h_last_usable h) \<le> unat (sd_block_count d)"
  by (auto simp: check_gpt_header_def header_fields_ok_def Let_def word_less_nat_alt split: if_splits option.splits)

lemma found_header:
  "find_header d w = Some (w', Inr (h, b)) \<Longrightarrow> unat (h_last_usable h) \<le> unat (sd_block_count d)"
  by (auto simp: find_header_def ques_def unwrap_def ok_def err_def Let_def
    split: option.splits sum.splits if_splits dest!: checked_header)

lemma found_entries:
  "find_entries d h b w = Some (w', Inr (h', pg)) \<Longrightarrow> unat (h_last_usable h) \<le> unat (sd_block_count d) \<Longrightarrow>
     unat (h_last_usable h') \<le> unat (sd_block_count d)"
  by (auto simp: find_entries_def ques_def unwrap_def ok_def err_def Let_def
    split: option.splits sum.splits if_splits dest!: checked_header)

lemma partitions_ok_mono: "partitions_ok lo hi ps \<Longrightarrow> hi \<le> hi' \<Longrightarrow> partitions_ok 0 hi' ps"
  by (auto simp: partitions_ok_def)

text \<open>C20. Whatever is on the disk, the partitions the kernel accepts are not empty, disjoint and in the
  order of their blocks. They end at the block count of the drive plus one at most: the check of the
  last usable block admits one block too many.\<close>

theorem gpt_partitions_disjoint:
  assumes "unat (sd_block_count d) < 2 ^ 64 - 1"
  shows "case gpt_init d w of
      Some (w', Inr ps) \<Rightarrow> partitions_ok 0 (unat (sd_block_count d) + 1) ps
    | _ \<Rightarrow> True"
proof -
  have ok: "partitions_ok 0 (unat (sd_block_count d) + 1) ps"
    if "unat (h_last_usable h) \<le> unat (sd_block_count d)" "gpt_entries h pg 0 [] = Some ps" for h pg ps
  proof (rule partitions_ok_mono [OF gpt_entries_sound [OF that(2)]])
    show "partitions_ok (unat (h_first_usable h)) (unat (h_last_usable h) + 1) []" by (simp add: partitions_ok_def)
  qed (use that(1) assms in auto)
  have "partitions_ok 0 (unat (sd_block_count d) + 1) ps" if i: "gpt_init d w = Some (w', Inr ps)" for w' ps
  proof -
    obtain w1 h b w2 h' pg where "find_header d w1 = Some (w2, Inr (h, b))"
      "find_entries d h b w2 = Some (w', Inr (h', pg))" "gpt_entries h' pg 0 [] = Some ps"
      using i by (auto simp: gpt_init_def ques_def unwrap_def ok_def err_def split: option.splits sum.splits if_splits)
    then show ?thesis using ok found_entries found_header by metis
  qed
  then show ?thesis by (auto split: option.splits sum.splits)
qed

section \<open>When the loop over the entries returns\<close>

text \<open>The entries \<open>es\<close> stand one after the other from \<open>offset\<close> on, none of them is skipped, and the
  next one is empty or beyond the end of the pages.\<close>

primrec entries_listed :: "gpt_header \<Rightarrow> phys_page \<Rightarrow> usize \<Rightarrow> partition list \<Rightarrow> partition_entry list \<Rightarrow> bool" where
  "entries_listed h pg offset res [] \<longleftrightarrow>
     (case entry_at pg offset of None \<Rightarrow> True | Some e \<Rightarrow> pe_type_guid e = GUID_ZERO)"
| "entries_listed h pg offset res (e # es) \<longleftrightarrow>
     entry_at pg offset = Some e \<and> pe_type_guid e \<noteq> GUID_ZERO \<and> \<not> entry_skipped h res e \<and>
     entries_listed h pg (offset + ucast (h_entry_byte_count h)) (res @ [entry_partition e]) es"

lemma gpt_entries_listed:
  "entries_listed h pg offset res es \<Longrightarrow> gpt_entries h pg offset res = Some (res @ map entry_partition es)"
proof (induction es arbitrary: offset res)
  case Nil
  then show ?case by (subst gpt_entries.simps) (auto split: option.splits)
next
  case (Cons e es)
  then show ?case by (subst gpt_entries.simps) simp
qed

lemma gpt_entries_returns:
  assumes "gpt_entries h pg offset res = Some ps"
  shows "\<exists>es. entries_listed h pg offset res es \<and> ps = res @ map entry_partition es"
proof (rule gpt_entries.raw_induct [where P = "\<lambda>h pg offset res ps.
      \<exists>es. entries_listed h pg offset res es \<and> ps = res @ map entry_partition es", OF _ assms])
  fix f h pg offset res ps
  assume IH: "\<And>h pg offset res ps. f h pg offset res = Some ps \<Longrightarrow>
      \<exists>es. entries_listed h pg offset res es \<and> ps = res @ map entry_partition es"
    and r: "(case entry_at pg offset of None \<Rightarrow> Some res
        | Some entry \<Rightarrow> if pe_type_guid entry = GUID_ZERO then Some res
            else if entry_skipped h res entry then f h pg offset res
            else f h pg (offset + ucast (h_entry_byte_count h)) (res @ [entry_partition entry])) = Some ps"
  have stuck: "\<not> entries_listed h pg offset res es"
    if "entry_at pg offset = Some e" "pe_type_guid e \<noteq> GUID_ZERO" "entry_skipped h res e" for e es
    using that by (cases es) auto
  show "\<exists>es. entries_listed h pg offset res es \<and> ps = res @ map entry_partition es"
  proof (cases "entry_at pg offset")
    case None
    then show ?thesis using r by (intro exI [of _ "[]"]) simp
  next
    case (Some e)
    show ?thesis
    proof (cases "pe_type_guid e = GUID_ZERO \<or> entry_skipped h res e")
      case True
      show ?thesis
      proof (cases "pe_type_guid e = GUID_ZERO")
        case True
        then show ?thesis using r Some by (intro exI [of _ "[]"]) simp
      next
        case False
        then show ?thesis using r Some True stuck IH [of h pg offset res ps] by auto
      qed
    next
      case False
      then obtain es where "entries_listed h pg (offset + ucast (h_entry_byte_count h)) (res @ [entry_partition e]) es"
        "ps = (res @ [entry_partition e]) @ map entry_partition es"
        using r Some IH [of h pg "offset + ucast (h_entry_byte_count h)" "res @ [entry_partition e]" ps] by auto
      then show ?thesis using False Some by (intro exI [of _ "e # es"]) simp
    qed
  qed
qed

text \<open>C21. The loop over the entries of a table returns exactly when no entry before the first empty one
  is to be skipped, and then it returns the partitions of all of them; a single overlapping entry, or
  one outside the usable blocks, makes the kernel loop forever at boot.\<close>

theorem gpt_entries_return_iff:
  "gpt_entries h pg offset res = Some ps \<longleftrightarrow>
     (\<exists>es. entries_listed h pg offset res es \<and> ps = res @ map entry_partition es)"
  using gpt_entries_listed gpt_entries_returns by metis

text \<open>C22. A backup header as the UEFI specification lays it out, with its entry array after the last
  usable block, never passes the check, so the backup table is of no use.\<close>

theorem backup_header_rejected:
  assumes "h_last_usable h < h_entry_start h"
    and "unat (h_entry_start h) + unat (h_entry_count h) * unat (h_entry_byte_count h) < 2 ^ 64"
  shows "check_gpt_header d h data b \<noteq> Some (data', True)"
proof
  assume c: "check_gpt_header d h data b = Some (data', True)"
  let ?t = "ucast (h_entry_count h) * ucast (h_entry_byte_count h) :: u64"
  let ?n = "div_ceil ?t (sd_block_size d)"
  have u: "unat (ucast (h_entry_count h) :: u64) = unat (h_entry_count h)"
    "unat (ucast (h_entry_byte_count h) :: u64) = unat (h_entry_byte_count h)"
    using unat_bound [of "h_entry_count h"] unat_bound [of "h_entry_byte_count h"] by (simp_all add: unat_ucast_mod)
  have t: "checked_mul (ucast (h_entry_count h)) (ucast (h_entry_byte_count h) :: u64) = Some ?t"
    "unat ?t = unat (h_entry_count h) * unat (h_entry_byte_count h)"
    using assms(2) u by (simp_all add: checked_mul_def unat_mult_nowrap)
  have "unat (ucast (h_size h) :: u64) = unat (h_size h)" using unat_bound [of "h_size h"] by (simp add: unat_ucast_mod)
  then have "sd_block_size d \<noteq> 0"
    using c by (auto simp: check_gpt_header_def Let_def word_less_nat_alt split: if_splits)
  then have "unat ?n \<le> unat ?t" using ceil_div_le [of "unat (sd_block_size d)" "unat ?t"] by (simp add: unat_div_ceil unat_gt_0)
  then have "checked_add (h_entry_start h) ?n = Some (h_entry_start h + ?n)"
    "unat (h_entry_start h + ?n) = unat (h_entry_start h) + unat ?n"
    using assms(2) t(2) by (simp_all add: checked_add_def unat_add_nowrap)
  then show False
    using c t(1) assms(1)
    by (auto simp: check_gpt_header_def header_fields_ok_def Let_def word_less_nat_alt split: if_splits)
qed

definition standard_backup :: gpt_header where
  "standard_backup =
     \<lparr>h_signature = GPT_SIG, h_revision = 0x10000, h_size = 92, h_header_crc = 0, h_reserved = 0, h_curr_block = 0x13FF,
      h_backup_block = 1, h_first_usable = 0x22, h_last_usable = 0x13EE, h_disk_guid = GUID_ZERO, h_entry_start = 0x13EF,
      h_entry_count = 128, h_entry_byte_count = 128, h_entry_array_crc = 0\<rparr>"

theorem backup_header_rejected_witness:
  "check_gpt_header (ram_drive 5120 1024) standard_backup (replicate 4096 0) True \<noteq> Some (splice 16 (replicate 4 0) (replicate 4096 0), True)"
  by (rule backup_header_rejected) (simp_all add: standard_backup_def)

section \<open>A disk with a partition table\<close>

text \<open>Two partitions on a drive of 5120 blocks of 1024 bytes, with valid checksums in the primary header.\<close>

definition sample_entry :: "u64 \<Rightarrow> u64 \<Rightarrow> bytes" where
  "sample_entry first_block last_block = replicate 16 1 @ replicate 16 2 @ le_bytes 8 first_block @ le_bytes 8 last_block @
     replicate 8 0 @ [65, 0] @ replicate 70 0"

definition sample_array :: bytes where
  "sample_array = sample_entry 64 100 @ sample_entry 101 200 @ replicate 16128 0"

definition sample_head :: bytes where
  "sample_head = GPT_SIG @ le_bytes 4 (0x10000 :: u32) @ le_bytes 4 (92 :: u32)"

definition sample_tail :: bytes where
  "sample_tail = replicate 4 0 @ le_bytes 8 (1 :: u64) @ le_bytes 8 (5119 :: u64) @ le_bytes 8 (34 :: u64) @
     le_bytes 8 (5000 :: u64) @ replicate 16 3 @ le_bytes 8 (2 :: u64) @ le_bytes 4 (128 :: u32) @
     le_bytes 4 (128 :: u32) @ le_bytes 4 (crc32 sample_array)"

definition sample_header :: bytes where
  "sample_header = sample_head @ le_bytes 4 (crc32 (sample_head @ replicate 4 0 @ sample_tail)) @ sample_tail"

definition sample_mbr :: bytes where
  "sample_mbr = replicate 510 0 @ le_bytes 2 (0xAA55 :: u16)"

definition sample_image :: bytes where
  "sample_image = sample_mbr @ replicate 512 0 @ sample_header @ replicate 932 0 @ sample_array"

definition sample_disk :: "nat \<Rightarrow> u8" where
  "sample_disk a = (if a < length sample_image then sample_image ! a else 0)"

lemma sample_lengths [simp]:
  "length (sample_entry a b) = 128" "length sample_array = 16384" "length sample_head = 16" "length sample_tail = 72"
  "length sample_header = 92" "length sample_mbr = 512" "length sample_image = 18432"
  by (simp_all add: sample_entry_def sample_array_def sample_head_def GPT_SIG_def sample_tail_def sample_header_def
      sample_mbr_def sample_image_def)

lemma sample_read:
  assumes "(unat s + unat c) * 1024 \<le> 18432" and "n = div_ceil c 4" and "unat c * 1024 \<le> unat n * 4096" and "n \<le> 4"
  shows "read_smart (ram_drive 5120 1024) s c sample_disk =
    ok \<lparr>pp_count = n, pp_data = take (unat c * 1024) (drop (unat s * 1024) sample_image) @ replicate (unat n * 4096 - unat c * 1024) 0\<rparr>
      sample_disk"
proof -
  have "div_ceil PAGE_SIZE 1024 = (4 :: u64)" by (simp add: div_ceil_def PAGE_SIZE_def)
  moreover have "unat n \<le> 4" using assms(4) by (simp add: word_le_nat_alt)
  then have "unat (n * PAGE_SIZE) = unat n * 4096" "n < 0x8000000000"
    by (simp_all add: PAGE_SIZE_def unat_mult_nowrap word_less_nat_alt)
  moreover have "map sample_disk [unat s * 1024..<unat s * 1024 + unat c * 1024] =
      take (unat c * 1024) (drop (unat s * 1024) sample_image)"
    using assms(1) by (intro nth_equalityI) (auto simp: sample_disk_def)
  ultimately show ?thesis
    using assms by (simp add: read_smart_def ram_drive_def phys_page_new_def ram_read_def Let_def not_less
        map_err_def ok_def err_def ques_def)
qed

lemma sample_blocks:
  "take 1024 (drop 0 sample_image) = sample_mbr @ replicate 512 0"
  "take 1024 (drop 1024 sample_image) = sample_header @ replicate 932 0"
  "take 16384 (drop 2048 sample_image) = sample_array"
  by (simp_all add: sample_image_def)

lemma field_at:
  assumes "bs = pre @ le_bytes n (w :: 'a::len word) @ post" and "length pre = off" and "LENGTH('a) \<le> 8 * n"
  shows "field off n bs = w"
  using assms by (simp add: field_def le_word_le_bytes)

lemma sample_mbr_ok: "mbr_boot_signature (mbr_decode sample_mbr) = 0xAA55"
  unfolding mbr_decode_def protective_mbr.simps
  by (rule field_at [where pre = "replicate 510 0" and post = "[]"]) (simp_all add: sample_mbr_def)

definition sample_h :: gpt_header where
  "sample_h = gpt_header_decode sample_header"

lemma sample_fields [simp]:
  "h_signature sample_h = GPT_SIG" "h_size sample_h = 92"
  "h_header_crc sample_h = crc32 (sample_head @ replicate 4 0 @ sample_tail)"
  "h_curr_block sample_h = 1" "h_backup_block sample_h = 5119" "h_first_usable sample_h = 34" "h_last_usable sample_h = 5000"
  "h_entry_start sample_h = 2" "h_entry_count sample_h = 128" "h_entry_byte_count sample_h = 128"
  "h_entry_array_crc sample_h = crc32 sample_array"
  by (simp_all add: sample_h_def gpt_header_decode_def sample_header_def sample_head_def sample_tail_def GPT_SIG_def
      field_def le_word_le_bytes)

lemma one_page: "div_ceil 1 4 = (1 :: u64)" "div_ceil 16 4 = (4 :: u64)"
  by (simp_all add: div_ceil_def)

lemma sample_checked:
  "check_gpt_header (ram_drive 5120 1024) sample_h (sample_header @ replicate 4004 0) False =
     Some (sample_head @ replicate 4 0 @ sample_tail @ replicate 4004 0, True)"
proof -
  have "splice 16 (replicate 4 0) (sample_header @ replicate 4004 0) = sample_head @ replicate 4 0 @ sample_tail @ replicate 4004 0"
    by (simp add: splice_def sample_header_def)
  moreover have "take 92 (sample_head @ replicate 4 0 @ sample_tail @ replicate 4004 0) = sample_head @ replicate 4 0 @ sample_tail"
    by simp
  moreover have "header_fields_ok (ram_drive 5120 1024) sample_h False"
    by (simp add: header_fields_ok_def ram_drive_def checked_mul_def checked_add_def div_ceil_def)
      (simp add: word_le_nat_alt)
  ultimately show ?thesis by (simp add: check_gpt_header_def ram_drive_def Let_def)
qed

lemma sample_find_header: "find_header (ram_drive 5120 1024) sample_disk = ok (sample_h, False) sample_disk"
proof -
  have r: "read_smart (ram_drive 5120 1024) 1 1 sample_disk =
      ok \<lparr>pp_count = 1, pp_data = sample_header @ replicate 4004 0\<rparr> sample_disk"
    using sample_read [of 1 1 1, unfolded one_page] sample_blocks(2) replicate_add [of 932 3072 "0 :: u8"] by simp
  have "phys_page_read 92 1 \<lparr>pp_count = 1, pp_data = sample_header @ replicate 4004 0\<rparr> 0 = Some sample_header"
    by (simp add: phys_page_read_def PAGE_SIZE_def is_multiple_of_def)
  then show ?thesis
    using sample_checked
    by (simp add: find_header_def r read_header_def sample_h_def [symmetric] map_err_def ok_def err_def ques_def ok_or_def unwrap_def)
qed

definition sample_page :: phys_page where
  "sample_page = \<lparr>pp_count = 4, pp_data = sample_array\<rparr>"

lemma sample_find_entries:
  "find_entries (ram_drive 5120 1024) sample_h False sample_disk = ok (sample_h, sample_page) sample_disk"
proof -
  have "read_smart (ram_drive 5120 1024) 2 16 sample_disk = ok sample_page sample_disk"
    using sample_read [of 2 16 4, unfolded one_page] sample_blocks(3) by (simp add: sample_page_def)
  moreover have "entry_total sample_h = 16384" by (simp add: entry_total_def)
  moreover have "div_ceil 16384 (1024 :: u64) = 16" by (simp add: div_ceil_def)
  ultimately have "read_entry_array (ram_drive 5120 1024) sample_h sample_disk = ok (sample_page, True) sample_disk"
    by (simp add: read_entry_array_def ram_drive_def Let_def map_err_def ok_def err_def ques_def)
      (simp add: sample_page_def)
  then show ?thesis by (simp add: find_entries_def ok_def ques_def)
qed

definition sample_e :: "u64 \<Rightarrow> u64 \<Rightarrow> partition_entry" where
  "sample_e a b = partition_entry_decode (sample_entry a b)"

lemma sample_e_fields [simp]: "pe_start_block (sample_e a b) = a" "pe_end_block (sample_e a b) = b" "pe_type_guid (sample_e a b) \<noteq> GUID_ZERO"
proof -
  show "pe_start_block (sample_e a b) = a" "pe_end_block (sample_e a b) = b"
    by (simp_all add: sample_e_def partition_entry_decode_def sample_entry_def field_def le_word_le_bytes)
  have "g_time_low (pe_type_guid (sample_e a b)) = 0x1010101"
    by (simp add: sample_e_def partition_entry_decode_def guid_decode_def sample_entry_def field_def numeral_eq_Suc)
  moreover have "g_time_low GUID_ZERO = 0" by (simp add: GUID_ZERO_def guid_new_def)
  ultimately show "pe_type_guid (sample_e a b) \<noteq> GUID_ZERO" by auto
qed

lemma sample_entries:
  "gpt_entries sample_h sample_page 0 [] = Some [entry_partition (sample_e 64 100), entry_partition (sample_e 101 200)]"
proof -
  have "entry_at sample_page 0 = Some (sample_e 64 100)" "entry_at sample_page 128 = Some (sample_e 101 200)"
    by (simp_all add: entry_at_def phys_page_read_def sample_page_def PAGE_SIZE_def is_multiple_of_def sample_array_def sample_e_def)
  moreover have "entry_at sample_page 256 = Some (partition_entry_decode (replicate 128 0))"
    by (simp add: entry_at_def phys_page_read_def sample_page_def PAGE_SIZE_def is_multiple_of_def sample_array_def)
  moreover have "pe_type_guid (partition_entry_decode (replicate 128 0)) = GUID_ZERO"
    by (simp add: partition_entry_decode_def guid_decode_def field_def GUID_ZERO_def guid_new_def be_bytes_def numeral_eq_Suc)
  ultimately have "entries_listed sample_h sample_page 0 [] [sample_e 64 100, sample_e 101 200]"
    by (simp add: entry_skipped_def entry_partition_def)
  then show ?thesis using gpt_entries_listed by fastforce
qed

lemma sample_init:
  "gpt_init (ram_drive 5120 1024) sample_disk =
     ok [entry_partition (sample_e 64 100), entry_partition (sample_e 101 200)] sample_disk"
proof -
  have r: "read_smart (ram_drive 5120 1024) 0 1 sample_disk =
      ok \<lparr>pp_count = 1, pp_data = sample_mbr @ replicate 3584 0\<rparr> sample_disk"
    using sample_read [of 0 1 1, unfolded one_page] sample_blocks(1) replicate_add [of 512 3072 "0 :: u8"] by simp
  have "phys_page_read 512 1 \<lparr>pp_count = 1, pp_data = sample_mbr @ replicate 3584 0\<rparr> 0 = Some sample_mbr"
    by (simp add: phys_page_read_def PAGE_SIZE_def is_multiple_of_def)
  then show ?thesis
    using sample_find_header sample_find_entries
    by (simp add: gpt_init_def r sample_mbr_ok sample_entries map_err_def ok_def err_def ques_def ok_or_def unwrap_def)
qed

theorem gpt_partitions_disjoint_witness:
  "\<exists>w' ps. gpt_init (ram_drive 5120 1024) sample_disk = Some (w', Inr ps) \<and> length ps = 2 \<and> partitions_ok 0 5121 ps"
proof -
  have "unat (sd_block_count (ram_drive 5120 1024)) = 5120" by (simp add: ram_drive_def)
  then show ?thesis using gpt_partitions_disjoint [of "ram_drive 5120 1024" sample_disk]
    by (simp add: sample_init ok_def)
qed

end
