(* ===== verification/Hardware.thy ===== *)
theory Hardware
  imports Storage
begin

text \<open>
  The hardware the drivers talk to, and the waiting loops of \<^verbatim>\<open>helpers\<close>.

  A machine is a record of operations on its state \<open>'w\<close>: volatile reads and writes of the 32-bit
  registers of a mapped device, the main counter of the HPET, and physical memory as the CPU sees
  it through the direct map. A read may change the state: devices make progress between two reads.
\<close>

section \<open>Time\<close>

datatype time =
    Nanoseconds u64 | Milliseconds u64 | Seconds u64 | Minutes u64 | Hours u64 | Days u64

definition to_nanos :: "time \<Rightarrow> u64" where
  "to_nanos t =
     (case t of
        Nanoseconds x \<Rightarrow> x
      | Milliseconds x \<Rightarrow> x * 1000000
      | Seconds x \<Rightarrow> x * 1000000000
      | Minutes x \<Rightarrow> x * 60000000000
      | Hours x \<Rightarrow> x * 3600000000000
      | Days x \<Rightarrow> x * 86400000000000)"

definition time_mul :: "time \<Rightarrow> u64 \<Rightarrow> time" where
  "time_mul t rhs = Nanoseconds (to_nanos t * rhs)"

section \<open>The machine\<close>

record 'w machine =
  mc_read32 :: "u64 \<Rightarrow> 'w \<Rightarrow> 'w \<times> u32"
  mc_write32 :: "u64 \<Rightarrow> u32 \<Rightarrow> 'w \<Rightarrow> 'w"
  mc_hpet_counter :: "'w \<Rightarrow> 'w \<times> u64"
  mc_hpet_period :: u64 \<comment> \<open>\<^verbatim>\<open>HPET_PERIOD_FS\<close>, set by \<^verbatim>\<open>hpet::init\<close>\<close>
  mc_mem :: "'w \<Rightarrow> nat \<Rightarrow> u8"
  mc_store :: "nat \<Rightarrow> bytes \<Rightarrow> 'w \<Rightarrow> 'w"

definition nanos_of :: "u64 \<Rightarrow> u64 \<Rightarrow> u64" where
  "nanos_of period raw = raw * period div 10 ^ 6"

definition passed_nanos :: "'w machine \<Rightarrow> 'w \<Rightarrow> 'w \<times> u64" where
  "passed_nanos m w = (let (w, raw) = mc_hpet_counter m w in (w, nanos_of (mc_hpet_period m) raw))"

definition load :: "'w machine \<Rightarrow> nat \<Rightarrow> nat \<Rightarrow> 'w \<Rightarrow> bytes" where
  "load m a n w = map (mc_mem m w) [a..<a + n]"

section \<open>Waiting\<close>

text \<open>The condition of a wait reads registers, so it takes and returns the state.\<close>

partial_function (option) wait_while :: "('w \<Rightarrow> 'w \<times> bool) \<Rightarrow> 'w \<Rightarrow> 'w option" where
  "wait_while f w = (case f w of (w, b) \<Rightarrow> if b then wait_while f w else Some w)"

partial_function (option) wait_timeout_loop ::
  "'w machine \<Rightarrow> ('w \<Rightarrow> 'w \<times> bool) \<Rightarrow> u64 \<Rightarrow> u64 \<Rightarrow> 'w \<Rightarrow> ('w \<times> bool) option" where
  "wait_timeout_loop m f start timeout w =
     (case f w of (w, b) \<Rightarrow>
        if b
        then case passed_nanos m w of (w, t) \<Rightarrow>
               if timeout < t - start then Some (w, False)
               else wait_timeout_loop m f start timeout w
        else Some (w, True))"

definition wait_timeout ::
  "'w machine \<Rightarrow> ('w \<Rightarrow> 'w \<times> bool) \<Rightarrow> time \<Rightarrow> 'w \<Rightarrow> ('w \<times> bool) option" where
  "wait_timeout m f timeout w =
     (case passed_nanos m w of (w, start) \<Rightarrow> wait_timeout_loop m f start (to_nanos timeout) w)"

partial_function (option) wait_loop :: "'w machine \<Rightarrow> u64 \<Rightarrow> u64 \<Rightarrow> 'w \<Rightarrow> 'w option" where
  "wait_loop m start nanos w =
     (case passed_nanos m w of (w, t) \<Rightarrow>
        if t - start < nanos then wait_loop m start nanos w else Some w)"

definition wait :: "'w machine \<Rightarrow> time \<Rightarrow> 'w \<Rightarrow> 'w option" where
  "wait m t w = (case passed_nanos m w of (w, start) \<Rightarrow> wait_loop m start (to_nanos t) w)"

text \<open>\<^verbatim>\<open>wait_timeout(..).ok_or(e)?\<close>, and reads and writes of a register as computations.\<close>

definition wait_or :: "'e \<Rightarrow> ('w \<times> bool) option \<Rightarrow> ('w, 'e, unit) res" where
  "wait_or e r = (case r of None \<Rightarrow> None | Some (w, b) \<Rightarrow> if b then ok () w else err e w)"

lemma map_err_simps [simp]: "map_err g (ok x w) = ok x w" "map_err g (err e w) = err (g e) w"
  by (simp_all add: map_err_def ok_def err_def)

definition reg_read :: "'w machine \<Rightarrow> u64 \<Rightarrow> 'w \<Rightarrow> ('w, 'e, u32) res" where
  "reg_read m r w = (case mc_read32 m r w of (w, v) \<Rightarrow> ok v w)"

definition reg_write :: "'w machine \<Rightarrow> u64 \<Rightarrow> u32 \<Rightarrow> 'w \<Rightarrow> ('w, 'e, unit) res" where
  "reg_write m r v w = ok () (mc_write32 m r v w)"

definition reg_test :: "'w machine \<Rightarrow> u64 \<Rightarrow> (u32 \<Rightarrow> bool) \<Rightarrow> 'w \<Rightarrow> 'w \<times> bool" where
  "reg_test m r p w = (case mc_read32 m r w of (w, v) \<Rightarrow> (w, p v))"

section \<open>Mapped registers and pages the device reads\<close>

text \<open>\<^verbatim>\<open>MMIORegion::register::<u32>\<close>: a region is its size, a register its offset.\<close>

definition mmio_register :: "u64 \<Rightarrow> usize \<Rightarrow> u64 option" where
  "mmio_register region_size offset =
     (if \<not> is_multiple_of offset 4 then None
      else if region_size < offset + 4 then None
      else Some offset)"

record dma_page =
  dp_phys :: u64
  dp_count :: usize

definition dma_write ::
  "'w machine \<Rightarrow> dma_page \<Rightarrow> usize \<Rightarrow> bytes \<Rightarrow> 'w \<Rightarrow> ('w, memory_error, unit) res" where
  "dma_write m p offset data w =
     (if dp_count p * PAGE_SIZE < offset + word_of_nat (length data) then err OutOfBounds w
      else ok () (mc_store m (unat (dp_phys p) + unat offset) data w))"

text \<open>\<^verbatim>\<open>PhysAddr + u64\<close> of the \<^verbatim>\<open>x86_64\<close> crate panics beyond 52 bits.\<close>

definition phys_add :: "u64 \<Rightarrow> u64 \<Rightarrow> u64 option" where
  "phys_add a n = (if unat a + unat n < 2 ^ 52 then Some (a + n) else None)"

text \<open>\<^verbatim>\<open>VirtAddr + u64\<close> of the \<^verbatim>\<open>x86_64\<close> crate panics when the sum is not a canonical address.\<close>

definition canonical :: "u64 \<Rightarrow> bool" where
  "canonical a = (unat a < 2 ^ 47 \<or> 2 ^ 64 - 2 ^ 47 \<le> unat a)"

definition virt_add :: "u64 \<Rightarrow> u64 \<Rightarrow> u64 option" where
  "virt_add a n = (if unat a + unat n < 2 ^ 64 \<and> canonical (a + n) then Some (a + n) else None)"

section \<open>The HPET\<close>

text \<open>
  \<^verbatim>\<open>PhysAddr::new\<close> and \<^verbatim>\<open>VirtAddr::new\<close> panic on an address that does not exist. \<open>rd\<close> and \<open>wr\<close> are the volatile
  accesses to 64-bit registers and tables by virtual address, \<open>hhdm\<close> is \<^verbatim>\<open>HHDM_OFFSET\<close>.
\<close>

definition phys_new :: "u64 \<Rightarrow> u64 option" where
  "phys_new a = (if unat a < 2 ^ 52 then Some a else None)"

definition phys_to_virt :: "u64 \<Rightarrow> u64 \<Rightarrow> u64 option" where
  "phys_to_virt hhdm phys = (if canonical (phys + hhdm) then Some (phys + hhdm) else None)"

text \<open>\<open>hpet\<close> holds \<^verbatim>\<open>HPET_REGS\<close> and \<^verbatim>\<open>HPET_PERIOD_FS\<close> once they are set; setting them twice panics.\<close>

definition hpet_init ::
  "(u64 \<Rightarrow> 'w \<Rightarrow> 'w \<times> u64) \<Rightarrow> (u64 \<Rightarrow> u64 \<Rightarrow> 'w \<Rightarrow> 'w) \<Rightarrow> u64 \<Rightarrow> u64 \<Rightarrow> (u64 \<times> u64) option \<Rightarrow> 'w \<Rightarrow>
     ('w, acpi_error, u64 \<times> u64) res" where
  "hpet_init rd wr hhdm hpet_entry hpet w =
     ques (unwrap (virt_add hpet_entry 44) w) (\<lambda>field w.
     let (w, address) = rd field w
     in ques (unwrap (phys_new address) w) (\<lambda>phys w.
        ques (unwrap (phys_to_virt hhdm phys) w) (\<lambda>regs w.
        let (w, gcap) = rd regs w;
            period = drop_bit 32 gcap
        in if period = 0 then err HPETPeriodZero w
           else if hpet \<noteq> None then None
           else
             ques (unwrap (virt_add regs 0x10) w) (\<lambda>config w.
             let (w, conf) = rd config w
             in ok (regs, period) (wr config (conf OR 1) w)))))"

end
