(* ===== verification/Ahci.thy ===== *)
theory Ahci
  imports Hardware
begin

text \<open>
  The SATA AHCI driver (\<^verbatim>\<open>drivers/storage/ahci\<close>): the structures it shares with the controller, the
  commands it issues and the probing of the ports. The lock of a drive is left out: an operation is
  one computation. Warnings are output only and left out. Pages are accessed at their physical
  address, which the direct map translates.
\<close>

section \<open>Registers\<close>

record global_registers =
  gr_cap :: u64
  gr_cap2 :: u64
  gr_ghc :: u64
  gr_pi :: u64
  gr_bohc :: u64

definition global_registers_new :: "u64 \<Rightarrow> global_registers option" where
  "global_registers_new region = do {
     cap \<leftarrow> mmio_register region 0;
     cap2 \<leftarrow> mmio_register region 0x24;
     ghc \<leftarrow> mmio_register region 4;
     pi \<leftarrow> mmio_register region 0xC;
     bohc \<leftarrow> mmio_register region 0x28;
     Some \<lparr>gr_cap = cap, gr_cap2 = cap2, gr_ghc = ghc, gr_pi = pi, gr_bohc = bohc\<rparr>
   }"

record port_registers =
  pr_clb :: u64
  pr_clbu :: u64
  pr_fb :: u64
  pr_fbu :: u64
  pr_is :: u64
  pr_cmd :: u64
  pr_tfd :: u64
  pr_sig :: u64
  pr_ssts :: u64
  pr_sctl :: u64
  pr_serr :: u64
  pr_sact :: u64
  pr_ci :: u64

definition port_registers_new :: "u64 \<Rightarrow> u32 \<Rightarrow> port_registers option" where
  "port_registers_new region port =
     (let reg = \<lambda>offset. mmio_register region (0x100 + ucast port * 0x80 + offset) in do {
       clb \<leftarrow> reg 0;
       clbu \<leftarrow> reg 4;
       fb \<leftarrow> reg 8;
       fbu \<leftarrow> reg 0xC;
       is \<leftarrow> reg 0x10;
       cmd \<leftarrow> reg 0x18;
       tfd \<leftarrow> reg 0x20;
       sig \<leftarrow> reg 0x24;
       ssts \<leftarrow> reg 0x28;
       sctl \<leftarrow> reg 0x2C;
       serr \<leftarrow> reg 0x30;
       sact \<leftarrow> reg 0x34;
       ci \<leftarrow> reg 0x38;
       Some \<lparr>pr_clb = clb, pr_clbu = clbu, pr_fb = fb, pr_fbu = fbu, pr_is = is, pr_cmd = cmd, pr_tfd = tfd,
         pr_sig = sig, pr_ssts = ssts, pr_sctl = sctl, pr_serr = serr, pr_sact = sact, pr_ci = ci\<rparr>
     })"

section \<open>Commands\<close>

definition fis_info_set :: "u8 \<Rightarrow> u8 \<Rightarrow> bool \<Rightarrow> u8" where
  "fis_info_set x fis_len to_device =
     (let x = (x AND NOT 0x1F) OR fis_len
      in (x AND NOT 0x40) OR push_bit 6 (of_bool to_device))"

record command_header =
  ch_fis_info :: u8
  ch_cmd_info :: u8
  ch_prd_table_len :: u16
  ch_prd_byte_count :: u32
  ch_cmd_table_base_addr_lower :: u32
  ch_cmd_table_base_addr_upper :: u32
  ch_reserved :: bytes

definition command_header_zeroed :: command_header where
  "command_header_zeroed =
     \<lparr>ch_fis_info = 0, ch_cmd_info = 0, ch_prd_table_len = 0, ch_prd_byte_count = 0,
      ch_cmd_table_base_addr_lower = 0, ch_cmd_table_base_addr_upper = 0, ch_reserved = replicate 16 0\<rparr>"

definition command_header_bytes :: "command_header \<Rightarrow> bytes" where
  "command_header_bytes h =
     [ch_fis_info h, ch_cmd_info h] @ le_bytes 2 (ch_prd_table_len h) @ le_bytes 4 (ch_prd_byte_count h) @
     le_bytes 4 (ch_cmd_table_base_addr_lower h) @ le_bytes 4 (ch_cmd_table_base_addr_upper h) @ ch_reserved h"

text \<open>The assertion of \<^verbatim>\<open>set_descriptor_byte_count\<close> panics.\<close>

definition set_descriptor_byte_count :: "u32 \<Rightarrow> u32 \<Rightarrow> u32 option" where
  "set_descriptor_byte_count x byte_count =
     (if 0 < byte_count \<and> byte_count \<le> 0x400000
      then Some ((x AND 0xFFC00000) OR (byte_count - 1)) else None)"

record fis_register_h2d =
  fis_type :: u8
  fis_port_multiplier_command :: u8
  fis_command :: u8
  fis_feature_low :: u8
  fis_lba0 :: u8
  fis_lba1 :: u8
  fis_lba2 :: u8
  fis_device :: u8
  fis_lba3 :: u8
  fis_lba4 :: u8
  fis_lba5 :: u8
  fis_feature_high :: u8
  fis_count :: u16
  fis_icc :: u8
  fis_control :: u8
  fis_reserved :: bytes

definition fis_register_h2d_new ::
  "u8 \<Rightarrow> u8 \<Rightarrow> u16 \<Rightarrow> u64 \<Rightarrow> u16 \<Rightarrow> u8 \<Rightarrow> u8 \<Rightarrow> fis_register_h2d" where
  "fis_register_h2d_new port_mult command feature lba cnt icc control =
     \<lparr>fis_type = 0x27, fis_port_multiplier_command = port_mult, fis_command = command,
      fis_feature_low = ucast feature, fis_lba0 = ucast lba, fis_lba1 = ucast (drop_bit 8 lba),
      fis_lba2 = ucast (drop_bit 16 lba), fis_device = 0x40, fis_lba3 = ucast (drop_bit 24 lba),
      fis_lba4 = ucast (drop_bit 32 lba), fis_lba5 = ucast (drop_bit 40 lba),
      fis_feature_high = ucast (drop_bit 8 feature), fis_count = cnt, fis_icc = icc,
      fis_control = control, fis_reserved = replicate 4 0\<rparr>"

definition fis_to_bytes :: "fis_register_h2d \<Rightarrow> bytes" where
  "fis_to_bytes f =
     [fis_type f, fis_port_multiplier_command f, fis_command f, fis_feature_low f,
      fis_lba0 f, fis_lba1 f, fis_lba2 f, fis_device f,
      fis_lba3 f, fis_lba4 f, fis_lba5 f, fis_feature_high f] @
     le_bytes 2 (fis_count f) @ [fis_icc f, fis_control f] @ fis_reserved f"

definition PROBE_TIMEOUT :: time where "PROBE_TIMEOUT = Milliseconds 500"
definition TIMEOUT :: time where "TIMEOUT = Seconds 5"
definition PRD_MAX_BYTES :: usize where "PRD_MAX_BYTES = 0x200000"
definition PRDS_PER_TABLE :: usize where "PRDS_PER_TABLE = 16"
definition PRD_STRIDE :: u64 where "PRD_STRIDE = 0x80 + PRDS_PER_TABLE * 16"
definition MAX_SECTORS_PER_CMD :: u64 where "MAX_SECTORS_PER_CMD = 0xFFFF"
definition FATAL_PXIS_MASK :: u32 where "FATAL_PXIS_MASK = push_bit 27 0xF"
definition BLOCK_SIZE :: u64 where "BLOCK_SIZE = 512"

section \<open>A drive\<close>

record ahci_drive =
  ad_region :: u64 \<comment> \<open>the size of the mapped BAR\<close>
  ad_port_id :: u32
  ad_command_list :: dma_page
  ad_command_tables :: dma_page
  ad_fis_buffer :: dma_page
  ad_block_size :: u64
  ad_block_count :: u64
  ad_ncs :: u8

definition find_slot :: "'w machine \<Rightarrow> port_registers \<Rightarrow> u8 \<Rightarrow> 'w \<Rightarrow> ('w, 'e, u8 option) res" where
  "find_slot m port ncs w =
     ques (reg_read m (pr_sact port) w) (\<lambda>sact w.
     ques (reg_read m (pr_ci port) w) (\<lambda>ci w.
     let slots = sact OR ci
     in ok (find (\<lambda>i. slots AND push_bit (unat i mod 32) 1 = 0) (upto_incl 0 ncs)) w))"

text \<open>One turn of the loop that fills the descriptor table at \<open>ct\<close>.\<close>

definition write_prd ::
  "'w machine \<Rightarrow> nat \<Rightarrow> usize \<Rightarrow> u64 \<times> u64 \<Rightarrow> 'w \<Rightarrow> ('w, storage_error, u64 \<times> u64) res" where
  "write_prd m ct i s w =
     (let (rem, phys_offset) = s;
          chunk = min rem PRD_MAX_BYTES;
          prd = ct + 0x80 + unat i * 16;
          w = mc_store m prd (le_bytes 8 phys_offset) w;
          dbc = le_word (load m (prd + 12) 4 w)
      in ques (unwrap (set_descriptor_byte_count dbc (ucast chunk)) w) (\<lambda>dbc w.
         ok (rem - chunk, phys_offset + chunk) (mc_store m (prd + 12) (le_bytes 4 dbc) w)))"

text \<open>\<^verbatim>\<open>send_command\<close> in two parts: the command in memory, and its issue.\<close>

definition fill_slot ::
  "'w machine \<Rightarrow> ahci_drive \<Rightarrow> u8 \<Rightarrow> fis_register_h2d \<Rightarrow> u64 \<Rightarrow> usize \<Rightarrow> bool \<Rightarrow> 'w \<Rightarrow> ('w, storage_error, unit) res" where
  "fill_slot m d slot fis data data_bytes is_write w =
     (let ct_phys = dp_phys (ad_command_tables d) + ucast slot * PRD_STRIDE;
          offset = ucast slot * PRD_STRIDE;
          ct = unat (dp_phys (ad_command_tables d)) + unat offset;
          num_prds = div_ceil data_bytes PRD_MAX_BYTES;
          cmd_header = command_header_zeroed
            \<lparr>ch_fis_info := fis_info_set 0 5 is_write,
             ch_cmd_table_base_addr_lower := ucast ct_phys,
             ch_cmd_table_base_addr_upper := ucast (drop_bit 32 ct_phys),
             ch_prd_table_len := ucast num_prds\<rparr>
      in ques (map_err (\<lambda>_. CommandFailed) (dma_write m (ad_command_tables d) offset (replicate 128 0) w)) (\<lambda>_ w.
         ques (ok () (mc_store m ct (fis_to_bytes fis @ replicate 44 0) w)) (\<lambda>_ w.
         ques (for_each (write_prd m ct) (upto_excl 0 num_prds) (data_bytes, data) w) (\<lambda>_ w.
         map_err (\<lambda>_. CommandFailed)
           (dma_write m (ad_command_list d) (32 * ucast slot) (command_header_bytes cmd_header) w)))))"

definition issue_command ::
  "'w machine \<Rightarrow> port_registers \<Rightarrow> u8 \<Rightarrow> 'w \<Rightarrow> ('w, storage_error, unit) res" where
  "issue_command m port slot w =
     ques (reg_write m (pr_is port) (-1) w) (\<lambda>_ w.
     ques (wait_or CommandFailed
             (wait_timeout m (reg_test m (pr_tfd port) (\<lambda>v. v AND 0x88 \<noteq> 0)) TIMEOUT w)) (\<lambda>_ w.
     ques (reg_write m (pr_ci port) (push_bit (unat slot mod 32) 1) w) (\<lambda>_ w.
     ques (wait_or Timeout
             (wait_timeout m (reg_test m (pr_ci port) (\<lambda>v. drop_bit (unat slot mod 32) v AND 1 = 1)) TIMEOUT w)) (\<lambda>_ w.
     ques (reg_read m (pr_is port) w) (\<lambda>is w.
     ques (reg_write m (pr_is port) (-1) w) (\<lambda>_ w.
     if is AND FATAL_PXIS_MASK \<noteq> 0 then err CommandFailed w
     else
       ques (reg_read m (pr_tfd port) w) (\<lambda>tfd w.
       if tfd AND 1 \<noteq> 0 then err CommandFailed w else ok () w)))))))"

definition send_command ::
  "'w machine \<Rightarrow> ahci_drive \<Rightarrow> fis_register_h2d \<Rightarrow> u64 \<Rightarrow> usize \<Rightarrow> bool \<Rightarrow> 'w \<Rightarrow> ('w, storage_error, unit) res" where
  "send_command m d fis data data_bytes is_write w =
     ques (ok_or (port_registers_new (ad_region d) (ad_port_id d)) CommandFailed w) (\<lambda>port w.
     ques (find_slot m port (ad_ncs d) w) (\<lambda>slot w.
     ques (ok_or slot CommandFailed w) (\<lambda>slot w.
     ques (fill_slot m d slot fis data data_bytes is_write w) (\<lambda>_ w.
     issue_command m port slot w))))"

text \<open>The loops of \<^verbatim>\<open>read_blocks\<close> (command \<^verbatim>\<open>0x25\<close>) and \<^verbatim>\<open>write_blocks\<close> (command \<^verbatim>\<open>0x35\<close>).\<close>

partial_function (option) transfer_loop ::
  "'w machine \<Rightarrow> ahci_drive \<Rightarrow> u8 \<Rightarrow> bool \<Rightarrow> u64 \<Rightarrow> u64 \<Rightarrow> u64 \<Rightarrow> u64 \<Rightarrow> 'w \<Rightarrow> ('w, storage_error, unit) res" where
  "transfer_loop m d command is_write phys start_block cnt offset w =
     (if offset < cnt
      then
        let max_blocks = PRDS_PER_TABLE * PRD_MAX_BYTES div ad_block_size d;
            blocks = min (min (cnt - offset) MAX_SECTORS_PER_CMD) max_blocks;
            fis = fis_register_h2d_new 0x80 command 0 (start_block + offset) (ucast blocks) 0 0;
            data_bytes = blocks * ad_block_size d
        in ques (unwrap (phys_add phys (offset * ad_block_size d)) w) (\<lambda>addr w.
           ques (send_command m d fis addr data_bytes is_write w) (\<lambda>_ w.
           transfer_loop m d command is_write phys start_block cnt (offset + blocks) w))
      else ok () w)"

definition ahci_transfer ::
  "'w machine \<Rightarrow> ahci_drive \<Rightarrow> u8 \<Rightarrow> bool \<Rightarrow> u64 \<Rightarrow> u64 \<Rightarrow> dma_page \<Rightarrow> 'w \<Rightarrow> ('w, storage_error, unit) res" where
  "ahci_transfer m d command is_write start_block cnt page w =
     (if ad_block_size d = 0 then None
      else if ad_block_count d < start_block + cnt then err BlockOutOfBounds w
      else if dp_count page * PAGE_SIZE < cnt * ad_block_size d then err CommandFailed w
      else transfer_loop m d command is_write (dp_phys page) start_block cnt 0 w)"

definition ahci_read_blocks ::
  "'w machine \<Rightarrow> ahci_drive \<Rightarrow> u64 \<Rightarrow> u64 \<Rightarrow> dma_page \<Rightarrow> 'w \<Rightarrow> ('w, storage_error, unit) res" where
  "ahci_read_blocks m d start_block cnt dest w = ahci_transfer m d 0x25 False start_block cnt dest w"

definition ahci_write_blocks ::
  "'w machine \<Rightarrow> ahci_drive \<Rightarrow> u64 \<Rightarrow> u64 \<Rightarrow> dma_page \<Rightarrow> 'w \<Rightarrow> ('w, storage_error, unit) res" where
  "ahci_write_blocks m d start_block cnt src w = ahci_transfer m d 0x35 True start_block cnt src w"

definition ahci_sync :: "'w machine \<Rightarrow> ahci_drive \<Rightarrow> 'w \<Rightarrow> ('w, storage_error, unit) res" where
  "ahci_sync m d w = send_command m d (fis_register_h2d_new 0x80 0xEA 0 0 0 0 0) 0 0 False w"

text \<open>
  The drive as a \<^verbatim>\<open>dyn StorageDrive\<close>. The callers' pages are byte buffers without an address, so the
  page passed is put to the memory where it lies, at the physical address \<open>buf\<close> (which may be another
  one for every page and every call), and taken from there again. \<open>alloc\<close> is the frame allocator.
\<close>

definition ahci_storage ::
  "'w machine \<Rightarrow> ahci_drive \<Rightarrow> (phys_page \<Rightarrow> 'w \<Rightarrow> u64) \<Rightarrow> (usize \<Rightarrow> 'w \<Rightarrow> 'w \<times> bool) \<Rightarrow> 'w storage_drive" where
  "ahci_storage m d buf alloc =
     \<lparr>sd_block_count = ad_block_count d,
      sd_block_size = ad_block_size d,
      sd_read_blocks = (\<lambda>start_block cnt dest w.
        let phys = buf dest w
        in ques (ahci_read_blocks m d start_block cnt \<lparr>dp_phys = phys, dp_count = pp_count dest\<rparr>
                  (mc_store m (unat phys) (pp_data dest) w)) (\<lambda>_ w.
           ok (dest\<lparr>pp_data := load m (unat phys) (length (pp_data dest)) w\<rparr>) w)),
      sd_write_blocks = (\<lambda>start_block cnt src w.
        let phys = buf src w
        in ahci_write_blocks m d start_block cnt \<lparr>dp_phys = phys, dp_count = pp_count src\<rparr>
             (mc_store m (unat phys) (pp_data src) w)),
      sd_sync = ahci_sync m d,
      sd_alloc_pages = alloc\<rparr>"

section \<open>Ports\<close>

definition stop_cmd :: "'w machine \<Rightarrow> port_registers \<Rightarrow> 'w \<Rightarrow> ('w, storage_error, unit) res" where
  "stop_cmd m port w =
     ques (reg_read m (pr_cmd port) w) (\<lambda>cmd w.
     ques (reg_write m (pr_cmd port) (cmd AND NOT 1) w) (\<lambda>_ w.
     ques (wait_or Timeout (wait_timeout m (reg_test m (pr_cmd port) (\<lambda>v. v AND 0x8000 \<noteq> 0)) TIMEOUT w)) (\<lambda>_ w.
     ques (reg_read m (pr_cmd port) w) (\<lambda>cmd w.
     ques (reg_write m (pr_cmd port) (cmd AND NOT 0x10) w) (\<lambda>_ w.
     wait_or Timeout (wait_timeout m (reg_test m (pr_cmd port) (\<lambda>v. v AND 0x4000 \<noteq> 0)) TIMEOUT w))))))"

definition start_cmd :: "'w machine \<Rightarrow> port_registers \<Rightarrow> 'w \<Rightarrow> ('w, storage_error, unit) res" where
  "start_cmd m port w =
     ques (wait_or Timeout (wait_timeout m (reg_test m (pr_cmd port) (\<lambda>v. v AND 0x8000 \<noteq> 0)) TIMEOUT w)) (\<lambda>_ w.
     ques (reg_read m (pr_cmd port) w) (\<lambda>cmd w.
     reg_write m (pr_cmd port) (cmd OR 0x11) w))"

definition rebase ::
  "'w machine \<Rightarrow> port_registers \<Rightarrow> u64 \<Rightarrow> u64 \<Rightarrow> 'w \<Rightarrow> ('w, storage_error, unit) res" where
  "rebase m port cmd_list_base fis_base w =
     ques (stop_cmd m port w) (\<lambda>_ w.
     ques (reg_write m (pr_is port) (-1) w) (\<lambda>_ w.
     ques (reg_write m (pr_serr port) (-1) w) (\<lambda>_ w.
     ques (reg_write m (pr_clb port) (ucast cmd_list_base) w) (\<lambda>_ w.
     ques (reg_write m (pr_clbu port) (ucast (drop_bit 32 cmd_list_base)) w) (\<lambda>_ w.
     ques (reg_write m (pr_fb port) (ucast fis_base) w) (\<lambda>_ w.
     ques (reg_write m (pr_fbu port) (ucast (drop_bit 32 fis_base)) w) (\<lambda>_ w.
     start_cmd m port w)))))))"

definition com_reset :: "'w machine \<Rightarrow> port_registers \<Rightarrow> 'w \<Rightarrow> ('w, storage_error, bool) res" where
  "com_reset m port w =
     ques (reg_write m (pr_serr port) (-1) w) (\<lambda>_ w.
     ques (reg_read m (pr_sctl port) w) (\<lambda>sctl w.
     ques (reg_write m (pr_sctl port) ((sctl AND NOT 0xF) OR 1) w) (\<lambda>_ w.
     case wait m (Milliseconds 1) w of
       None \<Rightarrow> None
     | Some w \<Rightarrow>
         ques (reg_read m (pr_sctl port) w) (\<lambda>sctl w.
         ques (reg_write m (pr_sctl port) (sctl AND NOT 0xF) w) (\<lambda>_ w.
         case wait_timeout m (reg_test m (pr_ssts port)
                (\<lambda>ssts. ssts AND 0xF \<noteq> 3 \<and> drop_bit 8 ssts AND 0xF \<noteq> 1)) TIMEOUT w of
           None \<Rightarrow> None
         | Some (w, linked) \<Rightarrow> ok linked w)))))"

text \<open>The frames of the pages come from the allocator \<open>alloc\<close>, as physical addresses.\<close>

type_synonym 'w page_source = "usize \<Rightarrow> 'w \<Rightarrow> 'w \<times> u64 option"

definition new_page :: "'w page_source \<Rightarrow> usize \<Rightarrow> 'w \<Rightarrow> ('w, storage_error, dma_page) res" where
  "new_page alloc cnt w =
     (case alloc cnt w of
        (w, Some phys) \<Rightarrow> ok \<lparr>dp_phys = phys, dp_count = cnt\<rparr> w
      | (w, None) \<Rightarrow> err InitFailed w)"

definition identify ::
  "'w machine \<Rightarrow> 'w page_source \<Rightarrow> ahci_drive \<Rightarrow> 'w \<Rightarrow> ('w, storage_error, ahci_drive) res" where
  "identify m alloc drive w =
     ques (new_page alloc 1 w) (\<lambda>id_buf w.
     let fis = fis_register_h2d_new 0x80 0xEC 0 0 0 0 0
     in ques (map_err (\<lambda>_. InitFailed) (send_command m drive fis (dp_phys id_buf) 512 False w)) (\<lambda>_ w.
        let field = \<lambda>off n. load m (unat (dp_phys id_buf) + off) n w;
            word106 = le_word (field 212 2) :: u16;
            word117 = le_word (field 234 2) :: u16;
            word118 = le_word (field 236 2) :: u16;
            half = push_bit 16 (ucast word118) OR ucast word117 :: u32
        in ok (drive\<lparr>ad_block_count := le_word (field 200 8),
                 ad_block_size := if drop_bit 12 word106 AND 1 = 1
                   then max (ucast (half * 2)) BLOCK_SIZE else BLOCK_SIZE\<rparr>) w))"

text \<open>One turn of the probing loop: no drive, or the drive on the port. An error ends the
  initialisation of the controller.\<close>

definition probe_port ::
  "'w machine \<Rightarrow> 'w page_source \<Rightarrow> u64 \<Rightarrow> u8 \<Rightarrow> u32 \<Rightarrow> u32 \<Rightarrow> 'w \<Rightarrow> ('w, storage_error, ahci_drive option) res" where
  "probe_port m alloc bar ncs pi port_id w =
     (if drop_bit (unat port_id) pi AND 1 = 0 then ok None w
      else case port_registers_new bar port_id of
        None \<Rightarrow> ok None w
      | Some port \<Rightarrow>
          ques (reg_read m (pr_ssts port) w) (\<lambda>ssts w.
          let det = ssts AND 0xF in
          if det \<noteq> 1 \<and> det \<noteq> 3 then ok None w
          else
            ques (reg_read m (pr_cmd port) w) (\<lambda>cmd w.
            ques (reg_write m (pr_cmd port) (cmd OR 6) w) (\<lambda>_ w.
            case wait_timeout m (reg_test m (pr_ssts port) (\<lambda>v. v AND 0xF \<noteq> 3)) PROBE_TIMEOUT w of
              None \<Rightarrow> None
            | Some (w, booted) \<Rightarrow>
                if \<not> booted then ok None w
                else
                  ques (reg_read m (pr_ssts port) w) (\<lambda>ssts w.
                  let ipm = drop_bit 8 ssts AND 0xF in
                  if ipm = 0 then ok None w
                  else
                    ques (if ipm \<noteq> 1 then com_reset m port w else ok True w) (\<lambda>up w.
                    if \<not> up then ok None w
                    else
                      ques (reg_write m (pr_serr port) (-1) w) (\<lambda>_ w.
                      ques (new_page alloc 1 w) (\<lambda>command_list w.
                      ques (new_page alloc 1 w) (\<lambda>fis_buffer w.
                      ques (new_page alloc 3 w) (\<lambda>command_tables w.
                      ques (rebase m port (dp_phys command_list) (dp_phys fis_buffer) w) (\<lambda>_ w.
                      case wait_timeout m (reg_test m (pr_cmd port) (\<lambda>v. v AND 0x4000 = 0)) TIMEOUT w of
                        None \<Rightarrow> None
                      | Some (w, running) \<Rightarrow>
                          if \<not> running then ok None w
                          else
                            ques (reg_read m (pr_sig port) w) (\<lambda>sig w.
                            if sig \<noteq> 0x101 then ok None w
                            else
                              ques (identify m alloc
                                \<lparr>ad_region = bar, ad_port_id = port_id, ad_command_list = command_list,
                                 ad_command_tables = command_tables, ad_fis_buffer = fis_buffer,
                                 ad_block_size = 0, ad_block_count = 0, ad_ncs = ncs\<rparr> w) (\<lambda>drive w.
                              ok (Some drive) w)))))))))))))"

text \<open>\<^verbatim>\<open>init\<close> from the mapping of BAR 5 on; \<open>bar\<close> is the size of the mapped region.\<close>

definition ahci_init ::
  "'w machine \<Rightarrow> 'w page_source \<Rightarrow> u64 \<Rightarrow> 'w \<Rightarrow> ('w, storage_error, ahci_drive list) res" where
  "ahci_init m alloc bar w =
     ques (ok_or (global_registers_new bar) InitFailed w) (\<lambda>g w.
     ques (reg_read m (gr_cap g) w) (\<lambda>cap w.
     let ports_count = (cap AND 0x1F) + 1;
         ncs = ucast (drop_bit 8 cap AND 0x1F) :: u8
     in if drop_bit 31 cap AND 1 \<noteq> 1 then err InitFailed w
        else
          ques (reg_read m (gr_cap2 g) w) (\<lambda>cap2 w.
          ques (if cap2 AND 2 = 2
                then ques (reg_read m (gr_bohc g) w) (\<lambda>bohc w.
                     ques (reg_write m (gr_bohc g) (bohc OR 2) w) (\<lambda>_ w.
                     wait_or Timeout
                       (wait_timeout m (reg_test m (gr_bohc g) (\<lambda>v. \<not> is_multiple_of v 2)) TIMEOUT w)))
                else ok () w) (\<lambda>_ w.
          ques (reg_read m (gr_ghc g) w) (\<lambda>ghc w.
          ques (reg_write m (gr_ghc g) (ghc OR push_bit 31 1) w) (\<lambda>_ w.
          ques (reg_read m (gr_ghc g) w) (\<lambda>ghc w.
          ques (reg_write m (gr_ghc g) (ghc OR 1) w) (\<lambda>_ w.
          ques (wait_or Timeout (wait_timeout m (reg_test m (gr_ghc g) (\<lambda>v. v AND 1 = 1)) TIMEOUT w)) (\<lambda>_ w.
          ques (reg_read m (gr_ghc g) w) (\<lambda>ghc w.
          ques (reg_write m (gr_ghc g) (ghc OR push_bit 31 1) w) (\<lambda>_ w.
          ques (reg_read m (gr_pi g) w) (\<lambda>pi w.
          for_each (\<lambda>port_id drives w.
              ques (probe_port m alloc bar ncs pi port_id w) (\<lambda>drive w.
              ok (drives @ (case drive of None \<Rightarrow> [] | Some d \<Rightarrow> [d])) w))
            (upto_excl 0 ports_count) [] w))))))))))))"

end
