(* ===== verification/Ahci_Device.thy ===== *)
theory Ahci_Device
  imports Ahci Sectors
begin

text \<open>
  What the driver relies on: the AHCI controller and the ATA device behind it, as their
  specifications describe them. \<open>hba_fetch\<close> reads a command from memory the way the controller does,
  \<open>hba_exec\<close> is the effect of a command on memory and disk, and the locale \<open>ahci_port\<close> states when the
  registers of a port show what.
\<close>

section \<open>Memory\<close>

definition put :: "nat \<Rightarrow> bytes \<Rightarrow> (nat \<Rightarrow> u8) \<Rightarrow> nat \<Rightarrow> u8" where
  "put a bs M = (\<lambda>x. if a \<le> x \<and> x < a + length bs then bs ! (x - a) else M x)"

definition slice_at :: "(nat \<Rightarrow> u8) \<Rightarrow> nat \<Rightarrow> nat \<Rightarrow> bytes" where
  "slice_at M a n = map M [a..<a + n]"

lemma length_slice_at [simp]: "length (slice_at M a n) = n"
  by (simp add: slice_at_def)

lemma slice_put_inside:
  assumes "b = a + k" and "k + n \<le> length bs"
  shows "slice_at (put a bs M) b n = take n (drop k bs)"
  using assms by (intro nth_equalityI) (auto simp: slice_at_def put_def)

lemma slice_put_same: "length bs = n \<Longrightarrow> slice_at (put a bs M) a n = bs"
  using slice_put_inside [of a a 0 n bs M] by simp

lemma slice_cong: "(\<And>x. a \<le> x \<Longrightarrow> x < a + n \<Longrightarrow> M x = M' x) \<Longrightarrow> slice_at M a n = slice_at M' a n"
  by (auto simp: slice_at_def)

lemma slice_put_outside: "b + n \<le> a \<or> a + length bs \<le> b \<Longrightarrow> slice_at (put a bs M) b n = slice_at M b n"
  by (rule slice_cong) (auto simp: put_def)

lemma slice_nth: "k < n \<Longrightarrow> slice_at M a n ! k = M (a + k)"
  by (simp add: slice_at_def)

lemma slice_sub: "k + n \<le> l \<Longrightarrow> take n (drop k (slice_at M a l)) = slice_at M (a + k) n"
  by (intro nth_equalityI) (auto simp: slice_at_def add.assoc)

section \<open>Commands\<close>

record hba_command =
  hc_write :: bool
  hc_fis :: bytes
  hc_prds :: "(nat \<times> nat) list"

text \<open>The command in a slot of the command list at \<open>clb\<close>: its flags, the FIS at the start of the command
  table and the descriptors of the regions of memory from offset \<^verbatim>\<open>0x80\<close> on.\<close>

definition prd_at :: "(nat \<Rightarrow> u8) \<Rightarrow> nat \<Rightarrow> nat \<Rightarrow> nat \<times> nat" where
  "prd_at M ctba i =
     (let prd = ctba + 0x80 + 16 * i
      in (unat (le_word (slice_at M prd 8) :: u64),
          unat (le_word (slice_at M (prd + 12) 4) AND 0x3FFFFF :: u32) + 1))"

definition hba_fetch :: "(nat \<Rightarrow> u8) \<Rightarrow> nat \<Rightarrow> nat \<Rightarrow> hba_command" where
  "hba_fetch M clb slot =
     (let h = slice_at M (clb + 32 * slot) 32;
          ctba = unat (le_word (take 8 (drop 8 h)) :: u64);
          prdtl = unat (le_word (take 2 (drop 2 h)) :: u16)
      in \<lparr>hc_write = bit (h ! 0) 6,
          hc_fis = slice_at M ctba (4 * unat (h ! 0 AND 0x1F)),
          hc_prds = map (prd_at M ctba) [0..<prdtl]\<rparr>)"

definition prd_addrs :: "(nat \<times> nat) list \<Rightarrow> nat list" where
  "prd_addrs prds = concat (map (\<lambda>(a, n). [a..<a + n]) prds)"

definition ata_lba :: "bytes \<Rightarrow> nat" where
  "ata_lba f = unat (le_word [f ! 4, f ! 5, f ! 6, f ! 8, f ! 9, f ! 10] :: u64)"

definition ata_count :: "bytes \<Rightarrow> nat" where
  "ata_count f = (let n = unat (le_word [f ! 12, f ! 13] :: u16) in if n = 0 then 65536 else n)"

definition store_all :: "(nat \<times> u8) list \<Rightarrow> (nat \<Rightarrow> u8) \<Rightarrow> nat \<Rightarrow> u8" where
  "store_all = fold (\<lambda>(a, b) M. M(a := b))"

text \<open>READ DMA EXT, WRITE DMA EXT and IDENTIFY DEVICE on a disk with blocks of \<open>bs\<close> bytes; a command
  without data, as FLUSH CACHE EXT, changes neither memory nor the contents of the disk.\<close>

definition hba_exec ::
  "nat \<Rightarrow> bytes \<Rightarrow> hba_command \<Rightarrow> (nat \<Rightarrow> u8) \<Rightarrow> (nat \<Rightarrow> u8) \<Rightarrow> (nat \<Rightarrow> u8) \<times> (nat \<Rightarrow> u8)" where
  "hba_exec bs ident c M D =
     (let f = hc_fis c;
          base = ata_lba f * bs;
          n = ata_count f * bs;
          addrs = prd_addrs (hc_prds c)
      in if f ! 2 = 0x25 \<and> \<not> hc_write c then (store_all (zip addrs (map D [base..<base + n])) M, D)
         else if f ! 2 = 0x35 \<and> hc_write c then (M, store_all (zip [base..<base + n] (map M addrs)) D)
         else if f ! 2 = 0xEC \<and> \<not> hc_write c then (store_all (zip addrs ident) M, D)
         else (M, D))"

text \<open>What a command that reports an error may have changed.\<close>

definition hba_frame ::
  "nat \<Rightarrow> hba_command \<Rightarrow> (nat \<Rightarrow> u8) \<Rightarrow> (nat \<Rightarrow> u8) \<Rightarrow> (nat \<Rightarrow> u8) \<Rightarrow> (nat \<Rightarrow> u8) \<Rightarrow> bool" where
  "hba_frame bs c M D M' D' \<longleftrightarrow>
     (\<forall>x. x \<notin> set (prd_addrs (hc_prds c)) \<or> hc_write c \<longrightarrow> M' x = M x) \<and>
     (\<forall>x. hc_fis c ! 2 \<noteq> 0x35 \<or> x < ata_lba (hc_fis c) * bs \<or>
        (ata_lba (hc_fis c) + ata_count (hc_fis c)) * bs \<le> x \<longrightarrow> D' x = D x)"

text \<open>How a command ends: it is executed and the port is idle again, or there was an error and the port has
  stopped.\<close>

definition hba_settled ::
  "nat \<Rightarrow> bytes \<Rightarrow> hba_command \<Rightarrow> (nat \<Rightarrow> u8) \<Rightarrow> (nat \<Rightarrow> u8) \<Rightarrow> bool \<Rightarrow> bool \<Rightarrow> (nat \<Rightarrow> u8) \<Rightarrow> (nat \<Rightarrow> u8) \<Rightarrow> bool" where
  "hba_settled bs ident c M D idle halted M' D' \<longleftrightarrow>
     (idle \<and> (M', D') = hba_exec bs ident c M D) \<or> (halted \<and> hba_frame bs c M D M' D')"

lemma store_all_contiguous:
  "length bs = n \<Longrightarrow> store_all (zip [A..<A + n] bs) M = put A bs M"
proof (induction bs arbitrary: A M n)
  case Nil
  then show ?case by (auto simp: store_all_def put_def fun_eq_iff)
next
  case (Cons b bs)
  then obtain k where n: "n = Suc k" by auto
  have "A < A + n" "A + n = Suc A + k" using n by simp_all
  then have "[A..<A + n] = A # [Suc A..<Suc A + k]" using upt_conv_Cons [of A "A + n"] by (simp only:)
  then have "store_all (zip [A..<A + n] (b # bs)) M = store_all (zip [Suc A..<Suc A + k] bs) (M(A := b))"
    by (simp only: zip_Cons_Cons store_all_def fold.simps comp_apply prod.case)
  also have "\<dots> = put (Suc A) bs (M(A := b))" using Cons n by (intro Cons.IH) simp
  also have "\<dots> = put A (b # bs) M"
  proof
    fix x
    show "put (Suc A) bs (M(A := b)) x = put A (b # bs) M x"
    proof (cases "Suc A \<le> x")
      case True
      then have "x - A = Suc (x - Suc A)" by simp
      with True show ?thesis by (simp add: put_def)
    qed (auto simp: put_def)
  qed
  finally show ?case .
qed

lemma prd_addrs_chunks:
  assumes "0 < c"
  shows "prd_addrs (map (\<lambda>i. (A + i * c, min c (n - i * c))) [0..<k]) = [A..<A + min n (k * c)]"
proof (induction k)
  case 0
  then show ?case by (simp add: prd_addrs_def)
next
  case (Suc k)
  have "min n (k * c) + min c (n - k * c) = min n (Suc k * c)" by simp
  moreover have "[A + k * c..<A + k * c + min c (n - k * c)] = [A + min n (k * c)..<A + min n (k * c) + min c (n - k * c)]"
    by (cases "k * c \<le> n") auto
  moreover have "[A..<A + min n (k * c)] @ [A + min n (k * c)..<A + min n (k * c) + min c (n - k * c)] =
      [A..<A + (min n (k * c) + min c (n - k * c))]"
    using upt_add_eq_append [of A "A + min n (k * c)" "min c (n - k * c)"] by (simp add: add.assoc)
  ultimately show ?case using Suc by (simp add: prd_addrs_def)
qed

lemma byte_count_field:
  assumes "byte_count \<le> 0x400000" and "0 < byte_count"
  obtains x' where "set_descriptor_byte_count x byte_count = Some x'" and "unat (x' AND 0x3FFFFF) + 1 = unat byte_count"
proof
  have m: "(0x3FFFFF :: u32) = mask 22" "(0xFFC00000 :: u32) = NOT (mask 22)"
    by (simp_all add: mask_eq_exp_minus_1)
  let ?x = "(x AND 0xFFC00000) OR (byte_count - 1)"
  show "set_descriptor_byte_count x byte_count = Some ?x" using assms by (simp add: set_descriptor_byte_count_def)
  have u: "unat (byte_count - 1) = unat byte_count - 1" using assms(2) by (simp add: unat_sub_nowrap word_less_nat_alt)
  have "?x AND 0x3FFFFF = (byte_count - 1) AND mask 22"
    unfolding m by (rule bit_word_eqI) (auto simp: bit_simps)
  also have "\<dots> = byte_count - 1"
  proof -
    have "unat (take_bit 22 (byte_count - 1)) = take_bit 22 (unat (byte_count - 1))" by (simp only: unsigned_take_bit_eq)
    also have "\<dots> = unat (byte_count - 1)"
      using assms u by (simp add: take_bit_nat_eq_self word_le_nat_alt word_less_nat_alt)
    finally show ?thesis unfolding take_bit_eq_mask [symmetric] by (simp only: word_unat_eq_iff)
  qed
  finally show "unat (?x AND 0x3FFFFF) + 1 = unat byte_count" using u assms(2) by (simp add: word_less_nat_alt)
qed

section \<open>The port\<close>

text \<open>
  \<open>idle w\<close>: no command is outstanding and the last one ended without an error. \<open>running slot n lo hi M D w\<close>:
  the command in \<open>slot\<close> was issued with memory \<open>M\<close> and disk \<open>D\<close>; it ends after at most \<open>n\<close> more reads of the CI
  register, and until then the clock reads between \<open>lo\<close> and \<open>hi\<close>, which are at most five seconds apart.

  \<open>halted ci w\<close>: the controller has stopped the port after an error (AHCI 1.3.1, 6.2.2). It keeps the commands
  \<open>ci\<close> in the CI register, where new ones can be added but none is executed, until the ST bit of the port is
  cleared, which the driver does only when it probes a port. Error bits in the interrupt status are cleared by
  writing them back; the busy bits of the task file may be set or not. Five seconds pass eventually: in
  \<open>stalled ci s n w\<close> at most \<open>n\<close> more readings of the clock are not more than five seconds after \<open>s\<close>.

  Where \<open>fails 0\<close> is false, commands do not fail. A command that takes more than five seconds and is then
  executed after all is not covered: the driver gives up on it while the device may still write to memory.
\<close>

locale ahci_port =
  fixes m :: "'w machine"
    and d :: ahci_drive
    and port :: port_registers
    and disk :: "'w \<Rightarrow> nat \<Rightarrow> u8"
    and idle :: "'w \<Rightarrow> bool"
    and running :: "nat \<Rightarrow> nat \<Rightarrow> nat \<Rightarrow> nat \<Rightarrow> (nat \<Rightarrow> u8) \<Rightarrow> (nat \<Rightarrow> u8) \<Rightarrow> 'w \<Rightarrow> bool"
    and halted :: "u32 \<Rightarrow> 'w \<Rightarrow> bool"
    and stalled :: "u32 \<Rightarrow> u64 \<Rightarrow> nat \<Rightarrow> 'w \<Rightarrow> bool"
    and fails :: "nat \<Rightarrow> bool"
    and ident :: bytes
  assumes port_law: "port_registers_new (ad_region d) (ad_port_id d) = Some port"
    and slots_law: "unat (ad_ncs d) < 32"
    and pages_law: "dp_count (ad_command_list d) = 1" "dp_count (ad_command_tables d) = 3"
      "unat (dp_phys (ad_command_list d)) + 4096 \<le> 2 ^ 52" "unat (dp_phys (ad_command_tables d)) + 3 * 4096 \<le> 2 ^ 52"
      "unat (dp_phys (ad_command_list d)) + 4096 \<le> unat (dp_phys (ad_command_tables d)) \<or>
       unat (dp_phys (ad_command_tables d)) + 3 * 4096 \<le> unat (dp_phys (ad_command_list d))"
    and geometry_law: "512 \<le> unat (ad_block_size d)" "unat (ad_block_size d) \<le> 2 ^ 25"
      "unat (ad_block_count d) \<le> 2 ^ 48" "unat (ad_block_count d) * unat (ad_block_size d) < 2 ^ 64"
    and idle_store: "idle w \<Longrightarrow> idle (mc_store m a bs w) \<and> disk (mc_store m a bs w) = disk w \<and>
      mc_mem m (mc_store m a bs w) = put a bs (mc_mem m w)"
    and idle_read: "idle w \<Longrightarrow> mc_read32 m r w = (w', v) \<Longrightarrow>
      r \<in> {pr_sact port, pr_ci port, pr_is port, pr_tfd port} \<Longrightarrow>
      idle w' \<and> disk w' = disk w \<and> mc_mem m w' = mc_mem m w \<and>
      (r = pr_sact port \<or> r = pr_ci port \<longrightarrow> v = 0) \<and> (r = pr_is port \<longrightarrow> v AND FATAL_PXIS_MASK = 0) \<and>
      (r = pr_tfd port \<longrightarrow> v AND 0x88 = 0 \<and> v AND 1 = 0)"
    and idle_ack: "idle w \<Longrightarrow> idle (mc_write32 m (pr_is port) v w) \<and> disk (mc_write32 m (pr_is port) v w) = disk w \<and>
      mc_mem m (mc_write32 m (pr_is port) v w) = mc_mem m w"
    and idle_clock: "idle w \<Longrightarrow> mc_hpet_counter m w = (w', t) \<Longrightarrow>
      idle w' \<and> disk w' = disk w \<and> mc_mem m w' = mc_mem m w"
    and issue_law: "idle w \<Longrightarrow> slot < 32 \<Longrightarrow>
      \<exists>n lo hi. hi - lo \<le> 5000000000 \<and>
        running slot n lo hi (mc_mem m w) (disk w) (mc_write32 m (pr_ci port) (push_bit slot 1) w)"
    and running_clock: "running slot n lo hi M D w \<Longrightarrow> passed_nanos m w = (w', t) \<Longrightarrow>
      lo \<le> unat t \<and> unat t \<le> hi \<and>
      (running slot n (unat t) hi M D w' \<or>
       hba_settled (unat (ad_block_size d)) ident (hba_fetch M (unat (dp_phys (ad_command_list d))) slot) M D
         (idle w') (halted (push_bit slot 1) w') (mc_mem m w') (disk w'))"
    and running_poll: "running slot n lo hi M D w \<Longrightarrow> mc_read32 m (pr_ci port) w = (w', v) \<Longrightarrow>
      (\<exists>n' < n. running slot n' lo hi M D w') \<and> bit v slot \<or>
      hba_settled (unat (ad_block_size d)) ident (hba_fetch M (unat (dp_phys (ad_command_list d))) slot) M D
        (idle w' \<and> \<not> bit v slot) (halted (push_bit slot 1) w' \<and> bit v slot) (mc_mem m w') (disk w')"
    and halted_fails: "halted ci w \<Longrightarrow> fails 0"
    and halted_store: "halted ci w \<Longrightarrow> halted ci (mc_store m a bs w) \<and> disk (mc_store m a bs w) = disk w \<and>
      mc_mem m (mc_store m a bs w) = put a bs (mc_mem m w)"
    and halted_ack: "halted ci w \<Longrightarrow> halted ci (mc_write32 m (pr_is port) v w) \<and>
      disk (mc_write32 m (pr_is port) v w) = disk w \<and> mc_mem m (mc_write32 m (pr_is port) v w) = mc_mem m w"
    and halted_issue: "halted ci w \<Longrightarrow> halted (ci OR v) (mc_write32 m (pr_ci port) v w) \<and>
      disk (mc_write32 m (pr_ci port) v w) = disk w \<and> mc_mem m (mc_write32 m (pr_ci port) v w) = mc_mem m w"
    and halted_stalls: "halted ci w \<Longrightarrow> \<exists>n. stalled ci s n w"
    and stalled_halted: "stalled ci s n w \<Longrightarrow> halted ci w"
    and stalled_read: "stalled ci s n w \<Longrightarrow> mc_read32 m r w = (w', v) \<Longrightarrow>
      r \<in> {pr_sact port, pr_ci port, pr_tfd port} \<Longrightarrow>
      stalled ci s n w' \<and> disk w' = disk w \<and> mc_mem m w' = mc_mem m w \<and>
      (r = pr_sact port \<longrightarrow> v = 0) \<and> (r = pr_ci port \<longrightarrow> v = ci)"
    and stalled_clock: "stalled ci s n w \<Longrightarrow> passed_nanos m w = (w', t) \<Longrightarrow>
      halted ci w' \<and> disk w' = disk w \<and> mc_mem m w' = mc_mem m w \<and>
      (5000000000 < t - s \<or> (\<exists>n' < n. stalled ci s n' w'))"
begin

lemma sat_reg_read:
  "sat (reg_read m r w) Q E \<longleftrightarrow> (case mc_read32 m r w of (w, v) \<Rightarrow> Q v w)"
  by (simp add: reg_read_def split: prod.splits)

lemma reg_test_eq: "mc_read32 m r w = (w', v) \<Longrightarrow> reg_test m r p w = (w', p v)"
  by (simp add: reg_test_def)

lemma sat_reg_write: "sat (reg_write m r v w) Q E \<longleftrightarrow> Q () (mc_write32 m r v w)"
  by (simp add: reg_write_def)

lemma sat_wait_or:
  "sat (wait_or e r) Q E \<longleftrightarrow> (case r of None \<Rightarrow> False | Some (w, b) \<Rightarrow> if b then Q () w else E e w)"
  by (simp add: wait_or_def split: option.splits prod.splits)

lemma timeout_nanos: "to_nanos TIMEOUT = 5000000000"
  by (simp add: to_nanos_def TIMEOUT_def)

abbreviation keeps :: "'w \<Rightarrow> 'w \<Rightarrow> bool" where
  "keeps w w' \<equiv> idle w' \<and> disk w' = disk w \<and> mc_mem m w' = mc_mem m w"

abbreviation hkeeps :: "u32 \<Rightarrow> 'w \<Rightarrow> 'w \<Rightarrow> bool" where
  "hkeeps ci w w' \<equiv> halted ci w' \<and> disk w' = disk w \<and> mc_mem m w' = mc_mem m w"

abbreviation settled :: "nat \<Rightarrow> (nat \<Rightarrow> u8) \<Rightarrow> (nat \<Rightarrow> u8) \<Rightarrow> 'w \<Rightarrow> bool" where
  "settled slot M D w \<equiv>
     hba_settled (unat (ad_block_size d)) ident (hba_fetch M (unat (dp_phys (ad_command_list d))) slot) M D
       (idle w) (halted (push_bit slot 1) w) (mc_mem m w) (disk w)"

abbreviation stopped :: "'w \<Rightarrow> bool" where
  "stopped w \<equiv> \<exists>ci. halted ci w"

text \<open>A condition on the state that writing to memory keeps, with the effect of writing.\<close>

abbreviation stable :: "('w \<Rightarrow> bool) \<Rightarrow> bool" where
  "stable G \<equiv> \<forall>w a bs. G w \<longrightarrow> G (mc_store m a bs w) \<and> disk (mc_store m a bs w) = disk w \<and>
     mc_mem m (mc_store m a bs w) = put a bs (mc_mem m w)"

lemma stable_idle: "stable idle"
  using idle_store by blast

lemma stable_halted: "stable (halted ci)"
  using halted_store by blast

lemma find_slot_law:
  assumes "idle w"
  shows "sat (find_slot m port (ad_ncs d) w) (\<lambda>slot w'. slot = Some 0 \<and> keeps w w') E"
proof -
  obtain w1 v1 where 1: "mc_read32 m (pr_sact port) w = (w1, v1)" by force
  obtain w2 v2 where 2: "mc_read32 m (pr_ci port) w1 = (w2, v2)" by force
  have k: "keeps w w1" "v1 = 0" using idle_read [OF assms 1] by auto
  have "keeps w w2" "v2 = 0" using idle_read [OF _ 2] k by auto
  moreover have "upto_incl 0 (ad_ncs d) = 0 # tl (upto_incl 0 (ad_ncs d))"
    unfolding upto_incl_def by (subst (1 2) upt_conv_Cons) simp_all
  then have "find (\<lambda>i :: u8. True) (upto_incl 0 (ad_ncs d)) = Some 0" by (metis find.simps(2))
  ultimately show ?thesis using k
    by (simp add: find_slot_def sat_reg_read 1 2)
qed

lemma wait_ready_law:
  assumes "idle w"
  obtains w' where "wait_timeout m (reg_test m (pr_tfd port) (\<lambda>v. v AND 0x88 \<noteq> 0)) t w = Some (w', True)" "keeps w w'"
proof -
  obtain w1 r where 1: "mc_hpet_counter m w = (w1, r)" by force
  obtain w2 v where 2: "mc_read32 m (pr_tfd port) w1 = (w2, v)" by force
  have k: "keeps w w1" using idle_clock [OF assms 1] by simp
  then have "keeps w w2" "v AND 0x88 = 0" using idle_read [OF _ 2] by auto
  then show ?thesis
    by (intro that [of w2])
      (simp_all add: wait_timeout_def passed_nanos_def 1 wait_timeout_loop.simps reg_test_def 2)
qed

subsection \<open>A port that has stopped\<close>

lemma halted_read:
  assumes "halted ci w" and "mc_read32 m r w = (w', v)" and "r \<in> {pr_sact port, pr_ci port, pr_tfd port}"
  shows "hkeeps ci w w'" "r = pr_sact port \<longrightarrow> v = 0" "r = pr_ci port \<longrightarrow> v = ci"
proof -
  obtain n where "stalled ci 0 n w" using halted_stalls [OF assms(1)] by blast
  from stalled_read [OF this assms(2,3)] stalled_halted
  show "hkeeps ci w w'" "r = pr_sact port \<longrightarrow> v = 0" "r = pr_ci port \<longrightarrow> v = ci" by blast+
qed

lemma stalled_wait:
  assumes "stalled ci s n w" and "r \<in> {pr_ci port, pr_tfd port}"
  shows "\<exists>w' b. wait_timeout_loop m (reg_test m r p) s (to_nanos TIMEOUT) w = Some (w', b) \<and> hkeeps ci w w' \<and>
    (r = pr_ci port \<and> p ci \<longrightarrow> \<not> b)"
  using assms(1)
proof (induction n arbitrary: w rule: less_induct)
  case (less n)
  obtain w1 v where 1: "mc_read32 m r w = (w1, v)" by force
  have s1: "stalled ci s n w1" "disk w1 = disk w" "mc_mem m w1 = mc_mem m w" "r = pr_ci port \<longrightarrow> v = ci"
    using stalled_read [OF less.prems 1] assms(2) by auto
  obtain w2 t where 2: "passed_nanos m w1 = (w2, t)" by force
  have s2: "hkeeps ci w w2" "5000000000 < t - s \<or> (\<exists>n' < n. stalled ci s n' w2)"
    using stalled_clock [OF s1(1) 2] s1 by auto
  have eq: "wait_timeout_loop m (reg_test m r p) s (to_nanos TIMEOUT) w =
      (if p v then if 5000000000 < t - s then Some (w2, False) else wait_timeout_loop m (reg_test m r p) s (to_nanos TIMEOUT) w2
       else Some (w1, True))"
    by (subst wait_timeout_loop.simps) (simp add: reg_test_eq [OF 1] 2 timeout_nanos)
  show ?case
  proof (cases "p v \<and> \<not> 5000000000 < t - s")
    case True
    then obtain n' where n': "n' < n" "stalled ci s n' w2" using s2(2) by blast
    obtain w' b where "wait_timeout_loop m (reg_test m r p) s (to_nanos TIMEOUT) w2 = Some (w', b)" "hkeeps ci w2 w'"
      "r = pr_ci port \<and> p ci \<longrightarrow> \<not> b" using less.IH [OF n'] by blast
    then show ?thesis using True s2(1) by (simp add: eq)
  next
    case False
    then show ?thesis using s1 s2(1) stalled_halted [OF s1(1)] by (auto simp: eq)
  qed
qed

lemma halted_clock:
  assumes "halted ci w" and "passed_nanos m w = (w', t)"
  shows "hkeeps ci w w'"
proof -
  obtain n where "stalled ci 0 n w" using halted_stalls [OF assms(1)] by blast
  from stalled_clock [OF this assms(2)] show ?thesis by blast
qed

lemma halted_wait:
  assumes "halted ci w" and "r \<in> {pr_ci port, pr_tfd port}"
  shows "\<exists>w' b. wait_timeout m (reg_test m r p) TIMEOUT w = Some (w', b) \<and> hkeeps ci w w' \<and>
    (r = pr_ci port \<and> p ci \<longrightarrow> \<not> b)"
proof -
  obtain w1 s where 1: "passed_nanos m w = (w1, s)" by force
  note h = halted_clock [OF assms(1) 1]
  then obtain n where "stalled ci s n w1" using halted_stalls by blast
  from stalled_wait [OF this assms(2), of p] show ?thesis using h by (simp add: wait_timeout_def 1)
qed

subsection \<open>Waiting for a command\<close>

abbreviation ci_test :: "nat \<Rightarrow> 'w \<Rightarrow> 'w \<times> bool" where
  "ci_test slot \<equiv> reg_test m (pr_ci port) (\<lambda>v. drop_bit slot v AND 1 = 1)"

lemma ci_bit: "drop_bit slot v AND 1 = (1 :: u32) \<longleftrightarrow> bit v slot"
  by (simp add: bit_iff_odd_drop_bit and_one_eq odd_iff_mod_2_eq_one)

text \<open>What waiting for the command in \<open>slot\<close> ends in.\<close>

abbreviation waited :: "nat \<Rightarrow> (nat \<Rightarrow> u8) \<Rightarrow> (nat \<Rightarrow> u8) \<Rightarrow> ('w \<times> bool) option \<Rightarrow> bool" where
  "waited slot M D r \<equiv>
     \<exists>w' b. r = Some (w', b) \<and>
       hba_settled (unat (ad_block_size d)) ident (hba_fetch M (unat (dp_phys (ad_command_list d))) slot) M D
         (idle w' \<and> b) (halted (push_bit slot 1) w' \<and> \<not> b) (mc_mem m w') (disk w')"

lemma settled_wait:
  assumes "settled slot M D w" and "slot < 32"
  shows "waited slot M D (wait_timeout_loop m (ci_test slot) s (to_nanos TIMEOUT) w)"
proof -
  let ?c = "hba_fetch M (unat (dp_phys (ad_command_list d))) slot"
  consider (idle) "idle w" "(mc_mem m w, disk w) = hba_exec (unat (ad_block_size d)) ident ?c M D"
    | (halted) "halted (push_bit slot 1) w" "hba_frame (unat (ad_block_size d)) ?c M D (mc_mem m w) (disk w)"
    using assms(1) unfolding hba_settled_def by blast
  then show ?thesis
  proof cases
    case idle
    obtain w1 v where 1: "mc_read32 m (pr_ci port) w = (w1, v)" by force
    have "keeps w w1" "v = 0" using idle_read [OF idle(1) 1] by auto
    moreover from this have "wait_timeout_loop m (ci_test slot) s (to_nanos TIMEOUT) w = Some (w1, True)"
      by (subst wait_timeout_loop.simps) (simp add: reg_test_eq [OF 1])
    ultimately show ?thesis using idle(2) by (auto simp: hba_settled_def)
  next
    case halted
    obtain n where n: "stalled (push_bit slot 1) s n w" using halted_stalls [OF halted(1)] by blast
    have "bit (push_bit slot 1 :: u32) slot" using assms(2) by (simp add: bit_simps)
    then obtain w' where "wait_timeout_loop m (ci_test slot) s (to_nanos TIMEOUT) w = Some (w', False)"
        "hkeeps (push_bit slot 1) w w'"
      using stalled_wait [OF n, of "pr_ci port" "\<lambda>v. drop_bit slot v AND 1 = 1"] ci_bit by auto
    then show ?thesis using halted(2) by (auto simp: hba_settled_def)
  qed
qed

lemma poll_law:
  assumes "running slot n lo hi M D w" and "slot < 32" and "lo' \<le> lo" and "hi - lo' \<le> 5000000000" and "unat start = lo'"
  shows "waited slot M D (wait_timeout_loop m (ci_test slot) start (to_nanos TIMEOUT) w)"
  using assms(1,3)
proof (induction n arbitrary: lo w rule: less_induct)
  case (less n)
  obtain w1 v where 1: "mc_read32 m (pr_ci port) w = (w1, v)" by force
  obtain w2 t where 2: "passed_nanos m w1 = (w2, t)" by force
  have eq: "wait_timeout_loop m (ci_test slot) start (to_nanos TIMEOUT) w =
      (if bit v slot then if 5000000000 < t - start then Some (w2, False)
         else wait_timeout_loop m (ci_test slot) start (to_nanos TIMEOUT) w2
       else Some (w1, True))"
    by (subst wait_timeout_loop.simps) (simp add: reg_test_eq [OF 1] 2 timeout_nanos ci_bit)
  let ?c = "hba_fetch M (unat (dp_phys (ad_command_list d))) slot"
  consider (running) n' where "n' < n" "running slot n' lo hi M D w1" "bit v slot"
    | (idle) "idle w1" "\<not> bit v slot" "(mc_mem m w1, disk w1) = hba_exec (unat (ad_block_size d)) ident ?c M D"
    | (halted) "halted (push_bit slot 1) w1" "bit v slot" "hba_frame (unat (ad_block_size d)) ?c M D (mc_mem m w1) (disk w1)"
    using running_poll [OF less.prems(1) 1] unfolding hba_settled_def by blast
  then show ?case
  proof cases
    case running
    have t: "lo \<le> unat t" "unat t \<le> hi" "running slot n' (unat t) hi M D w2 \<or> settled slot M D w2"
      using running_clock [OF running(2) 2] by auto
    have "unat (t - start) = unat t - lo'" using t(1) less.prems(2) assms(5) by (simp add: unat_sub_nowrap)
    then have late: "\<not> 5000000000 < t - start" using t(2) assms(4) by (simp add: word_less_nat_alt)
    have "lo' \<le> unat t" using t(1) less.prems(2) by simp
    with t(3) have "waited slot M D (wait_timeout_loop m (ci_test slot) start (to_nanos TIMEOUT) w2)"
      using less.IH [OF running(1)] settled_wait [OF _ assms(2)] by blast
    then show ?thesis using late running(3) by (simp add: eq)
  next
    case idle
    then show ?thesis by (auto simp: eq hba_settled_def)
  next
    case halted
    then have "settled slot M D w1" by (simp add: hba_settled_def)
    then have "waited slot M D (wait_timeout_loop m (ci_test slot) start (to_nanos TIMEOUT) w2)"
      using halted_clock [OF halted(1) 2] halted(3)
      by (intro settled_wait [OF _ assms(2)]) (simp add: hba_settled_def)
    moreover have "hkeeps (push_bit slot 1) w1 w2" by (rule halted_clock [OF halted(1) 2])
    ultimately show ?thesis using halted(2,3) by (auto simp: eq hba_settled_def)
  qed
qed

end

end
