(* ===== verification/Ahci_Laws.thy ===== *)
theory Ahci_Laws
  imports Ahci_Device
begin

text \<open>
  The laws of the driver on a port that behaves as specified: what a command leaves in memory for the
  controller is what the controller reads, a command ends, and the transfer loops split a request into
  commands that together move exactly the blocks asked for. With them a drive keeps the contract of a
  block device.
\<close>

section \<open>Encodings\<close>

lemma le_bytes_ucast:
  assumes "8 * n \<le> LENGTH('b)"
  shows "le_bytes n (ucast (w :: 'a::len word) :: 'b::len word) = le_bytes n w"
proof (rule nth_equalityI)
  fix i assume "i < length (le_bytes n (ucast w :: 'b word))"
  then have i: "i < n" by simp
  then have "ucast (drop_bit (8 * i) (ucast w :: 'b word)) = (ucast (drop_bit (8 * i) w) :: u8)"
    using assms by (intro bit_word_eqI) (auto simp: bit_simps)
  with i show "le_bytes n (ucast w :: 'b word) ! i = le_bytes n w ! i" by (simp add: le_bytes_nth)
qed simp

lemma split_address: "le_bytes 4 (ucast x :: u32) @ le_bytes 4 (ucast (drop_bit 32 x) :: u32) = le_bytes 8 (x :: u64)"
proof -
  have "le_bytes 8 x = le_bytes 4 x @ le_bytes 4 (drop_bit 32 x)" using le_bytes_append [of 4 4 x] by simp
  moreover have "le_bytes 4 (ucast x :: u32) = le_bytes 4 x" by (rule le_bytes_ucast) simp
  moreover have "le_bytes 4 (ucast (drop_bit 32 x) :: u32) = le_bytes 4 (drop_bit 32 x)" by (rule le_bytes_ucast) simp
  ultimately show ?thesis by (simp only:)
qed

lemma fis_info_fields:
  "fis_info_set 0 5 b AND 0x1F = 5" "bit (fis_info_set 0 5 b) 6 = b"
proof -
  have "fis_info_set 0 5 b = (if b then 0x45 else 5)" by (simp add: fis_info_set_def)
  then show "fis_info_set 0 5 b AND 0x1F = 5" "bit (fis_info_set 0 5 b) 6 = b"
    by (simp_all add: bit_iff_odd_drop_bit)
qed

lemma length_fis [simp]: "length (fis_to_bytes (fis_register_h2d_new a c f l n i k)) = 20"
  by (simp add: fis_to_bytes_def fis_register_h2d_new_def)

lemma fis_command_byte: "fis_to_bytes (fis_register_h2d_new a c f l n i k) ! 2 = c"
  by (simp add: fis_to_bytes_def fis_register_h2d_new_def)

lemma fis_lba:
  assumes "unat l < 2 ^ 48"
  shows "ata_lba (fis_to_bytes (fis_register_h2d_new a c f l n i k)) = unat l"
proof -
  have "[ucast l, ucast (drop_bit 8 l), ucast (drop_bit 16 l), ucast (drop_bit 24 l), ucast (drop_bit 32 l), ucast (drop_bit 40 l)] =
      le_bytes 6 l"
    by (simp add: numeral_eq_Suc drop_bit_drop_bit)
  moreover have "le_word (le_bytes 6 l) = l"
  proof (rule bit_word_eqI)
    fix j assume j: "j < LENGTH(64)"
    have "\<not> bit l j" if "48 \<le> j"
    proof -
      have "l < 2 ^ 48" using assms by (simp add: word_less_nat_alt)
      then have "take_bit 48 l = l" by (simp add: take_bit_eq_mod mod_word_less)
      then show ?thesis using that by (metis bit_take_bit_iff not_less)
    qed
    then show "bit (le_word (le_bytes 6 l) :: u64) j = bit l j"
      using j by (cases "j < 48") (auto simp: bit_le_word le_bytes_nth bit_simps div_mult_mod_eq)
  qed
  ultimately show ?thesis
    by (simp add: ata_lba_def fis_to_bytes_def fis_register_h2d_new_def nth_append)
qed

lemma fis_count:
  assumes "0 < unat x" and "unat x < 2 ^ 16"
  shows "ata_count (fis_to_bytes (fis_register_h2d_new a c f l (ucast (x :: u64)) i k)) = unat x"
proof -
  have "[ucast (ucast x :: u16), ucast (drop_bit 8 (ucast x :: u16))] = le_bytes 2 (ucast x :: u16)"
    by (simp add: numeral_eq_Suc)
  moreover have "le_word (le_bytes 2 (ucast x :: u16)) = (ucast x :: u16)" by (rule le_word_le_bytes) simp
  moreover have "unat (ucast x :: u16) = unat x" using assms(2) by (simp add: unat_ucast_mod)
  ultimately show ?thesis
    using assms(1) by (simp add: ata_count_def fis_to_bytes_def fis_register_h2d_new_def nth_append numeral_eq_Suc)
qed

section \<open>The descriptor table\<close>

text \<open>The command the driver means: \<open>n\<close> bytes at \<open>A\<close> in descriptors of at most 2 MiB.\<close>

definition driver_command :: "bool \<Rightarrow> bytes \<Rightarrow> nat \<Rightarrow> nat \<Rightarrow> hba_command" where
  "driver_command iw f A n =
     \<lparr>hc_write = iw, hc_fis = f,
      hc_prds = map (\<lambda>i. (A + i * 2 ^ 21, min (2 ^ 21) (n - i * 2 ^ 21))) [0..<(n + 2 ^ 21 - 1) div 2 ^ 21]\<rparr>"

lemma prd_count:
  assumes "unat data_bytes = n" and "n \<le> 2 ^ 25"
  shows "unat (div_ceil data_bytes PRD_MAX_BYTES) = (n + 2 ^ 21 - 1) div 2 ^ 21"
    and "(n + 2 ^ 21 - 1) div 2 ^ 21 \<le> 16"
  using assms by (simp add: unat_div_ceil PRD_MAX_BYTES_def) (use assms in \<open>intro ceil_div_least; simp\<close>)

lemma driver_command_addrs: "prd_addrs (hc_prds (driver_command iw f A n)) = [A..<A + n]"
  using ceil_div_covers [of "2 ^ 21" n] by (simp add: driver_command_def prd_addrs_chunks min_absorb1)

lemma unat_PRD_MAX [simp]: "unat PRD_MAX_BYTES = 2 ^ 21"
  by (simp add: PRD_MAX_BYTES_def)

context ahci_port
begin

text \<open>Writing one descriptor, as a function of memory.\<close>

lemma write_prd_law:
  assumes st: "stable G" and g: "G w" and n: "unat rem = n" "0 < n" and i: "unat i = k"
  shows "sat (write_prd m T i (rem, off) w)
    (\<lambda>s w'. s = (rem - min rem PRD_MAX_BYTES, off + min rem PRD_MAX_BYTES) \<and> G w' \<and> disk w' = disk w \<and>
       (\<forall>x. x \<notin> {T + 0x80 + 16 * k..<T + 0x80 + 16 * k + 16} \<longrightarrow> mc_mem m w' x = mc_mem m w x) \<and>
       prd_at (mc_mem m w') T k = (unat off, min (2 ^ 21) n)) (\<lambda>_ _. False)"
proof -
  define P where "P = T + 0x80 + 16 * k"
  define chunk where "chunk = min rem PRD_MAX_BYTES"
  have c: "unat chunk = min (2 ^ 21) n" unfolding chunk_def by (subst unat_minI [OF n(1) unat_PRD_MAX]) simp
  have c32: "unat (ucast chunk :: u32) = unat chunk" using c by (simp add: unat_ucast_mod)
  define w1 where "w1 = mc_store m P (le_bytes 8 off) w"
  have w1: "G w1" "disk w1 = disk w" "mc_mem m w1 = put P (le_bytes 8 off) (mc_mem m w)"
    using st g by (simp_all add: w1_def)
  obtain x where x: "set_descriptor_byte_count (le_word (load m (P + 12) 4 w1)) (ucast chunk) = Some x"
    "unat (x AND 0x3FFFFF) + 1 = unat (ucast chunk :: u32)"
    by (rule byte_count_field [of "ucast chunk"]) (use c c32 n(2) in \<open>auto simp: word_le_nat_alt word_less_nat_alt\<close>)
  define w2 where "w2 = mc_store m (P + 12) (le_bytes 4 x) w1"
  have w2: "G w2" "disk w2 = disk w" "mc_mem m w2 = put (P + 12) (le_bytes 4 x) (put P (le_bytes 8 off) (mc_mem m w))"
    using st w1 by (simp_all add: w2_def)
  have "write_prd m T i (rem, off) w = ok (rem - chunk, off + chunk) w2"
  proof -
    have "T + 0x80 + unat i * 16 = P" by (simp add: P_def i)
    then show ?thesis
      unfolding write_prd_def Let_def prod.case w2_def
      by (simp only: chunk_def [symmetric] w1_def [symmetric] x(1) unwrap_def option.case ques_simps)
  qed
  moreover have "prd_at (mc_mem m w2) T k = (unat off, min (2 ^ 21) n)"
  proof -
    have "slice_at (mc_mem m w2) P 8 = le_bytes 8 off" "slice_at (mc_mem m w2) (P + 12) 4 = le_bytes 4 x"
      unfolding w2(3) by (simp_all add: slice_put_outside slice_put_same)
    moreover have "le_word (le_bytes 8 off) = off" "le_word (le_bytes 4 x) = x" by (simp_all add: le_word_le_bytes)
    ultimately show ?thesis using x(2) c c32 by (simp add: prd_at_def Let_def P_def [symmetric])
  qed
  moreover have "mc_mem m w2 y = mc_mem m w y" if "y \<notin> {P..<P + 16}" for y
    using that by (auto simp: w2(3) put_def)
  ultimately show ?thesis using w2(1,2) by (simp add: chunk_def P_def)
qed

lemma prds_law:
  assumes st: "stable G" and g: "G w" and n: "unat data_bytes = n" "n \<le> 2 ^ 25" and A: "unat data = A" "A + n < 2 ^ 64"
  shows "sat (for_each (write_prd m T) (upto_excl 0 (div_ceil data_bytes PRD_MAX_BYTES)) (data_bytes, data) w)
    (\<lambda>_ w'. G w' \<and> disk w' = disk w \<and>
       (\<forall>x. x \<notin> {T + 0x80..<T + 0x180} \<longrightarrow> mc_mem m w' x = mc_mem m w x) \<and>
       (\<forall>i < unat (div_ceil data_bytes PRD_MAX_BYTES). prd_at (mc_mem m w') T i = (A + i * 2 ^ 21, min (2 ^ 21) (n - i * 2 ^ 21))))
    (\<lambda>_ _. False)"
proof -
  let ?c = "2 ^ 21 :: nat" and ?k = "unat (div_ceil data_bytes PRD_MAX_BYTES)"
  have k: "?k = (n + ?c - 1) div ?c" and k16: "?k \<le> 16" using prd_count [OF n] by simp_all
  have lt: "i * ?c < n" if "i < ?k" for i
    using ceil_div_tight [of ?c n] that k by (cases "n = 0") (auto simp: less_Suc_eq_le intro: le_less_trans [rotated])
  show ?thesis
  proof (rule sat_for_each [where I = "\<lambda>i s w'. G w' \<and> disk w' = disk w \<and>
      unat (fst s) = n - i * ?c \<and> unat (snd s) = A + min n (i * ?c) \<and>
      (\<forall>x. x \<notin> {T + 0x80..<T + 0x180} \<longrightarrow> mc_mem m w' x = mc_mem m w x) \<and>
      (\<forall>j < i. prd_at (mc_mem m w') T j = (A + j * ?c, min ?c (n - j * ?c)))"])
    show "G w \<and> disk w = disk w \<and> unat (fst (data_bytes, data)) = n - 0 * ?c \<and>
        unat (snd (data_bytes, data)) = A + min n (0 * ?c) \<and>
        (\<forall>x. x \<notin> {T + 0x80..<T + 0x180} \<longrightarrow> mc_mem m w x = mc_mem m w x) \<and>
        (\<forall>j < 0. prd_at (mc_mem m w) T j = (A + j * ?c, min ?c (n - j * ?c)))" using g n A by simp
  next
    fix i w1 and s :: "u64 \<times> u64"
    assume i: "i < length (upto_excl 0 (div_ceil data_bytes PRD_MAX_BYTES))"
      and I: "G w1 \<and> disk w1 = disk w \<and> unat (fst s) = n - i * ?c \<and> unat (snd s) = A + min n (i * ?c) \<and>
        (\<forall>x. x \<notin> {T + 0x80..<T + 0x180} \<longrightarrow> mc_mem m w1 x = mc_mem m w x) \<and>
        (\<forall>j < i. prd_at (mc_mem m w1) T j = (A + j * ?c, min ?c (n - j * ?c)))"
    have ik: "i < ?k" using i by (simp add: upto_excl_def)
    note l = lt [OF ik]
    have wi: "unat (upto_excl 0 (div_ceil data_bytes PRD_MAX_BYTES) ! i :: u64) = i"
      using i ik k16 by (simp add: upto_excl_def unat_of_nat)
    have "sat (write_prd m T (upto_excl 0 (div_ceil data_bytes PRD_MAX_BYTES) ! i) (fst s, snd s) w1)
      (\<lambda>s w'. G w' \<and> disk w' = disk w \<and> unat (fst s) = n - Suc i * ?c \<and> unat (snd s) = A + min n (Suc i * ?c) \<and>
        (\<forall>x. x \<notin> {T + 0x80..<T + 0x180} \<longrightarrow> mc_mem m w' x = mc_mem m w x) \<and>
        (\<forall>j < Suc i. prd_at (mc_mem m w') T j = (A + j * ?c, min ?c (n - j * ?c)))) (\<lambda>_ _. False)"
    proof (rule sat_mono [OF write_prd_law [where n = "n - i * ?c" and k = i, OF st]], goal_cases)
      case (5 s' w')
      have mn: "unat (min (fst s) PRD_MAX_BYTES) = min (n - i * ?c) ?c" using I by (intro unat_minI) simp_all
      have "unat (fst s') = n - Suc i * ?c"
        using 5 I mn by (simp add: unat_subI [where a = "n - i * ?c" and b = "min (n - i * ?c) ?c"])
      moreover have "unat (snd s') = A + min n (Suc i * ?c)"
      proof -
        have "unat (snd s + min (fst s) PRD_MAX_BYTES) = A + min n (i * ?c) + min (n - i * ?c) ?c"
          by (rule unat_addI) (use I mn A(2) in auto)
        with 5 show ?thesis by simp
      qed
      moreover have out: "x \<notin> {T + 0x80 + 16 * i..<T + 0x80 + 16 * i + 16}" if "x \<notin> {T + 0x80..<T + 0x180}" for x
        using that ik k16 by auto
      moreover have "prd_at (mc_mem m w') T j = (A + j * ?c, min ?c (n - j * ?c))" if "j < Suc i" for j
      proof (cases "j = i")
        case True
        then show ?thesis using 5 I l by simp
      next
        case False
        then have j: "j < i" using that by simp
        have "slice_at (mc_mem m w') (T + 0x80 + 16 * j) 8 = slice_at (mc_mem m w1) (T + 0x80 + 16 * j) 8"
          "slice_at (mc_mem m w') (T + 0x80 + 16 * j + 12) 4 = slice_at (mc_mem m w1) (T + 0x80 + 16 * j + 12) 4"
          using 5 j by (auto intro!: slice_cong)
        then have "prd_at (mc_mem m w') T j = prd_at (mc_mem m w1) T j" by (simp only: prd_at_def Let_def)
        then show ?thesis using I j by simp
      qed
      ultimately show ?case using 5 I by auto
    qed (use I wi l in auto)
    then show "sat (write_prd m T (upto_excl 0 (div_ceil data_bytes PRD_MAX_BYTES) ! i) s w1)
      (\<lambda>s w'. G w' \<and> disk w' = disk w \<and> unat (fst s) = n - Suc i * ?c \<and> unat (snd s) = A + min n (Suc i * ?c) \<and>
        (\<forall>x. x \<notin> {T + 0x80..<T + 0x180} \<longrightarrow> mc_mem m w' x = mc_mem m w x) \<and>
        (\<forall>j < Suc i. prd_at (mc_mem m w') T j = (A + j * ?c, min ?c (n - j * ?c)))) (\<lambda>_ _. False)" by simp
  qed (auto simp: upto_excl_def)
qed

section \<open>One command\<close>

abbreviation clb :: nat where "clb \<equiv> unat (dp_phys (ad_command_list d))"
abbreviation ctb :: nat where "ctb \<equiv> unat (dp_phys (ad_command_tables d))"
abbreviation bsize :: nat where "bsize \<equiv> unat (ad_block_size d)"

abbreviation command_area :: "nat set" where
  "command_area \<equiv> {ctb..<ctb + 3 * 4096} \<union> {clb..<clb + 4096}"

lemma issue_command_law:
  assumes g: "idle w" and s: "slot < 32"
  shows "sat (issue_command m port slot w)
    (\<lambda>_ w'. idle w' \<and> (mc_mem m w', disk w') = hba_exec bsize ident (hba_fetch (mc_mem m w) clb (unat slot)) (mc_mem m w) (disk w))
    (\<lambda>_ w'. halted (push_bit (unat slot) 1) w' \<and>
       hba_frame bsize (hba_fetch (mc_mem m w) clb (unat slot)) (mc_mem m w) (disk w) (mc_mem m w') (disk w'))"
proof -
  have sl: "unat slot < 32" "unat slot mod 32 = unat slot" using s by (simp_all add: word_less_nat_alt)
  define w1 where "w1 = mc_write32 m (pr_is port) (-1) w"
  have w1: "idle w1" "disk w1 = disk w" "mc_mem m w1 = mc_mem m w" using idle_ack [OF g] by (simp_all add: w1_def)
  obtain w2 where w2: "wait_timeout m (reg_test m (pr_tfd port) (\<lambda>v. v AND 0x88 \<noteq> 0)) TIMEOUT w1 = Some (w2, True)"
    "keeps w1 w2" by (rule wait_ready_law [OF w1(1)])
  define w3 where "w3 = mc_write32 m (pr_ci port) (push_bit (unat slot) 1) w2"
  obtain n lo hi where r: "hi - lo \<le> 5000000000" "running (unat slot) n lo hi (mc_mem m w) (disk w) w3"
    using issue_law [of w2 "unat slot"] w2(2) w1 sl(1) by (auto simp: w3_def)
  obtain wt t where t: "passed_nanos m w3 = (wt, t)" by force
  have rt: "lo \<le> unat t" "unat t \<le> hi"
    "running (unat slot) n (unat t) hi (mc_mem m w) (disk w) wt \<or> settled (unat slot) (mc_mem m w) (disk w) wt"
    using running_clock [OF r(2) t] by auto
  have hl: "hi - unat t \<le> 5000000000" using r(1) rt(1) by linarith
  obtain w4 b where w4: "wait_timeout_loop m (ci_test (unat slot)) t (to_nanos TIMEOUT) wt = Some (w4, b)"
    "hba_settled bsize ident (hba_fetch (mc_mem m w) clb (unat slot)) (mc_mem m w) (disk w)
       (idle w4 \<and> b) (halted (push_bit (unat slot) 1) w4 \<and> \<not> b) (mc_mem m w4) (disk w4)"
    using rt(3) poll_law [OF _ sl(1) order_refl hl refl] settled_wait [OF _ sl(1)] by blast
  have wt: "wait_timeout m (ci_test (unat slot)) TIMEOUT w3 = Some (w4, b)"
    unfolding wait_timeout_def t prod.case by (rule w4(1))
  obtain w5 v where w5: "mc_read32 m (pr_is port) w4 = (w5, v)" by force
  define w6 where "w6 = mc_write32 m (pr_is port) (-1) w5"
  obtain w7 u where w7: "mc_read32 m (pr_tfd port) w6 = (w7, u)" by force
  have eq: "issue_command m port slot w =
      (if b then if v AND FATAL_PXIS_MASK \<noteq> 0 then err CommandFailed w6 else if u AND 1 \<noteq> 0 then err CommandFailed w7 else ok () w7
       else err Timeout w4)"
    unfolding issue_command_def reg_write_def reg_read_def sl(2) ques_simps w1_def [symmetric] w2(1) wait_or_def
      option.case prod.case if_True w3_def [symmetric] wt
    by (cases b) (simp_all add: w5 w6_def [symmetric] w7)
  show ?thesis
  proof (cases b)
    case True
    then have i: "idle w4" "(mc_mem m w4, disk w4) = hba_exec bsize ident (hba_fetch (mc_mem m w) clb (unat slot)) (mc_mem m w) (disk w)"
      using w4(2) by (simp_all add: hba_settled_def)
    have k5: "keeps w4 w5" "v AND FATAL_PXIS_MASK = 0" using idle_read [OF i(1) w5] by auto
    then have "keeps w4 w6" using idle_ack [of w5] by (simp add: w6_def)
    then have "keeps w4 w7" "u AND 1 = 0" using idle_read [OF _ w7] by auto
    then show ?thesis using True k5(2) i(2) by (simp add: eq)
  next
    case False
    then show ?thesis using w4(2) by (simp add: eq hba_settled_def)
  qed
qed

text \<open>On a port that has stopped, no command is executed and each one fails.\<close>

lemma issue_halted:
  assumes "halted ci w" and s: "slot < 32"
  shows "sat (issue_command m port slot w) (\<lambda>_ _. False)
    (\<lambda>_ w'. (\<exists>ci. halted ci w') \<and> disk w' = disk w \<and> mc_mem m w' = mc_mem m w)"
proof -
  have sl: "unat slot < 32" "unat slot mod 32 = unat slot" using s by (simp_all add: word_less_nat_alt)
  define w1 where "w1 = mc_write32 m (pr_is port) (-1) w"
  have w1: "hkeeps ci w w1" using halted_ack [OF assms(1)] by (simp add: w1_def)
  obtain w2 b where w2: "wait_timeout m (reg_test m (pr_tfd port) (\<lambda>v. v AND 0x88 \<noteq> 0)) TIMEOUT w1 = Some (w2, b)" "hkeeps ci w w2"
    using halted_wait [of ci w1 "pr_tfd port"] w1 by fastforce
  define w3 where "w3 = mc_write32 m (pr_ci port) (push_bit (unat slot) 1) w2"
  have w3: "hkeeps (ci OR push_bit (unat slot) 1) w w3" using halted_issue [of ci w2] w2(2) by (simp add: w3_def)
  have "bit (ci OR push_bit (unat slot) 1) (unat slot)" using sl(1) by (simp add: bit_simps)
  then obtain w4 where w4: "wait_timeout m (ci_test (unat slot)) TIMEOUT w3 = Some (w4, False)"
      "hkeeps (ci OR push_bit (unat slot) 1) w w4"
    using halted_wait [of _ w3 "pr_ci port" "\<lambda>v. drop_bit (unat slot) v AND 1 = 1"] w3 ci_bit by fastforce
  have "issue_command m port slot w = (if b then err Timeout w4 else err CommandFailed w2)"
    unfolding issue_command_def reg_write_def reg_read_def sl(2) ques_simps w1_def [symmetric] w2(1) wait_or_def
      option.case prod.case
    by (cases b) (simp_all only: if_True if_False ques_simps w3_def [symmetric] w4(1) option.case prod.case)
  then show ?thesis using w2(2) w4(2) by auto
qed

lemma fetched_header:
  fixes x :: u64 and p :: u64
  assumes h: "slice_at M (clb + 32 * 0) 32 = command_header_bytes (command_header_zeroed
      \<lparr>ch_fis_info := fis_info_set 0 5 iw, ch_cmd_table_base_addr_lower := ucast x,
       ch_cmd_table_base_addr_upper := ucast (drop_bit 32 x), ch_prd_table_len := ucast p\<rparr>)"
    and p: "unat p < 2 ^ 16"
  shows "hba_fetch M clb 0 =
    \<lparr>hc_write = iw, hc_fis = slice_at M (unat x) 20, hc_prds = map (prd_at M (unat x)) [0..<unat p]\<rparr>"
proof -
  let ?h = "fis_info_set 0 5 iw # 0 # le_bytes 2 (ucast p :: u16) @ le_bytes 4 (0 :: u32) @ le_bytes 8 x @ replicate 16 0"
  have h': "slice_at M (clb + 32 * 0) 32 = ?h"
    unfolding h command_header_bytes_def command_header_zeroed_def by (simp flip: split_address)
  have "take 8 (drop 8 ?h) = le_bytes 8 x" "take 2 (drop 2 ?h) = le_bytes 2 (ucast p :: u16)" by (simp_all add: drop_Cons')
  moreover have "le_word (le_bytes 8 x) = x" "le_word (le_bytes 2 (ucast p :: u16)) = (ucast p :: u16)"
    by (simp_all add: le_word_le_bytes)
  moreover have "unat (ucast p :: u16) = unat p" using p by (simp add: unat_ucast_mod)
  moreover have "4 * unat (fis_info_set 0 5 iw AND 0x1F) = 20" by (simp add: fis_info_fields)
  ultimately show ?thesis
    unfolding hba_fetch_def h' Let_def by (simp only: nth_Cons_0 fis_info_fields(2))
qed

lemma fill_slot_law:
  assumes g: "idle w" and f: "length (fis_to_bytes fis) = 20"
    and n: "unat data_bytes = n" "n \<le> 2 ^ 25" and A: "unat data = A" "A + n < 2 ^ 64"
  shows "sat (fill_slot m d 0 fis data data_bytes iw w)
    (\<lambda>_ w'. idle w' \<and> disk w' = disk w \<and>
       (\<forall>x. x \<notin> {ctb..<ctb + 0x180} \<and> x \<notin> {clb..<clb + 32} \<longrightarrow> mc_mem m w' x = mc_mem m w x) \<and>
       hba_fetch (mc_mem m w') clb 0 = driver_command iw (fis_to_bytes fis) A n)
    (\<lambda>_ _. False)"
proof -
  let ?np = "div_ceil data_bytes PRD_MAX_BYTES"
  define hdr where "hdr = command_header_bytes (command_header_zeroed
      \<lparr>ch_fis_info := fis_info_set 0 5 iw, ch_cmd_table_base_addr_lower := ucast (dp_phys (ad_command_tables d)),
       ch_cmd_table_base_addr_upper := ucast (drop_bit 32 (dp_phys (ad_command_tables d))), ch_prd_table_len := ucast ?np\<rparr>)"
  have lh: "length hdr = 32" by (simp add: hdr_def command_header_bytes_def command_header_zeroed_def)
  define w1 where "w1 = mc_store m ctb (replicate 128 0) w"
  define w2 where "w2 = mc_store m ctb (fis_to_bytes fis @ replicate 44 0) w1"
  have w1: "idle w1" "disk w1 = disk w" "mc_mem m w1 = put ctb (replicate 128 0) (mc_mem m w)"
    using idle_store [OF g] by (simp_all add: w1_def)
  have w2: "idle w2" "disk w2 = disk w" "mc_mem m w2 = put ctb (fis_to_bytes fis @ replicate 44 0) (mc_mem m w1)"
    using idle_store [OF w1(1)] w1(2) by (simp_all add: w2_def)
  have d1: "dma_write m (ad_command_tables d) 0 (replicate 128 0) w = ok () w1"
    by (simp add: dma_write_def pages_law(2) w1_def PAGE_SIZE_def)
  have d2: "dma_write m (ad_command_list d) 0 hdr v = ok () (mc_store m clb hdr v)" for v
    by (simp add: dma_write_def pages_law(1) PAGE_SIZE_def lh)
  have eq: "fill_slot m d 0 fis data data_bytes iw w =
      ques (for_each (write_prd m ctb) (upto_excl 0 ?np) (data_bytes, data) w2) (\<lambda>_ w.
        map_err (\<lambda>_. CommandFailed) (dma_write m (ad_command_list d) 0 hdr w))"
    using d1 by (simp add: fill_slot_def Let_def hdr_def [symmetric] w2_def [symmetric])
  have np: "unat ?np < 2 ^ 16" using prd_count [OF n] by simp
  show ?thesis
    unfolding eq sat_ques
  proof (rule sat_mono [OF prds_law [OF stable_idle w2(1) n A]], goal_cases)
    case (1 s w3)
    define w4 where "w4 = mc_store m clb hdr w3"
    have w4: "idle w4" "disk w4 = disk w" "mc_mem m w4 = put clb hdr (mc_mem m w3)"
      using idle_store [of w3] 1 w2(2) by (simp_all add: w4_def)
    have far: "\<And>x. ctb \<le> x \<Longrightarrow> x < ctb + 0x180 \<Longrightarrow> mc_mem m w4 x = mc_mem m w3 x"
      using pages_law(5) lh by (auto simp: w4(3) put_def)
    have "slice_at (mc_mem m w4) (clb + 32 * 0) 32 = hdr" using lh by (simp add: w4(3) slice_put_same)
    note f1 = fetched_header [OF this [unfolded hdr_def] np]
    have "slice_at (mc_mem m w4) ctb 20 = slice_at (mc_mem m w2) ctb 20"
      using far 1 by (intro slice_cong) auto
    also have "\<dots> = fis_to_bytes fis" unfolding w2(3) using f by (simp add: slice_put_inside [where k = 0])
    finally have f2: "slice_at (mc_mem m w4) ctb 20 = fis_to_bytes fis" .
    have f3: "prd_at (mc_mem m w4) ctb i = (A + i * 2 ^ 21, min (2 ^ 21) (n - i * 2 ^ 21))" if "i < unat ?np" for i
    proof -
      have i: "i < 16" using that prd_count [OF n] by simp
      have "slice_at (mc_mem m w4) (ctb + 0x80 + 16 * i) 8 = slice_at (mc_mem m w3) (ctb + 0x80 + 16 * i) 8"
        "slice_at (mc_mem m w4) (ctb + 0x80 + 16 * i + 12) 4 = slice_at (mc_mem m w3) (ctb + 0x80 + 16 * i + 12) 4"
        using i by (auto intro!: slice_cong far)
      then have "prd_at (mc_mem m w4) ctb i = prd_at (mc_mem m w3) ctb i" by (simp only: prd_at_def Let_def)
      then show ?thesis using 1 that by simp
    qed
    have "hba_fetch (mc_mem m w4) clb 0 = driver_command iw (fis_to_bytes fis) A n"
      unfolding f1 f2 driver_command_def using f3 prd_count(1) [OF n] by simp
    moreover have "mc_mem m w4 x = mc_mem m w x" if "x \<notin> {ctb..<ctb + 0x180}" "x \<notin> {clb..<clb + 32}" for x
      using that 1 lh f by (auto simp: w4(3) w2(3) w1(3) put_def)
    ultimately show ?case using w4(1,2) by (simp add: d2 w4_def [symmetric])
  qed auto
qed

lemma send_command_law:
  assumes g: "idle w" and f: "length (fis_to_bytes fis) = 20"
    and n: "unat data_bytes = n" "n \<le> 2 ^ 25" and A: "unat data = A" "A + n < 2 ^ 64"
  shows "sat (send_command m d fis data data_bytes iw w)
    (\<lambda>_ w'. idle w' \<and> (\<exists>M. (\<forall>x. x \<notin> command_area \<longrightarrow> M x = mc_mem m w x) \<and>
       (mc_mem m w', disk w') = hba_exec bsize ident (driver_command iw (fis_to_bytes fis) A n) M (disk w)))
    (\<lambda>_ w'. stopped w' \<and> (\<exists>M. (\<forall>x. x \<notin> command_area \<longrightarrow> M x = mc_mem m w x) \<and>
       hba_frame bsize (driver_command iw (fis_to_bytes fis) A n) M (disk w) (mc_mem m w') (disk w')))"
    (is "sat _ ?Q ?E")
proof -
  have rest: "sat (ques (fill_slot m d 0 fis data data_bytes iw v) (\<lambda>_ w. issue_command m port 0 w)) ?Q ?E"
    if v: "keeps w v" for v
    unfolding sat_ques
  proof (rule sat_mono [OF fill_slot_law [OF _ f n A]], goal_cases)
    case (2 u w1)
    show ?case
    proof (rule sat_mono [OF issue_command_law [of w1 0]], goal_cases)
      case (3 u w2)
      then show ?case using 2 v by (intro conjI exI [of _ "mc_mem m w1"]) auto
    next
      case (4 u w2)
      then show ?case using 2 v by (intro conjI exI [of _ "mc_mem m w1"]) auto
    qed (use 2 in auto)
  qed (use v in auto)
  show ?thesis
    unfolding send_command_def port_law ok_or_def option.case ques_simps sat_ques
    by (rule sat_mono [OF find_slot_law [OF g]]) (use rest in \<open>auto simp: sat_ques\<close>)
qed

section \<open>A command to a port that has stopped\<close>

lemma find_slot_halted:
  assumes "halted ci w"
  shows "sat (find_slot m port (ad_ncs d) w) (\<lambda>slot w'. (\<forall>i. slot = Some i \<longrightarrow> i < 32) \<and> hkeeps ci w w') E"
proof -
  obtain w1 v1 where 1: "mc_read32 m (pr_sact port) w = (w1, v1)" by force
  obtain w2 v2 where 2: "mc_read32 m (pr_ci port) w1 = (w2, v2)" by force
  have k: "hkeeps ci w w1" using halted_read [OF assms 1] by auto
  then have "hkeeps ci w w2" using halted_read [OF _ 2] by auto
  moreover have "i < 32" if "find P (upto_incl 0 (ad_ncs d)) = Some i" for P i
  proof -
    have "i \<in> set (upto_incl 0 (ad_ncs d))" using that by (metis find_Some_iff nth_mem)
    then show ?thesis using slots_law by (auto simp: upto_incl_def word_less_nat_alt unat_of_nat)
  qed
  ultimately show ?thesis by (simp add: find_slot_def sat_reg_read 1 2)
qed

text \<open>Filling any slot changes nothing but the driver's own pages.\<close>

lemma fill_slot_frame:
  assumes st: "stable G" and g: "G w" and f: "length (fis_to_bytes fis) = 20" and s: "slot < 32"
    and n: "unat data_bytes = n" "n \<le> 2 ^ 25" and A: "unat data = A" "A + n < 2 ^ 64"
  shows "sat (fill_slot m d slot fis data data_bytes iw w)
    (\<lambda>_ w'. G w' \<and> disk w' = disk w \<and> (\<forall>x. x \<notin> command_area \<longrightarrow> mc_mem m w' x = mc_mem m w x)) (\<lambda>_ _. False)"
proof -
  let ?np = "div_ceil data_bytes PRD_MAX_BYTES" and ?T = "ctb + unat slot * 0x180"
  have sl: "unat slot < 32" using s by (simp add: word_less_nat_alt)
  have off: "unat (ucast slot * PRD_STRIDE) = unat slot * 0x180" "unat (32 * ucast slot :: u64) = 32 * unat slot"
    using sl by (auto simp: PRD_STRIDE_def PRDS_PER_TABLE_def unat_word_ariths unat_ucast_mod)
  define hdr where "hdr = command_header_bytes (command_header_zeroed
      \<lparr>ch_fis_info := fis_info_set 0 5 iw, ch_cmd_table_base_addr_lower := ucast (dp_phys (ad_command_tables d) + ucast slot * PRD_STRIDE),
       ch_cmd_table_base_addr_upper := ucast (drop_bit 32 (dp_phys (ad_command_tables d) + ucast slot * PRD_STRIDE)), ch_prd_table_len := ucast ?np\<rparr>)"
  have lh: "length hdr = 32" by (simp add: hdr_def command_header_bytes_def command_header_zeroed_def)
  define w1 where "w1 = mc_store m ?T (replicate 128 0) w"
  define w2 where "w2 = mc_store m ?T (fis_to_bytes fis @ replicate 44 0) w1"
  have w1: "G w1" "disk w1 = disk w" "mc_mem m w1 = put ?T (replicate 128 0) (mc_mem m w)"
    using st g by (simp_all add: w1_def)
  have w2: "G w2" "disk w2 = disk w" "mc_mem m w2 = put ?T (fis_to_bytes fis @ replicate 44 0) (mc_mem m w1)"
    using st w1(1,2) by (simp_all add: w2_def)
  have d1: "dma_write m (ad_command_tables d) (ucast slot * PRD_STRIDE) (replicate 128 0) w = ok () w1"
    using sl off(1) by (simp add: dma_write_def pages_law(2) w1_def PAGE_SIZE_def word_less_nat_alt unat_word_ariths)
  have d2: "dma_write m (ad_command_list d) (32 * ucast slot) hdr v = ok () (mc_store m (clb + 32 * unat slot) hdr v)" for v
    using sl off(2) by (simp add: dma_write_def pages_law(1) PAGE_SIZE_def lh word_less_nat_alt unat_word_ariths)
  have eq: "fill_slot m d slot fis data data_bytes iw w =
      ques (for_each (write_prd m ?T) (upto_excl 0 ?np) (data_bytes, data) w2) (\<lambda>_ w.
        map_err (\<lambda>_. CommandFailed) (dma_write m (ad_command_list d) (32 * ucast slot) hdr w))"
    using d1 by (simp add: fill_slot_def Let_def hdr_def [symmetric] off(1) w2_def [symmetric])
  show ?thesis
    unfolding eq sat_ques
  proof (rule sat_mono [OF prds_law [OF st w2(1) n A]], goal_cases)
    case (1 u w3)
    define w4 where "w4 = mc_store m (clb + 32 * unat slot) hdr w3"
    have w4: "G w4" "disk w4 = disk w" "mc_mem m w4 = put (clb + 32 * unat slot) hdr (mc_mem m w3)"
      using st 1 w2(2) by (simp_all add: w4_def)
    have "mc_mem m w4 x = mc_mem m w x" if "x \<notin> command_area" for x
      using that 1 lh f sl by (auto simp: w4(3) w2(3) w1(3) put_def)
    then show ?case using w4(1,2) by (simp add: d2 w4_def [symmetric])
  qed auto
qed

lemma send_halted:
  assumes h: "stopped w" and f: "length (fis_to_bytes fis) = 20"
    and n: "unat data_bytes = n" "n \<le> 2 ^ 25" and A: "unat data = A" "A + n < 2 ^ 64"
  shows "sat (send_command m d fis data data_bytes iw w) (\<lambda>_ _. False)
    (\<lambda>_ w'. stopped w' \<and> disk w' = disk w \<and> (\<forall>x. x \<notin> command_area \<longrightarrow> mc_mem m w' x = mc_mem m w x))"
proof -
  obtain ci where ci: "halted ci w" using h by blast
  have rest: "sat (ques (fill_slot m d slot fis data data_bytes iw v) (\<lambda>_ w. issue_command m port slot w)) (\<lambda>_ _. False)
      (\<lambda>_ w'. stopped w' \<and> disk w' = disk w \<and> (\<forall>x. x \<notin> command_area \<longrightarrow> mc_mem m w' x = mc_mem m w x))"
    if v: "hkeeps ci w v" and s: "slot < 32" for v slot
    unfolding sat_ques
  proof (rule sat_mono [OF fill_slot_frame [OF stable_halted [of ci] _ f s n A]], goal_cases)
    case (2 u w1)
    show ?case by (rule sat_mono [OF issue_halted [OF _ s]]) (use 2 v in auto)
  qed (use v in auto)
  show ?thesis
    unfolding send_command_def port_law ok_or_def option.case ques_simps sat_ques
  proof (rule sat_mono [OF find_slot_halted [OF ci]], goal_cases)
    case (1 slot v)
    then show ?case using rest [of v] by (cases slot) (auto simp: sat_ques)
  qed auto
qed

end

end
