(* ===== verification/Ahci_Drive.thy ===== *)
theory Ahci_Drive
  imports Ahci_Laws
begin

text \<open>
  Transfers of any number of blocks, and the drive as a block device.
\<close>

context ahci_port
begin

section \<open>The commands of the transfer loops\<close>

lemma command_bytes:
  assumes "unat b * bsize \<le> 2 ^ 25"
  shows "unat (b * ad_block_size d) = unat b * bsize"
  using assms by (intro unat_mult_nowrap) simp

lemma read_command_law:
  assumes g: "idle w" and b: "0 < unat b" "unat b < 2 ^ 16" "unat b * bsize \<le> 2 ^ 25" and l: "unat lba < 2 ^ 48"
    and A: "unat addr + unat b * bsize < 2 ^ 64"
  shows "sat (send_command m d (fis_register_h2d_new 0x80 0x25 0 lba (ucast b) 0 0) addr (b * ad_block_size d) False w)
    (\<lambda>_ w'. idle w' \<and> disk w' = disk w \<and>
       (\<forall>k < unat b * bsize. mc_mem m w' (unat addr + k) = disk w (unat lba * bsize + k)) \<and>
       (\<forall>x. x \<notin> command_area \<and> x \<notin> {unat addr..<unat addr + unat b * bsize} \<longrightarrow> mc_mem m w' x = mc_mem m w x))
    (\<lambda>_ w'. stopped w' \<and> disk w' = disk w \<and>
       (\<forall>x. x \<notin> command_area \<and> x \<notin> {unat addr..<unat addr + unat b * bsize} \<longrightarrow> mc_mem m w' x = mc_mem m w x))"
proof (rule sat_mono [OF send_command_law [OF g _ command_bytes [OF b(3)] b(3) refl A]], goal_cases)
  case (2 u w')
  let ?c = "driver_command False (fis_to_bytes (fis_register_h2d_new 0x80 0x25 0 lba (ucast b) 0 0)) (unat addr) (unat b * bsize)"
  obtain M where M: "\<And>x. x \<notin> command_area \<Longrightarrow> M x = mc_mem m w x"
    and e: "(mc_mem m w', disk w') = hba_exec bsize ident ?c M (disk w)" using 2 by auto
  let ?D = "map (disk w) [unat lba * bsize..<unat lba * bsize + unat b * bsize]"
  have "hc_fis ?c ! 2 = 0x25" "\<not> hc_write ?c" "ata_lba (hc_fis ?c) = unat lba" "ata_count (hc_fis ?c) = unat b"
    using fis_lba [OF l] fis_count [OF b(1,2)] by (simp_all add: driver_command_def fis_command_byte)
  then have "hba_exec bsize ident ?c M (disk w) = (put (unat addr) ?D M, disk w)"
    unfolding hba_exec_def Let_def driver_command_addrs by (simp add: store_all_contiguous)
  with e have "mc_mem m w' = put (unat addr) ?D M" "disk w' = disk w" by simp_all
  then show ?case using 2 M by (auto simp: put_def)
next
  case (3 e w')
  let ?c = "driver_command False (fis_to_bytes (fis_register_h2d_new 0x80 0x25 0 lba (ucast b) 0 0)) (unat addr) (unat b * bsize)"
  have "hc_fis ?c ! 2 = 0x25" "set (prd_addrs (hc_prds ?c)) = {unat addr..<unat addr + unat b * bsize}"
    by (simp_all add: driver_command_addrs) (simp add: driver_command_def fis_command_byte)
  then show ?case using 3 by (auto simp: hba_frame_def fun_eq_iff)
qed simp

lemma write_command_law:
  assumes g: "idle w" and b: "0 < unat b" "unat b < 2 ^ 16" "unat b * bsize \<le> 2 ^ 25" and l: "unat lba < 2 ^ 48"
    and A: "unat addr + unat b * bsize < 2 ^ 64" and a: "command_area \<inter> {unat addr..<unat addr + unat b * bsize} = {}"
  shows "sat (send_command m d (fis_register_h2d_new 0x80 0x35 0 lba (ucast b) 0 0) addr (b * ad_block_size d) True w)
    (\<lambda>_ w'. idle w' \<and> (\<forall>x. x \<notin> command_area \<longrightarrow> mc_mem m w' x = mc_mem m w x) \<and>
       disk w' = (\<lambda>x. if unat lba * bsize \<le> x \<and> x < (unat lba + unat b) * bsize
          then mc_mem m w (unat addr + (x - unat lba * bsize)) else disk w x))
    (\<lambda>_ w'. stopped w' \<and> (\<forall>x. x \<notin> command_area \<longrightarrow> mc_mem m w' x = mc_mem m w x) \<and>
       (\<forall>x. x < unat lba * bsize \<or> (unat lba + unat b) * bsize \<le> x \<longrightarrow> disk w' x = disk w x))"
proof (rule sat_mono [OF send_command_law [OF g _ command_bytes [OF b(3)] b(3) refl A]], goal_cases)
  case (2 u w')
  let ?c = "driver_command True (fis_to_bytes (fis_register_h2d_new 0x80 0x35 0 lba (ucast b) 0 0)) (unat addr) (unat b * bsize)"
  obtain M where M: "\<And>x. x \<notin> command_area \<Longrightarrow> M x = mc_mem m w x"
    and e: "(mc_mem m w', disk w') = hba_exec bsize ident ?c M (disk w)" using 2 by auto
  let ?D = "map M [unat addr..<unat addr + unat b * bsize]"
  have "hc_fis ?c ! 2 = 0x35" "hc_write ?c" "ata_lba (hc_fis ?c) = unat lba" "ata_count (hc_fis ?c) = unat b"
    using fis_lba [OF l] fis_count [OF b(1,2)] by (simp_all add: driver_command_def fis_command_byte)
  then have "hba_exec bsize ident ?c M (disk w) = (M, put (unat lba * bsize) ?D (disk w))"
    unfolding hba_exec_def Let_def driver_command_addrs by (simp add: store_all_contiguous)
  with e have w': "mc_mem m w' = M" "disk w' = put (unat lba * bsize) ?D (disk w)" by simp_all
  have "disk w' x = (if unat lba * bsize \<le> x \<and> x < (unat lba + unat b) * bsize
          then mc_mem m w (unat addr + (x - unat lba * bsize)) else disk w x)" for x
  proof (cases "unat lba * bsize \<le> x \<and> x < (unat lba + unat b) * bsize")
    case True
    then have k: "x - unat lba * bsize < unat b * bsize" by (auto simp: add_mult_distrib)
    then have "unat addr + (x - unat lba * bsize) \<notin> command_area" using a by auto
    then show ?thesis using True k M by (simp add: w'(2) put_def add_mult_distrib)
  next
    case False
    then show ?thesis by (auto simp: w'(2) put_def add_mult_distrib)
  qed
  then show ?case using 2 M w'(1) by (auto simp: fun_eq_iff)
next
  case (3 e w')
  let ?c = "driver_command True (fis_to_bytes (fis_register_h2d_new 0x80 0x35 0 lba (ucast b) 0 0)) (unat addr) (unat b * bsize)"
  have "hc_write ?c" "ata_lba (hc_fis ?c) = unat lba" "ata_count (hc_fis ?c) = unat b"
    using fis_lba [OF l] fis_count [OF b(1,2)] by (simp_all add: driver_command_def)
  then show ?case using 3 by (auto simp: hba_frame_def)
qed simp

section \<open>The loops\<close>

abbreviation chunk_blocks :: "u64 \<Rightarrow> u64 \<Rightarrow> u64" where
  "chunk_blocks cnt off \<equiv> min (min (cnt - off) MAX_SECTORS_PER_CMD) (PRDS_PER_TABLE * PRD_MAX_BYTES div ad_block_size d)"

lemma chunk_facts:
  assumes "off < cnt"
  shows "0 < unat (chunk_blocks cnt off)" "unat (chunk_blocks cnt off) < 2 ^ 16"
    "unat (chunk_blocks cnt off) * bsize \<le> 2 ^ 25" "unat (chunk_blocks cnt off) \<le> unat cnt - unat off"
proof -
  have c: "unat (cnt - off) = unat cnt - unat off" using assms by (simp add: unat_sub_nowrap word_less_nat_alt)
  have p: "unat (PRDS_PER_TABLE * PRD_MAX_BYTES div ad_block_size d) = 2 ^ 25 div bsize"
    by (simp add: PRDS_PER_TABLE_def PRD_MAX_BYTES_def unat_div)
  have u: "unat (chunk_blocks cnt off) = min (min (unat cnt - unat off) 65535) (2 ^ 25 div bsize)"
    by (intro unat_minI c p) (simp add: MAX_SECTORS_PER_CMD_def)
  have "0 < 2 ^ 25 div bsize" using geometry_law(1,2) by (simp add: div_greater_zero_iff)
  moreover have "unat off < unat cnt" using assms by (simp add: word_less_nat_alt)
  ultimately show "0 < unat (chunk_blocks cnt off)" "unat (chunk_blocks cnt off) < 2 ^ 16"
    "unat (chunk_blocks cnt off) \<le> unat cnt - unat off" unfolding u by auto
  have "unat (chunk_blocks cnt off) \<le> 2 ^ 25 div bsize" unfolding u by simp
  then have "unat (chunk_blocks cnt off) * bsize \<le> 2 ^ 25 div bsize * bsize" by (rule mult_le_mono1)
  also have "\<dots> \<le> 2 ^ 25" by (rule div_times_less_eq_dividend)
  finally show "unat (chunk_blocks cnt off) * bsize \<le> 2 ^ 25" .
qed

text \<open>One turn of a loop: the command goes to the right blocks and the right place in memory.\<close>

lemma turn_facts:
  assumes o: "off < cnt" and s: "unat start + unat cnt \<le> unat (ad_block_count d)" and p: "unat phys + unat cnt * bsize \<le> 2 ^ 52"
  shows "unat (start + off) = unat start + unat off" "unat (start + off) < 2 ^ 48"
    "\<exists>a. phys_add phys (off * ad_block_size d) = Some a \<and> unat a = unat phys + unat off * bsize"
    "unat (off + chunk_blocks cnt off) = unat off + unat (chunk_blocks cnt off)"
    "unat off + unat (chunk_blocks cnt off) \<le> unat cnt"
    "unat phys + unat off * bsize + unat (chunk_blocks cnt off) * bsize \<le> unat phys + unat cnt * bsize"
proof -
  have oc: "unat off < unat cnt" using o by (simp add: word_less_nat_alt)
  note c = chunk_facts [OF o]
  have "unat start + unat off < 2 ^ 64" using oc s geometry_law(3) by simp
  then show so: "unat (start + off) = unat start + unat off" by (simp add: unat_add_nowrap)
  show "unat (start + off) < 2 ^ 48" unfolding so using oc s geometry_law(3) by linarith
  show le: "unat off + unat (chunk_blocks cnt off) \<le> unat cnt" using c(4) oc by linarith
  then show "unat (off + chunk_blocks cnt off) = unat off + unat (chunk_blocks cnt off)"
    using unat_bound [of cnt] by (intro unat_add_nowrap) simp
  have m: "unat off * bsize < unat cnt * bsize" using oc geometry_law(1) by (intro mult_strict_right_mono) auto
  have "unat cnt * bsize \<le> 2 ^ 52" using p by linarith
  from less_le_trans [OF m this] have "unat off * bsize < 2 ^ LENGTH(64)" by (rule less_trans) simp
  then have "unat (off * ad_block_size d) = unat off * bsize" by (rule unat_mult_nowrap)
  moreover have "unat phys + unat off * bsize < 2 ^ 52" using m p by linarith
  moreover from this have "unat phys + unat off * bsize < 2 ^ LENGTH(64)" by (rule less_trans) simp
  ultimately show "\<exists>a. phys_add phys (off * ad_block_size d) = Some a \<and> unat a = unat phys + unat off * bsize"
    by (auto simp: phys_add_def unat_add_nowrap)
  have "(unat off + unat (chunk_blocks cnt off)) * bsize \<le> unat cnt * bsize" using le by (rule mult_le_mono1)
  then show "unat phys + unat off * bsize + unat (chunk_blocks cnt off) * bsize \<le> unat phys + unat cnt * bsize"
    by (simp add: add_mult_distrib)
qed

lemma transfer_loop_turn:
  assumes "off < cnt" and "phys_add phys (off * ad_block_size d) = Some a"
  shows "transfer_loop m d command iw phys start cnt off w =
    ques (send_command m d (fis_register_h2d_new 0x80 command 0 (start + off) (ucast (chunk_blocks cnt off)) 0 0) a
        (chunk_blocks cnt off * ad_block_size d) iw w)
      (\<lambda>_ w. transfer_loop m d command iw phys start cnt (off + chunk_blocks cnt off) w)"
  using assms by (subst transfer_loop.simps) (simp add: Let_def unwrap_def)

lemma read_loop_law:
  assumes "idle w" and s: "unat start + unat cnt \<le> unat (ad_block_count d)" and p: "unat phys + unat cnt * bsize \<le> 2 ^ 52"
    and a: "command_area \<inter> {unat phys..<unat phys + unat cnt * bsize} = {}"
  shows "sat (transfer_loop m d 0x25 False phys start cnt off w)
    (\<lambda>_ w'. idle w' \<and> disk w' = disk w \<and>
       (\<forall>k. unat off * bsize \<le> k \<and> k < unat cnt * bsize \<longrightarrow> mc_mem m w' (unat phys + k) = disk w (unat start * bsize + k)) \<and>
       (\<forall>x. x \<notin> command_area \<and> x \<notin> {unat phys + unat off * bsize..<unat phys + unat cnt * bsize} \<longrightarrow> mc_mem m w' x = mc_mem m w x))
    (\<lambda>_ w'. stopped w' \<and> disk w' = disk w \<and>
       (\<forall>x. x \<notin> command_area \<and> x \<notin> {unat phys + unat off * bsize..<unat phys + unat cnt * bsize} \<longrightarrow> mc_mem m w' x = mc_mem m w x))"
  using assms(1)
proof (induction "unat cnt - unat off" arbitrary: off w rule: less_induct)
  case less
  show ?case
  proof (cases "off < cnt")
    case False
    then have "unat cnt * bsize \<le> unat off * bsize" by (intro mult_le_mono1) (simp add: word_less_nat_alt)
    then have "\<not> (unat off * bsize \<le> k \<and> k < unat cnt * bsize)" for k by linarith
    then show ?thesis using False less.prems by (subst transfer_loop.simps) auto
  next
    case o: True
    define B where "B = chunk_blocks cnt off"
    note c = chunk_facts [OF o, folded B_def]
    note t = turn_facts [OF o s p, folded B_def]
    obtain addr where ad: "phys_add phys (off * ad_block_size d) = Some addr" "unat addr = unat phys + unat off * bsize"
      using t(3) by blast
    have oc: "unat off < unat cnt" using o by (simp add: word_less_nat_alt)
    have A64: "unat addr + unat B * bsize < 2 ^ 64" using t(6) p ad(2) by simp
    have dist: "(unat start + unat off) * bsize = unat start * bsize + unat off * bsize"
      "(unat off + unat B) * bsize = unat off * bsize + unat B * bsize" by (simp_all add: add_mult_distrib)
    show ?thesis
      unfolding transfer_loop_turn [OF o ad(1)] B_def [symmetric] sat_ques
    proof (rule sat_mono [OF read_command_law [OF less.prems c(1-3) t(2) A64]], goal_cases)
      case (1 u w1)
      have rd: "mc_mem m w1 (unat phys + k) = disk w (unat start * bsize + k)"
        if "unat off * bsize \<le> k" "k < (unat off + unat B) * bsize" for k
      proof -
        define j where "j = k - unat off * bsize"
        have j: "k = unat off * bsize + j" "j < unat B * bsize" using that by (simp_all add: j_def dist)
        then have "mc_mem m w1 (unat addr + j) = disk w (unat (start + off) * bsize + j)" using 1 by blast
        then show ?thesis unfolding ad(2) t(1) dist j(1) by (simp add: add.assoc)
      qed
      have fr: "mc_mem m w1 x = mc_mem m w x" if "x \<notin> command_area" "x \<notin> {unat phys + unat off * bsize..<unat phys + (unat off + unat B) * bsize}" for x
        using 1 that by (simp add: ad(2) dist add.assoc)
      have "unat cnt - unat (off + B) < unat cnt - unat off" using t(4) c(1) oc by linarith
      note IH = less.hyps [OF this]
      show ?case
      proof (rule sat_mono [OF IH], goal_cases)
        case (2 u w2)
        have rd2: "mc_mem m w2 (unat phys + k) = disk w (unat start * bsize + k)"
          if k: "unat off * bsize \<le> k" "k < unat cnt * bsize" for k
        proof (cases "k < (unat off + unat B) * bsize")
          case True
          have "unat phys + k \<notin> command_area" using a k(2) by auto
          then have "mc_mem m w2 (unat phys + k) = mc_mem m w1 (unat phys + k)" using 2 True by (simp add: t(4))
          then show ?thesis using rd [OF k(1) True] by simp
        next
          case False
          then show ?thesis using 2 1 k(2) by (simp add: t(4))
        qed
        have "mc_mem m w2 x = mc_mem m w x"
          if x: "x \<notin> command_area" "x \<notin> {unat phys + unat off * bsize..<unat phys + unat cnt * bsize}" for x
        proof -
          have "x \<notin> {unat phys + unat (off + B) * bsize..<unat phys + unat cnt * bsize}"
            "x \<notin> {unat phys + unat off * bsize..<unat phys + (unat off + unat B) * bsize}"
            using x(2) t(4,6) by (auto simp: dist)
          then show ?thesis using 2 fr x(1) by auto
        qed
        then show ?case using 2 1 rd2 by auto
      next
        case (3 e w2)
        have "mc_mem m w2 x = mc_mem m w x"
          if x: "x \<notin> command_area" "x \<notin> {unat phys + unat off * bsize..<unat phys + unat cnt * bsize}" for x
        proof -
          have "x \<notin> {unat phys + unat (off + B) * bsize..<unat phys + unat cnt * bsize}"
            "x \<notin> {unat phys + unat off * bsize..<unat phys + (unat off + unat B) * bsize}"
            using x(2) t(4,6) by (auto simp: dist)
          then show ?thesis using 3 fr x(1) by auto
        qed
        then show ?case using 3 1 by auto
      qed (use 1 in auto)
    next
      case (2 e w1)
      have "x \<notin> {unat addr..<unat addr + unat B * bsize}"
        if "x \<notin> {unat phys + unat off * bsize..<unat phys + unat cnt * bsize}" for x
        using that t(6) by (auto simp: ad(2))
      then show ?case using 2 by auto
    qed
  qed
qed

lemma write_loop_law:
  assumes "idle w" and s: "unat start + unat cnt \<le> unat (ad_block_count d)" and p: "unat phys + unat cnt * bsize \<le> 2 ^ 52"
    and a: "command_area \<inter> {unat phys..<unat phys + unat cnt * bsize} = {}"
  shows "sat (transfer_loop m d 0x35 True phys start cnt off w)
    (\<lambda>_ w'. idle w' \<and> (\<forall>x. x \<notin> command_area \<longrightarrow> mc_mem m w' x = mc_mem m w x) \<and>
       disk w' = (\<lambda>x. if (unat start + unat off) * bsize \<le> x \<and> x < (unat start + unat cnt) * bsize
        then mc_mem m w (unat phys + (x - unat start * bsize)) else disk w x))
    (\<lambda>_ w'. stopped w' \<and> (\<forall>x. x \<notin> command_area \<longrightarrow> mc_mem m w' x = mc_mem m w x) \<and>
       (\<forall>x. x < unat start * bsize \<or> (unat start + unat cnt) * bsize \<le> x \<longrightarrow> disk w' x = disk w x))"
  using assms(1)
proof (induction "unat cnt - unat off" arbitrary: off w rule: less_induct)
  case less
  show ?case
  proof (cases "off < cnt")
    case False
    then have "(unat start + unat cnt) * bsize \<le> (unat start + unat off) * bsize"
      by (intro mult_le_mono1) (simp add: word_less_nat_alt)
    then have "\<not> ((unat start + unat off) * bsize \<le> k \<and> k < (unat start + unat cnt) * bsize)" for k by linarith
    then show ?thesis using False less.prems by (subst transfer_loop.simps) (auto simp: fun_eq_iff)
  next
    case o: True
    define B where "B = chunk_blocks cnt off"
    note c = chunk_facts [OF o, folded B_def]
    note t = turn_facts [OF o s p, folded B_def]
    obtain addr where ad: "phys_add phys (off * ad_block_size d) = Some addr" "unat addr = unat phys + unat off * bsize"
      using t(3) by blast
    have oc: "unat off < unat cnt" using o by (simp add: word_less_nat_alt)
    have A64: "unat addr + unat B * bsize < 2 ^ 64" using t(6) p ad(2) by simp
    have aa: "command_area \<inter> {unat addr..<unat addr + unat B * bsize} = {}"
      using a t(6) by (auto simp: ad(2))
    define s0 s1 s2 where "s0 = (unat start + unat off) * bsize" and "s1 = (unat start + unat off + unat B) * bsize"
      and "s2 = (unat start + unat cnt) * bsize"
    have le: "unat start * bsize \<le> s0" "s0 \<le> s1" "s1 \<le> s2"
      unfolding s0_def s1_def s2_def using t(5) by (intro mult_le_mono1; simp)+
    have bo: "(unat start + unat (off + B)) * bsize = s1" by (simp add: s1_def t(4) add.assoc)
    have s0: "s0 = unat start * bsize + unat off * bsize" by (simp add: s0_def add_mult_distrib)
    show ?thesis
      unfolding transfer_loop_turn [OF o ad(1)] B_def [symmetric] sat_ques s2_def [symmetric] s0_def [symmetric]
    proof (rule sat_mono [OF write_command_law [OF less.prems c(1-3) t(2) A64 aa,
          unfolded t(1) s0_def [symmetric] s1_def [symmetric] ad(2)]], goal_cases)
      case (1 u w1)
      have "unat cnt - unat (off + B) < unat cnt - unat off" using t(4) c(1) oc by linarith
      note IH = less.hyps [OF this, unfolded bo s2_def [symmetric]]
      show ?case
      proof (rule sat_mono [OF IH], goal_cases)
        case (2 u w2)
        have "disk w2 x = (if s0 \<le> x \<and> x < s2 then mc_mem m w (unat phys + (x - unat start * bsize)) else disk w x)" for x
        proof (cases "s1 \<le> x \<and> x < s2")
          case True
          have "x - unat start * bsize < unat cnt * bsize"
          proof -
            have "s2 = unat start * bsize + unat cnt * bsize" by (simp add: s2_def add_mult_distrib)
            then show ?thesis using True le by linarith
          qed
          then have "unat phys + (x - unat start * bsize) \<notin> command_area" using a by auto
          then show ?thesis using True 2 1 le by simp
        next
          case F: False
          then have "disk w2 x = disk w1 x" using 2 by auto
          moreover have "unat phys + unat off * bsize + (x - s0) = unat phys + (x - unat start * bsize)" if "s0 \<le> x"
            using that s0 by simp
          ultimately show ?thesis using F 1 le by auto
        qed
        then show ?case using 2 1 by (simp add: fun_eq_iff)
      next
        case (3 e w2)
        then show ?case using 1 le by auto
      qed (use 1 in auto)
    qed (use le in auto)
  qed
qed

text \<open>The checks before the loop pass for blocks inside the drive and a page that is long enough.\<close>

lemma transfer_checks:
  assumes s: "unat start + unat cnt \<le> unat (ad_block_count d)" and l: "unat cnt * bsize \<le> unat n * 4096" and n: "unat n < 2 ^ 39"
  shows "ahci_transfer m d command iw start cnt \<lparr>dp_phys = phys, dp_count = n\<rparr> w = transfer_loop m d command iw phys start cnt 0 w"
proof -
  have "unat (start + cnt) = unat start + unat cnt"
    using s geometry_law(3) by (intro unat_add_nowrap) simp
  moreover have "unat (cnt * ad_block_size d) = unat cnt * bsize" using l n by (intro unat_mult_nowrap) simp
  moreover have "unat (n * PAGE_SIZE) = unat n * 4096" using n by (subst unat_mult_nowrap) simp_all
  moreover have "ad_block_size d \<noteq> 0" using geometry_law(1) by auto
  ultimately show ?thesis using s l by (simp add: ahci_transfer_def word_less_nat_alt)
qed

lemma halted_loop_law:
  assumes "stopped w" and o: "off < cnt" and s: "unat start + unat cnt \<le> unat (ad_block_count d)"
    and p: "unat phys + unat cnt * bsize \<le> 2 ^ 52"
  shows "sat (transfer_loop m d command iw phys start cnt off w) (\<lambda>_ _. False)
    (\<lambda>_ w'. stopped w' \<and> disk w' = disk w \<and> (\<forall>x. x \<notin> command_area \<longrightarrow> mc_mem m w' x = mc_mem m w x))"
proof -
  note c = chunk_facts [OF o] and t = turn_facts [OF o s p]
  obtain addr where ad: "phys_add phys (off * ad_block_size d) = Some addr" "unat addr = unat phys + unat off * bsize"
    using t(3) by blast
  have "unat addr + unat (chunk_blocks cnt off) * bsize < 2 ^ 64" using t(6) p ad(2) by simp
  from send_halted [OF assms(1) length_fis command_bytes [OF c(3)] c(3) refl this] show ?thesis
    unfolding transfer_loop_turn [OF o ad(1)] sat_ques by (rule sat_mono) simp_all
qed

lemma flush_law:
  assumes "idle w"
  shows "sat (ahci_sync m d w) (\<lambda>_ w'. idle w' \<and> disk w' = disk w) (\<lambda>_ w'. stopped w' \<and> disk w' = disk w)"
  unfolding ahci_sync_def
  by (rule sat_mono [OF send_command_law [OF assms, where n = 0 and A = 0]])
    (auto simp: hba_exec_def hba_frame_def driver_command_def fis_command_byte Let_def fun_eq_iff)

lemma flush_halted:
  assumes "stopped w"
  shows "sat (ahci_sync m d w) (\<lambda>_ _. False) (\<lambda>_ w'. stopped w' \<and> disk w' = disk w)"
  unfolding ahci_sync_def
  by (rule sat_mono [OF send_halted [OF assms, where n = 0 and A = 0]]) auto

section \<open>Requests\<close>

text \<open>The page is memory that the driver's own structures do not use.\<close>

abbreviation page_apart :: "dma_page \<Rightarrow> u64 \<Rightarrow> bool" where
  "page_apart page cnt \<equiv> unat cnt * bsize \<le> unat (dp_count page) * 4096 \<and> unat (dp_count page) < 2 ^ 39 \<and>
     unat (dp_phys page) + unat cnt * bsize \<le> 2 ^ 52 \<and>
     command_area \<inter> {unat (dp_phys page)..<unat (dp_phys page) + unat cnt * bsize} = {}"

lemma transfer_eq:
  assumes "unat start + unat cnt \<le> unat (ad_block_count d)" and "page_apart page cnt"
  shows "ahci_transfer m d command iw start cnt page w = transfer_loop m d command iw (dp_phys page) start cnt 0 w"
  using transfer_checks [OF assms(1), of "dp_count page" command iw "dp_phys page" w] assms(2) by (cases page) simp

lemma read_blocks_law:
  assumes "idle w" and "unat start + unat cnt \<le> unat (ad_block_count d)" and "page_apart page cnt"
  shows "sat (ahci_read_blocks m d start cnt page w)
    (\<lambda>_ w'. idle w' \<and> disk w' = disk w \<and>
       (\<forall>k < unat cnt * bsize. mc_mem m w' (unat (dp_phys page) + k) = disk w (unat start * bsize + k)) \<and>
       (\<forall>x. x \<notin> command_area \<and> x \<notin> {unat (dp_phys page)..<unat (dp_phys page) + unat cnt * bsize} \<longrightarrow> mc_mem m w' x = mc_mem m w x))
    (\<lambda>_ w'. stopped w' \<and> disk w' = disk w \<and>
       (\<forall>x. x \<notin> command_area \<and> x \<notin> {unat (dp_phys page)..<unat (dp_phys page) + unat cnt * bsize} \<longrightarrow> mc_mem m w' x = mc_mem m w x))"
  unfolding ahci_read_blocks_def transfer_eq [OF assms(2,3)]
  by (rule sat_mono [OF read_loop_law [OF assms(1,2)]]) (use assms(3) in auto)

lemma write_blocks_law:
  assumes "idle w" and "unat start + unat cnt \<le> unat (ad_block_count d)" and "page_apart page cnt"
  shows "sat (ahci_write_blocks m d start cnt page w)
    (\<lambda>_ w'. idle w' \<and> (\<forall>x. x \<notin> command_area \<longrightarrow> mc_mem m w' x = mc_mem m w x) \<and>
       disk w' = (\<lambda>x. if unat start * bsize \<le> x \<and> x < (unat start + unat cnt) * bsize
         then mc_mem m w (unat (dp_phys page) + (x - unat start * bsize)) else disk w x))
    (\<lambda>_ w'. stopped w' \<and> (\<forall>x. x \<notin> command_area \<longrightarrow> mc_mem m w' x = mc_mem m w x) \<and>
       (\<forall>x. x < unat start * bsize \<or> (unat start + unat cnt) * bsize \<le> x \<longrightarrow> disk w' x = disk w x))"
  unfolding ahci_write_blocks_def transfer_eq [OF assms(2,3)]
  by (rule sat_mono [OF write_loop_law [OF assms(1,2)]]) (use assms(3) in auto)

lemma halted_blocks_law:
  assumes "stopped w" and "unat start + unat cnt \<le> unat (ad_block_count d)" and "page_apart page cnt" and "cnt \<noteq> 0"
  shows "sat (ahci_transfer m d command iw start cnt page w) (\<lambda>_ _. False)
    (\<lambda>_ w'. stopped w' \<and> disk w' = disk w \<and> (\<forall>x. x \<notin> command_area \<longrightarrow> mc_mem m w' x = mc_mem m w x))"
  unfolding transfer_eq [OF assms(2,3)]
  by (rule halted_loop_law [OF assms(1) _ assms(2)]) (use assms(3,4) in \<open>auto simp: word_neq_0_conv\<close>)

end

section \<open>The drive as a block device\<close>

text \<open>Every page lies in memory the controller's own structures do not use. An allocation never exceeds half
  of the physical address space.\<close>

locale ahci_disk = ahci_port m d port disk idle running halted stalled fails ident
  for m :: "'w machine" and d :: ahci_drive and port :: port_registers and disk :: "'w \<Rightarrow> nat \<Rightarrow> u8"
    and idle :: "'w \<Rightarrow> bool" and running and halted and stalled and fails :: "nat \<Rightarrow> bool" and ident :: bytes +
  fixes buf :: "phys_page \<Rightarrow> 'w \<Rightarrow> u64"
    and alloc :: "usize \<Rightarrow> 'w \<Rightarrow> 'w \<times> bool"
  assumes buf_law: "page_ok p \<Longrightarrow> unat (buf p w) + length (pp_data p) \<le> 2 ^ 52 \<and>
      command_area \<inter> {unat (buf p w)..<unat (buf p w) + length (pp_data p)} = {}"
    and frames_law: "idle w \<or> stopped w \<Longrightarrow> alloc n w = (w', found) \<Longrightarrow>
      (idle w' \<or> stopped w') \<and> disk w' = disk w \<and> (found \<longrightarrow> unat n < 2 ^ 39) \<and> (\<not> found \<longrightarrow> fails (unat n))"
    and fails_law: "fails i \<Longrightarrow> i \<le> j \<Longrightarrow> fails j"
begin

abbreviation up :: "'w \<Rightarrow> bool" where
  "up w \<equiv> idle w \<or> stopped w"

lemma page_placed:
  assumes "page_ok p" and "unat c * bsize \<le> length (pp_data p)"
  shows "page_apart \<lparr>dp_phys = buf p w, dp_count = pp_count p\<rparr> c"
proof -
  note b = buf_law [OF assms(1), of w]
  have "{unat (buf p w)..<unat (buf p w) + unat c * bsize} \<subseteq> {unat (buf p w)..<unat (buf p w) + length (pp_data p)}"
    using assms(2) by auto
  then have "command_area \<inter> {unat (buf p w)..<unat (buf p w) + unat c * bsize} = {}" using b by blast
  then show ?thesis using assms b by (simp add: page_ok_def)
qed

lemma ahci_read_law:
  assumes g: "up w" and p: "page_ok dest" and s: "unat s + unat c \<le> unat (ad_block_count d)"
    and l: "unat c * bsize \<le> length (pp_data dest)"
  shows "sat (sd_read_blocks (ahci_storage m d buf alloc) s c dest w)
    (\<lambda>p w'. up w' \<and> disk w' = disk w \<and> pp_count p = pp_count dest \<and>
       pp_data p = map (disk w) [unat s * bsize..<(unat s + unat c) * bsize] @ drop (unat c * bsize) (pp_data dest))
    (\<lambda>_ w'. fails 0 \<and> up w' \<and> disk w' = disk w)"
proof -
  define B where "B = buf dest w"
  define w1 where "w1 = mc_store m (unat B) (pp_data dest) w"
  have w1: "disk w1 = disk w" "mc_mem m w1 = put (unat B) (pp_data dest) (mc_mem m w)" "idle w \<Longrightarrow> idle w1" "stopped w \<Longrightarrow> stopped w1"
    using g idle_store [of w] halted_store [of _ w] unfolding w1_def by blast+
  note pa = page_placed [OF p l, of w, folded B_def] and bl = buf_law [OF p, of w, folded B_def]
  have eq: "sd_read_blocks (ahci_storage m d buf alloc) s c dest w =
      ques (ahci_read_blocks m d s c \<lparr>dp_phys = B, dp_count = pp_count dest\<rparr> w1)
        (\<lambda>_ w. ok (dest\<lparr>pp_data := load m (unat B) (length (pp_data dest)) w\<rparr>) w)"
    by (simp add: ahci_storage_def Let_def B_def w1_def)
  have data: "load m (unat B) (length (pp_data dest)) w2 =
        map (disk w) [unat s * bsize..<(unat s + unat c) * bsize] @ drop (unat c * bsize) (pp_data dest)"
    if rd: "\<forall>k < unat c * bsize. mc_mem m w2 (unat B + k) = disk w (unat s * bsize + k)"
      and fr: "\<forall>x. x \<notin> command_area \<and> x \<notin> {unat B..<unat B + unat c * bsize} \<longrightarrow> mc_mem m w2 x = mc_mem m w1 x" for w2
  proof (rule nth_equalityI)
    show "length (load m (unat B) (length (pp_data dest)) w2) =
        length (map (disk w) [unat s * bsize..<(unat s + unat c) * bsize] @ drop (unat c * bsize) (pp_data dest))"
      using l by (simp add: load_def add_mult_distrib)
  next
    fix k assume "k < length (load m (unat B) (length (pp_data dest)) w2)"
    then have k: "k < length (pp_data dest)" by (simp add: load_def)
    have lk: "load m (unat B) (length (pp_data dest)) w2 ! k = mc_mem m w2 (unat B + k)" using k by (simp add: load_def)
    show "load m (unat B) (length (pp_data dest)) w2 ! k =
        (map (disk w) [unat s * bsize..<(unat s + unat c) * bsize] @ drop (unat c * bsize) (pp_data dest)) ! k"
    proof (cases "k < unat c * bsize")
      case True
      then show ?thesis unfolding lk using rd by (simp add: nth_append add_mult_distrib)
    next
      case False
      have "unat B + k \<notin> command_area" using bl k by auto
      then have "mc_mem m w2 (unat B + k) = mc_mem m w1 (unat B + k)" using fr False by simp
      then show ?thesis unfolding lk using False k by (simp add: nth_append add_mult_distrib w1(2) put_def)
    qed
  qed
  consider (idle) "idle w" | (empty) "stopped w" "c = 0" | (stopped) "stopped w" "c \<noteq> 0" using g by blast
  then show ?thesis
  proof cases
    case idle
    show ?thesis
      unfolding eq sat_ques
      by (rule sat_mono [OF read_blocks_law [OF w1(3) [OF idle] s pa]]) (use data w1(1) halted_fails in auto)
  next
    case empty
    have "ad_block_size d \<noteq> 0" using geometry_law(1) by auto
    then have "ahci_read_blocks m d s c \<lparr>dp_phys = B, dp_count = pp_count dest\<rparr> w1 = ok () w1"
      using s empty(2) by (simp add: ahci_read_blocks_def ahci_transfer_def transfer_loop.simps word_less_nat_alt)
    then show ?thesis unfolding eq using data [of w1] empty w1 by simp
  next
    case stopped
    show ?thesis
      unfolding eq sat_ques ahci_read_blocks_def
      by (rule sat_mono [OF halted_blocks_law [OF w1(4) [OF stopped(1)] s pa stopped(2)]]) (use w1(1) halted_fails in auto)
  qed
qed

lemma ahci_write_law:
  assumes g: "up w" and p: "page_ok src" and s: "unat s + unat c \<le> unat (ad_block_count d)"
    and l: "unat c * bsize \<le> length (pp_data src)"
  shows "sat (sd_write_blocks (ahci_storage m d buf alloc) s c src w)
    (\<lambda>_ w'. up w' \<and> disk w' = (\<lambda>a. if unat s * bsize \<le> a \<and> a < (unat s + unat c) * bsize
       then pp_data src ! (a - unat s * bsize) else disk w a))
    (\<lambda>_ w'. fails 0 \<and> up w' \<and>
       (\<forall>a. a < unat s * bsize \<or> (unat s + unat c) * bsize \<le> a \<longrightarrow> disk w' a = disk w a))"
proof -
  define B where "B = buf src w"
  define w1 where "w1 = mc_store m (unat B) (pp_data src) w"
  have w1: "disk w1 = disk w" "mc_mem m w1 = put (unat B) (pp_data src) (mc_mem m w)" "idle w \<Longrightarrow> idle w1" "stopped w \<Longrightarrow> stopped w1"
    using g idle_store [of w] halted_store [of _ w] unfolding w1_def by blast+
  note pa = page_placed [OF p l, of w, folded B_def]
  have eq: "sd_write_blocks (ahci_storage m d buf alloc) s c src w =
      ahci_write_blocks m d s c \<lparr>dp_phys = B, dp_count = pp_count src\<rparr> w1"
    by (simp add: ahci_storage_def Let_def B_def w1_def)
  have data: "mc_mem m w1 (unat B + (a - unat s * bsize)) = pp_data src ! (a - unat s * bsize)"
    if "unat s * bsize \<le> a" "a < (unat s + unat c) * bsize" for a
  proof -
    have "a - unat s * bsize < length (pp_data src)" using that l by (simp add: add_mult_distrib)
    then show ?thesis unfolding w1(2) put_def by (simp del: diff_add_assoc diff_add_assoc2 add_diff_assoc)
  qed
  consider (idle) "idle w" | (empty) "stopped w" "c = 0" | (stopped) "stopped w" "c \<noteq> 0" using g by blast
  then show ?thesis
  proof cases
    case idle
    show ?thesis
      unfolding eq
      by (rule sat_mono [OF write_blocks_law [OF w1(3) [OF idle] s pa]])
        (use data w1(1) halted_fails in \<open>auto simp: fun_eq_iff\<close>)
  next
    case empty
    have "ad_block_size d \<noteq> 0" using geometry_law(1) by auto
    then have "ahci_write_blocks m d s c \<lparr>dp_phys = B, dp_count = pp_count src\<rparr> w1 = ok () w1"
      using s empty(2) by (simp add: ahci_write_blocks_def ahci_transfer_def transfer_loop.simps word_less_nat_alt)
    then show ?thesis unfolding eq using empty w1 by (auto simp: fun_eq_iff)
  next
    case stopped
    show ?thesis
      unfolding eq ahci_write_blocks_def
      by (rule sat_mono [OF halted_blocks_law [OF w1(4) [OF stopped(1)] s pa stopped(2)]]) (use w1(1) halted_fails in auto)
  qed
qed

lemma ahci_sync_law:
  assumes "up w"
  shows "sat (ahci_sync m d w) (\<lambda>_ w'. up w' \<and> disk w' = disk w) (\<lambda>_ w'. fails 0 \<and> up w' \<and> disk w' = disk w)"
proof (cases "idle w")
  case True
  then show ?thesis by (intro sat_mono [OF flush_law]) (use halted_fails in auto)
next
  case False
  then have "stopped w" using assms by blast
  then show ?thesis by (intro sat_mono [OF flush_halted]) (use halted_fails in auto)
qed

lemma storage_fields [simp]:
  "sd_block_size (ahci_storage m d buf alloc) = ad_block_size d" "sd_block_count (ahci_storage m d buf alloc) = ad_block_count d"
  "sd_sync (ahci_storage m d buf alloc) = ahci_sync m d" "sd_alloc_pages (ahci_storage m d buf alloc) = alloc"
  by (simp_all add: ahci_storage_def)

end

sublocale ahci_disk < block_device "ahci_storage m d buf alloc" disk up fails
proof (unfold_locales, goal_cases)
  case (1 w)
  then show ?case using geometry_law by auto
next
  case (2 w i j)
  then show ?case using fails_law by blast
next
  case (3 w n w' found)
  then show ?case using frames_law by simp
next
  case (4 w dest s c)
  then show ?case using ahci_read_law unfolding storage_fields by blast
next
  case (5 w src s c)
  then show ?case using ahci_write_law unfolding storage_fields by blast
next
  case (6 w)
  then show ?case using ahci_sync_law by simp
qed

end
