(* ===== verification/Ahci_Props.thy ===== *)
theory Ahci_Props
  imports Ahci_Drive
begin

text \<open>
  The properties of the AHCI driver, and a controller that keeps the contract: it ends a command after
  a few reads of the CI register, and it stops at a command that touches one of the bad blocks of its
  disk.
\<close>

section \<open>A simulated controller\<close>

record sim =
  sim_mem :: "nat \<Rightarrow> u8"
  sim_disk :: "nat \<Rightarrow> u8"
  sim_raw :: u64
  sim_pending :: "(nat \<times> nat) option"
  sim_ci :: u32
  sim_is :: u32

definition sim_drive :: ahci_drive where
  "sim_drive =
     \<lparr>ad_region = 0x2000, ad_port_id = 0, ad_command_list = \<lparr>dp_phys = 0x1000, dp_count = 1\<rparr>,
      ad_command_tables = \<lparr>dp_phys = 0x2000, dp_count = 3\<rparr>, ad_fis_buffer = \<lparr>dp_phys = 0x5000, dp_count = 1\<rparr>,
      ad_block_size = 1024, ad_block_count = 5120, ad_ncs = 31\<rparr>"

definition sim_port :: port_registers where
  "sim_port =
     \<lparr>pr_clb = 0x100, pr_clbu = 0x104, pr_fb = 0x108, pr_fbu = 0x10C, pr_is = 0x110, pr_cmd = 0x118, pr_tfd = 0x120,
      pr_sig = 0x124, pr_ssts = 0x128, pr_sctl = 0x12C, pr_serr = 0x130, pr_sact = 0x134, pr_ci = 0x138\<rparr>"

definition sim_bad :: "nat list \<Rightarrow> bytes \<Rightarrow> bool" where
  "sim_bad bad f \<longleftrightarrow> (f ! 2 = 0x25 \<or> f ! 2 = 0x35) \<and> (\<exists>b \<in> set bad. ata_lba f \<le> b \<and> b < ata_lba f + ata_count f)"

text \<open>The end of the command in a slot: a task file error, or its execution.\<close>

definition sim_end :: "nat list \<Rightarrow> nat \<Rightarrow> sim \<Rightarrow> sim" where
  "sim_end bad slot w =
     (let c = hba_fetch (sim_mem w) 0x1000 slot
      in if sim_bad bad (hc_fis c) then w\<lparr>sim_pending := None, sim_is := sim_is w OR 0x40000000\<rparr>
         else let (M, D) = hba_exec 1024 [] c (sim_mem w) (sim_disk w)
              in w\<lparr>sim_mem := M, sim_disk := D, sim_pending := None, sim_ci := 0\<rparr>)"

definition sim_poll :: "nat list \<Rightarrow> sim \<Rightarrow> sim" where
  "sim_poll bad w =
     (case sim_pending w of
        None \<Rightarrow> w
      | Some (slot, 0) \<Rightarrow> sim_end bad slot w
      | Some (slot, Suc n) \<Rightarrow> w\<lparr>sim_pending := Some (slot, n)\<rparr>)"

definition sim_issue :: "u32 \<Rightarrow> sim \<Rightarrow> sim" where
  "sim_issue v w =
     (if sim_ci w = 0 then w\<lparr>sim_ci := v, sim_pending := map_option (\<lambda>slot. (slot, 3)) (find (bit v) [0..<32])\<rparr>
      else w\<lparr>sim_ci := sim_ci w OR v\<rparr>)"

text \<open>Ten seconds pass between two readings of the clock while the port has stopped, at a tick of one
  nanosecond.\<close>

definition sim_clock :: "sim \<Rightarrow> sim \<times> u64" where
  "sim_clock w =
     (if sim_pending w = None \<and> sim_ci w \<noteq> 0 then (w\<lparr>sim_raw := sim_raw w + 10000000000\<rparr>, sim_raw w + 10000000000)
      else (w, sim_raw w))"

definition sim_machine :: "nat list \<Rightarrow> sim machine" where
  "sim_machine bad =
     \<lparr>mc_read32 = (\<lambda>r w.
        if r = 0x138 then (sim_poll bad w, sim_ci (sim_poll bad w))
        else if r = 0x110 then (w, sim_is w) else (w, 0)),
      mc_write32 = (\<lambda>r v w.
        if r = 0x138 then sim_issue v w
        else if r = 0x110 then w\<lparr>sim_is := sim_is w AND NOT v\<rparr> else w),
      mc_hpet_counter = sim_clock, mc_hpet_period = 1000000,
      mc_mem = sim_mem, mc_store = (\<lambda>a bs w. w\<lparr>sim_mem := put a bs (sim_mem w)\<rparr>)\<rparr>"

definition sim_idle :: "sim \<Rightarrow> bool" where
  "sim_idle w \<longleftrightarrow> sim_pending w = None \<and> sim_ci w = 0 \<and> sim_is w AND FATAL_PXIS_MASK = 0"

definition sim_running :: "nat \<Rightarrow> nat \<Rightarrow> nat \<Rightarrow> nat \<Rightarrow> (nat \<Rightarrow> u8) \<Rightarrow> (nat \<Rightarrow> u8) \<Rightarrow> sim \<Rightarrow> bool" where
  "sim_running slot n lo hi M D w \<longleftrightarrow>
     sim_pending w = Some (slot, n) \<and> slot < 32 \<and> sim_ci w = push_bit slot 1 \<and> sim_is w AND FATAL_PXIS_MASK = 0 \<and>
     M = sim_mem w \<and> D = sim_disk w \<and> lo = unat (nanos_of 1000000 (sim_raw w)) \<and> hi = lo"

definition sim_halted :: "nat list \<Rightarrow> u32 \<Rightarrow> sim \<Rightarrow> bool" where
  "sim_halted bad ci w \<longleftrightarrow> bad \<noteq> [] \<and> sim_pending w = None \<and> sim_ci w = ci \<and> ci \<noteq> 0"

definition sim_stalled :: "nat list \<Rightarrow> u32 \<Rightarrow> u64 \<Rightarrow> nat \<Rightarrow> sim \<Rightarrow> bool" where
  "sim_stalled bad ci s n w \<longleftrightarrow> sim_halted bad ci w \<and>
     (n = 0 \<longrightarrow> 5000000000 < nanos_of 1000000 (sim_raw w + 10000000000) - s)"

definition sim_fails :: "nat list \<Rightarrow> nat \<Rightarrow> bool" where
  "sim_fails bad n \<longleftrightarrow> bad \<noteq> [] \<or> 2 ^ 39 \<le> n"

lemma find_slot_bit: "slot < 32 \<Longrightarrow> find (bit (push_bit slot 1 :: u32)) [0..<32] = Some slot"
proof -
  assume s: "slot < 32"
  have b: "bit (push_bit slot 1 :: u32) = (\<lambda>i. i = slot \<and> i < 32)" by (auto simp: fun_eq_iff bit_simps)
  show ?thesis using s unfolding b find_Some_iff by (intro exI [of _ slot]) auto
qed

lemma slot_bit: "slot < 32 \<Longrightarrow> bit (push_bit slot 1 :: u32) slot" "slot < 32 \<Longrightarrow> (push_bit slot 1 :: u32) \<noteq> 0"
proof -
  show b: "bit (push_bit slot 1 :: u32) slot" if "slot < 32" using that by (simp add: bit_simps)
  show "(push_bit slot 1 :: u32) \<noteq> 0" if "slot < 32"
  proof
    assume z: "(push_bit slot 1 :: u32) = 0"
    show False using b [OF that] unfolding z by simp
  qed
qed

text \<open>Two readings of the clock ten seconds apart are not both within five seconds of the same time, also
  when the clock wraps between them.\<close>

lemma apart_by:
  fixes s a b :: u64
  assumes "unat a + D = unat b" and "5000000000 < D" and "D < 2 ^ 63" and "a - s \<le> 5000000000"
  shows "5000000000 < b - s"
proof -
  have "b = a + word_of_nat D" using assms(1) by (metis of_nat_add of_nat_unat ucast_id)
  then have bs: "b - s = (a - s) + word_of_nat D" by simp
  have "unat (a - s) \<le> 5000000000" using assms(4) by (simp add: word_le_nat_alt)
  then have "unat (b - s) = unat (a - s) + D"
    unfolding bs unat_word_ariths(1) using assms(3) by (simp add: unat_of_nat)
  then show ?thesis using assms(2) by (simp add: word_less_nat_alt)
qed

lemma ten_seconds:
  assumes "nanos_of 1000000 r - s \<le> 5000000000"
  shows "5000000000 < nanos_of 1000000 (r + 10000000000) - s"
proof -
  define x where "x = unat (r * 1000000)"
  have "(r + 10000000000) * 1000000 = r * 1000000 + 10000000000000000" by (simp add: distrib_right)
  then have y: "unat ((r + 10000000000) * 1000000) = (x + 10 ^ 16) mod 2 ^ 64" by (simp add: x_def unat_word_ariths)
  have x: "x < 2 ^ 64" using unsigned_less [of "r * 1000000"] by (simp add: x_def)
  have a: "unat (nanos_of 1000000 r) = x div 10 ^ 6" by (simp add: nanos_of_def unat_div x_def)
  have b: "unat (nanos_of 1000000 (r + 10000000000)) = ((x + 10 ^ 16) mod 2 ^ 64) div 10 ^ 6"
    unfolding y [symmetric] by (simp add: nanos_of_def unat_div)
  show ?thesis
  proof (cases "x + 10 ^ 16 < 2 ^ 64")
    case True
    then have "unat (nanos_of 1000000 r) + 10 ^ 10 = unat (nanos_of 1000000 (r + 10000000000))"
      unfolding a b by (simp add: div_add1_eq)
    from apart_by [OF this] show ?thesis using assms by simp
  next
    case False
    have lo: "unat (nanos_of 1000000 (r + 10000000000)) \<le> 10 ^ 10"
      unfolding b using x False by (simp add: le_mod_geq div_le_mono [of _ "10 ^ 16" "10 ^ 6", simplified])
    have hi: "10 ^ 13 \<le> unat (nanos_of 1000000 r)"
      unfolding a using False by (simp add: less_eq_div_iff_mult_less_eq)
    have top: "unat (nanos_of 1000000 r) < 2 ^ 63" unfolding a using x by (simp add: less_mult_imp_div_less)
    define D where "D = unat (nanos_of 1000000 r) - unat (nanos_of 1000000 (r + 10000000000))"
    have D: "unat (nanos_of 1000000 (r + 10000000000)) + D = unat (nanos_of 1000000 r)" "5000000000 < D" "D < 2 ^ 63"
      using lo hi top by (simp_all add: D_def)
    show ?thesis
    proof (rule ccontr)
      assume "\<not> ?thesis"
      then have "nanos_of 1000000 (r + 10000000000) - s \<le> 5000000000" by simp
      from apart_by [OF D this] show False using assms by simp
    qed
  qed
qed

lemma sim_end_settled:
  assumes "sim_running slot 0 lo hi M D w"
  shows "hba_settled 1024 [] (hba_fetch M 0x1000 slot) M D
     (sim_idle (sim_end bad slot w) \<and> \<not> bit (sim_ci (sim_end bad slot w)) slot)
     (sim_halted bad (push_bit slot 1) (sim_end bad slot w) \<and> bit (sim_ci (sim_end bad slot w)) slot)
     (sim_mem (sim_end bad slot w)) (sim_disk (sim_end bad slot w))"
proof -
  define c where "c = hba_fetch (sim_mem w) 0x1000 slot"
  obtain M' D' where e: "hba_exec 1024 [] c (sim_mem w) (sim_disk w) = (M', D')" by force
  have r: "M = sim_mem w" "D = sim_disk w" "slot < 32" "sim_ci w = push_bit slot 1" "sim_is w AND FATAL_PXIS_MASK = 0"
    using assms by (simp_all only: sim_running_def)
  show ?thesis
  proof (cases "sim_bad bad (hc_fis c)")
    case True
    then have "sim_end bad slot w = w\<lparr>sim_pending := None, sim_is := sim_is w OR 0x40000000\<rparr>"
      by (simp add: sim_end_def c_def)
    moreover have "bad \<noteq> []" using True by (auto simp: sim_bad_def)
    moreover have "bit (sim_ci w) slot" "sim_ci w \<noteq> 0" using slot_bit [OF r(3)] unfolding r(4) .
    ultimately show ?thesis
      unfolding hba_settled_def hba_frame_def sim_halted_def r(4) [symmetric] by (simp add: r(1,2))
  next
    case False
    then have "sim_end bad slot w = w\<lparr>sim_mem := M', sim_disk := D', sim_pending := None, sim_ci := 0\<rparr>"
      by (simp add: sim_end_def c_def [symmetric] Let_def e)
    then show ?thesis using e r(5) unfolding r(1,2) c_def [symmetric] by (simp add: hba_settled_def sim_idle_def)
  qed
qed

interpretation sim: ahci_disk "sim_machine bad" sim_drive sim_port sim_disk sim_idle sim_running
  "sim_halted bad" "sim_stalled bad" "sim_fails bad" "[]" "\<lambda>_ _. 0x100000" "\<lambda>n w. (w, n < 0x8000000000)"
  for bad :: "nat list"
proof (unfold_locales, goal_cases)
  case (13 w r w' v)
  then show ?case
    by (auto simp: sim_machine_def sim_port_def sim_poll_def sim_idle_def)
next
  case (14 w v)
  have "(sim_is w AND NOT v) AND FATAL_PXIS_MASK = (sim_is w AND FATAL_PXIS_MASK) AND NOT v"
    by (rule bit_word_eqI) (auto simp: bit_simps)
  with 14 show ?case by (simp add: sim_machine_def sim_port_def sim_idle_def)
next
  case (16 w slot)
  have "sim_issue (push_bit slot 1) w = w\<lparr>sim_ci := push_bit slot 1, sim_pending := Some (slot, 3)\<rparr>"
    using 16(1) unfolding sim_issue_def find_slot_bit [OF 16(2)] by (simp add: sim_idle_def)
  then have "sim_running slot 3 (unat (nanos_of 1000000 (sim_raw w))) (unat (nanos_of 1000000 (sim_raw w)))
      (mc_mem (sim_machine bad) w) (sim_disk w) (mc_write32 (sim_machine bad) (pr_ci sim_port) (push_bit slot 1) w)"
    using 16 by (simp add: sim_running_def sim_machine_def sim_port_def sim_idle_def push_bit_eq_mult)
  moreover have "unat (nanos_of 1000000 (sim_raw w)) - unat (nanos_of 1000000 (sim_raw w)) \<le> 5000000000" by simp
  ultimately show ?case by (intro exI conjI)
next
  case (17 slot n lo hi M D w w' t)
  have "w' = w" "t = nanos_of 1000000 (sim_raw w)"
    using 17 by (auto simp: sim_running_def sim_machine_def passed_nanos_def sim_clock_def)
  then show ?case using 17(1) by (simp add: sim_running_def)
next
  case (18 slot n lo hi M D w w' v)
  have w: "w' = sim_poll bad w" "v = sim_ci (sim_poll bad w)" using 18(2) by (auto simp: sim_machine_def sim_port_def)
  have geo: "mc_mem (sim_machine bad) = sim_mem" "unat (ad_block_size sim_drive) = 1024" "unat (dp_phys (ad_command_list sim_drive)) = 0x1000"
    by (simp_all add: sim_machine_def sim_drive_def)
  show ?case
  proof (cases n)
    case 0
    then have "sim_poll bad w = sim_end bad slot w" using 18(1) by (simp add: sim_poll_def sim_running_def)
    then show ?thesis using sim_end_settled [OF 18(1) [unfolded 0], of bad] unfolding geo w by (simp only: simp_thms)
  next
    case (Suc k)
    then have p: "sim_poll bad w = w\<lparr>sim_pending := Some (slot, k)\<rparr>" using 18(1) by (simp add: sim_poll_def sim_running_def)
    have s: "slot < 32" "sim_ci w = push_bit slot 1" using 18(1) by (simp_all only: sim_running_def)
    have "v = sim_ci w" by (simp add: w p)
    then have "bit v slot" using slot_bit(1) [OF s(1)] by (simp only: s(2))
    moreover have "sim_running slot k lo hi M D w'" using 18(1) by (simp add: w p sim_running_def)
    ultimately show ?thesis using Suc by blast
  qed
next
  case (23 ci w s)
  then show ?case by (intro exI [of _ 1]) (simp add: sim_stalled_def)
next
  case (26 ci s n w w' t)
  have h: "sim_halted bad ci w" using 26(1) by (simp add: sim_stalled_def)
  then have w: "w' = w\<lparr>sim_raw := sim_raw w + 10000000000\<rparr>" "t = nanos_of 1000000 (sim_raw w + 10000000000)"
    using 26(2) by (auto simp: sim_halted_def sim_machine_def passed_nanos_def sim_clock_def)
  have "\<exists>n' < n. sim_stalled bad ci s n' w'" if "t - s \<le> 5000000000"
  proof -
    have "0 < n" using 26(1) that by (auto simp: sim_stalled_def w(2))
    moreover have "sim_stalled bad ci s 0 w'"
      using h ten_seconds [OF that [unfolded w(2)]] by (simp add: sim_stalled_def sim_halted_def w(1))
    ultimately show ?thesis by blast
  qed
  then show ?case using h by (auto simp: w(1) sim_machine_def sim_halted_def not_less [symmetric])
qed (auto simp: sim_machine_def sim_drive_def sim_port_def sim_idle_def sim_halted_def sim_stalled_def sim_fails_def
       sim_poll_def sim_issue_def sim_clock_def port_registers_new_def mmio_register_def is_multiple_of_def
       page_ok_def word_less_nat_alt or_eq_0_iff split: if_splits)

text \<open>A partition of the drive has the sectors LemonFS is proved for.\<close>

definition sim_part :: "nat list \<Rightarrow> sim partition_drive" where
  "sim_part bad =
     \<lparr>pd_drive = \<lparr>d_inner = ahci_storage (sim_machine bad) sim_drive (\<lambda>_ _. 0x100000) (\<lambda>n w. (w, n < 0x8000000000)), d_partitions = []\<rparr>,
      pd_partition = \<lparr>p_start = 256, p_size_blocks = 4608, p_name = [], p_type = LemonFS,
        p_guid = \<lparr>g_time_low = 0, g_time_mid = 0, g_time_high_ver = 0, g_clock_seq = [0, 0],
          g_node = [0, 0, 0, 0, 0, 0]\<rparr>\<rparr>\<rparr>"

interpretation sp: partition_device "sim_part bad" sim_disk "\<lambda>w. sim_idle w \<or> (\<exists>ci. sim_halted bad ci w)" "sim_fails bad"
  for bad :: "nat list"
proof -
  have "block_device (d_inner (pd_drive (sim_part bad))) sim_disk (\<lambda>w. sim_idle w \<or> (\<exists>ci. sim_halted bad ci w)) (sim_fails bad)"
    using sim.block_device_axioms [of bad] by (simp add: sim_part_def)
  then show "partition_device (sim_part bad) sim_disk (\<lambda>w. sim_idle w \<or> (\<exists>ci. sim_halted bad ci w)) (sim_fails bad)"
    unfolding partition_device_def partition_device_axioms_def
    by (simp add: sim_part_def block_bytes_def ahci_storage_def sim_drive_def)
qed

section \<open>Transfers\<close>




section \<open>Time\<close>

lemma nanos_exact: "unat raw * unat period < 2 ^ 64 \<Longrightarrow> unat (nanos_of period raw) = unat raw * unat period div 10 ^ 6"
  by (simp add: nanos_of_def unat_div unat_mult_nowrap)

text \<open>C24. The clock of the kernel is exact up to the reading \<open>n\<close> at which the product of counter and period is
  about to exceed 64 bits, that is for the first \<open>2 ^ 64\<close> femtoseconds, about five hours, and jumps back to
  less than 100 nanoseconds at the very next reading, whatever period the HPET has.\<close>

theorem clock_wraps_after_five_hours:
  fixes period :: u64
  defines "n \<equiv> (2 ^ 64 - 1) div unat period"
  assumes "0 < unat period" and "unat period \<le> 10 ^ 8"
  shows "(\<forall>raw. unat raw \<le> n \<longrightarrow> unat (nanos_of period raw) = unat raw * unat period div 10 ^ 6) \<and>
    n * unat period < 2 ^ 64 \<and> 2 ^ 64 \<le> (n + 1) * unat period \<and>
    (\<forall>raw. unat raw = n \<longrightarrow> nanos_of period (raw + 1) < 100 \<and> 18446744073000 < unat (nanos_of period raw))"
proof -
  have "2 ^ 64 - 1 = n * unat period + (2 ^ 64 - 1) mod unat period" by (simp only: n_def div_mult_mod_eq)
  moreover have "(2 ^ 64 - 1) mod unat period < unat period" using assms(2) by (intro mod_less_divisor)
  ultimately have k: "n * unat period < 2 ^ 64" "2 ^ 64 \<le> n * unat period + unat period" by auto
  have exact: "unat (nanos_of period raw) = unat raw * unat period div 10 ^ 6" if "unat raw \<le> n" for raw
    using that k(1) by (intro nanos_exact) (rule le_less_trans [OF mult_le_mono1])
  have "nanos_of period (raw + 1) < 100 \<and> 18446744073000 < unat (nanos_of period raw)" if r: "unat raw = n" for raw
  proof
    have w: "(raw + 1) * period = raw * period + period" by (simp add: distrib_right)
    have "unat ((raw + 1) * period) = (n * unat period + unat period) mod 2 ^ 64"
      unfolding w using k(1) by (simp add: unat_word_ariths r)
    also have "\<dots> = n * unat period + unat period - 2 ^ 64" using k assms(3) by (subst le_mod_geq) auto
    also have "\<dots> < 10 ^ 8" using k(1) assms by linarith
    finally show "nanos_of period (raw + 1) < 100"
      by (simp add: nanos_of_def word_less_nat_alt unat_div less_mult_imp_div_less)
    have "18446744073001 \<le> n * unat period div 10 ^ 6"
      using k(2) assms(3) by (simp add: less_eq_div_iff_mult_less_eq)
    then show "18446744073000 < unat (nanos_of period raw)" using exact [of raw] r by simp
  qed
  then show ?thesis using exact k by simp
qed

theorem clock_wraps_after_five_hours_witness:
  "unat (nanos_of 10000000 1844674407370) = 18446744073700 \<and> nanos_of 10000000 1844674407371 < 100"
proof -
  have "unat (1844674407370 :: u64) = (2 ^ 64 - 1) div unat (10000000 :: u64)" by simp
  moreover have "(1844674407370 :: u64) + 1 = 1844674407371" by simp
  ultimately show ?thesis using clock_wraps_after_five_hours [of 10000000] by (auto dest!: spec [of _ "1844674407370 :: u64"])
qed

text \<open>C25. Waiting ends: with a clock that advances at every reading, by at most \<open>\<delta>\<close>, and does not wrap before the
  time limit, \<open>wait_timeout\<close> returns. It returns \<open>false\<close> only after the time limit has passed.\<close>

theorem wait_timeout_returns:
  assumes clock: "\<And>w w' t. passed_nanos m w = (w', t) \<Longrightarrow>
      now w < now w' \<and> now w' \<le> now w + \<delta> \<and> (now w' < B \<longrightarrow> unat t = now w')"
    and cond: "\<And>w w' b. f w = (w', b) \<Longrightarrow> now w \<le> now w' \<and> now w' \<le> now w + \<delta>"
    and B: "now w + unat (to_nanos limit) + 4 * \<delta> < B" and "B \<le> 2 ^ 64"
  shows "\<exists>w' b. wait_timeout m f limit w = Some (w', b) \<and> (\<not> b \<longrightarrow> now w + unat (to_nanos limit) < now w')"
proof -
  obtain w0 start where s: "passed_nanos m w = (w0, start)" by force
  have st: "now w < now w0" "now w0 \<le> now w + \<delta>" "unat start = now w0" using clock [OF s] B by auto
  have "\<exists>w' b. wait_timeout_loop m f start (to_nanos limit) v = Some (w', b) \<and>
      (\<not> b \<longrightarrow> now w0 + unat (to_nanos limit) < now w')"
    if "now w0 \<le> now v" "now v \<le> now w0 + unat (to_nanos limit)" for v
    using that
  proof (induction "B - now v" arbitrary: v rule: less_induct)
    case less
    obtain v1 b where f: "f v = (v1, b)" by force
    obtain v2 t where t: "passed_nanos m v1 = (v2, t)" by force
    have n1: "now v \<le> now v1" "now v1 \<le> now v + \<delta>" using cond [OF f] by auto
    have n2: "now v1 < now v2" "now v2 \<le> now v1 + \<delta>" "unat t = now v2" using clock [OF t] n1 less.prems st B by auto
    have d: "unat (t - start) = now v2 - now w0" using n1 n2 st less.prems by (simp add: unat_sub_nowrap)
    show ?case
    proof (cases "b \<and> \<not> to_nanos limit < t - start")
      case True
      then have "now v2 \<le> now w0 + unat (to_nanos limit)" using d by (simp add: word_less_nat_alt not_less le_diff_conv)
      moreover have "B - now v2 < B - now v" using n1 n2 less.prems st B by linarith
      moreover have "wait_timeout_loop m f start (to_nanos limit) v = wait_timeout_loop m f start (to_nanos limit) v2"
        using True f t by (subst wait_timeout_loop.simps) simp
      moreover have "now w0 \<le> now v2" using n1 n2 less.prems by linarith
      ultimately show ?thesis using less.hyps [of v2] by metis
    next
      case False
      then have "wait_timeout_loop m f start (to_nanos limit) v = (if b then Some (v2, False) else Some (v1, True))"
        using f t by (subst wait_timeout_loop.simps) auto
      moreover have "now w0 + unat (to_nanos limit) < now v2" if b
        using that False d n1 n2 less.prems by (simp add: word_less_nat_alt)
      ultimately show ?thesis by auto
    qed
  qed
  from this [of w0] show ?thesis using st by (auto simp: wait_timeout_def s)
qed

definition ticking :: "nat machine" where
  "ticking = \<lparr>mc_read32 = (\<lambda>_ w. (w, 0)), mc_write32 = (\<lambda>_ _ w. w), mc_hpet_counter = (\<lambda>w. (w + 1, word_of_nat (w + 1))),
     mc_hpet_period = 1000000, mc_mem = (\<lambda>_ _. 0), mc_store = (\<lambda>_ _ w. w)\<rparr>"

theorem wait_timeout_returns_witness:
  "\<exists>w' b. wait_timeout ticking (\<lambda>w. (w, True)) (Nanoseconds 1000) 0 = Some (w', b) \<and> (\<not> b \<longrightarrow> 1000 < w')"
proof -
  have "unat t = w'" if "passed_nanos ticking w = (w', t)" "w' < 2 ^ 44" for w w' :: nat and t
  proof -
    have "unat (word_of_nat (w + 1) :: u64) = w + 1" "(w + 1) * 1000000 < 2 ^ 64" "w' = w + 1"
      using that by (auto simp: passed_nanos_def ticking_def unat_of_nat)
    moreover have "unat (nanos_of 1000000 (word_of_nat (w + 1))) = unat (word_of_nat (w + 1) :: u64) * unat (1000000 :: u64) div 10 ^ 6"
      by (rule nanos_exact) (use calculation in simp)
    moreover have "t = nanos_of 1000000 (word_of_nat (w + 1))" using that(1) by (auto simp: passed_nanos_def ticking_def)
    ultimately show ?thesis by simp
  qed
  then have c: "w < w' \<and> w' \<le> w + 1 \<and> (w' < 2 ^ 44 \<longrightarrow> unat t = w')" if "passed_nanos ticking w = (w', t)" for w w' t
    using that by (auto simp: passed_nanos_def ticking_def)
  have "\<exists>w' b. wait_timeout ticking (\<lambda>w. (w, True)) (Nanoseconds 1000) 0 = Some (w', b) \<and>
      (\<not> b \<longrightarrow> 0 + unat (to_nanos (Nanoseconds 1000)) < w')"
    by (rule wait_timeout_returns [where now = "\<lambda>w. w" and \<delta> = 1 and B = "2 ^ 44"])
      (use c in \<open>auto simp: to_nanos_def\<close>)
  then show ?thesis by (simp add: to_nanos_def)
qed

end
