(* ===== verification/Sched.thy ===== *)
theory Sched
  imports Hardware
begin

text \<open>
  Tasks and the scheduler (\<^verbatim>\<open>scheduling\<close>): the queues of a CPU, the switch of tasks on a timer tick, the
  placement of new tasks and the balancing of user tasks between CPUs. The code that saves and
  restores registers around a switch is assembly and not modelled. A definition is what is done while
  one lock is held; the loop of \<^verbatim>\<open>idle_task\<close>, which drops its locks in between, is several of them, so
  that the steps of other CPUs can come between. \<open>None\<close> is a panic.
\<close>

section \<open>Tasks\<close>

text \<open>A \<^verbatim>\<open>PhysPage\<close> together with its virtual address.\<close>

record stack_page =
  stk_start :: u64
  stk_page :: phys_page

definition stack_bottom :: "stack_page \<Rightarrow> u64" where
  "stack_bottom s = stk_start s"

definition stack_top :: "stack_page \<Rightarrow> u64 option" where
  "stack_top s = virt_add (stack_bottom s) (pp_count (stk_page s) * PAGE_SIZE)"

datatype task_state = Ready | Wait time | Terminate u64

text \<open>The address space of a user task is the address of its level 4 table.\<close>

datatype task_type = Kernel | User u64 stack_page stack_page u64
  \<comment> \<open>\<^verbatim>\<open>address_space\<close>, \<^verbatim>\<open>syscall_stack\<close>, \<^verbatim>\<open>priv_stack\<close>, \<^verbatim>\<open>parent_id\<close>\<close>

record task =
  task_id :: u64
  task_type :: task_type
  task_state :: task_state
  task_stack :: stack_page
  task_pages :: "phys_page list"
  task_entry :: usize
  task_sp :: usize

definition is_user :: "task \<Rightarrow> bool" where
  "is_user t = (case task_type t of Kernel \<Rightarrow> False | User _ _ _ _ \<Rightarrow> True)"

definition next_id :: "u64 \<Rightarrow> u64 \<times> u64" where
  "next_id ID = (ID, ID + 1)"

text \<open>The result of \<^verbatim>\<open>write_data\<close> is ignored: a write out of bounds does nothing.\<close>

definition push_word :: "phys_page \<Rightarrow> usize \<Rightarrow> u64 \<Rightarrow> phys_page" where
  "push_word stack sp v =
     (case phys_page_write 8 stack sp (le_bytes 8 v) of Inl _ \<Rightarrow> stack | Inr stack \<Rightarrow> stack)"

definition write_stack :: "phys_page \<Rightarrow> u64 \<Rightarrow> u64 \<Rightarrow> u16 \<Rightarrow> u16 \<Rightarrow> phys_page \<times> usize" where
  "write_stack stack entry rsp cs ds =
     (let sp = pp_count stack * PAGE_SIZE;
          sp = sp - 8; stack = push_word stack sp (ucast ds);
          sp = sp - 8; stack = push_word stack sp rsp;
          sp = sp - 8; stack = push_word stack sp 0x202;
          sp = sp - 8; stack = push_word stack sp (ucast cs);
          sp = sp - 8; stack = push_word stack sp entry;
          sp = sp - 8 * 15
      in (stack, sp))"

definition task_manual :: "usize \<Rightarrow> stack_page \<Rightarrow> u16 \<Rightarrow> u16 \<Rightarrow> u64 \<Rightarrow> task \<times> u64" where
  "task_manual entry stack cs ds ID =
     (let rsp = stk_start stack + pp_count (stk_page stack) * PAGE_SIZE;
          (tid, ID) = next_id ID;
          (page, sp) = write_stack (stk_page stack) entry rsp cs ds
      in (\<lparr>task_id = tid, task_type = Kernel, task_state = Ready, task_stack = stack\<lparr>stk_page := page\<rparr>,
           task_pages = [], task_entry = entry, task_sp = sp + stk_start stack\<rparr>, ID))"

record selectors =
  sel_kernel_code :: u16
  sel_kernel_data :: u16
  sel_user_code :: u16
  sel_user_data :: u16

definition task_new_kernel :: "selectors \<Rightarrow> usize \<Rightarrow> stack_page \<Rightarrow> u64 \<Rightarrow> task \<times> u64" where
  "task_new_kernel sel entry stack ID =
     (let rsp = stk_start stack + pp_count (stk_page stack) * PAGE_SIZE;
          cs = sel_kernel_code sel;
          ds = sel_kernel_data sel;
          (tid, ID) = next_id ID;
          (page, sp) = write_stack (stk_page stack) entry rsp cs ds
      in (\<lparr>task_id = tid, task_type = Kernel, task_state = Ready, task_stack = stack\<lparr>stk_page := page\<rparr>,
           task_pages = [], task_entry = entry, task_sp = sp + stk_start stack\<rparr>, ID))"

text \<open>\<^verbatim>\<open>Stack::new\<close> takes five pages from the frame allocator \<open>alloc\<close>.\<close>

definition stack_new ::
  "(usize \<Rightarrow> 'w \<Rightarrow> 'w \<times> stack_page option) \<Rightarrow> 'w \<Rightarrow> ('w, memory_error, stack_page) res" where
  "stack_new alloc w = (case alloc 5 w of (w, Some s) \<Rightarrow> ok s w | (w, None) \<Rightarrow> err OutOfMemory w)"

text \<open>The next id is returned beside the result: it is used up also where a stack cannot be allocated.\<close>

definition task_new_user ::
  "(usize \<Rightarrow> 'w \<Rightarrow> 'w \<times> stack_page option) \<Rightarrow> selectors \<Rightarrow> u64 \<Rightarrow> u64 \<Rightarrow> stack_page \<Rightarrow> u64 \<Rightarrow> u64 \<Rightarrow>
     u64 \<Rightarrow> 'w \<Rightarrow> ('w, memory_error, task) res \<times> u64" where
  "task_new_user alloc sel entry rsp stack l4 pid ID w =
     (let cs = sel_user_code sel;
          ds = sel_user_data sel;
          (page, sp) = write_stack (stk_page stack) entry rsp cs ds;
          sp = sp + stk_start stack;
          (tid, ID) = next_id ID
      in (ques (stack_new alloc w) (\<lambda>syscall_stack w.
          ques (stack_new alloc w) (\<lambda>priv_stack w.
          ok \<lparr>task_id = tid, task_type = User l4 syscall_stack priv_stack pid, task_state = Ready,
              task_stack = stack\<lparr>stk_page := page\<rparr>, task_pages = [], task_entry = entry, task_sp = sp\<rparr> w)), ID))"

section \<open>The queues of a CPU\<close>

record scheduler =
  sc_curr :: task
  sc_ready :: "task list"
  sc_terminate :: "task list"
  sc_sleep :: "task list"

definition scheduler_new :: "task \<Rightarrow> scheduler" where
  "scheduler_new idle = \<lparr>sc_curr = idle, sc_ready = [], sc_terminate = [], sc_sleep = []\<rparr>"

definition sched_add_task :: "scheduler \<Rightarrow> task \<Rightarrow> scheduler" where
  "sched_add_task s t = s\<lparr>sc_ready := sc_ready s @ [t]\<rparr>"

definition task_count :: "scheduler \<Rightarrow> nat \<times> nat" where
  "task_count s =
     fold (\<lambda>t (kernel, user). case task_type t of Kernel \<Rightarrow> (kernel + 1, user) | User _ _ _ _ \<Rightarrow> (kernel, user + 1))
       (sc_ready s) (0, 0)"

text \<open>\<^verbatim>\<open>VecDeque::remove\<close> and \<^verbatim>\<open>Vec::remove\<close> at an index within the list.\<close>

definition remove_at :: "'a list \<Rightarrow> nat \<Rightarrow> 'a list" where
  "remove_at xs i = take i xs @ drop (Suc i) xs"

primrec user_indices :: "nat \<Rightarrow> (nat \<times> task) list \<Rightarrow> nat list \<Rightarrow> nat list" where
  "user_indices cnt [] pop_queue = pop_queue"
| "user_indices cnt (it # its) pop_queue =
     (if cnt \<le> length pop_queue then pop_queue
      else user_indices cnt its (if is_user (snd it) then pop_queue @ [fst it] else pop_queue))"

text \<open>A failing \<^verbatim>\<open>remove\<close> returns \<open>None\<close>, with the tasks removed before it gone from the queue.\<close>

primrec pop_tasks :: "nat list \<Rightarrow> task list \<Rightarrow> task list \<Rightarrow> task list option \<times> task list" where
  "pop_tasks [] ready tasks = (Some tasks, ready)"
| "pop_tasks (i # is) ready tasks =
     (if i < length ready then pop_tasks is (remove_at ready i) (tasks @ [ready ! i]) else (None, ready))"

definition take_user_tasks :: "nat \<Rightarrow> scheduler \<Rightarrow> task list option \<times> scheduler" where
  "take_user_tasks cnt s =
     (if snd (task_count s) < cnt then (None, s)
      else
        let pop_queue = user_indices cnt (enumerate 0 (sc_ready s)) [];
            (tasks, ready) = pop_tasks (rev pop_queue) (sc_ready s) []
        in (tasks, s\<lparr>sc_ready := ready\<rparr>))"

section \<open>The switch of tasks\<close>

record cpu =
  cpu_id :: u64
  cpu_scheduler :: scheduler
  cpu_idle :: task
  cpu_cr3 :: u64
  cpu_rsp0 :: u64
  cpu_syscall_stack :: u64

text \<open>\<open>clock i\<close> is the reading of the clock for the sleeping task \<open>i\<close>.\<close>

definition wakes :: "u64 \<Rightarrow> task \<Rightarrow> bool" where
  "wakes now t = (case task_state t of Wait x \<Rightarrow> to_nanos x < now | Ready \<Rightarrow> True | Terminate _ \<Rightarrow> True)"

definition wake_queue :: "(nat \<Rightarrow> u64) \<Rightarrow> task list \<Rightarrow> nat list" where
  "wake_queue clock sleep = [i \<leftarrow> [0..<length sleep]. wakes (clock i) (sleep ! i)]"

primrec wake_tasks :: "nat list \<Rightarrow> scheduler \<Rightarrow> scheduler option" where
  "wake_tasks [] s = Some s"
| "wake_tasks (i # is) s =
     (if i < length (sc_sleep s)
      then wake_tasks is (s\<lparr>sc_sleep := remove_at (sc_sleep s) i,
             sc_ready := sc_ready s @ [(sc_sleep s ! i)\<lparr>task_state := Ready\<rparr>]\<rparr>)
      else None)"

definition move_to_queue :: "scheduler \<Rightarrow> task \<Rightarrow> scheduler" where
  "move_to_queue s t =
     (case task_state t of
        Ready \<Rightarrow> s\<lparr>sc_ready := sc_ready s @ [t]\<rparr>
      | Terminate _ \<Rightarrow> s\<lparr>sc_terminate := sc_terminate s @ [t]\<rparr>
      | Wait _ \<Rightarrow> s\<lparr>sc_sleep := sc_sleep s @ [t]\<rparr>)"

definition enter_task :: "u64 \<Rightarrow> task \<Rightarrow> cpu \<Rightarrow> cpu option" where
  "enter_task kernel_l4 t c =
     (case task_type t of
        Kernel \<Rightarrow> Some (c\<lparr>cpu_cr3 := kernel_l4\<rparr>)
      | User l4 syscall_stack priv_stack _ \<Rightarrow>
          (let c = c\<lparr>cpu_cr3 := l4 - l4 mod 4096\<rparr>
           in case stack_top priv_stack of None \<Rightarrow> None | Some rsp0 \<Rightarrow>
              case stack_top syscall_stack of None \<Rightarrow> None | Some sp \<Rightarrow>
              Some (c\<lparr>cpu_rsp0 := rsp0, cpu_syscall_stack := sp\<rparr>)))"

definition switch_to :: "u64 \<Rightarrow> task \<Rightarrow> scheduler \<Rightarrow> cpu \<Rightarrow> (cpu \<times> usize) option" where
  "switch_to kernel_l4 next_task s c =
     (case enter_task kernel_l4 next_task c of None \<Rightarrow> None | Some c \<Rightarrow>
        let old_task = sc_curr s;
            s = move_to_queue (s\<lparr>sc_curr := next_task\<rparr>) old_task;
            s = s\<lparr>sc_terminate := []\<rparr>
        in Some (c\<lparr>cpu_scheduler := s\<rparr>, task_sp (sc_curr s)))"

definition sched_logic :: "u64 \<Rightarrow> (nat \<Rightarrow> u64) \<Rightarrow> usize \<Rightarrow> cpu \<Rightarrow> (cpu \<times> usize) option" where
  "sched_logic kernel_l4 clock old_sp c =
     (let s = cpu_scheduler c;
          s = s\<lparr>sc_curr := (sc_curr s)\<lparr>task_sp := old_sp\<rparr>\<rparr>
      in case wake_tasks (rev (wake_queue clock (sc_sleep s))) s of None \<Rightarrow> None | Some s \<Rightarrow>
         case sc_ready s of
           t # ready \<Rightarrow> switch_to kernel_l4 t (s\<lparr>sc_ready := ready\<rparr>) c
         | [] \<Rightarrow>
             if task_state (sc_curr s) = Ready then Some (c\<lparr>cpu_scheduler := s\<rparr>, task_sp (sc_curr s))
             else switch_to kernel_l4 (cpu_idle c) s c)"

text \<open>The interrupt that \<^verbatim>\<open>yield_now\<close> sends to the own CPU is the call of \<open>sched_logic\<close> that follows.\<close>

definition kill_active_task :: "u64 \<Rightarrow> cpu \<Rightarrow> cpu" where
  "kill_active_task err_code c =
     (let s = cpu_scheduler c
      in c\<lparr>cpu_scheduler := s\<lparr>sc_curr := (sc_curr s)\<lparr>task_state := Terminate err_code\<rparr>\<rparr>\<rparr>)"

section \<open>Several CPUs\<close>

primrec busiest_loop :: "(nat \<times> cpu) list \<Rightarrow> nat \<Rightarrow> nat option \<Rightarrow> nat option \<times> nat" where
  "busiest_loop [] max_count busy_cpu = (busy_cpu, max_count)"
| "busiest_loop (ic # ics) max_count busy_cpu =
     (let n = snd (task_count (cpu_scheduler (snd ic)))
      in if max_count < n then busiest_loop ics n (Some (fst ic)) else busiest_loop ics max_count busy_cpu)"

definition busiest_queue :: "cpu list \<Rightarrow> (nat \<times> nat) option" where
  "busiest_queue cpus =
     (case busiest_loop (enumerate 0 cpus) 0 None of (busy_cpu, n) \<Rightarrow> map_option (\<lambda>i. (i, n)) busy_cpu)"

primrec laziest_loop :: "(nat \<times> cpu) list \<Rightarrow> nat \<Rightarrow> nat option \<Rightarrow> (nat \<times> nat) option" where
  "laziest_loop [] min_count lazy_cpu = map_option (\<lambda>i. (i, min_count)) lazy_cpu"
| "laziest_loop (ic # ics) min_count lazy_cpu =
     (let n = snd (task_count (cpu_scheduler (snd ic)))
      in if n = 0 then Some (fst ic, 0)
         else if n < min_count then laziest_loop ics n (Some (fst ic))
         else laziest_loop ics min_count lazy_cpu)"

definition laziest_queue :: "cpu list \<Rightarrow> (nat \<times> nat) option" where
  "laziest_queue cpus = laziest_loop (enumerate 0 cpus) (2 ^ 64 - 1) None"

text \<open>\<open>current\<close> is the position of the running CPU in \<^verbatim>\<open>CPUS\<close>. \<^verbatim>\<open>CPUS[i]\<close> panics out of range.\<close>

definition on_scheduler :: "nat \<Rightarrow> (scheduler \<Rightarrow> scheduler) \<Rightarrow> cpu list \<Rightarrow> cpu list" where
  "on_scheduler i f cpus = cpus[i := (cpus ! i)\<lparr>cpu_scheduler := f (cpu_scheduler (cpus ! i))\<rparr>]"

definition add_task :: "nat \<Rightarrow> task \<Rightarrow> cpu list \<Rightarrow> cpu list option" where
  "add_task current t cpus =
     (let cpuid = (case laziest_queue cpus of Some (cpu, _) \<Rightarrow> cpu | None \<Rightarrow> unat (cpu_id (cpus ! current)))
      in if cpuid < length cpus then Some (on_scheduler cpuid (\<lambda>s. sched_add_task s t) cpus) else None)"

text \<open>
  The loop of \<^verbatim>\<open>idle_task\<close>: the own queue is counted, a busier CPU is looked for, tasks are taken from
  it, and put into the own queue.
\<close>

definition idle_count :: "nat \<Rightarrow> cpu list \<Rightarrow> cpu list \<times> nat" where
  "idle_count current cpus =
     (let cpus = on_scheduler current (\<lambda>s. s\<lparr>sc_terminate := []\<rparr>) cpus
      in (cpus, snd (task_count (cpu_scheduler (cpus ! current)))))"

definition idle_victim :: "nat \<Rightarrow> cpu list \<Rightarrow> nat option" where
  "idle_victim current cpus =
     (case busiest_queue cpus of None \<Rightarrow> None
      | Some (busiest, n) \<Rightarrow> if busiest = unat (cpu_id (cpus ! current)) \<or> n < 2 then None else Some busiest)"

definition take_count :: "nat \<Rightarrow> scheduler \<Rightarrow> nat" where
  "take_count own_count busy = (snd (task_count busy) - own_count) div 2"

definition idle_take :: "nat \<Rightarrow> nat \<Rightarrow> cpu list \<Rightarrow> task list option \<times> cpu list" where
  "idle_take busiest own_count cpus =
     (let busy = cpu_scheduler (cpus ! busiest);
          (tasks, busy) = take_user_tasks (take_count own_count busy) busy
      in (tasks, on_scheduler busiest (\<lambda>_. busy) cpus))"

definition idle_give :: "nat \<Rightarrow> task list \<Rightarrow> cpu list \<Rightarrow> cpu list" where
  "idle_give current tasks cpus = on_scheduler current (\<lambda>s. s\<lparr>sc_ready := sc_ready s @ tasks\<rparr>) cpus"

text \<open>One turn of the loop that no other CPU interrupts.\<close>

definition idle_turn :: "nat \<Rightarrow> cpu list \<Rightarrow> cpu list" where
  "idle_turn current cpus =
     (let (cpus, own_count) = idle_count current cpus
      in case idle_victim current cpus of None \<Rightarrow> cpus
         | Some busiest \<Rightarrow>
             let (tasks, cpus) = idle_take busiest own_count cpus
             in case tasks of None \<Rightarrow> cpus | Some tasks \<Rightarrow> idle_give current tasks cpus)"

section \<open>Steps of the machine\<close>

text \<open>
  The CPUs with the tasks each has taken from another and not yet queued. An event is one locked
  section of one CPU: a timer tick, the death of the current task, a new task, or a step of the idle
  loop, with the count and the victim it saw before.
\<close>

record smp =
  smp_cpus :: "cpu list"
  smp_flight :: "task list list"

datatype sched_event =
    Tick nat "nat \<Rightarrow> u64" usize
  | Kill nat u64
  | Spawn nat task
  | Count nat
  | Take nat nat nat
  | Give nat

fun smp_step :: "u64 \<Rightarrow> sched_event \<Rightarrow> smp \<Rightarrow> smp option" where
  "smp_step l4 (Tick i clock sp) m =
     map_option (\<lambda>(c, _). m\<lparr>smp_cpus := (smp_cpus m)[i := c]\<rparr>) (sched_logic l4 clock sp (smp_cpus m ! i))"
| "smp_step l4 (Kill i code) m = Some (m\<lparr>smp_cpus := (smp_cpus m)[i := kill_active_task code (smp_cpus m ! i)]\<rparr>)"
| "smp_step l4 (Spawn i t) m = map_option (\<lambda>cs. m\<lparr>smp_cpus := cs\<rparr>) (add_task i t (smp_cpus m))"
| "smp_step l4 (Count i) m = Some (m\<lparr>smp_cpus := fst (idle_count i (smp_cpus m))\<rparr>)"
| "smp_step l4 (Take i busiest own_count) m =
     (let (tasks, cs) = idle_take busiest own_count (smp_cpus m)
      in Some (m\<lparr>smp_cpus := cs,
           smp_flight := (smp_flight m)[i := smp_flight m ! i @ (case tasks of None \<Rightarrow> [] | Some ts \<Rightarrow> ts)]\<rparr>))"
| "smp_step l4 (Give i) m =
     Some (m\<lparr>smp_cpus := idle_give i (smp_flight m ! i) (smp_cpus m), smp_flight := (smp_flight m)[i := []]\<rparr>)"

primrec smp_run :: "u64 \<Rightarrow> sched_event list \<Rightarrow> smp \<Rightarrow> smp option" where
  "smp_run l4 [] m = Some m"
| "smp_run l4 (e # es) m = (case smp_step l4 e m of None \<Rightarrow> None | Some m \<Rightarrow> smp_run l4 es m)"

end
