(* ===== verification/Sched_Laws.thy ===== *)
theory Sched_Laws
  imports Sched "HOL-Library.Multiset"
begin

text \<open>
  What the steps of the scheduler do to the queues, the invariant of a CPU, and that every step of the
  machine keeps it and neither loses nor duplicates a task.
\<close>

section \<open>Removing positions from a list, the last one first\<close>

lemma mset_nths_split: "mset (nths xs A) + mset (nths xs (- A)) = mset xs"
proof (induction xs arbitrary: A)
  case (Cons x xs)
  have "{j. Suc j \<in> - A} = - {j. Suc j \<in> A}" by auto
  then show ?case using Cons [of "{j. Suc j \<in> A}"] by (simp add: nths_Cons)
qed simp

lemma nths_UNIV [simp]: "nths xs UNIV = xs"
  by (rule nths_all) simp

lemma nths_below: "\<forall>i<length xs. (i \<in> A) = (i \<in> B) \<Longrightarrow> nths xs A = nths xs B"
  unfolding nths_def by (rule arg_cong [where f = "map fst"], rule filter_cong) (auto simp: set_zip)

lemma length_remove_at [simp]: "i < length xs \<Longrightarrow> length (remove_at xs i) = length xs - 1"
  by (simp add: remove_at_def min_def)

lemma nth_remove_at: "i < j \<Longrightarrow> j < length xs \<Longrightarrow> remove_at xs j ! i = xs ! i"
  by (simp add: remove_at_def nth_append)

lemma nths_remove_at:
  assumes "j < length xs" and "\<forall>i\<in>A. i < j"
  shows "nths (remove_at xs j) (- A) = nths xs (- insert j A)"
proof -
  have "nths (drop (Suc j) xs) {i. i + j \<notin> A} = drop (Suc j) xs"
    using assms(2) by (fastforce intro: nths_all)
  moreover have "nths (take j xs) (- A) = nths (take j xs) (- insert j A)"
    by (rule nths_below) simp
  moreover have "nths (xs ! j # drop (Suc j) xs) {i. i + j \<in> - insert j A} = drop (Suc j) xs"
    using assms(2) by (fastforce simp: nths_Cons intro: nths_all)
  moreover have "nths xs (- insert j A) = nths (take j xs @ xs ! j # drop (Suc j) xs) (- insert j A)"
    using assms(1) by (simp add: id_take_nth_drop [symmetric])
  ultimately show ?thesis
    using assms(1) by (simp add: remove_at_def nths_append min_def)
qed

lemma pop_tasks_sorted:
  assumes "sorted_wrt (<) js" and "\<forall>j\<in>set js. j < length xs"
  shows "pop_tasks (rev js) xs ts = (Some (ts @ map ((!) xs) (rev js)), nths xs (- set js))"
  using assms
proof (induction js arbitrary: xs ts rule: rev_induct)
  case (snoc j js)
  then have l: "\<forall>i\<in>set js. i < j" and j: "j < length xs" by (auto simp: sorted_wrt_append)
  then have "\<forall>i\<in>set js. i < length xs - 1" by fastforce
  then show ?case
    using snoc.prems l j by (simp add: sorted_wrt_append snoc.IH nth_remove_at nths_remove_at cong: map_cong)
qed simp

lemma wake_tasks_sorted:
  assumes "sorted_wrt (<) js" and "\<forall>j\<in>set js. j < length (sc_sleep s)"
  shows "wake_tasks (rev js) s =
           Some (s\<lparr>sc_sleep := nths (sc_sleep s) (- set js),
             sc_ready := sc_ready s @ map (\<lambda>j. (sc_sleep s ! j)\<lparr>task_state := Ready\<rparr>) (rev js)\<rparr>)"
  using assms
proof (induction js arbitrary: s rule: rev_induct)
  case (snoc j js)
  then have l: "\<forall>i\<in>set js. i < j" and j: "j < length (sc_sleep s)" by (auto simp: sorted_wrt_append)
  then have "\<forall>i\<in>set js. i < length (sc_sleep s) - 1" by fastforce
  then show ?case
    using snoc.prems l j by (simp add: sorted_wrt_append snoc.IH nth_remove_at nths_remove_at cong: map_cong)
qed simp

section \<open>The waking of tasks\<close>

definition woken :: "(nat \<Rightarrow> u64) \<Rightarrow> task list \<Rightarrow> task list" where
  "woken clock sleep = map (\<lambda>j. (sleep ! j)\<lparr>task_state := Ready\<rparr>) (rev (wake_queue clock sleep))"

definition asleep :: "(nat \<Rightarrow> u64) \<Rightarrow> task list \<Rightarrow> task list" where
  "asleep clock sleep = nths sleep (- set (wake_queue clock sleep))"

lemma wake_queue_sorted: "sorted_wrt (<) (wake_queue clock sleep)"
  by (simp add: wake_queue_def sorted_wrt_filter)

lemma wake_tasks_eq:
  "wake_tasks (rev (wake_queue clock (sc_sleep s))) s =
     Some (s\<lparr>sc_sleep := asleep clock (sc_sleep s), sc_ready := sc_ready s @ woken clock (sc_sleep s)\<rparr>)"
  unfolding asleep_def woken_def
  by (rule wake_tasks_sorted [OF wake_queue_sorted]) (simp add: wake_queue_def)

lemma wake_tasks_curr:
  "wake_tasks (rev (wake_queue clock (sc_sleep s))) (s\<lparr>sc_curr := t\<rparr>) =
     Some (s\<lparr>sc_curr := t, sc_sleep := asleep clock (sc_sleep s), sc_ready := sc_ready s @ woken clock (sc_sleep s)\<rparr>)"
  using wake_tasks_eq [of clock "s\<lparr>sc_curr := t\<rparr>"] by simp

lemma nths_filter_upt: "nths xs {i. Q i} = map ((!) xs) (filter Q [0..<length xs])"
proof (induction xs rule: rev_induct)
  case (snoc x xs)
  then show ?case by (auto simp: nths_append nth_append intro!: map_cong)
qed simp

lemma mset_woken_asleep:
  "image_mset task_id (mset (woken clock sleep)) + image_mset task_id (mset (asleep clock sleep)) =
     image_mset task_id (mset sleep)"
proof -
  let ?A = "set (wake_queue clock sleep)"
  have "nths sleep ?A = map ((!) sleep) (wake_queue clock sleep)"
    using nths_filter_upt [of sleep "\<lambda>i. i < length sleep \<and> wakes (clock i) (sleep ! i)"]
    by (simp add: wake_queue_def) (rule map_cong [OF filter_cong], auto)
  then have "image_mset task_id (mset (woken clock sleep)) = image_mset task_id (mset (nths sleep ?A))"
    by (simp add: woken_def multiset.map_comp comp_def)
  then show ?thesis
    using mset_nths_split [of sleep ?A] by (simp add: asleep_def image_mset_union [symmetric])
qed

lemma set_asleep: "set (asleep clock sleep) \<subseteq> set sleep"
  by (simp add: asleep_def set_nths_subset)

lemma wokenE:
  assumes "t \<in> set (woken clock sleep)"
  obtains u where "u \<in> set sleep" and "t = u\<lparr>task_state := Ready\<rparr>"
  using assms that nth_mem by (fastforce simp: woken_def wake_queue_def)

section \<open>The invariant of a CPU\<close>

definition tops_ok :: "task \<Rightarrow> bool" where
  "tops_ok t = (case task_type t of Kernel \<Rightarrow> True
     | User _ syscall_stack priv_stack _ \<Rightarrow> stack_top syscall_stack \<noteq> None \<and> stack_top priv_stack \<noteq> None)"

definition is_idle :: "cpu \<Rightarrow> task \<Rightarrow> bool" where
  "is_idle c t \<longleftrightarrow> task_id t = task_id (cpu_idle c) \<and> task_type t = Kernel \<and> task_state t = Ready"

definition tasks :: "scheduler \<Rightarrow> task list" where
  "tasks s = sc_curr s # sc_ready s @ sc_sleep s"

definition cpu_ok :: "cpu \<Rightarrow> bool" where
  "cpu_ok c \<longleftrightarrow>
     (let s = cpu_scheduler c
      in (\<exists>t\<in>set (sc_curr s # sc_ready s). is_idle c t) \<and>
         (\<forall>t\<in>set (sc_ready s). task_state t = Ready) \<and>
         (\<forall>t\<in>set (tasks s). tops_ok t))"

definition ids :: "scheduler \<Rightarrow> u64 multiset" where
  "ids s = image_mset task_id (mset (tasks s))"

lemma tops_ok_update [simp]:
  "tops_ok (t\<lparr>task_sp := x\<rparr>) = tops_ok t" "tops_ok (t\<lparr>task_state := y\<rparr>) = tops_ok t"
  by (simp_all add: tops_ok_def)

lemma is_idle_update [simp]:
  "is_idle c (t\<lparr>task_sp := x\<rparr>) = is_idle c t" "is_idle (c\<lparr>cpu_scheduler := s\<rparr>) t = is_idle c t"
  by (simp_all add: is_idle_def)

lemma enter_task_ok:
  assumes "tops_ok t"
  obtains c' where "enter_task l4 t c = Some c'" and "cpu_idle c' = cpu_idle c" and "cpu_id c' = cpu_id c"
  using assms that by (cases "task_type t") (auto simp: enter_task_def tops_ok_def)

text \<open>The queue the next task is taken from, and the switch to its first task.\<close>

definition run_queue :: "(nat \<Rightarrow> u64) \<Rightarrow> scheduler \<Rightarrow> task list" where
  "run_queue clock s = sc_ready s @ woken clock (sc_sleep s)"

definition after_switch :: "(nat \<Rightarrow> u64) \<Rightarrow> usize \<Rightarrow> task \<Rightarrow> task list \<Rightarrow> scheduler \<Rightarrow> scheduler" where
  "after_switch clock old_sp t q s =
     (let old = (sc_curr s)\<lparr>task_sp := old_sp\<rparr>
      in \<lparr>sc_curr = t,
          sc_ready = q @ (if task_state old = Ready then [old] else []),
          sc_terminate = [],
          sc_sleep = asleep clock (sc_sleep s) @ (case task_state old of Wait _ \<Rightarrow> [old] | _ \<Rightarrow> [])\<rparr>)"

lemma switch_to_eq:
  assumes "s = s0\<lparr>sc_curr := (sc_curr s0)\<lparr>task_sp := sp\<rparr>, sc_sleep := asleep clock (sc_sleep s0), sc_ready := q\<rparr>"
  shows "switch_to l4 t s c =
     map_option (\<lambda>c. (c\<lparr>cpu_scheduler := after_switch clock sp t q s0\<rparr>, task_sp t)) (enter_task l4 t c)"
  unfolding assms
  by (cases "enter_task l4 t c"; cases "task_state (sc_curr s0)"; cases s0)
    (simp_all add: switch_to_def move_to_queue_def after_switch_def Let_def)

lemma sched_logic_switch:
  assumes "run_queue clock (cpu_scheduler c) = t # q"
  shows "sched_logic l4 clock sp c =
     map_option (\<lambda>c'. (c'\<lparr>cpu_scheduler := after_switch clock sp t q (cpu_scheduler c)\<rparr>, task_sp t)) (enter_task l4 t c)"
proof -
  have "sched_logic l4 clock sp c =
    switch_to l4 t ((cpu_scheduler c)\<lparr>sc_curr := (sc_curr (cpu_scheduler c))\<lparr>task_sp := sp\<rparr>,
      sc_sleep := asleep clock (sc_sleep (cpu_scheduler c)), sc_ready := q\<rparr>) c"
    using assms unfolding run_queue_def sched_logic_def Let_def by (simp add: wake_tasks_curr)
  then show ?thesis by (simp only: switch_to_eq [OF refl])
qed

lemma sched_logic_stay:
  assumes "run_queue clock (cpu_scheduler c) = []" and "task_state (sc_curr (cpu_scheduler c)) = Ready"
  shows "sched_logic l4 clock sp c =
     (let s = cpu_scheduler c
      in Some (c\<lparr>cpu_scheduler := s\<lparr>sc_curr := (sc_curr s)\<lparr>task_sp := sp\<rparr>, sc_sleep := asleep clock (sc_sleep s)\<rparr>\<rparr>, sp))"
  using assms
  by (simp add: sched_logic_def Let_def wake_tasks_curr run_queue_def)

text \<open>The whole effect of a switch to \<open>t\<close> with the rest \<open>q\<close> of the queue; it panics where a stack of a user
  task has no top.\<close>

definition switched :: "u64 \<Rightarrow> (nat \<Rightarrow> u64) \<Rightarrow> usize \<Rightarrow> task \<Rightarrow> task list \<Rightarrow> cpu \<Rightarrow> (cpu \<times> usize) option" where
  "switched l4 clock sp t q c =
     (let s = after_switch clock sp t q (cpu_scheduler c)
      in case task_type t of
           Kernel \<Rightarrow> Some (c\<lparr>cpu_scheduler := s, cpu_cr3 := l4\<rparr>, task_sp t)
         | User a syscall_stack priv_stack _ \<Rightarrow>
             (case (stack_top priv_stack, stack_top syscall_stack) of
                (Some p, Some y) \<Rightarrow>
                  Some (c\<lparr>cpu_scheduler := s, cpu_cr3 := a - a mod 4096, cpu_rsp0 := p, cpu_syscall_stack := y\<rparr>, task_sp t)
              | _ \<Rightarrow> None))"

lemma switched_eq:
  "map_option (\<lambda>c'. (c'\<lparr>cpu_scheduler := after_switch clock sp t q (cpu_scheduler c)\<rparr>, task_sp t)) (enter_task l4 t c) =
     switched l4 clock sp t q c"
  by (cases c) (simp add: enter_task_def switched_def Let_def split: task_type.splits option.splits)

lemma sched_logic_idle:
  assumes "run_queue clock (cpu_scheduler c) = []" and "task_state (sc_curr (cpu_scheduler c)) \<noteq> Ready"
  shows "sched_logic l4 clock sp c = switched l4 clock sp (cpu_idle c) [] c"
proof -
  have "sched_logic l4 clock sp c =
    switch_to l4 (cpu_idle c) ((cpu_scheduler c)\<lparr>sc_curr := (sc_curr (cpu_scheduler c))\<lparr>task_sp := sp\<rparr>,
      sc_sleep := asleep clock (sc_sleep (cpu_scheduler c)), sc_ready := []\<rparr>) c"
    using assms unfolding run_queue_def sched_logic_def Let_def by (simp add: wake_tasks_curr)
  then show ?thesis by (simp only: switch_to_eq [OF refl] switched_eq)
qed

definition ended :: "cpu \<Rightarrow> u64 multiset" where
  "ended c = (let t = sc_curr (cpu_scheduler c)
     in case task_state t of Terminate _ \<Rightarrow> {#task_id t#} | _ \<Rightarrow> {#})"

lemma ids_after_switch:
  assumes "run_queue clock s = t # q" and "cpu_scheduler c = s"
  shows "ids (after_switch clock sp t q s) + ended c = ids s"
proof -
  have "image_mset task_id (mset (t # q)) + image_mset task_id (mset (asleep clock (sc_sleep s))) =
      image_mset task_id (mset (sc_ready s)) + image_mset task_id (mset (sc_sleep s))"
    using mset_woken_asleep [of clock "sc_sleep s"]
    by (simp add: assms(1) [symmetric] run_queue_def ac_simps)
  then show ?thesis
    using assms(2)
    by (cases "task_state (sc_curr s)") (simp_all add: ids_def tasks_def after_switch_def Let_def ended_def)
qed

lemma run_queue_ok:
  assumes "cpu_ok c" and "t \<in> set (run_queue clock (cpu_scheduler c))"
  shows "task_state t = Ready" and "tops_ok t"
  using assms by (auto simp: cpu_ok_def run_queue_def tasks_def Let_def elim!: wokenE)

lemma sched_logic_ok:
  assumes "cpu_ok c"
  obtains c' r where "sched_logic l4 clock sp c = Some (c', r)" and "cpu_ok c'" and "cpu_id c' = cpu_id c"
    and "ids (cpu_scheduler c') + ended c = ids (cpu_scheduler c)"
proof (cases "run_queue clock (cpu_scheduler c)")
  case Nil
  let ?s = "cpu_scheduler c"
  from Nil have w: "sc_ready ?s = []" "woken clock (sc_sleep ?s) = []" by (simp_all add: run_queue_def)
  then have i: "is_idle c (sc_curr ?s)" using assms by (simp add: cpu_ok_def Let_def)
  then have r: "task_state (sc_curr ?s) = Ready" by (simp add: is_idle_def)
  show ?thesis
  proof (rule that)
    show "sched_logic l4 clock sp c = Some (c\<lparr>cpu_scheduler := ?s\<lparr>sc_curr := (sc_curr ?s)\<lparr>task_sp := sp\<rparr>,
        sc_sleep := asleep clock (sc_sleep ?s)\<rparr>\<rparr>, sp)"
      using sched_logic_stay [OF Nil r] by (simp add: Let_def)
  qed (use assms i w mset_woken_asleep [of clock "sc_sleep ?s"] r set_asleep [of clock "sc_sleep ?s"]
      in \<open>auto simp: cpu_ok_def ids_def tasks_def ended_def Let_def\<close>)
next
  case (Cons t q)
  let ?s = "cpu_scheduler c"
  have q: "\<forall>u\<in>set (t # q). task_state u = Ready \<and> tops_ok u"
    using run_queue_ok [OF assms, of _ clock] Cons by simp
  then obtain c' where e: "enter_task l4 t c = Some c'" and c': "cpu_idle c' = cpu_idle c" "cpu_id c' = cpu_id c"
    using enter_task_ok by (metis list.set_intros(1))
  have "\<exists>u\<in>set (t # q @ (if task_state (sc_curr ?s) = Ready then [(sc_curr ?s)\<lparr>task_sp := sp\<rparr>] else [])). is_idle c u"
  proof -
    obtain u where u: "u \<in> set (sc_curr ?s # sc_ready ?s)" "is_idle c u"
      using assms by (auto simp: cpu_ok_def Let_def)
    show ?thesis
    proof (cases "u = sc_curr ?s")
      case True
      then show ?thesis using u by (auto simp: is_idle_def)
    next
      case False
      then have "u \<in> set (t # q)" using u(1) by (auto simp: Cons [symmetric] run_queue_def)
      then show ?thesis using u(2) by auto
    qed
  qed
  moreover have "\<forall>u\<in>set (tasks (after_switch clock sp t q ?s)). tops_ok u"
    using assms q set_asleep [of clock "sc_sleep ?s"]
    by (auto simp: after_switch_def tasks_def Let_def cpu_ok_def split: task_state.splits if_splits)
  ultimately have "cpu_ok (c'\<lparr>cpu_scheduler := after_switch clock sp t q ?s\<rparr>)"
    using q c' by (auto simp: cpu_ok_def is_idle_def after_switch_def Let_def split: if_splits)
  then show ?thesis
    using that sched_logic_switch [OF Cons] e c' ids_after_switch [OF Cons refl] by simp
qed

section \<open>Taking user tasks\<close>

definition users :: "task list \<Rightarrow> nat" where
  "users ts = length (filter is_user ts)"

lemma task_count_users: "snd (task_count s) = users (sc_ready s)"
proof -
  have "snd (fold (\<lambda>t (kernel, user). case task_type t of Kernel \<Rightarrow> (kernel + 1, user) | User _ _ _ _ \<Rightarrow> (kernel, user + 1))
      ts (k, u)) = u + users ts" for ts :: "task list" and k u :: nat
    by (induction ts arbitrary: k u) (simp_all add: users_def is_user_def split: task_type.splits)
  then show ?thesis by (simp add: task_count_def)
qed

lemma user_indices_eq:
  "user_indices cnt its acc = acc @ take (cnt - length acc) (map fst (filter (\<lambda>it. is_user (snd it)) its))"
proof (induction its arbitrary: acc)
  case (Cons it its)
  show ?case
  proof (cases "cnt \<le> length acc")
    case False
    then obtain k where "cnt - length acc = Suc k" by (metis diff_is_0_eq not0_implies_Suc)
    then show ?thesis using False by (simp add: Cons) (simp add: diff_Suc split: nat.splits)
  qed simp
qed simp

lemma user_positions:
  fixes xs :: "task list" and cnt :: nat
  defines "js \<equiv> take cnt (map fst (filter (\<lambda>it. is_user (snd it)) (enumerate 0 xs)))"
  shows "sorted_wrt (<) js" and "\<forall>j\<in>set js. j < length xs \<and> is_user (xs ! j)" and "length js = min cnt (users xs)"
proof -
  let ?P = "\<lambda>it. is_user (snd it)"
  have "sorted_wrt (\<lambda>x y. fst x < fst y) (enumerate 0 xs)"
    by (simp only: sorted_wrt_map [symmetric] map_fst_enumerate) simp
  then have "sorted_wrt (<) (map fst (filter ?P (enumerate 0 xs)))"
    by (simp only: sorted_wrt_map sorted_wrt_filter)
  then show "sorted_wrt (<) js" unfolding js_def by (rule sorted_wrt_take)
  show "\<forall>j\<in>set js. j < length xs \<and> is_user (xs ! j)"
    unfolding js_def by (auto dest!: in_set_takeD simp: in_set_enumerate_eq)
  have "filter is_user xs = map snd (filter ?P (enumerate 0 xs))"
    by (metis (no_types, lifting) filter_map comp_apply filter_cong map_snd_enumerate)
  then show "length js = min cnt (users xs)" by (simp add: js_def users_def)
qed

lemma take_user_tasks_ok:
  obtains ts ready where
    "take_user_tasks cnt s = (if cnt \<le> users (sc_ready s) then Some ts else None, s\<lparr>sc_ready := ready\<rparr>)"
    and "mset ts + mset ready = mset (sc_ready s)" and "\<forall>t\<in>set ts. is_user t"
    and "cnt \<le> users (sc_ready s) \<Longrightarrow> length ts = cnt" and "\<not> cnt \<le> users (sc_ready s) \<Longrightarrow> ts = []"
proof (cases "cnt \<le> users (sc_ready s)")
  case True
  let ?xs = "sc_ready s"
  define js where "js = take cnt (map fst (filter (\<lambda>it. is_user (snd it)) (enumerate 0 ?xs)))"
  note js = user_positions [of cnt ?xs, folded js_def]
  have "pop_tasks (rev js) ?xs [] = (Some (map ((!) ?xs) (rev js)), nths ?xs (- set js))"
    using pop_tasks_sorted [OF js(1), of ?xs "[]"] js(2) by simp
  then have e: "take_user_tasks cnt s = (Some (map ((!) ?xs) (rev js)), s\<lparr>sc_ready := nths ?xs (- set js)\<rparr>)"
    using True by (simp add: take_user_tasks_def task_count_users user_indices_eq js_def [symmetric])
  have "mset (map ((!) ?xs) js) + mset (nths ?xs (- set js)) = mset ?xs"
  proof -
    have "js = filter (\<lambda>i. i \<in> set js) [0..<length ?xs]"
      using js(1,2) by (intro strict_sorted_equal) (auto simp: sorted_wrt_filter)
    then have "nths ?xs (set js) = map ((!) ?xs) js" using nths_filter_upt [of ?xs "\<lambda>i. i \<in> set js"] by simp
    then show ?thesis using mset_nths_split [of ?xs "set js"] by simp
  qed
  then show ?thesis using that [of "map ((!) ?xs) (rev js)"] e js True by simp
next
  case False
  then show ?thesis using that [of "[]" "sc_ready s"] by (simp add: take_user_tasks_def task_count_users)
qed

text \<open>A task of the queue is taken, or it stays with at most as many tasks before it.\<close>

lemma take_user_tasks_position:
  assumes "take_user_tasks cnt s = (r, s')" and "sc_ready s = us @ t # vs"
  shows "(\<exists>us' vs'. sc_ready s' = us' @ t # vs' \<and> length us' \<le> length us) \<or> is_user t \<and> (\<exists>ts. r = Some ts \<and> t \<in> set ts)"
proof (cases "cnt \<le> users (sc_ready s)")
  case True
  let ?xs = "sc_ready s"
  define js where "js = take cnt (map fst (filter (\<lambda>it. is_user (snd it)) (enumerate 0 ?xs)))"
  note js = user_positions [of cnt ?xs, folded js_def]
  have "pop_tasks (rev js) ?xs [] = (Some (map ((!) ?xs) (rev js)), nths ?xs (- set js))"
    using pop_tasks_sorted [OF js(1), of ?xs "[]"] js(2) by simp
  then have e: "r = Some (map ((!) ?xs) (rev js))" "sc_ready s' = nths ?xs (- set js)"
    using True assms(1) by (auto simp: take_user_tasks_def task_count_users user_indices_eq js_def [symmetric])
  show ?thesis
  proof (cases "length us \<in> set js")
    case True
    then have "is_user t" "t \<in> set (map ((!) ?xs) (rev js))" using js(2) assms(2) by (force simp: image_iff)+
    then show ?thesis using e(1) by blast
  next
    case False
    then have "sc_ready s' = nths us (- set js) @ t # nths vs {j. Suc j + length us \<in> - set js}"
      unfolding e(2) assms(2) by (simp add: nths_append nths_Cons)
    moreover have "length (nths us (- set js)) \<le> length us" unfolding length_nths by (metis (no_types, lifting) card_mono finite_Collect_conjI finite_Collect_less_nat card_Collect_less_nat Collect_mono)
    ultimately show ?thesis by blast
  qed
next
  case False
  then show ?thesis using assms by (auto simp: take_user_tasks_def task_count_users)
qed

section \<open>Steps of the machine\<close>

definition smp_ids :: "smp \<Rightarrow> u64 multiset" where
  "smp_ids m = (\<Sum>c\<leftarrow>smp_cpus m. ids (cpu_scheduler c)) + image_mset task_id (mset (concat (smp_flight m)))"

definition smp_ok :: "smp \<Rightarrow> bool" where
  "smp_ok m \<longleftrightarrow>
     length (smp_flight m) = length (smp_cpus m) \<and>
     (\<forall>i<length (smp_cpus m). cpu_ok (smp_cpus m ! i) \<and> unat (cpu_id (smp_cpus m ! i)) = i) \<and>
     (\<forall>t\<in>set (concat (smp_flight m)). task_state t = Ready \<and> tops_ok t)"

text \<open>The events that can happen: only a task other than the idle one dies, a new task is ready to run.\<close>

fun event_ok :: "sched_event \<Rightarrow> smp \<Rightarrow> bool" where
  "event_ok (Tick i clock sp) m \<longleftrightarrow> i < length (smp_cpus m)"
| "event_ok (Kill i code) m \<longleftrightarrow> i < length (smp_cpus m) \<and>
     task_id (sc_curr (cpu_scheduler (smp_cpus m ! i))) \<noteq> task_id (cpu_idle (smp_cpus m ! i))"
| "event_ok (Spawn i t) m \<longleftrightarrow> i < length (smp_cpus m) \<and> task_state t = Ready \<and> tops_ok t"
| "event_ok (Count i) m \<longleftrightarrow> i < length (smp_cpus m)"
| "event_ok (Take i busiest own_count) m \<longleftrightarrow> i < length (smp_cpus m) \<and> busiest < length (smp_cpus m)"
| "event_ok (Give i) m \<longleftrightarrow> i < length (smp_cpus m)"

fun ended_by :: "sched_event \<Rightarrow> smp \<Rightarrow> u64 multiset" where
  "ended_by (Tick i clock sp) m = ended (smp_cpus m ! i)"
| "ended_by e m = {#}"

fun spawned_by :: "sched_event \<Rightarrow> u64 multiset" where
  "spawned_by (Spawn i t) = {#task_id t#}"
| "spawned_by e = {#}"

lemma sum_list_update_mset:
  fixes f :: "'a \<Rightarrow> 'b multiset"
  shows "i < length xs \<Longrightarrow> (\<Sum>x\<leftarrow>xs[i := y]. f x) + f (xs ! i) = (\<Sum>x\<leftarrow>xs. f x) + f y"
proof (induction xs arbitrary: i)
  case (Cons x xs)
  show ?case
  proof (cases i)
    case (Suc j)
    then show ?thesis using Cons.IH [of j] Cons.prems by (simp add: ac_simps)
  qed (simp add: ac_simps)
qed simp

lemma mset_concat_update:
  "i < length xss \<Longrightarrow> mset (concat (xss[i := ys])) + mset (xss ! i) = mset (concat xss) + mset ys"
  using sum_list_update_mset [of i xss mset ys] by (simp add: mset_concat)

lemma length_on_scheduler [simp]: "length (on_scheduler i f cpus) = length cpus"
  by (simp add: on_scheduler_def)

lemma ids_on_scheduler:
  "i < length cpus \<Longrightarrow>
     (\<Sum>c\<leftarrow>on_scheduler i f cpus. ids (cpu_scheduler c)) + ids (cpu_scheduler (cpus ! i)) =
     (\<Sum>c\<leftarrow>cpus. ids (cpu_scheduler c)) + ids (f (cpu_scheduler (cpus ! i)))"
  using sum_list_update_mset [of i cpus "\<lambda>c. ids (cpu_scheduler c)"] by (simp add: on_scheduler_def)

lemma on_scheduler_nth:
  "i < length cpus \<Longrightarrow> on_scheduler i f cpus ! j =
     (if j = i then (cpus ! i)\<lparr>cpu_scheduler := f (cpu_scheduler (cpus ! i))\<rparr> else cpus ! j)"
  by (simp add: on_scheduler_def)

lemma laziest_in_range:
  "laziest_loop ics n lazy = Some (i, k) \<Longrightarrow> Some i = lazy \<or> i \<in> fst ` set ics"
  by (induction ics arbitrary: n lazy) (auto simp: Let_def split: if_splits)

lemma add_task_some:
  assumes "smp_ok m" and "i < length (smp_cpus m)"
  obtains j where "j < length (smp_cpus m)"
    and "add_task i t (smp_cpus m) = Some (on_scheduler j (\<lambda>s. sched_add_task s t) (smp_cpus m))"
proof (cases "laziest_queue (smp_cpus m)")
  case None
  then show ?thesis using assms that [of i] by (simp add: add_task_def smp_ok_def)
next
  case (Some p)
  obtain j k where p: "p = (j, k)" by (cases p)
  then have "j \<in> fst ` set (enumerate 0 (smp_cpus m))"
    using Some laziest_in_range [of "enumerate 0 (smp_cpus m)"] by (fastforce simp: laziest_queue_def)
  then have "j < length (smp_cpus m)" by (auto simp: in_set_enumerate_eq)
  then show ?thesis using Some p that [of j] by (simp add: add_task_def)
qed

lemma cpu_ok_ready:
  assumes "cpu_ok c" and "set (filter (\<lambda>t. \<not> is_user t) (sc_ready (cpu_scheduler c))) \<subseteq> set ready"
    and "\<forall>t\<in>set ready. task_state t = Ready \<and> tops_ok t"
  shows "cpu_ok (c\<lparr>cpu_scheduler := (cpu_scheduler c)\<lparr>sc_ready := ready\<rparr>\<rparr>)"
proof -
  let ?s = "cpu_scheduler c"
  obtain u where u: "u \<in> set (sc_curr ?s # sc_ready ?s)" "is_idle c u"
    using assms(1) by (auto simp: cpu_ok_def Let_def)
  then have "\<not> is_user u" by (simp add: is_idle_def is_user_def)
  then have "u \<in> set (sc_curr ?s # ready)" using u(1) assms(2) by auto
  then have "\<exists>u\<in>set (sc_curr ?s # ready). is_idle c u" using u(2) by blast
  then show ?thesis using assms(1,3) by (auto simp: cpu_ok_def tasks_def Let_def)
qed

lemma smp_ok_update:
  assumes "smp_ok m" and "cpu_ok c" and "i < length (smp_cpus m)" and "cpu_id c = cpu_id (smp_cpus m ! i)"
    and "length f = length (smp_cpus m)" and "\<forall>t\<in>set (concat f). task_state t = Ready \<and> tops_ok t"
  shows "smp_ok (m\<lparr>smp_cpus := (smp_cpus m)[i := c], smp_flight := f\<rparr>)"
  using assms by (auto simp: smp_ok_def nth_list_update)

lemma smp_okD:
  assumes "smp_ok m"
  shows "i < length (smp_cpus m) \<Longrightarrow> cpu_ok (smp_cpus m ! i)"
    and "i < length (smp_cpus m) \<Longrightarrow> unat (cpu_id (smp_cpus m ! i)) = i"
    and "length (smp_flight m) = length (smp_cpus m)"
    and "t \<in> set (concat (smp_flight m)) \<Longrightarrow> task_state t = Ready \<and> tops_ok t"
  using assms by (auto simp: smp_ok_def)

definition step_law :: "u64 \<Rightarrow> sched_event \<Rightarrow> smp \<Rightarrow> bool" where
  "step_law l4 e m \<longleftrightarrow>
     (\<exists>m'. smp_step l4 e m = Some m' \<and> smp_ok m' \<and> smp_ids m' + ended_by e m = smp_ids m + spawned_by e)"

lemma tick_law:
  assumes "smp_ok m" and "i < length (smp_cpus m)"
  shows "step_law l4 (Tick i clock sp) m"
proof -
  obtain c r where c: "sched_logic l4 clock sp (smp_cpus m ! i) = Some (c, r)" "cpu_ok c"
      "cpu_id c = cpu_id (smp_cpus m ! i)"
    and i: "ids (cpu_scheduler c) + ended (smp_cpus m ! i) = ids (cpu_scheduler (smp_cpus m ! i))"
    using sched_logic_ok [OF smp_okD(1) [OF assms]] by metis
  have "smp_ok (m\<lparr>smp_cpus := (smp_cpus m)[i := c]\<rparr>)"
    using smp_ok_update [OF assms(1) c(2) assms(2) c(3), of "smp_flight m"] smp_okD(3,4) [OF assms(1)] by auto
  moreover have "(\<Sum>d\<leftarrow>(smp_cpus m)[i := c]. ids (cpu_scheduler d)) + (ids (cpu_scheduler c) + ended (smp_cpus m ! i)) =
      (\<Sum>d\<leftarrow>smp_cpus m. ids (cpu_scheduler d)) + ids (cpu_scheduler c)"
    unfolding i by (rule sum_list_update_mset [OF assms(2)])
  then have "smp_ids (m\<lparr>smp_cpus := (smp_cpus m)[i := c]\<rparr>) + ended (smp_cpus m ! i) = smp_ids m"
    by (simp add: smp_ids_def ac_simps)
  ultimately show ?thesis using c by (auto simp: step_law_def)
qed

lemma kill_law:
  assumes "smp_ok m" and "event_ok (Kill i code) m"
  shows "step_law l4 (Kill i code) m"
proof -
  let ?c = "smp_cpus m ! i" and ?k = "kill_active_task code (smp_cpus m ! i)"
  have i: "i < length (smp_cpus m)" using assms(2) by simp
  have "cpu_ok ?k"
    using assms(2) smp_okD(1) [OF assms(1) i]
    by (auto simp: kill_active_task_def cpu_ok_def tasks_def is_idle_def Let_def)
  moreover have "cpu_id ?k = cpu_id ?c" by (simp add: kill_active_task_def Let_def)
  ultimately have "smp_ok (m\<lparr>smp_cpus := (smp_cpus m)[i := ?k]\<rparr>)"
    using smp_ok_update [OF assms(1) _ i, of ?k "smp_flight m"] smp_okD(3,4) [OF assms(1)] by auto
  moreover have "ids (cpu_scheduler ?k) = ids (cpu_scheduler ?c)"
    by (simp add: kill_active_task_def Let_def ids_def tasks_def)
  then have "smp_ids (m\<lparr>smp_cpus := (smp_cpus m)[i := ?k]\<rparr>) = smp_ids m"
    using sum_list_update_mset [OF i, of "\<lambda>c. ids (cpu_scheduler c)" ?k] by (simp add: smp_ids_def)
  ultimately show ?thesis by (simp add: step_law_def)
qed

lemma smp_ok_ready:
  assumes "smp_ok m" and "i < length (smp_cpus m)"
    and "set (filter (\<lambda>t. \<not> is_user t) (sc_ready (cpu_scheduler (smp_cpus m ! i)))) \<subseteq> set ready"
    and "\<forall>t\<in>set ready. task_state t = Ready \<and> tops_ok t"
    and "length f = length (smp_cpus m)" and "\<forall>t\<in>set (concat f). task_state t = Ready \<and> tops_ok t"
  shows "smp_ok (m\<lparr>smp_cpus := on_scheduler i (\<lambda>s. s\<lparr>sc_ready := ready\<rparr>) (smp_cpus m), smp_flight := f\<rparr>)"
  unfolding on_scheduler_def
  by (rule smp_ok_update [OF assms(1) cpu_ok_ready [OF smp_okD(1) [OF assms(1,2)] assms(3,4)] assms(2) _ assms(5,6)]) simp

lemma cpu_ok_readyD:
  "cpu_ok c \<Longrightarrow> t \<in> set (sc_ready (cpu_scheduler c)) \<Longrightarrow> task_state t = Ready \<and> tops_ok t"
  by (simp add: cpu_ok_def tasks_def Let_def)

lemma on_scheduler_cong:
  "f (cpu_scheduler (cpus ! i)) = g (cpu_scheduler (cpus ! i)) \<Longrightarrow> on_scheduler i f cpus = on_scheduler i g cpus"
  by (simp add: on_scheduler_def)

lemma spawn_law:
  assumes "smp_ok m" and "event_ok (Spawn i t) m"
  shows "step_law l4 (Spawn i t) m"
proof -
  obtain j where j: "j < length (smp_cpus m)"
    and e: "add_task i t (smp_cpus m) = Some (on_scheduler j (\<lambda>s. sched_add_task s t) (smp_cpus m))"
    using add_task_some [OF assms(1)] assms(2) by (metis event_ok.simps(3))
  let ?s = "cpu_scheduler (smp_cpus m ! j)"
  have r: "on_scheduler j (\<lambda>s. sched_add_task s t) (smp_cpus m) =
      on_scheduler j (\<lambda>s. s\<lparr>sc_ready := sc_ready ?s @ [t]\<rparr>) (smp_cpus m)"
    by (rule on_scheduler_cong) (simp add: sched_add_task_def)
  have "smp_ok (m\<lparr>smp_cpus := on_scheduler j (\<lambda>s. sched_add_task s t) (smp_cpus m), smp_flight := smp_flight m\<rparr>)"
    unfolding r using assms(2) smp_okD(3,4) [OF assms(1)] cpu_ok_readyD [OF smp_okD(1) [OF assms(1) j]]
    by (intro smp_ok_ready [OF assms(1) j]) auto
  moreover have "ids (sched_add_task ?s t) = ids ?s + {#task_id t#}"
    by (simp add: ids_def tasks_def sched_add_task_def)
  then have "smp_ids (m\<lparr>smp_cpus := on_scheduler j (\<lambda>s. sched_add_task s t) (smp_cpus m)\<rparr>) = smp_ids m + {#task_id t#}"
    using ids_on_scheduler [OF j, of "\<lambda>s. sched_add_task s t"] by (simp add: smp_ids_def)
  ultimately show ?thesis using e by (simp add: step_law_def)
qed

lemma count_law:
  assumes "smp_ok m" and "i < length (smp_cpus m)"
  shows "step_law l4 (Count i) m"
proof -
  let ?f = "\<lambda>s :: scheduler. s\<lparr>sc_terminate := []\<rparr>"
  have e: "fst (idle_count i (smp_cpus m)) = on_scheduler i ?f (smp_cpus m)" by (simp add: idle_count_def Let_def)
  have "cpu_ok ((smp_cpus m ! i)\<lparr>cpu_scheduler := ?f (cpu_scheduler (smp_cpus m ! i))\<rparr>)"
    using smp_okD(1) [OF assms] by (simp add: cpu_ok_def tasks_def Let_def)
  then have "smp_ok (m\<lparr>smp_cpus := on_scheduler i ?f (smp_cpus m)\<rparr>)"
    unfolding on_scheduler_def
    using smp_ok_update [OF assms(1) _ assms(2), of _ "smp_flight m"] smp_okD(3,4) [OF assms(1)] by simp
  moreover have "ids (?f s) = ids s" for s by (simp add: ids_def tasks_def)
  then have "smp_ids (m\<lparr>smp_cpus := on_scheduler i ?f (smp_cpus m)\<rparr>) = smp_ids m"
    using ids_on_scheduler [OF assms(2), of ?f] by (simp add: smp_ids_def)
  ultimately show ?thesis by (simp add: step_law_def e)
qed

lemma take_law:
  assumes "smp_ok m" and "event_ok (Take i b own) m"
  shows "step_law l4 (Take i b own) m"
proof -
  have i: "i < length (smp_cpus m)" and b: "b < length (smp_cpus m)" using assms(2) by simp_all
  let ?s = "cpu_scheduler (smp_cpus m ! b)"
  obtain ts ready where t: "take_user_tasks (take_count own ?s) ?s =
      (if take_count own ?s \<le> users (sc_ready ?s) then Some ts else None, ?s\<lparr>sc_ready := ready\<rparr>)"
    and ms: "mset ts + mset ready = mset (sc_ready ?s)" and u: "\<forall>t\<in>set ts. is_user t"
    and none: "\<not> take_count own ?s \<le> users (sc_ready ?s) \<Longrightarrow> ts = []"
    by (rule take_user_tasks_ok [of "take_count own ?s" ?s]) blast
  let ?f = "(smp_flight m)[i := smp_flight m ! i @ ts]"
  let ?m = "m\<lparr>smp_cpus := on_scheduler b (\<lambda>s. s\<lparr>sc_ready := ready\<rparr>) (smp_cpus m), smp_flight := ?f\<rparr>"
  have "on_scheduler b (\<lambda>_. ?s\<lparr>sc_ready := ready\<rparr>) (smp_cpus m) = on_scheduler b (\<lambda>s. s\<lparr>sc_ready := ready\<rparr>) (smp_cpus m)"
    by (rule on_scheduler_cong) simp
  then have step: "smp_step l4 (Take i b own) m = Some ?m"
    using t none by (auto simp: idle_take_def Let_def)
  have sub: "set ts \<union> set ready = set (sc_ready ?s)" using ms by (metis set_mset_mset set_mset_union)
  then have ok: "\<forall>t\<in>set ts \<union> set ready. task_state t = Ready \<and> tops_ok t"
    using cpu_ok_readyD [OF smp_okD(1) [OF assms(1) b]] by auto
  have fi: "i < length (smp_flight m)" using i smp_okD(3) [OF assms(1)] by simp
  have "mset (concat ?f) = mset (concat (smp_flight m)) + mset ts"
    using mset_concat_update [OF fi, of "smp_flight m ! i @ ts"] by simp
  then have mf: "image_mset task_id (mset (concat ?f)) =
      image_mset task_id (mset (concat (smp_flight m))) + image_mset task_id (mset ts)" by simp
  have sf: "set (concat ?f) = set (concat (smp_flight m)) \<union> set ts"
    using \<open>mset (concat ?f) = _\<close> by (metis set_mset_mset set_mset_union)
  have "smp_ok ?m"
  proof (rule smp_ok_ready [OF assms(1) b])
    show "set (filter (\<lambda>t. \<not> is_user t) (sc_ready ?s)) \<subseteq> set ready" using sub u by auto
    show "\<forall>t\<in>set (concat ?f). task_state t = Ready \<and> tops_ok t"
      unfolding sf using ok smp_okD(4) [OF assms(1)] by blast
  qed (use ok smp_okD(3) [OF assms(1)] in auto)
  moreover have "ids ?s = ids (?s\<lparr>sc_ready := ready\<rparr>) + image_mset task_id (mset ts)"
    by (simp add: ids_def tasks_def ms [symmetric])
  then have "smp_ids ?m = smp_ids m"
    using ids_on_scheduler [OF b, of "\<lambda>s. s\<lparr>sc_ready := ready\<rparr>"] mf by (simp add: smp_ids_def ac_simps)
  ultimately show ?thesis using step by (simp add: step_law_def)
qed

lemma give_law:
  assumes "smp_ok m" and "i < length (smp_cpus m)"
  shows "step_law l4 (Give i) m"
proof -
  let ?s = "cpu_scheduler (smp_cpus m ! i)" and ?ts = "smp_flight m ! i"
  let ?f = "(smp_flight m)[i := []]" and ?g = "\<lambda>s :: scheduler. s\<lparr>sc_ready := sc_ready s @ ?ts\<rparr>"
  have fi: "i < length (smp_flight m)" using assms smp_okD(3) [OF assms(1)] by simp
  have mf: "mset (concat ?f) + mset ?ts = mset (concat (smp_flight m))"
    using mset_concat_update [OF fi, of "[]"] by simp
  then have sf: "set (concat ?f) \<union> set ?ts = set (concat (smp_flight m))"
    by (metis set_mset_mset set_mset_union)
  have r: "idle_give i ?ts (smp_cpus m) = on_scheduler i (\<lambda>s. s\<lparr>sc_ready := sc_ready ?s @ ?ts\<rparr>) (smp_cpus m)"
    unfolding idle_give_def by (rule on_scheduler_cong) simp
  have fok: "\<forall>t\<in>set (concat ?f) \<union> set ?ts. task_state t = Ready \<and> tops_ok t"
    unfolding sf using smp_okD(4) [OF assms(1)] by blast
  have "smp_ok (m\<lparr>smp_cpus := idle_give i ?ts (smp_cpus m), smp_flight := ?f\<rparr>)"
    unfolding r
  proof (rule smp_ok_ready [OF assms])
    show "\<forall>t\<in>set (sc_ready ?s @ ?ts). task_state t = Ready \<and> tops_ok t"
      using fok cpu_ok_readyD [OF smp_okD(1) [OF assms]] by auto
  qed (use fok smp_okD(3) [OF assms(1)] in auto)
  moreover have "ids (?g ?s) = ids ?s + image_mset task_id (mset ?ts)"
    by (simp add: ids_def tasks_def)
  then have "smp_ids (m\<lparr>smp_cpus := idle_give i ?ts (smp_cpus m), smp_flight := ?f\<rparr>) = smp_ids m"
    using ids_on_scheduler [OF assms(2), of ?g] by (simp add: smp_ids_def idle_give_def mf [symmetric] ac_simps)
  ultimately show ?thesis by (simp add: step_law_def)
qed

lemma step_law_ok:
  assumes "smp_ok m" and "event_ok e m"
  shows "step_law l4 e m"
  using assms
  by (cases e) (simp_all add: tick_law kill_law spawn_law count_law take_law give_law del: smp_step.simps)

end
