(* ===== verification/Sched_Props.thy ===== *)
theory Sched_Props
  imports Sched_Laws Sectors
begin

text \<open>
  The properties of tasks and the scheduler: the frame of a new task, the switch of tasks, the
  conservation of tasks by every interleaving of the CPUs, that a ready task comes to run, and the
  placement and balancing of tasks.
\<close>

section \<open>Runs\<close>

primrec run_ok :: "u64 \<Rightarrow> sched_event list \<Rightarrow> smp \<Rightarrow> bool" where
  "run_ok l4 [] m = True"
| "run_ok l4 (e # es) m = (event_ok e m \<and> (case smp_step l4 e m of None \<Rightarrow> True | Some m \<Rightarrow> run_ok l4 es m))"

primrec run_ended :: "u64 \<Rightarrow> sched_event list \<Rightarrow> smp \<Rightarrow> u64 multiset" where
  "run_ended l4 [] m = {#}"
| "run_ended l4 (e # es) m = ended_by e m + (case smp_step l4 e m of None \<Rightarrow> {#} | Some m \<Rightarrow> run_ended l4 es m)"

definition run_spawned :: "sched_event list \<Rightarrow> u64 multiset" where
  "run_spawned es = (\<Sum>e\<leftarrow>es. spawned_by e)"

lemma balance_trans:
  fixes a :: "'a multiset"
  assumes "a1 + e = a + s" and "a2 + r = a1 + q"
  shows "a2 + (e + r) = a + (s + q)"
proof -
  have "a2 + (e + r) = (a2 + r) + e" by (simp add: ac_simps)
  also have "\<dots> = (a1 + e) + q" unfolding assms(2) by (simp add: ac_simps)
  also have "\<dots> = a + (s + q)" unfolding assms(1) by (simp add: ac_simps)
  finally show ?thesis .
qed

lemma smp_run_conserves:
  assumes "smp_ok m" and "run_ok l4 es m"
  shows "\<exists>m'. smp_run l4 es m = Some m' \<and> smp_ok m' \<and> smp_ids m' + run_ended l4 es m = smp_ids m + run_spawned es"
  using assms
proof (induction es arbitrary: m)
  case (Cons e es)
  then have "step_law l4 e m" by (intro step_law_ok) simp_all
  then obtain m1 where 1: "smp_step l4 e m = Some m1" "smp_ok m1" "smp_ids m1 + ended_by e m = smp_ids m + spawned_by e"
    by (auto simp: step_law_def)
  then obtain m2 where 2: "smp_run l4 es m1 = Some m2" "smp_ok m2"
      "smp_ids m2 + run_ended l4 es m1 = smp_ids m1 + run_spawned es"
    using Cons by fastforce
  have "smp_ids m2 + (ended_by e m + run_ended l4 es m1) = smp_ids m + (spawned_by e + run_spawned es)"
    by (rule balance_trans [OF 1(3) 2(3)])
  then show ?case using 1(1) 2(1,2) by (simp add: run_spawned_def)
qed (simp add: run_spawned_def)

section \<open>Waiting in the queue\<close>

fun is_tick :: "nat \<Rightarrow> sched_event \<Rightarrow> bool" where
  "is_tick i (Tick j _ _) = (j = i)"
| "is_tick i e = False"

abbreviation sched_of :: "smp \<Rightarrow> nat \<Rightarrow> scheduler" where
  "sched_of m i \<equiv> cpu_scheduler (smp_cpus m ! i)"

definition in_flight :: "task \<Rightarrow> smp \<Rightarrow> bool" where
  "in_flight t m \<longleftrightarrow> t \<in> set (concat (smp_flight m))"

lemma tick_queue:
  assumes "cpu_ok c" and "sched_logic l4 clock sp c = Some (c', r)" and "sc_ready (cpu_scheduler c) \<noteq> []"
  shows "\<exists>zs. sc_curr (cpu_scheduler c') # sc_ready (cpu_scheduler c') = sc_ready (cpu_scheduler c) @ zs"
proof -
  obtain t q where q: "run_queue clock (cpu_scheduler c) = t # q"
    using assms(3) by (cases "run_queue clock (cpu_scheduler c)") (auto simp: run_queue_def)
  then have "cpu_scheduler c' = after_switch clock sp t q (cpu_scheduler c)"
    using assms(2) sched_logic_switch [OF q] by auto
  moreover have "t # q = sc_ready (cpu_scheduler c) @ woken clock (sc_sleep (cpu_scheduler c))"
    using q by (simp add: run_queue_def)
  ultimately show ?thesis by (simp add: after_switch_def Let_def flip: append_Cons)
qed

lemma step_length: "smp_step l4 e m = Some m' \<Longrightarrow> length (smp_cpus m') = length (smp_cpus m)"
proof (cases e)
  case (Take j b own)
  assume "smp_step l4 e m = Some m'"
  then show ?thesis using Take by (cases "take_user_tasks (take_count own (sched_of m b)) (sched_of m b)")
    (auto simp: idle_take_def Let_def)
qed (auto simp: add_task_def idle_count_def idle_give_def Let_def split: if_splits)

lemma step_queue:
  assumes "smp_ok m" and "event_ok e m" and "i < length (smp_cpus m)" and "smp_step l4 e m = Some m'"
    and "\<not> is_tick i e" and "\<And>j own. e \<noteq> Take j i own"
  shows "\<exists>zs. sc_ready (sched_of m' i) = sc_ready (sched_of m i) @ zs"
proof (cases e)
  case (Tick j clock sp)
  then show ?thesis using assms(4,5) by auto
next
  case (Kill j code)
  then have "smp_cpus m' = (smp_cpus m)[j := kill_active_task code (smp_cpus m ! j)]" using assms(4) by auto
  then show ?thesis
    using assms(3) by (cases "j = i") (simp_all add: kill_active_task_def Let_def)
next
  case (Spawn j t)
  have "j < length (smp_cpus m)" using assms(2) Spawn by simp
  then obtain k where k: "k < length (smp_cpus m)"
      and a: "add_task j t (smp_cpus m) = Some (on_scheduler k (\<lambda>s. sched_add_task s t) (smp_cpus m))"
    by (rule add_task_some [OF assms(1)])
  have "smp_cpus m' = on_scheduler k (\<lambda>s. sched_add_task s t) (smp_cpus m)"
    using assms(4) Spawn a by auto
  then show ?thesis using k by (simp add: on_scheduler_nth sched_add_task_def)
next
  case (Count j)
  then have "smp_cpus m' = on_scheduler j (\<lambda>s. s\<lparr>sc_terminate := []\<rparr>) (smp_cpus m)" "j < length (smp_cpus m)"
    using assms(2,4) by (auto simp: idle_count_def Let_def)
  then show ?thesis by (simp add: on_scheduler_nth)
next
  case (Take j b own)
  then have b: "b < length (smp_cpus m)" "b \<noteq> i" using assms(2,6) by auto
  obtain f where "smp_cpus m' = on_scheduler b f (smp_cpus m)"
    using assms(4) Take by (cases "take_user_tasks (take_count own (sched_of m b)) (sched_of m b)")
      (auto simp: idle_take_def Let_def)
  then show ?thesis using b by (simp add: on_scheduler_nth)
next
  case (Give j)
  then have "smp_cpus m' = idle_give j (smp_flight m ! j) (smp_cpus m)" "j < length (smp_cpus m)"
    using assms(2,4) by auto
  then show ?thesis by (simp add: idle_give_def on_scheduler_nth)
qed

lemma taken_or_queued:
  assumes "smp_ok m" and "event_ok e m" and "i < length (smp_cpus m)" and "smp_step l4 e m = Some m'"
    and "\<not> is_tick i e" and "sc_ready (sched_of m i) = us @ t # vs"
  shows "(\<exists>us' vs'. sc_ready (sched_of m' i) = us' @ t # vs' \<and> length us' \<le> length us) \<or> is_user t \<and> in_flight t m'"
proof (cases "\<exists>j own. e = Take j i own")
  case True
  then obtain j own where e: "e = Take j i own" by blast
  let ?s = "sched_of m i"
  obtain r s' where tk: "take_user_tasks (take_count own ?s) ?s = (r, s')" by force
  have j: "j < length (smp_flight m)" using assms(1,2) by (simp add: e smp_ok_def)
  have m': "smp_cpus m' = on_scheduler i (\<lambda>_. s') (smp_cpus m)"
      "smp_flight m' = (smp_flight m)[j := smp_flight m ! j @ (case r of None \<Rightarrow> [] | Some ts \<Rightarrow> ts)]"
    using assms(4) tk by (auto simp: e idle_take_def Let_def)
  have "sched_of m' i = s'" using assms(3) by (simp add: m'(1) on_scheduler_nth)
  moreover have "in_flight t m'" if "r = Some ts" "t \<in> set ts" for ts
    using that set_update_memI [OF j, of "smp_flight m ! j @ ts"] by (auto simp: in_flight_def m'(2) intro!: bexI [of _ "smp_flight m ! j @ ts"])
  ultimately show ?thesis using take_user_tasks_position [OF tk assms(6)] by auto
next
  case False
  then show ?thesis using step_queue [OF assms(1-5)] assms(6) by fastforce
qed

lemma queued_task_runs:
  assumes "smp_ok m" and "run_ok l4 es m" and "i < length (smp_cpus m)"
    and "sc_ready (sched_of m i) = us @ t # vs"
    and "length us < length (filter (is_tick i) es)"
  shows "\<exists>n\<le>length es. \<exists>m'. smp_run l4 (take n es) m = Some m' \<and>
    (sc_curr (sched_of m' i) = t \<or> is_user t \<and> in_flight t m')"
  using assms
proof (induction es arbitrary: m us vs)
  case (Cons e es)
  let ?P = "\<lambda>m'. sc_curr (sched_of m' i) = t \<or> is_user t \<and> in_flight t m'"
  have "step_law l4 e m" using Cons.prems by (intro step_law_ok) simp_all
  then obtain m1 where s: "smp_step l4 e m = Some m1" and ok: "smp_ok m1" by (auto simp: step_law_def)
  have now: ?case if "?P m1" using that s by (intro exI [of _ "Suc 0"]) simp
  have next_step: ?case if "\<exists>n\<le>length es. \<exists>m'. smp_run l4 (take n es) m1 = Some m' \<and> ?P m'"
  proof -
    from that obtain n m' where "n \<le> length es" "smp_run l4 (take n es) m1 = Some m'" "?P m'" by blast
    then show ?thesis using s by (intro exI [of _ "Suc n"]) simp
  qed
  have r: "run_ok l4 es m1" and l: "i < length (smp_cpus m1)"
    using Cons.prems s step_length [OF s] by simp_all
  show ?case
  proof (cases "is_tick i e")
    case True
    then obtain clock sp where e: "e = Tick i clock sp" by (cases e) auto
    then obtain c' r' where c': "sched_logic l4 clock sp (smp_cpus m ! i) = Some (c', r')" "smp_cpus m1 = (smp_cpus m)[i := c']"
      using s by auto
    then obtain zs where z: "sc_curr (sched_of m1 i) # sc_ready (sched_of m1 i) = us @ t # vs @ zs"
      using tick_queue [OF smp_okD(1) [OF Cons.prems(1,3)] c'(1)] Cons.prems(3,4) by auto
    show ?thesis
    proof (cases us)
      case Nil
      then show ?thesis using z now by simp
    next
      case (Cons u us')
      with z have q: "sc_ready (sched_of m1 i) = us' @ t # (vs @ zs)" by simp
      have "length us' < length (filter (is_tick i) es)" using Cons.prems(5) Cons True by simp
      then show ?thesis using Cons.IH [OF ok r l q] next_step by blast
    qed
  next
    case False
    have "event_ok e m" using Cons.prems(2) by simp
    from taken_or_queued [OF Cons.prems(1) this Cons.prems(3) s False Cons.prems(4)] show ?thesis
    proof (elim disjE exE conjE)
      fix us' vs' assume q: "sc_ready (sched_of m1 i) = us' @ t # vs'" and "length us' \<le> length us"
      then have "length us' < length (filter (is_tick i) es)" using Cons.prems(5) False by simp
      then show ?thesis using Cons.IH [OF ok r l q] next_step by blast
    qed (use now in blast)
  qed
qed simp

section \<open>The frame of a new task\<close>

lemma splice_before:
  assumes "a + length x = b" and "b \<le> length d"
  shows "splice a x (take b d @ rest) = take a d @ x @ rest"
  using assms by (simp add: splice_def min_def)

lemma push_word_eq:
  assumes "page_ok p" and "unat sp + 8 \<le> length (pp_data p)" and "8 dvd unat sp"
  shows "push_word p sp v = p\<lparr>pp_data := splice (unat sp) (le_bytes 8 v) (pp_data p)\<rparr>"
proof -
  have "phys_page_write 8 p sp (le_bytes 8 v) = phys_page_write 1 p sp (le_bytes 8 v)"
    using assms(3) by (simp add: phys_page_write_def is_multiple_of_def word_unat_eq_iff unat_mod dvd_eq_mod_eq_0)
  then show ?thesis using phys_page_write_ok [OF assms(1), of sp "le_bytes 8 v"] assms(2) by (simp add: push_word_def)
qed

definition iret_frame :: "u64 \<Rightarrow> u64 \<Rightarrow> u16 \<Rightarrow> u16 \<Rightarrow> bytes" where
  "iret_frame entry rsp cs ds = concat (map (le_bytes 8) [entry, ucast cs, 0x202, rsp, ucast ds])"

lemma push_word_step:
  assumes "page_ok p" and "pp_data p = take b d @ rest" and "length (pp_data p) = length d" and "b \<le> length d"
    and "unat sp = b" and "8 dvd b" and "0 < b"
  shows "push_word p (sp - 8) v = p\<lparr>pp_data := take (b - 8) d @ le_bytes 8 v @ rest\<rparr>"
    and "unat (sp - 8) = b - 8"
proof -
  have "8 \<le> b" using assms(6,7) by (simp add: dvd_imp_le)
  then show u: "unat (sp - 8) = b - 8" using assms(5) by (subst unat_sub) (simp_all add: word_le_nat_alt)
  have "push_word p (sp - 8) v = p\<lparr>pp_data := splice (b - 8) (le_bytes 8 v) (pp_data p)\<rparr>"
    using push_word_eq [OF assms(1), of "sp - 8" v] assms(3,4,6) u \<open>8 \<le> b\<close> by (simp add: dvd_diff_nat)
  also have "splice (b - 8) (le_bytes 8 v) (pp_data p) = take (b - 8) d @ le_bytes 8 v @ rest"
    unfolding assms(2) using \<open>8 \<le> b\<close> assms(4) by (intro splice_before) simp_all
  finally show "push_word p (sp - 8) v = p\<lparr>pp_data := take (b - 8) d @ le_bytes 8 v @ rest\<rparr>" .
qed

lemma write_stack_eq:
  assumes "page_ok p" and "pp_count p \<noteq> 0"
  shows "write_stack p entry rsp cs ds =
     (p\<lparr>pp_data := take (length (pp_data p) - 40) (pp_data p) @ iret_frame entry rsp cs ds\<rparr>,
      pp_count p * PAGE_SIZE - 160)"
proof -
  let ?d = "pp_data p" and ?N = "length (pp_data p)" and ?sp = "pp_count p * PAGE_SIZE"
  have n: "?N = unat (pp_count p) * 4096" and N: "unat ?sp = ?N"
    using assms(1) by (simp_all add: page_ok_def page_bytes)
  have "0 < unat (pp_count p)" using assms(2) by (simp add: unat_gt_0)
  with n have l: "4096 \<le> ?N" and dv: "8 dvd ?N" by auto
  have ok: "page_ok (p\<lparr>pp_data := take (?N - k) ?d @ rest\<rparr>)" if "length rest = k" "k \<le> ?N" for k rest
    using that assms(1) by (simp add: page_ok_def)
  define w where "w v = (le_bytes 8 v :: bytes)" for v :: u64
  have [simp]: "length (w v) = 8" for v by (simp add: w_def)
  have step: "push_word (p\<lparr>pp_data := take (?N - k) ?d @ rest\<rparr>) (sp - 8) v =
        p\<lparr>pp_data := take (?N - (k + 8)) ?d @ w v @ rest\<rparr>"
      and sp: "unat (sp - 8) = ?N - (k + 8)"
    if "length rest = k" "k \<le> 32" "8 dvd k" "unat sp = ?N - k" for k rest sp v
  proof -
    let ?p = "p\<lparr>pp_data := take (?N - k) ?d @ rest\<rparr>"
    have a: "page_ok ?p" "pp_data ?p = take (?N - k) ?d @ rest" "length (pp_data ?p) = length ?d"
        "?N - k \<le> length ?d" "unat sp = ?N - k" "8 dvd ?N - k" "0 < ?N - k"
      using ok [OF that(1)] that l dv by (simp_all add: dvd_diff_nat)
    show "push_word ?p (sp - 8) v = p\<lparr>pp_data := take (?N - (k + 8)) ?d @ w v @ rest\<rparr>"
      using push_word_step(1) [OF a, of v] by (simp add: w_def)
    show "unat (sp - 8) = ?N - (k + 8)" using push_word_step(2) [OF a] by simp
  qed
  have u: "unat (?sp - 8) = ?N - 8" "unat (?sp - 8 - 8) = ?N - 16" "unat (?sp - 8 - 8 - 8) = ?N - 24"
      "unat (?sp - 8 - 8 - 8 - 8) = ?N - 32"
    using sp [of "[]" 0 ?sp] sp [of "w 0" 8 "?sp - 8"] sp [of "w 0 @ w 0" 16 "?sp - 8 - 8"]
      sp [of "w 0 @ w 0 @ w 0" 24 "?sp - 8 - 8 - 8"] N by simp_all
  have 1: "push_word p (?sp - 8) (ucast ds) = p\<lparr>pp_data := take (?N - 8) ?d @ w (ucast ds)\<rparr>"
    using step [of "[]" 0 ?sp "ucast ds"] N by simp
  note 2 = step [of "w (ucast ds)" 8 "?sp - 8" rsp, simplified, OF u(1)]
  note 3 = step [of "w rsp @ w (ucast ds)" 16 "?sp - 8 - 8" "0x202", simplified, OF u(2) [simplified]]
  note 4 = step [of "w 0x202 @ w rsp @ w (ucast ds)" 24 "?sp - 8 - 8 - 8" "ucast cs", simplified, OF u(3) [simplified]]
  note 5 = step [of "w (ucast cs) @ w 0x202 @ w rsp @ w (ucast ds)" 32 "?sp - 8 - 8 - 8 - 8" entry, simplified, OF u(4) [simplified]]
  show ?thesis
    unfolding write_stack_def Let_def 1 by (simp add: 2 3 4 5) (simp add: iret_frame_def w_def)
qed

section \<open>Placement and balance\<close>

abbreviation load :: "cpu \<Rightarrow> nat" where
  "load c \<equiv> users (sc_ready (cpu_scheduler c))"

lemma laziest_loop_least:
  "laziest_loop ics n lazy = Some (i, k) \<Longrightarrow>
     (\<forall>ic\<in>set ics. k \<le> load (snd ic)) \<and> k \<le> n \<and>
     (lazy = Some i \<and> k = n \<or> (\<exists>ic\<in>set ics. fst ic = i \<and> load (snd ic) = k))"
proof (induction ics arbitrary: n lazy)
  case (Cons ic ics)
  show ?case
  proof (cases "load (snd ic) = 0")
    case True
    then show ?thesis using Cons.prems by (auto simp: task_count_users)
  next
    case False
    then show ?thesis
      using Cons.prems Cons.IH [of "load (snd ic)" "Some (fst ic)"] Cons.IH [of n lazy]
      by (auto simp: task_count_users Let_def split: if_splits)
  qed
qed simp

lemma laziest_loop_found:
  "lazy \<noteq> None \<or> (\<exists>ic\<in>set ics. load (snd ic) < n) \<Longrightarrow> laziest_loop ics n lazy \<noteq> None"
proof (induction ics arbitrary: n lazy)
  case (Cons ic ics)
  show ?case
  proof (cases "load (snd ic) < n")
    case True
    then show ?thesis using Cons.IH [of "Some (fst ic)" "load (snd ic)"] by (simp add: task_count_users Let_def)
  next
    case False
    then have "lazy \<noteq> None \<or> (\<exists>ic\<in>set ics. load (snd ic) < n)" using Cons.prems by auto
    then show ?thesis using Cons.IH [of lazy n] False by (simp add: task_count_users Let_def)
  qed
qed simp

lemma add_task_least:
  assumes "cpus \<noteq> []" and "\<forall>c\<in>set cpus. load c < 2 ^ 64 - 1"
  shows "\<exists>i<length cpus. add_task current t cpus = Some (on_scheduler i (\<lambda>s. sched_add_task s t) cpus) \<and>
    (\<forall>c\<in>set cpus. load (cpus ! i) \<le> load c)"
proof -
  obtain c where "c \<in> set cpus" using assms(1) by (cases cpus) auto
  then have "(0, hd cpus) \<in> set (enumerate 0 cpus) \<and> load (hd cpus) < 2 ^ 64 - 1"
    using assms by (cases cpus) simp_all
  then have "laziest_queue cpus \<noteq> None"
    unfolding laziest_queue_def by (intro laziest_loop_found) force
  then obtain i k where l: "laziest_queue cpus = Some (i, k)" by auto
  have "(\<forall>ic\<in>set (enumerate 0 cpus). k \<le> load (snd ic)) \<and> (\<exists>ic\<in>set (enumerate 0 cpus). fst ic = i \<and> load (snd ic) = k)"
    using laziest_loop_least [OF l [unfolded laziest_queue_def]] by simp
  then have i: "i < length cpus" "load (cpus ! i) = k" and k: "\<forall>ic\<in>set (enumerate 0 cpus). k \<le> load (snd ic)"
    by (auto simp: in_set_enumerate_eq)
  have "\<forall>c\<in>set cpus. k \<le> load c"
    using k by (metis (no_types, lifting) imageE map_snd_enumerate set_map)
  then show ?thesis using l i by (auto simp: add_task_def)
qed

lemma busiest_loop_most:
  "busiest_loop ics n busy = (Some i, k) \<Longrightarrow>
     (\<forall>ic\<in>set ics. load (snd ic) \<le> k) \<and> n \<le> k \<and>
     (busy = Some i \<and> k = n \<or> (\<exists>ic\<in>set ics. fst ic = i \<and> load (snd ic) = k))"
proof (induction ics arbitrary: n busy)
  case (Cons ic ics)
  show ?case
  proof (cases "n < load (snd ic)")
    case True
    then have "busiest_loop ics (load (snd ic)) (Some (fst ic)) = (Some i, k)"
      using Cons.prems by (simp add: task_count_users)
    note h = Cons.IH [OF this]
    then have "n \<le> k" using True by linarith
    then show ?thesis using h by auto
  next
    case False
    then have "busiest_loop ics n busy = (Some i, k)" using Cons.prems by (simp add: task_count_users)
    note h = Cons.IH [OF this]
    then have "load (snd ic) \<le> k" using False by linarith
    then show ?thesis using h by auto
  qed
qed simp

lemma idle_victim_most:
  assumes "idle_victim current cpus = Some b" and "current < length cpus"
    and "unat (cpu_id (cpus ! current)) = current"
  shows "b < length cpus \<and> b \<noteq> current \<and> load (cpus ! current) \<le> load (cpus ! b)"
proof -
  obtain n where n: "busiest_queue cpus = Some (b, n)" "b \<noteq> current"
    using assms by (auto simp: idle_victim_def split: option.splits prod.splits if_splits)
  then have "busiest_loop (enumerate 0 cpus) 0 None = (Some b, n)"
    by (auto simp: busiest_queue_def split: prod.splits)
  note most = busiest_loop_most [OF this]
  then have "b < length cpus" "load (cpus ! b) = n" by (auto simp: in_set_enumerate_eq)
  moreover have "(current, cpus ! current) \<in> set (enumerate 0 cpus)"
    using assms(2) by (simp add: in_set_enumerate_eq)
  then have "load (cpus ! current) \<le> n" using most by fastforce
  ultimately show ?thesis using n(2) by simp
qed

lemma users_mset: "mset xs + mset ys = mset zs \<Longrightarrow> users xs + users ys = users zs"
  unfolding users_def
  by (metis mset_filter size_mset size_union filter_union_mset)

lemma idle_turn_eq:
  assumes "current < length cpus" and "unat (cpu_id (cpus ! current)) = current"
    and "idle_victim current (fst (idle_count current cpus)) = Some b"
  defines "d \<equiv> (load (cpus ! b) - load (cpus ! current)) div 2"
  shows "b < length cpus" and "b \<noteq> current" and "load (cpus ! current) \<le> load (cpus ! b)"
    and "load (idle_turn current cpus ! b) = load (cpus ! b) - d"
    and "load (idle_turn current cpus ! current) = load (cpus ! current) + d"
proof -
  define cs where "cs = on_scheduler current (\<lambda>s. s\<lparr>sc_terminate := []\<rparr>) cpus"
  have cnt: "idle_count current cpus = (cs, load (cpus ! current))"
    using assms(1) by (simp add: idle_count_def cs_def Let_def task_count_users on_scheduler_nth)
  have len: "length cs = length cpus" and ld: "load (cs ! j) = load (cpus ! j)" for j
    using assms(1) by (simp_all add: cs_def on_scheduler_nth)
  have "unat (cpu_id (cs ! current)) = current" using assms(1,2) by (simp add: cs_def on_scheduler_nth)
  then have v: "b < length cpus \<and> b \<noteq> current \<and> load (cpus ! current) \<le> load (cpus ! b)"
    using idle_victim_most [of current cs b] assms(1,3) cnt len ld by simp
  then show "b < length cpus" "b \<noteq> current" "load (cpus ! current) \<le> load (cpus ! b)" by simp_all
  let ?s = "cpu_scheduler (cs ! b)"
  have d: "take_count (load (cpus ! current)) ?s = d" by (simp add: take_count_def task_count_users ld d_def)
  have le: "d \<le> users (sc_ready ?s)" using ld [of b] by (simp add: d_def)
  obtain ts ready where
      t0: "take_user_tasks d ?s = (if d \<le> users (sc_ready ?s) then Some ts else None, ?s\<lparr>sc_ready := ready\<rparr>)"
      and ms: "mset ts + mset ready = mset (sc_ready ?s)" and u: "\<forall>t\<in>set ts. is_user t"
      and l0: "d \<le> users (sc_ready ?s) \<Longrightarrow> length ts = d"
    by (rule take_user_tasks_ok [of d ?s]) blast
  have t: "take_user_tasks d ?s = (Some ts, ?s\<lparr>sc_ready := ready\<rparr>)" and l: "length ts = d"
    using t0 l0 le by simp_all
  have ts: "users ts = d" using u l by (simp add: users_def filter_id_conv)
  then have r: "users ready = load (cpus ! b) - d" using users_mset [OF ms] ld [of b] by simp
  have "idle_turn current cpus = idle_give current ts (on_scheduler b (\<lambda>_. ?s\<lparr>sc_ready := ready\<rparr>) cs)"
    using assms(3) t d by (simp add: idle_turn_def cnt idle_take_def Let_def)
  then show "load (idle_turn current cpus ! b) = load (cpus ! b) - d"
      and "load (idle_turn current cpus ! current) = load (cpus ! current) + d"
    using v assms(1) len ld [of current] r ts
    by (simp_all add: idle_give_def on_scheduler_nth users_def)
qed

section \<open>Properties\<close>

text \<open>Two CPUs that have just started, and tasks for them.\<close>

definition ex_stack :: stack_page where
  "ex_stack = \<lparr>stk_start = 0xFFFF800000100000, stk_page = \<lparr>pp_count = 1, pp_data = replicate 4096 0\<rparr>\<rparr>"

definition ex_task :: "u64 \<Rightarrow> task_type \<Rightarrow> task" where
  "ex_task n ty = \<lparr>task_id = n, task_type = ty, task_state = Ready, task_stack = ex_stack, task_pages = [],
     task_entry = 0x1000, task_sp = 0x2000\<rparr>"

definition ex_user :: "u64 \<Rightarrow> task" where
  "ex_user n = ex_task n (User 0x5000 ex_stack ex_stack 0)"

definition ex_cpu :: "u64 \<Rightarrow> task list \<Rightarrow> cpu" where
  "ex_cpu i ts = \<lparr>cpu_id = i, cpu_scheduler = (scheduler_new (ex_task i Kernel))\<lparr>sc_ready := ts\<rparr>,
     cpu_idle = ex_task i Kernel, cpu_cr3 = 0, cpu_rsp0 = 0, cpu_syscall_stack = 0\<rparr>"

definition ex_smp :: "task list \<Rightarrow> smp" where
  "ex_smp ts = \<lparr>smp_cpus = [ex_cpu 0 ts, ex_cpu 1 []], smp_flight = [[], []]\<rparr>"

lemmas ex_defs = ex_stack_def ex_task_def ex_user_def ex_cpu_def ex_smp_def scheduler_new_def

lemma ex_stack_top: "stack_top ex_stack = Some 0xFFFF800000101000"
  by (simp add: ex_stack_def stack_top_def stack_bottom_def virt_add_def canonical_def PAGE_SIZE_def)

lemma ex_cpu_ok: "\<forall>t\<in>set ts. task_state t = Ready \<and> tops_ok t \<Longrightarrow> cpu_ok (ex_cpu i ts)"
  by (auto simp: ex_cpu_def scheduler_new_def cpu_ok_def tasks_def is_idle_def tops_ok_def ex_task_def)

lemma ex_user_ok: "task_state (ex_user n) = Ready" "tops_ok (ex_user n)"
  by (simp_all add: ex_user_def ex_task_def tops_ok_def ex_stack_top)

lemma ex_smp_ok: "\<forall>t\<in>set ts. task_state t = Ready \<and> tops_ok t \<Longrightarrow> smp_ok (ex_smp ts)"
  using ex_cpu_ok [of ts 0] ex_cpu_ok [of "[]" 1]
  by (auto simp: smp_ok_def ex_smp_def less_Suc_eq) (simp_all add: ex_cpu_def)

lemmas run_defs = sched_logic_def wake_queue_def switch_to_def enter_task_def move_to_queue_def
  kill_active_task_def add_task_def laziest_queue_def sched_add_task_def idle_take_def idle_give_def
  take_user_tasks_def take_count_def task_count_users users_def user_indices_eq remove_at_def on_scheduler_def
  is_user_def tops_ok_def

lemmas ex_run = ex_task_def ex_user_def ex_cpu_def ex_smp_def scheduler_new_def ex_stack_top

text \<open>
  C0. However the CPUs interleave their timer ticks, deaths of tasks, new tasks and the steps of the
  balancing loop, no step panics, and every task is at any time in exactly one place (running, ready,
  asleep, or on its way between two CPUs): the tasks there are afterwards together with those that
  ended are those there were before together with those started.
\<close>

theorem tasks_conserved:
  assumes "smp_ok m" and "run_ok l4 es m"
  shows "\<exists>m'. smp_run l4 es m = Some m' \<and> smp_ok m' \<and> smp_ids m' + run_ended l4 es m = smp_ids m + run_spawned es"
  using assms by (rule smp_run_conserves)

definition ex_events :: "sched_event list" where
  "ex_events = [Spawn 1 (ex_user 7), Tick 0 (\<lambda>_. 0) 0x3000, Kill 0 1, Take 1 0 0, Tick 0 (\<lambda>_. 0) 0x4000, Give 1]"

theorem tasks_conserved_witness:
  "\<exists>m'. smp_run 0x9000 ex_events (ex_smp [ex_user 5, ex_user 6]) = Some m' \<and> smp_ok m' \<and>
     smp_ids m' + run_ended 0x9000 ex_events (ex_smp [ex_user 5, ex_user 6]) =
     smp_ids (ex_smp [ex_user 5, ex_user 6]) + run_spawned ex_events"
proof (rule tasks_conserved)
  show "smp_ok (ex_smp [ex_user 5, ex_user 6])" by (rule ex_smp_ok) (simp add: ex_user_ok)
  show "run_ok 0x9000 ex_events (ex_smp [ex_user 5, ex_user 6])" by (simp add: ex_events_def run_defs ex_run)
qed

text \<open>
  C0. A task that is ready on a CPU with \<open>k\<close> tasks before it does not wait longer than \<open>k + 1\<close> timer ticks of that
  CPU, whatever else happens: it comes to run there, or it is a user task and another CPU has taken it
  to balance the queues. In particular a kernel task always runs there.
\<close>

theorem ready_task_runs:
  assumes "smp_ok m" and "run_ok l4 es m" and "i < length (smp_cpus m)"
    and "sc_ready (cpu_scheduler (smp_cpus m ! i)) = us @ t # vs"
    and "length us < length (filter (is_tick i) es)"
  shows "\<exists>n\<le>length es. \<exists>m'. smp_run l4 (take n es) m = Some m' \<and>
    (sc_curr (cpu_scheduler (smp_cpus m' ! i)) = t \<or> is_user t \<and> in_flight t m')"
  using assms by (rule queued_task_runs)

text \<open>Another CPU takes the user task that waits before a kernel task.\<close>

definition ex_ticks :: "sched_event list" where
  "ex_ticks = [Tick 0 (\<lambda>_. 0) 0x3000, Spawn 0 (ex_user 7), Kill 0 1, Take 1 0 0, Tick 0 (\<lambda>_. 0) 0x4000, Tick 0 (\<lambda>_. 0) 0x5000]"

theorem ready_task_runs_witness:
  "\<exists>n\<le>length ex_ticks. \<exists>m'.
     smp_run 0x9000 (take n ex_ticks) (ex_smp [ex_user 5, ex_user 6, ex_task 8 Kernel, ex_user 9]) = Some m' \<and>
     sc_curr (cpu_scheduler (smp_cpus m' ! 0)) = ex_task 8 Kernel"
proof -
  let ?q = "[ex_user 5, ex_user 6, ex_task 8 Kernel, ex_user 9]"
  have "\<exists>n\<le>length ex_ticks. \<exists>m'. smp_run 0x9000 (take n ex_ticks) (ex_smp ?q) = Some m' \<and>
     (sc_curr (cpu_scheduler (smp_cpus m' ! 0)) = ex_task 8 Kernel \<or> is_user (ex_task 8 Kernel) \<and> in_flight (ex_task 8 Kernel) m')"
  proof (rule ready_task_runs)
    show "smp_ok (ex_smp ?q)" by (rule ex_smp_ok) (simp add: ex_user_ok, simp add: ex_task_def tops_ok_def)
    show "run_ok 0x9000 ex_ticks (ex_smp ?q)" by (simp add: ex_ticks_def run_defs ex_run)
    show "sc_ready (cpu_scheduler (smp_cpus (ex_smp ?q) ! 0)) = [ex_user 5, ex_user 6] @ ex_task 8 Kernel # [ex_user 9]"
      by (simp add: ex_smp_def ex_cpu_def)
  qed (simp_all add: ex_ticks_def ex_smp_def)
  then show ?thesis by (simp add: ex_task_def is_user_def)
qed

text \<open>
  C0. The result of a timer tick on every branch. The stack pointer of the current task is saved, and the
  tasks whose time has come are woken and put behind the ready ones. With a task in the queue the CPU
  switches to the first one: its stack pointer is returned, its address space and stacks are
  loaded, the old task goes to the end of the queue, or to sleep, or is dropped when it ended, and the
  terminated tasks are freed. With an empty queue the current task goes on when it is still ready, with
  nothing else changed but the tasks asleep, and otherwise the CPU switches to its idle task in the same way.
  The tick panics exactly where the next task has a stack without a top.
\<close>

theorem sched_logic_switches:
  "sched_logic kl clock sp c =
     (let s = cpu_scheduler c
      in case run_queue clock s of
           t # q \<Rightarrow> switched kl clock sp t q c
         | [] \<Rightarrow>
             if task_state (sc_curr s) = Ready
             then Some (c\<lparr>cpu_scheduler := s\<lparr>sc_curr := (sc_curr s)\<lparr>task_sp := sp\<rparr>, sc_sleep := asleep clock (sc_sleep s)\<rparr>\<rparr>, sp)
             else switched kl clock sp (cpu_idle c) [] c)"
proof (cases "run_queue clock (cpu_scheduler c)")
  case Nil
  then show ?thesis using sched_logic_stay [OF Nil] sched_logic_idle [OF Nil] by (simp add: Let_def)
next
  case (Cons t q)
  then show ?thesis using sched_logic_switch [OF Cons] by (simp add: switched_eq)
qed

text \<open>
  C0. A new kernel task has the next id and is ready, and its stack is what the end of the timer
  handler expects: above room for fifteen registers a frame for \<^verbatim>\<open>iretq\<close> that enters the function on the
  empty stack with interrupts enabled. The rest of the stack is unchanged.
\<close>

theorem new_kernel_task_frame:
  assumes "page_ok (stk_page stack)" and "pp_count (stk_page stack) \<noteq> 0"
    and "task_new_kernel sel entry stack ID = (t, ID')"
  shows "task_id t = ID \<and> ID' = ID + 1 \<and> task_state t = Ready \<and> task_entry t = entry \<and>
    task_sp t + 15 * 8 + 40 = stk_start stack + pp_count (stk_page stack) * PAGE_SIZE \<and>
    pp_data (stk_page (task_stack t)) = take (length (pp_data (stk_page stack)) - 40) (pp_data (stk_page stack)) @
      iret_frame entry (stk_start stack + pp_count (stk_page stack) * PAGE_SIZE) (sel_kernel_code sel) (sel_kernel_data sel)"
  using assms(3) by (auto simp: task_new_kernel_def next_id_def Let_def write_stack_eq [OF assms(1,2)])

definition ex_sel :: selectors where
  "ex_sel = \<lparr>sel_kernel_code = 8, sel_kernel_data = 16, sel_user_code = 35, sel_user_data = 27\<rparr>"

theorem new_kernel_task_frame_witness:
  "task_sp (fst (task_new_kernel ex_sel 0x1000 ex_stack 4)) + 15 * 8 + 40 = 0xFFFF800000101000"
proof -
  obtain t i where t: "task_new_kernel ex_sel 0x1000 ex_stack 4 = (t, i)" by (cases "task_new_kernel ex_sel 0x1000 ex_stack 4")
  have "page_ok (stk_page ex_stack)" "pp_count (stk_page ex_stack) \<noteq> 0"
    by (simp_all add: ex_stack_def page_ok_def)
  from new_kernel_task_frame [OF this t] show ?thesis by (simp add: t) (simp add: ex_stack_def PAGE_SIZE_def)
qed

text \<open>C30. A new task goes to a CPU that has the fewest user tasks waiting.\<close>

theorem add_task_least_loaded:
  assumes "cpus \<noteq> []" and "\<forall>c\<in>set cpus. users (sc_ready (cpu_scheduler c)) < 2 ^ 64 - 1"
  shows "\<exists>i<length cpus. add_task current t cpus = Some (on_scheduler i (\<lambda>s. sched_add_task s t) cpus) \<and>
    (\<forall>c\<in>set cpus. users (sc_ready (cpu_scheduler (cpus ! i))) \<le> users (sc_ready (cpu_scheduler c)))"
  using assms by (rule add_task_least)

theorem add_task_least_loaded_witness:
  "\<exists>i<length [ex_cpu 0 [ex_user 5], ex_cpu 1 []].
     add_task 0 (ex_user 6) [ex_cpu 0 [ex_user 5], ex_cpu 1 []] =
       Some (on_scheduler i (\<lambda>s. sched_add_task s (ex_user 6)) [ex_cpu 0 [ex_user 5], ex_cpu 1 []]) \<and>
     (\<forall>c\<in>set [ex_cpu 0 [ex_user 5], ex_cpu 1 []].
        users (sc_ready (cpu_scheduler ([ex_cpu 0 [ex_user 5], ex_cpu 1 []] ! i))) \<le> users (sc_ready (cpu_scheduler c)))"
  by (rule add_task_least_loaded) (simp_all add: users_def ex_cpu_def is_user_def ex_user_def ex_task_def)

text \<open>
  C0. When the balancing loop finds a busier CPU, one turn of it evens out the two queues: they hold
  as many user tasks as before, and the other CPU keeps at most one more.
\<close>

theorem idle_turn_balances:
  assumes "current < length cpus" and "unat (cpu_id (cpus ! current)) = current"
    and "idle_victim current (fst (idle_count current cpus)) = Some b"
  shows "let own = users (sc_ready (cpu_scheduler (cpus ! current)));
             busy = users (sc_ready (cpu_scheduler (cpus ! b)));
             own' = users (sc_ready (cpu_scheduler (idle_turn current cpus ! current)));
             busy' = users (sc_ready (cpu_scheduler (idle_turn current cpus ! b)))
         in own' + busy' = own + busy \<and> own' \<le> busy' \<and> busy' \<le> own' + 1"
  using idle_turn_eq [OF assms] unfolding Let_def by linarith

theorem idle_turn_balances_witness:
  "users (sc_ready (cpu_scheduler (idle_turn 1 [ex_cpu 0 [ex_user 5, ex_user 6, ex_user 7], ex_cpu 1 []] ! 1))) = 1"
proof -
  let ?cs = "[ex_cpu 0 [ex_user 5, ex_user 6, ex_user 7], ex_cpu 1 []]"
  have v: "idle_victim 1 (fst (idle_count 1 ?cs)) = Some 0"
    by (simp add: idle_victim_def idle_count_def on_scheduler_def busiest_queue_def task_count_users users_def
        ex_defs is_user_def Let_def)
  have "users (sc_ready (cpu_scheduler (?cs ! 0))) = 3" "users (sc_ready (cpu_scheduler (?cs ! 1))) = 0"
    by (simp_all add: ex_defs users_def is_user_def)
  with idle_turn_balances [OF _ _ v] show ?thesis by (simp add: Let_def) (simp add: ex_cpu_def)
qed

end
