(* ===== verification/Spec2Isabelle.thy ===== *)
theory Spec2Isabelle
  imports Range_Alloc Memory_Props Lemon_Props Sector_Props Gpt_Props Ahci_Props Sched_Props
begin

text \<open>
  A verification library for the MaramOS kernel. File names below are relative to \<^verbatim>\<open>src/kernel/src\<close>.

  \<^bold>\<open>The program and its parts.\<close>
  Memory: the boot loader's memory map fills a buddy allocator with physical pages; a slab in front of it
  serves runs of pages that are not powers of two; frames, the kernel heap and the buffers of drivers come from
  there, virtual addresses from a list of free ranges. Storage: the AHCI driver moves native blocks
  between a disk and physical pages; the partition table of a drive is read through it; a partition
  is turned into an array of 512-byte sectors, and LemonFS keeps its superblock, bitmap, directories and
  files in these. Scheduling: every CPU has queues of tasks and switches on a timer tick; idle
  CPUs take user tasks from busy ones.

  \<^bold>\<open>Conventions.\<close>
  The kernel is built in release mode: \<open>+\<close>, \<open>-\<close> and \<open>*\<close> on \<^verbatim>\<open>u64\<close> wrap, and are those of \<^typ>\<open>64 word\<close>.
  \<open>Prelude\<close> has the types and the operations of the standard library (\<open>checked_add\<close>, \<open>div_ceil\<close>, \<dots>), \<open>Bytes\<close> the
  little-endian encodings. Code with effects and errors is a computation in \<open>Effects\<close>: it takes a state and returns \<open>None\<close>
  (a panic, or a loop that does not end) or the new state with an error or a value; \<open>?\<close> is \<open>ques\<close>. The
  relation \<open>sat c Q E\<close> is total correctness: \<open>c\<close> returns, with a value and state in \<open>Q\<close> or an error and state
  in \<open>E\<close>. Loops that may run forever are \<^theory_text>\<open>partial_function (option)\<close>, without fuel, so every law in terms of \<open>sat\<close>
  includes termination. Code of other crates and hardware is a parameter: the \<^verbatim>\<open>x86_64\<close>
  address types are words with the panics they document, a machine is the record of operations in \<open>Hardware\<close>.

  \<^bold>\<open>Allocators.\<close>
  \<^item> \<open>Alloc_Spec\<close>: the locale \<open>region_allocator\<close>, the contract of every allocator (what is handed out was free, what
    is released is free again), and for it: in every history of calls the regions held are disjoint and nothing is lost. It is
    interpreted on the range allocator (\<open>ra\<close>), the buddy blocks (\<open>bd\<close>), the pages (\<open>pa\<close>) and the bitmap (\<open>bm\<close>).
  \<^item> \<open>Range_Alloc\<close>: \<^verbatim>\<open>allocators/range.rs\<close>, a \<open>range_allocator\<close> record with \<open>range_allocate\<close>, \<open>range_free\<close>, \<open>range_reserve\<close> and
    \<open>coalesce\<close>. Soundness and completeness of first fit, the exact effect of a reservation, the round trip, histories (C1 to C4).
  \<^item> \<open>Memory\<close>, \<open>Buddy\<close>, \<open>Frames\<close>: \<^verbatim>\<open>allocators/buddy.rs\<close>, \<^verbatim>\<open>allocators/slab.rs\<close>, \<^verbatim>\<open>memory/physical.rs\<close>, \<^verbatim>\<open>memory/heap.rs\<close>. The free
    lists live in the memory that is managed, so the operations read and write an explicit memory. \<open>Buddy_Inv\<close>, \<open>Buddy_Core\<close>,
    \<open>Slab_Inv\<close>, \<open>Slab_Core\<close>, \<open>Page_Alloc\<close>, \<open>Page_Core\<close> relate lists in memory to sets of blocks. \<open>Memory_Props\<close>: histories from boot on,
    what an allocation returns and when it fails, that no two buddies are both free, round trip, what
    boot fills in, and the alignment of heap pointers (C7 to C12).

  \<^bold>\<open>Checksums.\<close> \<open>Crc\<close>: \<^verbatim>\<open>helpers/crc.rs\<close>. The table-driven loops equal the bit-serial division; bursts up to the width
  of the checksum are detected (C5, C6).

  \<^bold>\<open>Storage.\<close>
  \<^item> \<open>Storage\<close>: \<^verbatim>\<open>drivers/storage/mod.rs\<close>, \<^verbatim>\<open>fs/lba_abstractor.rs\<close> and the pages of \<^verbatim>\<open>memory/wrappers.rs\<close>. The trait of a drive is a record of
    operations. \<open>Sectors\<close>: the locale \<open>block_device\<close> is the contract of a drive, \<open>partition_device\<close> adds a partition inside the drive,
    \<open>sector_disk\<close> is what LemonFS relies on; \<open>partition_device\<close> gives \<open>sector_disk\<close>. Every error is allowed only where the parameter \<open>fails\<close>
    admits one. \<open>Ram_Disk\<close> interprets them on a disk in memory (\<open>rd\<close>), \<open>Ahci_Props\<close> on the AHCI driver (\<open>sim\<close>, \<open>sp\<close>).
    \<open>Sector_Props\<close>: a partition refines an array of sectors, and no request leaves its partition (C18, C19).
  \<^item> \<open>Gpt\<close>, \<open>Gpt_Props\<close>: \<^verbatim>\<open>drivers/storage/gpt\<close>. Accepted partitions are disjoint and in order; exactly when the loop over the
    entries returns; backup headers are rejected (C20 to C22).
  \<^item> \<open>Hardware\<close>: time units and waiting loops of \<^verbatim>\<open>helpers\<close>, \<^verbatim>\<open>acpi/hpet.rs\<close>, mapped registers. \<open>Ahci\<close>: \<^verbatim>\<open>drivers/storage/ahci\<close>, the structures
    shared with the controller, commands, transfers and the probing of ports. \<open>Ahci_Device\<close>: the locale \<open>ahci_port\<close> states what the
    AHCI and ATA specifications say about a port, including its stop after an error; \<open>Ahci_Laws\<close> and \<open>Ahci_Drive\<close> prove
    the driver on it, and that a drive is a \<open>block_device\<close>. \<open>Ahci_Props\<close>: transfers, the clock, waiting (C23 to C25), and a simulated
    controller with bad blocks that keeps the contract.

  \<^bold>\<open>LemonFS.\<close>
  \<^item> \<open>Bitmap\<close>: \<^verbatim>\<open>fs/lemonfs/bitmap.rs\<close>, with its compressed blocks. What an allocation returns and which free space it
    misses, histories, round trip (C13 to C16).
  \<^item> \<open>Lemon_Disk\<close>: the packed structures of \<^verbatim>\<open>disk.rs\<close> and the paths of \<^verbatim>\<open>path.rs\<close> (C17). \<open>Lemon\<close>: \<^verbatim>\<open>superblock.rs\<close>, \<^verbatim>\<open>links.rs\<close>, \<^verbatim>\<open>file.rs\<close>,
    \<^verbatim>\<open>directory.rs\<close>, \<^verbatim>\<open>io.rs\<close>, the file system operations of \<^verbatim>\<open>mod.rs\<close> and \<^verbatim>\<open>fs/mod.rs\<close>.
  \<^item> \<open>Lemon_Laws\<close>, \<open>Lemon_Chain\<close>, \<open>Lemon_File\<close>, \<open>Lemon_Dir\<close>, \<open>Lemon_Fs\<close>: on a \<open>sector_disk\<close>, the superblock, chains of link blocks, contents of
    files, chains of directory blocks, and the invariant \<open>fs_ok\<close> between the caches and the disk. \<open>Lemon_Props\<close>: contents of files,
    the backup of the superblock, mounting after writing back, formatting, creating an entry, and
    (in \<open>Lemon_Laws\<close>) the equivalence of the two walks over links (C32 to C37).

  \<^bold>\<open>Scheduling.\<close> \<open>Sched\<close>: \<^verbatim>\<open>scheduling/task.rs\<close>, \<^verbatim>\<open>scheduling/scheduler.rs\<close>, \<^verbatim>\<open>scheduling/mod.rs\<close>. One locked section of one CPU is one
  step, and \<open>smp_run\<close> is any sequence of them. \<open>Sched_Laws\<close> has the invariant of a CPU. \<open>Sched_Props\<close>: no task is lost or duplicated in any
  interleaving, a ready task is not overlooked, the exact result of a timer tick, the frame of a new
  task, placement and balancing (C26 to C31).

  \<^bold>\<open>Not modelled.\<close> Page tables and user address spaces (\<^verbatim>\<open>memory/virt.rs\<close>, \<^verbatim>\<open>memory/user.rs\<close>) and the ELF loader that fills them,
  which work on structures of the \<^verbatim>\<open>x86_64\<close> crate; PCI, ACPI tables, interrupt controllers, descriptor
  tables, system call entry, start of other CPUs and their interrupts, which are register accesses and
  assembly; display, keyboard and log output; the locks themselves, a locked section being one step. Of the modelled
  parts, the promotion of direct-map entries to huge pages (\<^verbatim>\<open>try_upgrade_hhdm\<close>), the mapping of the controller's registers in
  \<^verbatim>\<open>ahci::init\<close>, \<^verbatim>\<open>Task::from_binary\<close> and the programming of the timer are left out.
\<close>

end
